(* ===== verification/BT_Prelude.thy ===== *)
theory BT_Prelude
  imports Main "HOL-Library.Word" "HOL-Library.Multiset"
begin

text \<open>
  What the components of the multiway-tree library share: bytes, byte ranges
  (\<open>slice\<close> reads one, \<open>overwrite\<close> is a \<open>memcpy\<close> or a stream write at an offset),
  little-endian integers, and the result type of code that may throw.  The laws of
  \<open>slice\<close> and \<open>overwrite\<close> carry every later argument about the page buffer and
  about the file, so they are collected in \<open>range_laws\<close>.
\<close>

unbundle bit_operations_syntax

type_synonym byte = "8 word"

named_theorems range_laws "reading a byte range of an overwritten buffer"

section \<open>Exceptions as values\<close>

text \<open>
  The exceptions the library throws, by class.  \<open>StdException\<close> is a sliced
  \<open>std::exception\<close> (\<open>catch (std::exception& e) { throw e; }\<close>).
  \<open>MemoryFault\<close> is not thrown by the code: it is an access through a null pointer or
  outside a buffer, undefined in C++; the theorems show where it cannot happen.
  \<open>OutOfFuel\<close> bounds the depth of the recursion over pages, which on a corrupted file
  (a cycle of cursors) does not end.
  \<open>NoReturnValue\<close>: control left a function with a result without a \<open>return\<close> (undefined
  behaviour).
\<close>

datatype exn = InvalidArgument | DomainError | RuntimeError | StdException
  | MemoryFault | NoReturnValue | OutOfFuel

type_synonym 'a res = "exn + 'a"

definition bindR :: "'a res \<Rightarrow> ('a \<Rightarrow> 'b res) \<Rightarrow> 'b res" where
  "bindR m f = (case m of Inl e \<Rightarrow> Inl e | Inr x \<Rightarrow> f x)"

lemma bindR_simps [simp]:
  "bindR (Inl e) f = Inl e"
  "bindR (Inr x) f = f x"
  by (simp_all add: bindR_def)

lemma bindR_Inr_iff: "bindR m f = Inr y \<longleftrightarrow> (\<exists>x. m = Inr x \<and> f x = Inr y)"
  by (cases m) auto

lemma bindR_assoc: "bindR (bindR m f) g = bindR m (\<lambda>x. bindR (f x) g)"
  by (cases m) auto

lemma bindR_cong [fundef_cong]:
  "m = m' \<Longrightarrow> (\<And>x. m' = Inr x \<Longrightarrow> f x = f' x) \<Longrightarrow> bindR m f = bindR m' f'"
  by (cases m) auto

text \<open>
  Total correctness of a computation that may throw: it returns, and its result satisfies
  the postcondition.  The rules decompose a method into its calls.
\<close>

definition runs :: "'a res \<Rightarrow> ('a \<Rightarrow> bool) \<Rightarrow> bool" where
  "runs m P \<longleftrightarrow> (\<exists>x. m = Inr x \<and> P x)"

lemma runs_Inr [simp]: "runs (Inr x) P \<longleftrightarrow> P x"
  by (simp add: runs_def)

lemma runs_Inl [simp]: "\<not> runs (Inl e) P"
  by (simp add: runs_def)

lemma runs_bindI: "runs m P \<Longrightarrow> (\<And>x. P x \<Longrightarrow> runs (f x) Q) \<Longrightarrow> runs (bindR m f) Q"
  by (auto simp: runs_def)

lemma runs_mono: "runs m P \<Longrightarrow> (\<And>x. P x \<Longrightarrow> Q x) \<Longrightarrow> runs m Q"
  by (auto simp: runs_def)

lemma runsE:
  assumes "runs m P"
  obtains x where "m = Inr x" "P x"
  using assms by (auto simp: runs_def)

section \<open>Byte ranges\<close>

definition slice :: "nat \<Rightarrow> nat \<Rightarrow> byte list \<Rightarrow> byte list" where
  "slice p n xs = take n (drop p xs)"

definition overwrite :: "nat \<Rightarrow> byte list \<Rightarrow> byte list \<Rightarrow> byte list" where
  "overwrite p ys xs = take p (xs @ replicate (p - length xs) 0) @ ys @ drop (p + length ys) xs"

lemma length_slice [simp]: "length (slice p n xs) = min n (length xs - p)"
  by (simp add: slice_def min.commute)

lemma length_overwrite [simp]: "length (overwrite p ys xs) = max (length xs) (p + length ys)"
  by (auto simp: overwrite_def max_def)

lemma nth_slice: "i < n \<Longrightarrow> p + n \<le> length xs \<Longrightarrow> slice p n xs ! i = xs ! (p + i)"
  by (simp add: slice_def)

lemma nth_overwrite:
  "i < max (length xs) (p + length ys) \<Longrightarrow>
   overwrite p ys xs ! i =
     (if p \<le> i \<and> i < p + length ys then ys ! (i - p) else if i < length xs then xs ! i else 0)"
  by (auto simp: overwrite_def nth_append min_def)

lemma slice_0 [simp]: "slice p 0 xs = []"
  by (simp add: slice_def)

lemma slice_all: "slice 0 (length xs) xs = xs"
  by (simp add: slice_def)

lemma slice_overwrite_same [range_laws]:
  "n = length ys \<Longrightarrow> slice p n (overwrite p ys xs) = ys"
  by (rule nth_equalityI) (auto simp: nth_slice nth_overwrite)

lemma slice_overwrite_disj [range_laws]:
  "q + n \<le> p \<or> p + length ys \<le> q \<Longrightarrow> q + n \<le> length xs \<Longrightarrow>
   slice q n (overwrite p ys xs) = slice q n xs"
  by (rule nth_equalityI) (auto simp: nth_slice nth_overwrite)

lemma slice_overwrite_inside:
  "p \<le> q \<Longrightarrow> q + n \<le> p + length ys \<Longrightarrow>
   slice q n (overwrite p ys xs) = slice (q - p) n ys"
  by (rule nth_equalityI) (auto simp: nth_slice nth_overwrite)

lemma slice_slice: "a + n \<le> m \<Longrightarrow> p + m \<le> length xs \<Longrightarrow> slice a n (slice p m xs) = slice (p + a) n xs"
  by (rule nth_equalityI) (auto simp: nth_slice add.assoc)

lemma slice_add: "slice p (a + b) xs = slice p a xs @ slice (p + a) b xs"
  by (simp add: slice_def take_add add.commute)

lemma overwrite_overwrite_after:
  "p + length xs \<le> length d \<Longrightarrow> q = p + length xs \<Longrightarrow>
   overwrite q ys (overwrite p xs d) = overwrite p (xs @ ys) d"
  by (rule nth_equalityI) (auto simp: nth_overwrite nth_append max_def split: if_splits)

lemma overwrite_overwrite_before:
  "p + length xs + length ys \<le> length d \<Longrightarrow> q = p + length xs \<Longrightarrow>
   overwrite p xs (overwrite q ys d) = overwrite p (xs @ ys) d"
  by (simp add: overwrite_def take_append drop_append min_def add.assoc)

lemma overwrite_commute:
  "p + length xs \<le> q \<Longrightarrow> q + length ys \<le> length d \<Longrightarrow>
   overwrite p xs (overwrite q ys d) = overwrite q ys (overwrite p xs d)"
  by (rule nth_equalityI) (auto simp: nth_overwrite max_def)

lemma overwrite_nil [simp]: "p \<le> length d \<Longrightarrow> overwrite p [] d = d"
  by (simp add: overwrite_def)

lemma overwrite_0_full: "length ys = length xs \<Longrightarrow> overwrite 0 ys xs = ys"
  by (simp add: overwrite_def)

lemma overwrite_full: "length xs \<le> length ys \<Longrightarrow> overwrite 0 ys xs = ys"
  by (simp add: overwrite_def)

lemma map_upt_shift: "map f [i..<i + n] = map (\<lambda>l. f (i + l)) [0..<n]"
  by (rule nth_equalityI) auto

lemma in_drop_nth:
  assumes "x \<in> set (drop i xs)"
  obtains j where "i + j < length xs" "x = xs ! (i + j)"
proof -
  obtain j where j: "j < length (drop i xs)" "x = drop i xs ! j"
    using assms by (auto simp: in_set_conv_nth)
  show thesis
    using that [of j] j by simp
qed

section \<open>Inserting at a position\<close>

definition insertAt :: "nat \<Rightarrow> 'a \<Rightarrow> 'a list \<Rightarrow> 'a list" where
  "insertAt i x xs = take i xs @ x # drop i xs"

lemma length_insertAt [simp]: "length (insertAt i x xs) = Suc (length xs)"
  by (simp add: insertAt_def)

lemma nth_insertAt:
  "i \<le> length xs \<Longrightarrow> j \<le> length xs \<Longrightarrow>
   insertAt i x xs ! j = (if j < i then xs ! j else if j = i then x else xs ! (j - 1))"
  by (auto simp: insertAt_def nth_append min_def nth_Cons split: nat.splits
      intro!: arg_cong [where f = "nth xs"])

lemma insertAt_not_Nil [simp]: "insertAt i x xs \<noteq> []"
  by (simp add: insertAt_def)

lemma map_insertAt: "map f (insertAt i x xs) = insertAt i (f x) (map f xs)"
  by (simp add: insertAt_def take_map drop_map)

lemma set_insertAt: "i \<le> length xs \<Longrightarrow> set (insertAt i x xs) = insert x (set xs)"
  by (metis append_take_drop_id insertAt_def list.simps(15) set_append Un_insert_right)

lemma mset_insertAt: "mset (insertAt i x xs) = add_mset x (mset xs)"
  by (metis append_take_drop_id insertAt_def mset.simps(2) mset_append union_mset_add_mset_right)

section \<open>Little-endian integers\<close>

fun le_enc :: "nat \<Rightarrow> nat \<Rightarrow> byte list" where
  "le_enc 0 n = []"
| "le_enc (Suc w) n = of_nat (n mod 256) # le_enc w (n div 256)"

fun le_dec :: "byte list \<Rightarrow> nat" where
  "le_dec [] = 0"
| "le_dec (b # bs) = unat b + 256 * le_dec bs"

lemma length_le_enc [simp]: "length (le_enc w n) = w"
  by (induction w arbitrary: n) auto

lemma le_dec_enc: "le_dec (le_enc w n) = n mod 256 ^ w"
proof (induction w arbitrary: n)
  case (Suc w)
  have "unat (of_nat (n mod 256) :: byte) = n mod 256"
    by (simp add: unat_of_nat)
  moreover have "n mod (256 * 256 ^ w) = n mod 256 + 256 * (n div 256 mod 256 ^ w)"
    by (simp add: mod_mult2_eq)
  ultimately show ?case
    by (simp add: Suc)
qed simp

lemma le_dec_zeros [simp]: "le_dec (replicate n 0) = 0"
  by (induction n) auto

lemma le_dec_less: "le_dec bs < 256 ^ length bs"
proof (induction bs)
  case (Cons b bs)
  have "unat b < 256"
    using unsigned_less [of b] by simp
  moreover have "256 * le_dec bs + 256 \<le> 256 * 256 ^ length bs"
    using Cons by linarith
  ultimately show ?case by simp
qed simp

lemma le_enc_dec: "w = length bs \<Longrightarrow> le_enc w (le_dec bs) = bs"
proof (induction bs arbitrary: w)
  case (Cons b bs)
  have b: "unat b < 256"
    using unsigned_less [of b] by simp
  then have "(unat b + 256 * le_dec bs) mod 256 = unat b"
    and "(unat b + 256 * le_dec bs) div 256 = le_dec bs"
    by simp_all
  then show ?case using Cons by simp
qed simp

end
