(* ===== verification/IO_Stream.thy ===== *)
theory IO_Stream
  imports BT_Prelude
begin

text \<open>
  The part of \<open>std::iostream\<close> that the tree library uses, for a binary file stream:
  one position shared by reads and writes, a fail bit that a short read sets and that
  makes every later operation a no-op, and writes past the end that extend the file.
\<close>

record iostream =
  content :: "byte list"
  pos :: nat
  failbit :: bool

definition emptyStream :: iostream where
  "emptyStream = \<lparr>content = [], pos = 0, failbit = False\<rparr>"

definition seekg :: "nat \<Rightarrow> iostream \<Rightarrow> iostream" where
  "seekg ofs s = (if failbit s then s else s\<lparr>pos := ofs\<rparr>)"

text \<open>A read delivers the bytes there are; fewer than asked for sets the fail bit.\<close>

definition stream_read :: "nat \<Rightarrow> iostream \<Rightarrow> byte list \<times> iostream" where
  "stream_read n s =
     (if failbit s then ([], s)
      else let got = slice (pos s) n (content s)
           in (got, s\<lparr>pos := pos s + length got, failbit := length got < n\<rparr>))"

definition stream_write :: "byte list \<Rightarrow> iostream \<Rightarrow> iostream" where
  "stream_write bs s =
     (if failbit s then s
      else s\<lparr>content := overwrite (pos s) bs (content s), pos := pos s + length bs\<rparr>)"

lemma seekg_read:
  "\<not> failbit s \<Longrightarrow> ofs + n \<le> length (content s) \<Longrightarrow>
   stream_read n (seekg ofs s) = (slice ofs n (content s), s\<lparr>pos := ofs + n\<rparr>)"
  by (simp add: seekg_def stream_read_def Let_def)

lemma seekg_write:
  "\<not> failbit s \<Longrightarrow>
   stream_write bs (seekg ofs s) =
     s\<lparr>content := overwrite ofs bs (content s), pos := ofs + length bs\<rparr>"
  by (simp add: seekg_def stream_write_def)

lemma stream_read_short:
  "0 < n \<Longrightarrow> \<not> failbit s \<Longrightarrow> length (content s) < pos s + n \<Longrightarrow> failbit (snd (stream_read n s))"
  by (auto simp: stream_read_def Let_def min_def)

end
