(* ===== verification/Tree_State.thy ===== *)
theory Tree_State
  imports IO_Stream
begin

text \<open>
  The state of \<open>BaseBTree\<close> and of its three subclasses (btree.h), the constants of the
  file and page layout, and the four \<open>setOrder\<close> methods (btree.hpp) that compute the
  page geometry from the order and the record size.  One record holds the fields of all
  four classes; \<open>t_treeType\<close> is the dynamic class, on which virtual calls dispatch.
\<close>

named_theorems layout "the constants of the file and page layout"

section \<open>Classes\<close>

datatype TreeType = B_TREE | B_PLUS_TREE | B_STAR_TREE | B_STAR_PLUS_TREE

text \<open>
  A page wrapper: its buffer (\<open>[]\<close> is a null \<open>_data\<close>) and the page it is associated
  with.  A page number is a \<open>UInt\<close>, 0 for no page.
\<close>

record PageWrapper =
  pw_data :: "byte list"
  pw_pageNum :: nat

record IComparator =
  cmp_compare :: "byte list \<Rightarrow> byte list \<Rightarrow> nat \<Rightarrow> bool"
  cmp_isEqual :: "byte list \<Rightarrow> byte list \<Rightarrow> nat \<Rightarrow> bool"

type_synonym IKeyPrinter = "byte list \<Rightarrow> nat \<Rightarrow> string"

text \<open>
  \<open>t_ulongBits\<close> is the width of \<open>ULong\<close> (\<open>unsigned long\<close>): 32 where the library is built
  as a Windows DLL, 64 where it is built as a Linux shared object.
\<close>

record BaseBTree =
  t_treeType :: TreeType
  t_ulongBits :: nat
  t_order :: nat
  t_maxKeys :: nat
  t_minKeys :: nat
  t_keysSize :: nat
  t_cursorsOfs :: nat
  t_nodePageSize :: nat
  t_recSize :: nat
  t_lastPageNum :: nat
  t_rootPageNum :: nat
  t_maxSearchDepth :: nat
  t_diskOperationsCount :: nat
  t_stream :: "iostream option"
  t_rootPage :: PageWrapper
  t_comparator :: "IComparator option"
  t_keyPrinter :: "IKeyPrinter option"
  t_freePagesCounter :: nat
  t_maxLeafKeys :: nat
  t_minLeafKeys :: nat
  t_maxRootKeys :: nat
  t_leftSplitProductKeys :: nat
  t_middleSplitProductKeys :: nat
  t_rightSplitProductKeys :: nat
  t_shortRightSplitProductKeys :: nat
  t_middleLeafSplitProductKeys :: nat

text \<open>\<open>UInt\<close> is 32 bits wide, \<open>ULong\<close> has the width of the platform, \<open>int\<close> is 32 bits.\<close>

definition UInt :: "nat \<Rightarrow> nat" where
  "UInt n = n mod 2 ^ 32"

definition ULong :: "BaseBTree \<Rightarrow> nat \<Rightarrow> nat" where
  "ULong t n = n mod 2 ^ t_ulongBits t"

definition int_of_UInt :: "nat \<Rightarrow> int" where
  "int_of_UInt n = (if n < 2 ^ 31 then int n else int n - 2 ^ 32)"

lemma UInt_id: "n < 2 ^ 32 \<Longrightarrow> UInt n = n"
  by (simp add: UInt_def)

lemma int_of_UInt_id: "n < 2 ^ 31 \<Longrightarrow> int_of_UInt n = int n"
  by (simp add: int_of_UInt_def)

section \<open>Layout constants\<close>

definition VALID_SIGN :: nat where [layout]: "VALID_SIGN = 0x19979AAA"
definition HEADER_OFS :: nat where [layout]: "HEADER_OFS = 0"
definition HEADER_SIZE :: nat where [layout]: "HEADER_SIZE = 8"
definition PAGE_COUNTER_OFS :: nat where [layout]: "PAGE_COUNTER_OFS = HEADER_SIZE"
definition PAGE_COUNTER_SZ :: nat where [layout]: "PAGE_COUNTER_SZ = 4"
definition CURSOR_SZ :: nat where [layout]: "CURSOR_SZ = 4"
definition ROOT_PAGE_NUM_OFS :: nat where
  [layout]: "ROOT_PAGE_NUM_OFS = PAGE_COUNTER_OFS + PAGE_COUNTER_SZ"
definition ROOT_PAGE_NUM_SZ :: nat where [layout]: "ROOT_PAGE_NUM_SZ = CURSOR_SZ"
definition FIRST_PAGE_OFS :: nat where
  [layout]: "FIRST_PAGE_OFS = ROOT_PAGE_NUM_OFS + ROOT_PAGE_NUM_SZ"
definition FREE_PAGES_COUNTER_SZ :: nat where [layout]: "FREE_PAGES_COUNTER_SZ = 4"
definition FREE_PAGE_NUM_SZ :: nat where [layout]: "FREE_PAGE_NUM_SZ = CURSOR_SZ"
definition NODE_INFO_SZ :: nat where [layout]: "NODE_INFO_SZ = 2"
definition KEYS_OFS :: nat where [layout]: "KEYS_OFS = NODE_INFO_SZ"
definition MAX_KEYS_NUM :: nat where [layout]: "MAX_KEYS_NUM = 32767"
definition LEAF_NODE_MASK :: "16 word" where "LEAF_NODE_MASK = 0x8000"

section \<open>The page geometry\<close>

text \<open>\<open>PageWrapper::reallocData\<close>: a fresh buffer, its bytes not initialised (here 0).\<close>

definition reallocData :: "nat \<Rightarrow> PageWrapper \<Rightarrow> PageWrapper" where
  "reallocData sz pw = pw\<lparr>pw_data := replicate sz 0\<rparr>"

definition reallocWorkPages :: "BaseBTree \<Rightarrow> BaseBTree" where
  "reallocWorkPages t = t\<lparr>t_rootPage := reallocData (t_nodePageSize t) (t_rootPage t)\<rparr>"

text \<open>The sizes that depend on how many keys a page can hold.\<close>

definition setGeometry :: "nat \<Rightarrow> BaseBTree \<Rightarrow> BaseBTree" where
  "setGeometry n t =
     (let keysSize = UInt (t_recSize t * n);
          cursorsOfs = UInt (keysSize + KEYS_OFS);
          nodePageSize = UInt (cursorsOfs + CURSOR_SZ * (n + 1))
      in t\<lparr>t_keysSize := keysSize, t_cursorsOfs := cursorsOfs,
           t_nodePageSize := nodePageSize\<rparr>)"

definition BaseBTree_setOrder :: "nat \<Rightarrow> nat \<Rightarrow> BaseBTree \<Rightarrow> BaseBTree res" where
  "BaseBTree_setOrder order recSize t =
     (if order < 2 then Inl InvalidArgument
      else let t = t\<lparr>t_order := order, t_recSize := recSize,
                     t_minKeys := order - 1, t_maxKeys := 2 * order - 1\<rparr>
           in if t_maxKeys t > MAX_KEYS_NUM then Inl InvalidArgument
              else Inr (reallocWorkPages (setGeometry (t_maxKeys t) t)))"

definition BaseBPlusTree_setOrder :: "nat \<Rightarrow> nat \<Rightarrow> BaseBTree \<Rightarrow> BaseBTree res" where
  "BaseBPlusTree_setOrder order recSize t =
     (if order < 2 then Inl InvalidArgument
      else let t = t\<lparr>t_order := order, t_recSize := recSize,
                     t_minKeys := order - 1, t_maxKeys := 2 * order - 1\<rparr>;
               t = t\<lparr>t_minLeafKeys := t_minKeys t + 1, t_maxLeafKeys := t_maxKeys t + 1\<rparr>
           in if t_maxLeafKeys t > MAX_KEYS_NUM then Inl InvalidArgument
              else Inr (reallocWorkPages (setGeometry (t_maxLeafKeys t) t)))"

definition BaseBStarTree_setOrder :: "nat \<Rightarrow> nat \<Rightarrow> BaseBTree \<Rightarrow> BaseBTree res" where
  "BaseBStarTree_setOrder order recSize t =
     (if order < 4 then Inl InvalidArgument
      else let t = t\<lparr>t_order := order, t_recSize := recSize,
                     t_minKeys := (2 * order - 2) div 3, t_maxKeys := order\<rparr>;
               t = t\<lparr>t_maxRootKeys := 2 * t_minKeys t + 1\<rparr>;
               t = t\<lparr>t_leftSplitProductKeys := (2 * order - 1) div 3,
                     t_middleSplitProductKeys := 2 * order div 3,
                     t_rightSplitProductKeys := (2 * order + 1) div 3\<rparr>;
               t = t\<lparr>t_shortRightSplitProductKeys := t_rightSplitProductKeys t - 1\<rparr>;
               maxPossibleNodeKeys = max (t_maxKeys t) (t_maxRootKeys t)
           in if maxPossibleNodeKeys > MAX_KEYS_NUM then Inl InvalidArgument
              else Inr (reallocWorkPages (setGeometry maxPossibleNodeKeys t)))"

definition BaseBStarPlusTree_setOrder :: "nat \<Rightarrow> nat \<Rightarrow> BaseBTree \<Rightarrow> BaseBTree res" where
  "BaseBStarPlusTree_setOrder order recSize t =
     bindR (BaseBStarTree_setOrder order recSize t)
       (\<lambda>t. Inr (t\<lparr>t_middleLeafSplitProductKeys := t_middleSplitProductKeys t + 1\<rparr>))"

text \<open>The virtual \<open>setOrder\<close>.\<close>

definition setOrder :: "nat \<Rightarrow> nat \<Rightarrow> BaseBTree \<Rightarrow> BaseBTree res" where
  "setOrder order recSize t =
     (case t_treeType t of
        B_TREE \<Rightarrow> BaseBTree_setOrder order recSize t
      | B_PLUS_TREE \<Rightarrow> BaseBPlusTree_setOrder order recSize t
      | B_STAR_TREE \<Rightarrow> BaseBStarTree_setOrder order recSize t
      | B_STAR_PLUS_TREE \<Rightarrow> BaseBStarPlusTree_setOrder order recSize t)"

text \<open>
  The constructor.  The fields that the constructor leaves uninitialised (the sizes and
  the key printer) are 0 and null here; every use of the sizes follows \<open>setOrder\<close>.
\<close>

definition new_BaseBTree ::
  "TreeType \<Rightarrow> nat \<Rightarrow> nat \<Rightarrow> nat \<Rightarrow> IComparator option \<Rightarrow> iostream option \<Rightarrow> BaseBTree" where
  "new_BaseBTree ty ulongBits order recSize comparator stream =
     \<lparr>t_treeType = ty, t_ulongBits = ulongBits, t_order = order, t_maxKeys = 0, t_minKeys = 0,
      t_keysSize = 0, t_cursorsOfs = 0, t_nodePageSize = 0, t_recSize = recSize,
      t_lastPageNum = 0, t_rootPageNum = 0, t_maxSearchDepth = 0, t_diskOperationsCount = 0,
      t_stream = stream, t_rootPage = \<lparr>pw_data = [], pw_pageNum = 0\<rparr>,
      t_comparator = comparator, t_keyPrinter = None, t_freePagesCounter = 0,
      t_maxLeafKeys = 0, t_minLeafKeys = 0, t_maxRootKeys = 0, t_leftSplitProductKeys = 0,
      t_middleSplitProductKeys = 0, t_rightSplitProductKeys = 0,
      t_shortRightSplitProductKeys = 0, t_middleLeafSplitProductKeys = 0\<rparr>"

definition resetBTree :: "BaseBTree \<Rightarrow> BaseBTree" where
  "resetBTree t = t\<lparr>t_order := 0, t_recSize := 0, t_stream := None, t_comparator := None\<rparr>"

text \<open>The most keys a page of the tree has room for.\<close>

definition pageKeys :: "BaseBTree \<Rightarrow> nat" where
  "pageKeys t =
     (case t_treeType t of
        B_TREE \<Rightarrow> t_maxKeys t
      | B_PLUS_TREE \<Rightarrow> t_maxLeafKeys t
      | B_STAR_TREE \<Rightarrow> max (t_maxKeys t) (t_maxRootKeys t)
      | B_STAR_PLUS_TREE \<Rightarrow> max (t_maxKeys t) (t_maxRootKeys t))"

text \<open>
  The geometry that a successful \<open>setOrder\<close> establishes: keys after the two bytes of
  node information, cursors after the keys, and no wrap-around in the sizes.
\<close>

definition geometry :: "BaseBTree \<Rightarrow> bool" where
  "geometry t \<longleftrightarrow>
     0 < t_minKeys t \<and> t_maxKeys t \<le> pageKeys t \<and> pageKeys t \<le> MAX_KEYS_NUM \<and>
     t_keysSize t = t_recSize t * pageKeys t \<and>
     t_cursorsOfs t = KEYS_OFS + t_recSize t * pageKeys t \<and>
     t_nodePageSize t = t_cursorsOfs t + CURSOR_SZ * (pageKeys t + 1) \<and>
     t_nodePageSize t < 2 ^ 32"

lemma setGeometry_ok:
  assumes "t_recSize t < 2 ^ 16" and "n \<le> MAX_KEYS_NUM"
  shows "setGeometry n t =
    t\<lparr>t_keysSize := t_recSize t * n, t_cursorsOfs := KEYS_OFS + t_recSize t * n,
      t_nodePageSize := KEYS_OFS + t_recSize t * n + CURSOR_SZ * (n + 1)\<rparr>"
    and "KEYS_OFS + t_recSize t * n + CURSOR_SZ * (n + 1) < 2 ^ 32"
proof -
  have "t_recSize t * n \<le> 65535 * 32767"
    using assms by (intro mult_le_mono) (simp_all add: layout)
  moreover have "n \<le> 32767"
    using assms by (simp add: layout)
  ultimately show "setGeometry n t =
      t\<lparr>t_keysSize := t_recSize t * n, t_cursorsOfs := KEYS_OFS + t_recSize t * n,
        t_nodePageSize := KEYS_OFS + t_recSize t * n + CURSOR_SZ * (n + 1)\<rparr>"
    and "KEYS_OFS + t_recSize t * n + CURSOR_SZ * (n + 1) < 2 ^ 32"
    by (simp_all add: setGeometry_def UInt_def layout Let_def add.commute)
qed

text \<open>The smallest order of each kind of tree, and the keys a page of an order has room for.\<close>

definition minOrder :: "TreeType \<Rightarrow> nat" where
  "minOrder ty = (if ty = B_TREE \<or> ty = B_PLUS_TREE then 2 else 4)"

definition orderKeys :: "TreeType \<Rightarrow> nat \<Rightarrow> nat" where
  "orderKeys ty order =
     (case ty of
        B_TREE \<Rightarrow> 2 * order - 1
      | B_PLUS_TREE \<Rightarrow> 2 * order
      | _ \<Rightarrow> max order (2 * ((2 * order - 2) div 3) + 1))"

lemmas setOrder_defs = setOrder_def BaseBTree_setOrder_def BaseBPlusTree_setOrder_def
  BaseBStarTree_setOrder_def BaseBStarPlusTree_setOrder_def

lemma setOrder_error:
  "setOrder order recSize t = Inl InvalidArgument \<longleftrightarrow>
     order < minOrder (t_treeType t) \<or> MAX_KEYS_NUM < orderKeys (t_treeType t) order"
  "setOrder order recSize t = Inl e \<Longrightarrow> e = InvalidArgument"
  by (cases "t_treeType t"; auto simp: setOrder_defs minOrder_def orderKeys_def Let_def split: if_splits)+

lemma setOrder_keys:
  assumes "setOrder order recSize t = Inr t'"
  shows "pageKeys t' = orderKeys (t_treeType t) order" "orderKeys (t_treeType t) order \<le> MAX_KEYS_NUM"
    "minOrder (t_treeType t) \<le> order" "0 < t_minKeys t'" "t_maxKeys t' \<le> pageKeys t'"
  using assms
  by (cases "t_treeType t"; auto simp: setOrder_defs minOrder_def orderKeys_def Let_def pageKeys_def
      reallocWorkPages_def setGeometry_def split: if_splits)+

lemma setOrder_frame:
  assumes "setOrder order recSize t = Inr t'"
  shows "t_treeType t' = t_treeType t" "t_ulongBits t' = t_ulongBits t" "t_stream t' = t_stream t"
    "t_order t' = order" "t_recSize t' = recSize" "t_lastPageNum t' = t_lastPageNum t"
    "t_rootPageNum t' = t_rootPageNum t" "t_freePagesCounter t' = t_freePagesCounter t"
    "t_comparator t' = t_comparator t"
    "t_rootPage t' = reallocData (t_nodePageSize t') (t_rootPage t)"
  using assms
  by (cases "t_treeType t"; auto simp: setOrder_defs Let_def
      reallocWorkPages_def setGeometry_def split: if_splits)+

lemma setOrder_setGeometry:
  assumes "setOrder order recSize t = Inr t'"
  shows "\<exists>t0. t_recSize t0 = recSize \<and>
    t_keysSize t' = t_keysSize (setGeometry (pageKeys t') t0) \<and>
    t_cursorsOfs t' = t_cursorsOfs (setGeometry (pageKeys t') t0) \<and>
    t_nodePageSize t' = t_nodePageSize (setGeometry (pageKeys t') t0)"
  using assms
  by (intro exI [of _ "t\<lparr>t_recSize := recSize\<rparr>"], cases "t_treeType t")
    (auto simp: setOrder_defs Let_def pageKeys_def reallocWorkPages_def setGeometry_def CURSOR_SZ_def
      split: if_splits intro!: arg_cong [where f = UInt])

lemma setOrder_sizes:
  assumes "setOrder order recSize t = Inr t'" "recSize < 2 ^ 16"
  shows "t_keysSize t' = recSize * pageKeys t'" "t_cursorsOfs t' = KEYS_OFS + recSize * pageKeys t'"
    "t_nodePageSize t' = t_cursorsOfs t' + CURSOR_SZ * (pageKeys t' + 1)" "t_nodePageSize t' < 2 ^ 32"
proof -
  obtain t0 where t0: "t_recSize t0 = recSize"
    "t_keysSize t' = t_keysSize (setGeometry (pageKeys t') t0)"
    "t_cursorsOfs t' = t_cursorsOfs (setGeometry (pageKeys t') t0)"
    "t_nodePageSize t' = t_nodePageSize (setGeometry (pageKeys t') t0)"
    using setOrder_setGeometry [OF assms(1)] by blast
  have n: "pageKeys t' \<le> MAX_KEYS_NUM" using setOrder_keys [OF assms(1)] by simp
  have r: "t_recSize t0 < 2 ^ 16" using t0(1) assms(2) by simp
  show "t_keysSize t' = recSize * pageKeys t'" "t_cursorsOfs t' = KEYS_OFS + recSize * pageKeys t'"
    "t_nodePageSize t' = t_cursorsOfs t' + CURSOR_SZ * (pageKeys t' + 1)" "t_nodePageSize t' < 2 ^ 32"
    using setGeometry_ok(2) [OF r n] by (simp_all add: t0 setGeometry_ok(1) [OF r n])
qed

lemma setOrder_geometry: "setOrder order recSize t = Inr t' \<Longrightarrow> recSize < 2 ^ 16 \<Longrightarrow> geometry t'"
  using setOrder_keys [of order recSize t t'] setOrder_sizes [of order recSize t t']
    setOrder_frame(5) [of order recSize t t']
  by (simp add: geometry_def)

end
