(* ===== verification/Page_Wrapper.thy ===== *)
theory Page_Wrapper
  imports Tree_State
begin

text \<open>
  \<open>BaseBTree::PageWrapper\<close> on the raw bytes of a page: the two bytes of node
  information (leaf flag and number of keys), the key records and the cursors, with the
  pointer arithmetic, the null pointers and the \<open>memcpy\<close>s of the code.  The second half
  gives each operation an equation over \<open>putKeys\<close> and \<open>putCursors\<close>, and the laws that
  read a page after them (collection \<open>page_laws\<close>).
\<close>

named_theorems page_laws "reading a page after an update"

section \<open>Operations\<close>

subsection \<open>Node information\<close>

definition nodeInfo :: "PageWrapper \<Rightarrow> 16 word" where
  "nodeInfo pw = of_nat (le_dec (slice 0 2 (pw_data pw)))"

definition putNodeInfo :: "16 word \<Rightarrow> PageWrapper \<Rightarrow> PageWrapper" where
  "putNodeInfo w pw = pw\<lparr>pw_data := overwrite 0 (le_enc 2 (unat w)) (pw_data pw)\<rparr>"

definition new_PageWrapper :: "BaseBTree \<Rightarrow> PageWrapper" where
  "new_PageWrapper t =
     \<lparr>pw_data = (case t_stream t of None \<Rightarrow> []
                 | Some s \<Rightarrow> if failbit s then [] else replicate (t_nodePageSize t) 0),
      pw_pageNum = 0\<rparr>"

definition clear :: "BaseBTree \<Rightarrow> PageWrapper \<Rightarrow> PageWrapper" where
  "clear t pw =
     (if pw_data pw = [] then pw else pw\<lparr>pw_data := replicate (t_nodePageSize t) 0\<rparr>)"

definition setKeyNumLeaf :: "nat \<Rightarrow> bool \<Rightarrow> PageWrapper \<Rightarrow> PageWrapper" where
  "setKeyNumLeaf keysNum isLeaf pw =
     (let keysNum = (of_nat keysNum :: 16 word);
          keysNum = (if isLeaf then keysNum OR LEAF_NODE_MASK else keysNum)
      in putNodeInfo keysNum pw)"

definition setKeyNum :: "nat \<Rightarrow> PageWrapper \<Rightarrow> PageWrapper" where
  "setKeyNum keysNum pw =
     (let kldata = nodeInfo pw;
          kldata = kldata AND LEAF_NODE_MASK;
          kldata = kldata OR of_nat keysNum
      in putNodeInfo kldata pw)"

definition setLeaf :: "bool \<Rightarrow> PageWrapper \<Rightarrow> PageWrapper" where
  "setLeaf isLeaf pw =
     (let kldata = nodeInfo pw;
          kldata = kldata AND NOT LEAF_NODE_MASK;
          kldata = (if isLeaf then kldata OR LEAF_NODE_MASK else kldata)
      in putNodeInfo kldata pw)"

definition isLeaf :: "PageWrapper \<Rightarrow> bool" where
  "isLeaf pw = (nodeInfo pw AND LEAF_NODE_MASK \<noteq> 0)"

definition getKeysNum :: "PageWrapper \<Rightarrow> nat" where
  "getKeysNum pw = unat (nodeInfo pw AND NOT LEAF_NODE_MASK)"

definition isRoot :: "BaseBTree \<Rightarrow> PageWrapper \<Rightarrow> bool" where
  "isRoot t pw = (t_rootPageNum t = pw_pageNum pw)"

subsection \<open>Addresses of keys and cursors\<close>

definition getKeyOfs :: "BaseBTree \<Rightarrow> PageWrapper \<Rightarrow> nat \<Rightarrow> int" where
  "getKeyOfs t pw num =
     (if num \<ge> getKeysNum pw then - 1 else int (KEYS_OFS + t_recSize t * num))"

definition getCursorOfs :: "BaseBTree \<Rightarrow> PageWrapper \<Rightarrow> nat \<Rightarrow> int" where
  "getCursorOfs t pw cnum =
     (if cnum > getKeysNum pw then - 1
      else int_of_UInt (UInt (t_cursorsOfs t + CURSOR_SZ * cnum)))"

text \<open>A pointer into the buffer is its offset; \<open>None\<close> is the null pointer.\<close>

definition getKey :: "BaseBTree \<Rightarrow> PageWrapper \<Rightarrow> nat \<Rightarrow> int option" where
  "getKey t pw num =
     (let kofst = getKeyOfs t pw num in if kofst = - 1 then None else Some kofst)"

definition getCursorPtr :: "BaseBTree \<Rightarrow> PageWrapper \<Rightarrow> nat \<Rightarrow> int res" where
  "getCursorPtr t pw cnum =
     (let curOfs = getCursorOfs t pw cnum
      in if curOfs = - 1 then Inl InvalidArgument else Inr curOfs)"

text \<open>
  \<open>memcpy\<close> between two buffers: nothing for no bytes, a fault through a null pointer or
  outside a buffer.
\<close>

definition inBuffer :: "byte list \<Rightarrow> int \<Rightarrow> nat \<Rightarrow> bool" where
  "inBuffer buf p n \<longleftrightarrow> 0 \<le> p \<and> nat p + n \<le> length buf"

definition memcpy :: "byte list \<Rightarrow> int option \<Rightarrow> byte list \<Rightarrow> int option \<Rightarrow> nat \<Rightarrow> byte list res" where
  "memcpy dst dp src sp n =
     (if n = 0 then Inr dst
      else case (dp, sp) of
          (Some d, Some s) \<Rightarrow>
            (if inBuffer dst d n \<and> inBuffer src s n
             then Inr (overwrite (nat d) (slice (nat s) n src) dst) else Inl MemoryFault)
        | _ \<Rightarrow> Inl MemoryFault)"

definition copyKey :: "BaseBTree \<Rightarrow> byte list \<Rightarrow> int option \<Rightarrow> byte list \<Rightarrow> int option \<Rightarrow> byte list res" where
  "copyKey t dst dp src sp = memcpy dst dp src sp (t_recSize t)"

definition copyKeys :: "BaseBTree \<Rightarrow> byte list \<Rightarrow> int option \<Rightarrow> byte list \<Rightarrow> int option \<Rightarrow> nat \<Rightarrow> byte list res" where
  "copyKeys t dst dp src sp num = memcpy dst dp src sp (t_recSize t * num)"

definition copyCursors :: "byte list \<Rightarrow> int \<Rightarrow> byte list \<Rightarrow> int \<Rightarrow> nat \<Rightarrow> byte list res" where
  "copyCursors dst dp src sp num = memcpy dst (Some dp) src (Some sp) (num * CURSOR_SZ)"

text \<open>
  The forms in which the tree algorithms call them: from slot \<open>i\<close> of page \<open>src\<close> to slot
  \<open>j\<close> of page \<open>dst\<close>, and from a key record \<open>k\<close> to slot \<open>j\<close>.
\<close>

definition copyKeysAt :: "BaseBTree \<Rightarrow> PageWrapper \<Rightarrow> nat \<Rightarrow> PageWrapper \<Rightarrow> nat \<Rightarrow> nat \<Rightarrow> PageWrapper res" where
  "copyKeysAt t dst j src i num =
     bindR (copyKeys t (pw_data dst) (getKey t dst j) (pw_data src) (getKey t src i) num)
       (\<lambda>d. Inr (dst\<lparr>pw_data := d\<rparr>))"

definition copyKeyAt :: "BaseBTree \<Rightarrow> PageWrapper \<Rightarrow> nat \<Rightarrow> PageWrapper \<Rightarrow> nat \<Rightarrow> PageWrapper res" where
  "copyKeyAt t dst j src i =
     bindR (copyKey t (pw_data dst) (getKey t dst j) (pw_data src) (getKey t src i))
       (\<lambda>d. Inr (dst\<lparr>pw_data := d\<rparr>))"

definition copyKeyFrom :: "BaseBTree \<Rightarrow> PageWrapper \<Rightarrow> nat \<Rightarrow> byte list \<Rightarrow> PageWrapper res" where
  "copyKeyFrom t dst j k =
     bindR (copyKey t (pw_data dst) (getKey t dst j) k (Some 0))
       (\<lambda>d. Inr (dst\<lparr>pw_data := d\<rparr>))"

definition copyCursorsAt :: "BaseBTree \<Rightarrow> PageWrapper \<Rightarrow> nat \<Rightarrow> PageWrapper \<Rightarrow> nat \<Rightarrow> nat \<Rightarrow> PageWrapper res" where
  "copyCursorsAt t dst j src i num =
     bindR (getCursorPtr t dst j) (\<lambda>dp.
     bindR (getCursorPtr t src i) (\<lambda>sp.
     bindR (copyCursors (pw_data dst) dp (pw_data src) sp num) (\<lambda>d.
       Inr (dst\<lparr>pw_data := d\<rparr>))))"

text \<open>The record a key pointer points to, as a comparator reads it.\<close>

definition keyAt :: "BaseBTree \<Rightarrow> PageWrapper \<Rightarrow> nat \<Rightarrow> byte list res" where
  "keyAt t pw num =
     (case getKey t pw num of
        None \<Rightarrow> Inl MemoryFault
      | Some p \<Rightarrow> if inBuffer (pw_data pw) p (t_recSize t)
                  then Inr (slice (nat p) (t_recSize t) (pw_data pw)) else Inl MemoryFault)"

definition getCursor :: "BaseBTree \<Rightarrow> PageWrapper \<Rightarrow> nat \<Rightarrow> nat res" where
  "getCursor t pw cnum =
     bindR (getCursorPtr t pw cnum) (\<lambda>p.
       if inBuffer (pw_data pw) p 4 then Inr (le_dec (slice (nat p) 4 (pw_data pw)))
       else Inl MemoryFault)"

definition setCursor :: "BaseBTree \<Rightarrow> PageWrapper \<Rightarrow> nat \<Rightarrow> nat \<Rightarrow> PageWrapper res" where
  "setCursor t pw cnum cval =
     bindR (getCursorPtr t pw cnum) (\<lambda>p.
       if inBuffer (pw_data pw) p 4
       then Inr (pw\<lparr>pw_data := overwrite (nat p) (le_enc 4 cval) (pw_data pw)\<rparr>)
       else Inl MemoryFault)"

section \<open>Slots\<close>

text \<open>
  A page as an array of key slots and an array of cursor slots.  \<open>kslot\<close> and \<open>cslot\<close>
  read one, \<open>putKeys\<close> and \<open>putCursors\<close> write consecutive ones.
\<close>

definition kslot :: "BaseBTree \<Rightarrow> PageWrapper \<Rightarrow> nat \<Rightarrow> byte list" where
  "kslot t pw i = slice (KEYS_OFS + t_recSize t * i) (t_recSize t) (pw_data pw)"

definition cslot :: "BaseBTree \<Rightarrow> PageWrapper \<Rightarrow> nat \<Rightarrow> nat" where
  "cslot t pw i = le_dec (slice (t_cursorsOfs t + CURSOR_SZ * i) CURSOR_SZ (pw_data pw))"

definition putKeys :: "BaseBTree \<Rightarrow> nat \<Rightarrow> byte list list \<Rightarrow> PageWrapper \<Rightarrow> PageWrapper" where
  "putKeys t j ks pw =
     pw\<lparr>pw_data := overwrite (KEYS_OFS + t_recSize t * j) (concat ks) (pw_data pw)\<rparr>"

definition putCursors :: "BaseBTree \<Rightarrow> nat \<Rightarrow> nat list \<Rightarrow> PageWrapper \<Rightarrow> PageWrapper" where
  "putCursors t j cs pw =
     pw\<lparr>pw_data := overwrite (t_cursorsOfs t + CURSOR_SZ * j) (concat (map (le_enc CURSOR_SZ) cs))
                      (pw_data pw)\<rparr>"

definition keysOf :: "BaseBTree \<Rightarrow> PageWrapper \<Rightarrow> byte list list" where
  "keysOf t pw = map (kslot t pw) [0..<getKeysNum pw]"

definition cursorsOf :: "BaseBTree \<Rightarrow> PageWrapper \<Rightarrow> nat list" where
  "cursorsOf t pw = map (cslot t pw) [0..<Suc (getKeysNum pw)]"

definition wfPage :: "BaseBTree \<Rightarrow> PageWrapper \<Rightarrow> bool" where
  "wfPage t pw \<longleftrightarrow> length (pw_data pw) = t_nodePageSize t \<and> getKeysNum pw \<le> pageKeys t"

text \<open>The geometry, with pages small enough for the \<open>int\<close> offsets of the code.\<close>

definition geom :: "BaseBTree \<Rightarrow> bool" where
  "geom t \<longleftrightarrow> geometry t \<and> t_nodePageSize t < 2 ^ 31"

lemma geomD:
  assumes "geom t"
  shows "0 < t_minKeys t" "t_maxKeys t \<le> pageKeys t" "pageKeys t \<le> MAX_KEYS_NUM"
    "t_cursorsOfs t = KEYS_OFS + t_recSize t * pageKeys t"
    "t_nodePageSize t = t_cursorsOfs t + CURSOR_SZ * (pageKeys t + 1)"
    "t_nodePageSize t < 2 ^ 31"
  using assms by (auto simp: geom_def geometry_def)

lemma key_end:
  assumes "geom t" and "j + n \<le> pageKeys t"
  shows "KEYS_OFS + t_recSize t * j + t_recSize t * n \<le> t_cursorsOfs t"
proof -
  have "t_recSize t * (j + n) \<le> t_recSize t * pageKeys t"
    using assms(2) by (rule mult_le_mono2)
  then show ?thesis
    using geomD(4) [OF assms(1)] by (simp add: algebra_simps)
qed

lemma cursors_end: "geom t \<Longrightarrow> t_cursorsOfs t \<le> t_nodePageSize t"
  by (simp add: geomD)

lemma cursor_end:
  assumes "geom t" and "j + n \<le> Suc (pageKeys t)"
  shows "t_cursorsOfs t + CURSOR_SZ * j + CURSOR_SZ * n \<le> t_nodePageSize t"
proof -
  have "CURSOR_SZ * (j + n) \<le> CURSOR_SZ * (pageKeys t + 1)"
    using assms(2) by (intro mult_le_mono2) simp
  then show ?thesis
    using geomD(5) [OF assms(1)] by (simp add: algebra_simps)
qed

lemma length_kslot:
  "geom t \<Longrightarrow> length (pw_data pw) = t_nodePageSize t \<Longrightarrow> i < pageKeys t \<Longrightarrow>
   length (kslot t pw i) = t_recSize t"
  using key_end [of t i 1] cursors_end [of t] by (simp add: kslot_def)

lemma cslot_less: "geom t \<Longrightarrow> length (pw_data pw) = t_nodePageSize t \<Longrightarrow> i \<le> pageKeys t \<Longrightarrow> cslot t pw i < 2 ^ 32"
  using cursor_end [of t i 1] le_dec_less [of "slice (t_cursorsOfs t + CURSOR_SZ * i) CURSOR_SZ (pw_data pw)"]
  by (simp add: cslot_def layout)

lemma length_concat_keys:
  "\<forall>k \<in> set ks. length k = r \<Longrightarrow> length (concat ks) = r * length ks"
  by (induction ks) auto

lemma length_concat_cursors: "length (concat (map (le_enc CURSOR_SZ) cs)) = CURSOR_SZ * length cs"
  by (induction cs) auto

lemma concat_slices:
  "p + r * n \<le> length d \<Longrightarrow> concat (map (\<lambda>i. slice (p + r * i) r d) [0..<n]) = slice p (r * n) d"
proof (induction n)
  case (Suc n)
  then have "p + r * n \<le> length d" by (simp add: algebra_simps)
  then have "concat (map (\<lambda>i. slice (p + r * i) r d) [0..<Suc n]) =
      slice p (r * n) d @ slice (p + r * n) r d"
    using Suc by simp
  also have "\<dots> = slice p (r * Suc n) d"
    using slice_add [of p "r * n" r d] by (simp add: add.commute)
  finally show ?case .
qed simp

lemma slice_chunk:
  assumes "\<forall>k \<in> set ks. length k = r" and "l < length ks"
  shows "slice (r * l) r (concat ks) = ks ! l"
  using assms
proof (induction ks arbitrary: l)
  case (Cons k ks)
  then show ?case
    by (cases l) (auto simp: slice_def)
qed simp

section \<open>Reading a page after an update\<close>

lemma putKeys_frame [page_laws]:
  assumes "geom t" "length (pw_data pw) = t_nodePageSize t"
    "\<forall>k \<in> set ks. length k = t_recSize t" "j + length ks \<le> pageKeys t"
  shows "length (pw_data (putKeys t j ks pw)) = t_nodePageSize t"
    "pw_pageNum (putKeys t j ks pw) = pw_pageNum pw"
    "nodeInfo (putKeys t j ks pw) = nodeInfo pw"
    "i \<le> pageKeys t \<Longrightarrow> cslot t (putKeys t j ks pw) i = cslot t pw i"
proof -
  have e: "KEYS_OFS + t_recSize t * j + length (concat ks) \<le> t_cursorsOfs t"
    using key_end [OF assms(1,4)] by (simp add: length_concat_keys [OF assms(3)])
  have n: "t_cursorsOfs t \<le> t_nodePageSize t" by (rule cursors_end [OF assms(1)])
  show "length (pw_data (putKeys t j ks pw)) = t_nodePageSize t"
    using e n assms(2) by (simp add: putKeys_def)
  show "pw_pageNum (putKeys t j ks pw) = pw_pageNum pw"
    by (simp add: putKeys_def)
  have "slice 0 2 (pw_data (putKeys t j ks pw)) = slice 0 2 (pw_data pw)"
    unfolding putKeys_def using e n assms(2)
    by (simp, intro slice_overwrite_disj) (auto simp: layout)
  then show "nodeInfo (putKeys t j ks pw) = nodeInfo pw"
    by (simp add: nodeInfo_def)
  assume "i \<le> pageKeys t"
  then have "t_cursorsOfs t + CURSOR_SZ * i + CURSOR_SZ \<le> t_nodePageSize t"
    using cursor_end [OF assms(1), of i 1] by simp
  then show "cslot t (putKeys t j ks pw) i = cslot t pw i"
    using e assms(2) by (simp add: cslot_def putKeys_def slice_overwrite_disj)
qed

lemma kslot_putKeys [page_laws]:
  assumes "geom t" "length (pw_data pw) = t_nodePageSize t"
    "\<forall>k \<in> set ks. length k = t_recSize t" "j + length ks \<le> pageKeys t" "i < pageKeys t"
  shows "kslot t (putKeys t j ks pw) i =
    (if j \<le> i \<and> i < j + length ks then ks ! (i - j) else kslot t pw i)"
proof -
  let ?r = "t_recSize t"
  have n: "t_cursorsOfs t \<le> t_nodePageSize t" by (rule cursors_end [OF assms(1)])
  have l: "length (concat ks) = ?r * length ks"
    by (rule length_concat_keys [OF assms(3)])
  have i: "KEYS_OFS + ?r * i + ?r \<le> t_nodePageSize t"
    using key_end [OF assms(1), of i 1] n assms(5) by simp
  show ?thesis
  proof (cases "j \<le> i \<and> i < j + length ks")
    case True
    have "?r * (i - j) + ?r \<le> ?r * length ks"
      using True by (metis less_diff_conv2 Suc_leI add.commute mult_Suc_right mult_le_mono2)
    moreover have "?r * i = ?r * j + ?r * (i - j)"
      using True by (metis add_mult_distrib2 le_add_diff_inverse)
    ultimately have "kslot t (putKeys t j ks pw) i = slice (?r * (i - j)) ?r (concat ks)"
      unfolding kslot_def putKeys_def using l by (simp add: slice_overwrite_inside)
    also have "\<dots> = ks ! (i - j)"
      using True by (intro slice_chunk assms(3)) auto
    finally show ?thesis using True by simp
  next
    case False
    then have "i + 1 \<le> j \<or> j + length ks \<le> i" by auto
    then have "?r * i + ?r \<le> ?r * j \<or> ?r * j + ?r * length ks \<le> ?r * i"
      by (metis add_mult_distrib2 mult.right_neutral mult_le_mono2)
    then have "kslot t (putKeys t j ks pw) i = kslot t pw i"
      unfolding kslot_def putKeys_def using i l assms(2)
      by (simp, intro slice_overwrite_disj) auto
    then show ?thesis unfolding if_not_P [OF False] .
  qed
qed

lemma putCursors_frame [page_laws]:
  assumes "geom t" "length (pw_data pw) = t_nodePageSize t" "j + length cs \<le> Suc (pageKeys t)"
  shows "length (pw_data (putCursors t j cs pw)) = t_nodePageSize t"
    "pw_pageNum (putCursors t j cs pw) = pw_pageNum pw"
    "nodeInfo (putCursors t j cs pw) = nodeInfo pw"
    "i < pageKeys t \<Longrightarrow> kslot t (putCursors t j cs pw) i = kslot t pw i"
proof -
  have l: "length (concat (map (le_enc CURSOR_SZ) cs)) = CURSOR_SZ * length cs"
    by (rule length_concat_cursors)
  have e: "t_cursorsOfs t + CURSOR_SZ * j + CURSOR_SZ * length cs \<le> t_nodePageSize t"
    by (rule cursor_end [OF assms(1,3)])
  show "length (pw_data (putCursors t j cs pw)) = t_nodePageSize t"
    using e assms(2) by (simp add: putCursors_def l)
  show "pw_pageNum (putCursors t j cs pw) = pw_pageNum pw"
    by (simp add: putCursors_def)
  have "KEYS_OFS \<le> t_cursorsOfs t" by (simp add: geomD(4) [OF assms(1)])
  then have "slice 0 2 (pw_data (putCursors t j cs pw)) = slice 0 2 (pw_data pw)"
    unfolding putCursors_def using e assms(2)
    by (simp, intro slice_overwrite_disj) (auto simp: layout)
  then show "nodeInfo (putCursors t j cs pw) = nodeInfo pw"
    by (simp add: nodeInfo_def)
  assume "i < pageKeys t"
  then have "KEYS_OFS + t_recSize t * i + t_recSize t \<le> t_cursorsOfs t"
    using key_end [OF assms(1), of i 1] by simp
  then show "kslot t (putCursors t j cs pw) i = kslot t pw i"
    using e assms(2) by (simp add: kslot_def putCursors_def slice_overwrite_disj)
qed

lemma cslot_putCursors [page_laws]:
  assumes "geom t" "length (pw_data pw) = t_nodePageSize t"
    "\<forall>c \<in> set cs. c < 2 ^ 32" "j + length cs \<le> Suc (pageKeys t)" "i \<le> pageKeys t"
  shows "cslot t (putCursors t j cs pw) i =
    (if j \<le> i \<and> i < j + length cs then cs ! (i - j) else cslot t pw i)"
proof -
  have e: "t_cursorsOfs t + CURSOR_SZ * i + CURSOR_SZ \<le> t_nodePageSize t"
    using cursor_end [OF assms(1), of i 1] assms(5) by simp
  show ?thesis
  proof (cases "j \<le> i \<and> i < j + length cs")
    case True
    have "slice (CURSOR_SZ * (i - j)) CURSOR_SZ (concat (map (le_enc CURSOR_SZ) cs)) =
        map (le_enc CURSOR_SZ) cs ! (i - j)"
      using True by (intro slice_chunk) auto
    then have "slice (t_cursorsOfs t + CURSOR_SZ * i) CURSOR_SZ (pw_data (putCursors t j cs pw)) =
        le_enc CURSOR_SZ (cs ! (i - j))"
      unfolding putCursors_def using True
      using length_concat_cursors [of cs]
      by (simp, subst slice_overwrite_inside) (auto simp: layout diff_mult_distrib2)
    moreover have "cs ! (i - j) < 256 ^ 4"
      using True assms(3) by auto
    ultimately show ?thesis
      using True by (simp add: cslot_def le_dec_enc layout)
  next
    case False
    then have "cslot t (putCursors t j cs pw) i = cslot t pw i"
      unfolding cslot_def putCursors_def using e assms(2)
      using length_concat_cursors [of cs]
      by (auto simp: slice_overwrite_disj layout)
    then show ?thesis unfolding if_not_P [OF False] .
  qed
qed

subsection \<open>Node information\<close>

lemma nodeInfo_putNodeInfo [page_laws]:
  "2 \<le> length (pw_data pw) \<Longrightarrow> nodeInfo (putNodeInfo w pw) = w"
proof -
  assume "2 \<le> length (pw_data pw)"
  then have "slice 0 2 (pw_data (putNodeInfo w pw)) = le_enc 2 (unat w)"
    by (simp add: putNodeInfo_def slice_overwrite_same)
  moreover have "unat w mod 256 ^ 2 = unat w"
    using unsigned_less [where 'a = nat, of w] by simp
  ultimately show ?thesis
    by (simp add: nodeInfo_def le_dec_enc)
qed

lemma putNodeInfo_frame [page_laws]:
  assumes "geom t" "length (pw_data pw) = t_nodePageSize t"
  shows "length (pw_data (putNodeInfo w pw)) = t_nodePageSize t"
    "pw_pageNum (putNodeInfo w pw) = pw_pageNum pw"
    "i < pageKeys t \<Longrightarrow> kslot t (putNodeInfo w pw) i = kslot t pw i"
    "i \<le> pageKeys t \<Longrightarrow> cslot t (putNodeInfo w pw) i = cslot t pw i"
proof -
  have n: "2 \<le> t_cursorsOfs t" "t_cursorsOfs t \<le> t_nodePageSize t"
    using geomD(4) [OF assms(1)] cursors_end [OF assms(1)] by (simp_all add: layout)
  show "length (pw_data (putNodeInfo w pw)) = t_nodePageSize t"
    using n assms(2) by (simp add: putNodeInfo_def)
  show "pw_pageNum (putNodeInfo w pw) = pw_pageNum pw"
    by (simp add: putNodeInfo_def)
  show "kslot t (putNodeInfo w pw) i = kslot t pw i" if "i < pageKeys t"
    using key_end [OF assms(1), of i 1] that n assms(2)
    by (simp add: kslot_def putNodeInfo_def slice_overwrite_disj layout)
  show "cslot t (putNodeInfo w pw) i = cslot t pw i" if "i \<le> pageKeys t"
    using cursor_end [OF assms(1), of i 1] that n assms(2)
    by (simp add: cslot_def putNodeInfo_def slice_overwrite_disj layout)
qed

lemma bit_mask15: "bit (LEAF_NODE_MASK) i \<longleftrightarrow> i = 15"
proof -
  have m: "LEAF_NODE_MASK = 2 ^ 15"
    by (simp add: LEAF_NODE_MASK_def)
  show ?thesis
    unfolding m bit_exp_iff by auto
qed

lemma bit15_of_nat: "n \<le> MAX_KEYS_NUM \<Longrightarrow> \<not> bit (of_nat n :: 16 word) 15"
  by (simp only: bit_of_nat_iff) (simp add: bit_iff_odd layout)

lemma info_keys:
  assumes "n \<le> MAX_KEYS_NUM"
  shows "(of_nat n :: 16 word) AND NOT LEAF_NODE_MASK = of_nat n"
    "(x AND LEAF_NODE_MASK OR of_nat n) AND NOT LEAF_NODE_MASK = of_nat n"
    "(of_nat n OR LEAF_NODE_MASK) AND NOT LEAF_NODE_MASK = of_nat n"
    "(x AND LEAF_NODE_MASK OR of_nat n) AND LEAF_NODE_MASK = x AND LEAF_NODE_MASK"
    "(of_nat n OR LEAF_NODE_MASK) AND LEAF_NODE_MASK = LEAF_NODE_MASK"
    "(of_nat n :: 16 word) AND LEAF_NODE_MASK = 0"
  using bit15_of_nat [OF assms]
  by (intro bit_word_eqI; auto simp: bit_and_iff bit_or_iff bit_not_iff bit_mask15)+

lemma unat_keys: "n \<le> MAX_KEYS_NUM \<Longrightarrow> unat (of_nat n :: 16 word) = n"
  by (simp add: unat_of_nat layout)

lemma getKeysNum_le: "getKeysNum pw \<le> MAX_KEYS_NUM"
proof -
  have "nodeInfo pw AND NOT LEAF_NODE_MASK \<le> 0x7FFF"
  proof -
    have m: "NOT LEAF_NODE_MASK = 0x7FFF"
      by (simp add: LEAF_NODE_MASK_def)
    show ?thesis
      unfolding m by (rule word_and_le1)
  qed
  then show ?thesis
    by (simp add: getKeysNum_def word_le_nat_alt layout)
qed

lemma setKeyNum_info [page_laws]:
  assumes "2 \<le> length (pw_data pw)" "n \<le> MAX_KEYS_NUM"
  shows "getKeysNum (setKeyNum n pw) = n" "isLeaf (setKeyNum n pw) = isLeaf pw"
  using assms
  by (simp_all add: setKeyNum_def Let_def getKeysNum_def isLeaf_def nodeInfo_putNodeInfo
      info_keys unat_keys)

lemma setKeyNumLeaf_info [page_laws]:
  assumes "2 \<le> length (pw_data pw)" "n \<le> MAX_KEYS_NUM"
  shows "getKeysNum (setKeyNumLeaf n l pw) = n" "isLeaf (setKeyNumLeaf n l pw) = l"
  using assms
  by (simp_all add: setKeyNumLeaf_def Let_def getKeysNum_def isLeaf_def nodeInfo_putNodeInfo
      info_keys unat_keys)
    (simp add: LEAF_NODE_MASK_def)

lemma setLeaf_info:
  assumes "2 \<le> length (pw_data pw)"
  shows "getKeysNum (setLeaf l pw) = getKeysNum pw" "isLeaf (setLeaf l pw) = l"
proof -
  have "(x AND NOT LEAF_NODE_MASK) AND NOT LEAF_NODE_MASK = x AND NOT LEAF_NODE_MASK"
    "(x AND NOT LEAF_NODE_MASK OR LEAF_NODE_MASK) AND NOT LEAF_NODE_MASK = x AND NOT LEAF_NODE_MASK"
    "(x AND NOT LEAF_NODE_MASK) AND LEAF_NODE_MASK = 0"
    "(x AND NOT LEAF_NODE_MASK OR LEAF_NODE_MASK) AND LEAF_NODE_MASK = LEAF_NODE_MASK" for x
    by (intro bit_word_eqI; auto simp: bit_and_iff bit_or_iff bit_not_iff bit_mask15)+
  then show "getKeysNum (setLeaf l pw) = getKeysNum pw" "isLeaf (setLeaf l pw) = l"
    using assms
    by (simp_all add: setLeaf_def Let_def getKeysNum_def isLeaf_def nodeInfo_putNodeInfo)
      (simp add: LEAF_NODE_MASK_def)
qed

lemma setKeyNum_frame [page_laws]:
  assumes "geom t" "length (pw_data pw) = t_nodePageSize t"
  shows "length (pw_data (setKeyNum n pw)) = t_nodePageSize t"
    "pw_pageNum (setKeyNum n pw) = pw_pageNum pw"
    "i < pageKeys t \<Longrightarrow> kslot t (setKeyNum n pw) i = kslot t pw i"
    "i \<le> pageKeys t \<Longrightarrow> cslot t (setKeyNum n pw) i = cslot t pw i"
  using putNodeInfo_frame [OF assms] by (simp_all add: setKeyNum_def Let_def)

lemma setKeyNumLeaf_frame [page_laws]:
  assumes "geom t" "length (pw_data pw) = t_nodePageSize t"
  shows "length (pw_data (setKeyNumLeaf n l pw)) = t_nodePageSize t"
    "pw_pageNum (setKeyNumLeaf n l pw) = pw_pageNum pw"
  using putNodeInfo_frame [OF assms] by (simp_all add: setKeyNumLeaf_def Let_def)

lemma putKeys_info [page_laws]:
  assumes "geom t" "length (pw_data pw) = t_nodePageSize t"
    "\<forall>k \<in> set ks. length k = t_recSize t" "j + length ks \<le> pageKeys t"
  shows "getKeysNum (putKeys t j ks pw) = getKeysNum pw" "isLeaf (putKeys t j ks pw) = isLeaf pw"
  by (simp_all add: getKeysNum_def isLeaf_def putKeys_frame(3) [OF assms])

lemma putCursors_info [page_laws]:
  assumes "geom t" "length (pw_data pw) = t_nodePageSize t" "j + length cs \<le> Suc (pageKeys t)"
  shows "getKeysNum (putCursors t j cs pw) = getKeysNum pw"
    "isLeaf (putCursors t j cs pw) = isLeaf pw"
  by (simp_all add: getKeysNum_def isLeaf_def putCursors_frame(3) [OF assms])

lemma two_le_page: "geom t \<Longrightarrow> length (pw_data pw) = t_nodePageSize t \<Longrightarrow> 2 \<le> length (pw_data pw)"
  using geomD(4,5) [of t] by (simp add: layout)

section \<open>The operations in terms of slots\<close>

lemma getKey_ok: "i < getKeysNum pw \<Longrightarrow> getKey t pw i = Some (int (KEYS_OFS + t_recSize t * i))"
  by (simp add: getKey_def getKeyOfs_def Let_def del: of_nat_add of_nat_mult)

lemma getCursorPtr_ok:
  assumes "geom t" "wfPage t pw" "i \<le> getKeysNum pw"
  shows "getCursorPtr t pw i = Inr (int (t_cursorsOfs t + CURSOR_SZ * i))"
proof -
  have "t_cursorsOfs t + CURSOR_SZ * i < 2 ^ 31"
    using cursor_end [OF assms(1), of i 1] assms geomD(6) [OF assms(1)]
    by (simp add: wfPage_def layout)
  then show ?thesis
    using assms(3)
    by (simp add: getCursorPtr_def getCursorOfs_def Let_def UInt_def int_of_UInt_def
        del: of_nat_add of_nat_mult)
qed

lemma keyAt_ok:
  assumes "geom t" "wfPage t pw" "i < getKeysNum pw"
  shows "keyAt t pw i = Inr (kslot t pw i)"
proof -
  have "KEYS_OFS + t_recSize t * i + t_recSize t \<le> t_nodePageSize t"
    using key_end [OF assms(1), of i 1] cursors_end [OF assms(1)] assms by (simp add: wfPage_def)
  then show ?thesis
    using assms by (simp add: keyAt_def getKey_ok inBuffer_def kslot_def wfPage_def nat_int_add
        del: of_nat_add of_nat_mult)
qed

lemma getCursor_ok:
  assumes "geom t" "wfPage t pw" "i \<le> getKeysNum pw"
  shows "getCursor t pw i = Inr (cslot t pw i)"
  using cursor_end [OF assms(1), of i 1] assms
  by (simp add: getCursor_def getCursorPtr_ok [OF assms] inBuffer_def cslot_def wfPage_def layout
      del: of_nat_add of_nat_mult)

lemma setCursor_ok:
  assumes "geom t" "wfPage t pw" "i \<le> getKeysNum pw"
  shows "setCursor t pw i c = Inr (putCursors t i [c] pw)"
  using cursor_end [OF assms(1), of i 1] assms
  by (simp add: setCursor_def getCursorPtr_ok [OF assms] inBuffer_def putCursors_def wfPage_def
      layout del: of_nat_add of_nat_mult)

lemma keys_slice:
  assumes "geom t" "length (pw_data pw) = t_nodePageSize t" "i + n \<le> pageKeys t"
  shows "slice (KEYS_OFS + t_recSize t * i) (t_recSize t * n) (pw_data pw) =
    concat (map (kslot t pw) [i..<i + n])"
proof -
  have "KEYS_OFS + t_recSize t * i + t_recSize t * n \<le> length (pw_data pw)"
    using key_end [OF assms(1,3)] cursors_end [OF assms(1)] assms(2) by simp
  from concat_slices [OF this, symmetric] show ?thesis
    by (simp add: map_upt_shift kslot_def add_mult_distrib2 add.assoc)
qed

lemma cursors_slice:
  assumes "geom t" "length (pw_data pw) = t_nodePageSize t" "i + n \<le> Suc (pageKeys t)"
  shows "slice (t_cursorsOfs t + CURSOR_SZ * i) (CURSOR_SZ * n) (pw_data pw) =
    concat (map (le_enc CURSOR_SZ) (map (cslot t pw) [i..<i + n]))"
proof -
  have e: "t_cursorsOfs t + CURSOR_SZ * i + CURSOR_SZ * n \<le> length (pw_data pw)"
    using cursor_end [OF assms(1,3)] assms(2) by simp
  have "map (\<lambda>l. slice (t_cursorsOfs t + CURSOR_SZ * i + CURSOR_SZ * l) CURSOR_SZ (pw_data pw)) [0..<n] =
      map (\<lambda>l. le_enc CURSOR_SZ (cslot t pw (i + l))) [0..<n]"
  proof (rule map_cong [OF refl])
    fix l assume "l \<in> set [0..<n]"
    then have "CURSOR_SZ * (i + l) + CURSOR_SZ \<le> CURSOR_SZ * i + CURSOR_SZ * n"
      by (simp add: layout)
    with e show "slice (t_cursorsOfs t + CURSOR_SZ * i + CURSOR_SZ * l) CURSOR_SZ (pw_data pw) =
        le_enc CURSOR_SZ (cslot t pw (i + l))"
      by (simp add: cslot_def le_enc_dec algebra_simps)
  qed
  with concat_slices [OF e, symmetric] show ?thesis
    by (simp only: map_upt_shift map_map comp_def)
qed

text \<open>
  Copying keys and cursors between pages, in bounds.  An empty copy is allowed at the end
  of the key area.
\<close>

lemma copyKeysAt_ok:
  assumes "geom t" "wfPage t dst" "wfPage t src" "j \<le> pageKeys t"
    "n = 0 \<or> j + n \<le> getKeysNum dst \<and> i + n \<le> getKeysNum src"
  shows "copyKeysAt t dst j src i n = Inr (putKeys t j (map (kslot t src) [i..<i + n]) dst)"
proof (cases "n = 0")
  case True
  have "KEYS_OFS + t_recSize t * j \<le> length (pw_data dst)"
    using key_end [OF assms(1), of j 0] cursors_end [OF assms(1)] assms(2,4)
    by (simp add: wfPage_def)
  with True show ?thesis
    by (simp add: copyKeysAt_def copyKeys_def memcpy_def putKeys_def)
next
  case False
  then have b: "j + n \<le> getKeysNum dst" "i + n \<le> getKeysNum src" using assms(5) by auto
  have d: "KEYS_OFS + t_recSize t * j + t_recSize t * n \<le> length (pw_data dst)"
    using key_end [OF assms(1), of j n] cursors_end [OF assms(1)] assms(2) b
    by (simp add: wfPage_def)
  have s: "KEYS_OFS + t_recSize t * i + t_recSize t * n \<le> length (pw_data src)"
    using key_end [OF assms(1), of i n] cursors_end [OF assms(1)] assms(3) b
    by (simp add: wfPage_def)
  have k: "slice (KEYS_OFS + t_recSize t * i) (t_recSize t * n) (pw_data src) =
      concat (map (kslot t src) [i..<i + n])"
    using assms b by (intro keys_slice) (auto simp: wfPage_def)
  have z: "concat (map (kslot t src) [i..<i + n]) = []" if "t_recSize t = 0"
    using k that by (simp add: slice_def)
  show ?thesis
  proof (cases "t_recSize t = 0")
    case True
    then show ?thesis
      unfolding copyKeysAt_def copyKeys_def memcpy_def putKeys_def z [OF True] using d by simp
  next
    case False
    with \<open>n \<noteq> 0\<close> b d s k show ?thesis
      by (simp add: copyKeysAt_def copyKeys_def memcpy_def putKeys_def getKey_ok inBuffer_def
          del: of_nat_add of_nat_mult)
  qed
qed

lemma copyKeyAt_eq: "copyKeyAt t dst j src i = copyKeysAt t dst j src i 1"
  by (simp add: copyKeyAt_def copyKeysAt_def copyKey_def copyKeys_def)

lemma copyKeyAt_ok:
  assumes "geom t" "wfPage t dst" "wfPage t src" "j < getKeysNum dst" "i < getKeysNum src"
  shows "copyKeyAt t dst j src i = Inr (putKeys t j [kslot t src i] dst)"
  using copyKeysAt_ok [of t dst src j 1 i] assms by (simp add: copyKeyAt_eq wfPage_def)

lemma copyKeyFrom_ok:
  assumes "geom t" "wfPage t dst" "j < getKeysNum dst" "length k = t_recSize t"
  shows "copyKeyFrom t dst j k = Inr (putKeys t j [k] dst)"
proof -
  have d: "KEYS_OFS + t_recSize t * j + t_recSize t \<le> length (pw_data dst)"
    using key_end [OF assms(1), of j 1] cursors_end [OF assms(1)] assms(2,3)
    by (simp add: wfPage_def)
  show ?thesis
  proof (cases "t_recSize t = 0")
    case True
    then show ?thesis
      using d assms(4) by (simp add: copyKeyFrom_def copyKey_def memcpy_def putKeys_def)
  next
    case False
    then show ?thesis
      using d assms(3,4)
      by (simp add: copyKeyFrom_def copyKey_def memcpy_def putKeys_def getKey_ok inBuffer_def
          slice_def del: of_nat_add of_nat_mult)
  qed
qed

lemma copyCursorsAt_ok:
  assumes "geom t" "wfPage t dst" "wfPage t src" "0 < n"
    "j + n \<le> Suc (getKeysNum dst)" "i + n \<le> Suc (getKeysNum src)"
  shows "copyCursorsAt t dst j src i n =
    Inr (putCursors t j (map (cslot t src) [i..<i + n]) dst)"
proof -
  have d: "t_cursorsOfs t + CURSOR_SZ * j + CURSOR_SZ * n \<le> length (pw_data dst)"
    and s: "t_cursorsOfs t + CURSOR_SZ * i + CURSOR_SZ * n \<le> length (pw_data src)"
    using cursor_end [OF assms(1), of j n] cursor_end [OF assms(1), of i n] assms
    by (simp_all add: wfPage_def)
  have k: "slice (t_cursorsOfs t + CURSOR_SZ * i) (CURSOR_SZ * n) (pw_data src) =
      concat (map (le_enc CURSOR_SZ) (map (cslot t src) [i..<i + n]))"
    using assms by (intro cursors_slice) (auto simp: wfPage_def)
  have p: "getCursorPtr t dst j = Inr (int (t_cursorsOfs t + CURSOR_SZ * j))"
    "getCursorPtr t src i = Inr (int (t_cursorsOfs t + CURSOR_SZ * i))"
    using assms getCursorPtr_ok [OF assms(1,2), of j] getCursorPtr_ok [OF assms(1,3), of i]
    by simp_all
  have nz: "n * CURSOR_SZ \<noteq> 0"
    using assms(4) by (simp add: layout)
  show ?thesis
    using d s k nz
    by (simp add: copyCursorsAt_def p copyCursors_def memcpy_def inBuffer_def putCursors_def
        mult.commute [of n] del: of_nat_add of_nat_mult)
qed

end
