(* ===== verification/Storage.thy ===== *)
theory Storage
  imports Page_Wrapper
begin

text \<open>
  The file of a tree (btree.hpp, class \<open>BaseBTree\<close>): header, page counter, root page
  number, pages, and behind the last page the area of free pages (their count and a stack
  of page numbers).  Every method is a function from the tree state to a result and the
  new state; offsets are computed in the widths of the code.
\<close>

section \<open>The stream of a tree\<close>

text \<open>\<open>UInt\<close> subtraction wraps.\<close>

definition USub :: "nat \<Rightarrow> nat \<Rightarrow> nat" where
  "USub a b = (a + 2 ^ 32 - b) mod 2 ^ 32"

definition isOpened :: "BaseBTree \<Rightarrow> bool" where
  "isOpened t = (case t_stream t of None \<Rightarrow> False | Some s \<Rightarrow> \<not> failbit s)"

definition checkForOpenStream :: "BaseBTree \<Rightarrow> unit res" where
  "checkForOpenStream t = (if \<not> isOpened t then Inl RuntimeError else Inr ())"

definition seekT :: "nat \<Rightarrow> BaseBTree \<Rightarrow> BaseBTree res" where
  "seekT ofs t =
     (case t_stream t of None \<Rightarrow> Inl MemoryFault
      | Some s \<Rightarrow> Inr (t\<lparr>t_stream := Some (seekg ofs s)\<rparr>))"

definition readT :: "nat \<Rightarrow> BaseBTree \<Rightarrow> (byte list \<times> BaseBTree) res" where
  "readT n t =
     (case t_stream t of None \<Rightarrow> Inl MemoryFault
      | Some s \<Rightarrow> let (got, s) = stream_read n s in Inr (got, t\<lparr>t_stream := Some s\<rparr>))"

definition writeT :: "byte list \<Rightarrow> BaseBTree \<Rightarrow> BaseBTree res" where
  "writeT bs t =
     (case t_stream t of None \<Rightarrow> Inl MemoryFault
      | Some s \<Rightarrow> Inr (t\<lparr>t_stream := Some (stream_write bs s)\<rparr>))"

definition countDisk :: "BaseBTree \<Rightarrow> BaseBTree" where
  "countDisk t = t\<lparr>t_diskOperationsCount := UInt (t_diskOperationsCount t + 1)\<rparr>"

section \<open>Pages\<close>

definition gotoPage :: "nat \<Rightarrow> BaseBTree \<Rightarrow> BaseBTree res" where
  "gotoPage pnum t = seekT (UInt (FIRST_PAGE_OFS + t_nodePageSize t * USub pnum 1)) t"

text \<open>A short read leaves the rest of the destination as it was.\<close>

definition readPageInternal :: "nat \<Rightarrow> byte list \<Rightarrow> BaseBTree \<Rightarrow> (byte list \<times> BaseBTree) res" where
  "readPageInternal pnum dst t =
     bindR (gotoPage pnum t) (\<lambda>t.
     bindR (readT (t_nodePageSize t) t) (\<lambda>(got, t).
       Inr (overwrite 0 got dst, t)))"

definition writePageInternal :: "nat \<Rightarrow> byte list \<Rightarrow> BaseBTree \<Rightarrow> BaseBTree res" where
  "writePageInternal pnum src t =
     bindR (gotoPage pnum t) (\<lambda>t. writeT (take (t_nodePageSize t) src) t)"

definition readPage :: "nat \<Rightarrow> byte list \<Rightarrow> BaseBTree \<Rightarrow> (byte list \<times> BaseBTree) res" where
  "readPage pnum dst t =
     bindR (checkForOpenStream t) (\<lambda>_.
       if pnum = 0 \<or> pnum > t_lastPageNum t then Inl InvalidArgument
       else bindR (readPageInternal pnum dst t) (\<lambda>(d, t). Inr (d, countDisk t)))"

definition writePage :: "nat \<Rightarrow> byte list \<Rightarrow> BaseBTree \<Rightarrow> BaseBTree res" where
  "writePage pnum src t =
     bindR (checkForOpenStream t) (\<lambda>_.
       if pnum = 0 \<or> pnum > t_lastPageNum t then Inl InvalidArgument
       else bindR (writePageInternal pnum src t) (\<lambda>t. Inr (countDisk t)))"

section \<open>Header and counters\<close>

record Header =
  hdr_sign :: nat
  hdr_order :: nat
  hdr_recSize :: nat

definition headerBytes :: "Header \<Rightarrow> byte list" where
  "headerBytes h = le_enc 4 (hdr_sign h) @ le_enc 2 (hdr_order h) @ le_enc 2 (hdr_recSize h)"

definition headerOf :: "byte list \<Rightarrow> Header" where
  "headerOf bs = \<lparr>hdr_sign = le_dec (slice 0 4 bs), hdr_order = le_dec (slice 4 2 bs),
                  hdr_recSize = le_dec (slice 6 2 bs)\<rparr>"

definition checkIntegrity :: "Header \<Rightarrow> bool" where
  "checkIntegrity h \<longleftrightarrow> hdr_sign h = VALID_SIGN \<and> hdr_order h \<ge> 1 \<and> hdr_recSize h > 0"

definition writeHeader :: "BaseBTree \<Rightarrow> BaseBTree res" where
  "writeHeader t =
     (let hdr = \<lparr>hdr_sign = VALID_SIGN, hdr_order = t_order t, hdr_recSize = t_recSize t\<rparr>
      in bindR (writeT (headerBytes hdr) t) (\<lambda>t. Inr (countDisk t)))"

definition readHeader :: "BaseBTree \<Rightarrow> (Header \<times> BaseBTree) res" where
  "readHeader t =
     bindR (seekT HEADER_OFS t) (\<lambda>t.
     bindR (readT HEADER_SIZE t) (\<lambda>(got, t).
       Inr (headerOf (overwrite 0 got (replicate HEADER_SIZE 0)), countDisk t)))"

definition writePageCounter :: "BaseBTree \<Rightarrow> BaseBTree res" where
  "writePageCounter t =
     bindR (seekT PAGE_COUNTER_OFS t) (\<lambda>t.
     bindR (writeT (le_enc PAGE_COUNTER_SZ (t_lastPageNum t)) t) (\<lambda>t. Inr (countDisk t)))"

definition readPageCounter :: "BaseBTree \<Rightarrow> BaseBTree res" where
  "readPageCounter t =
     bindR (seekT PAGE_COUNTER_OFS t) (\<lambda>t.
     bindR (readT PAGE_COUNTER_SZ t) (\<lambda>(got, t).
       Inr (countDisk (t\<lparr>t_lastPageNum := le_dec (overwrite 0 got (le_enc 4 (t_lastPageNum t)))\<rparr>))))"

definition writeRootPageNum :: "BaseBTree \<Rightarrow> BaseBTree res" where
  "writeRootPageNum t =
     bindR (seekT ROOT_PAGE_NUM_OFS t) (\<lambda>t.
     bindR (writeT (le_enc ROOT_PAGE_NUM_SZ (t_rootPageNum t)) t) (\<lambda>t. Inr (countDisk t)))"

definition readRootPageNum :: "BaseBTree \<Rightarrow> BaseBTree res" where
  "readRootPageNum t =
     bindR (seekT ROOT_PAGE_NUM_OFS t) (\<lambda>t.
     bindR (readT ROOT_PAGE_NUM_SZ t) (\<lambda>(got, t).
       Inr (countDisk (t\<lparr>t_rootPageNum := le_dec (overwrite 0 got (le_enc 4 (t_rootPageNum t)))\<rparr>))))"

definition setRootPageNum :: "nat \<Rightarrow> bool \<Rightarrow> BaseBTree \<Rightarrow> BaseBTree res" where
  "setRootPageNum pnum writeFlag t =
     (let t = t\<lparr>t_rootPageNum := pnum\<rparr> in if writeFlag then writeRootPageNum t else Inr t)"

section \<open>Free pages\<close>

definition getPageOfs :: "nat \<Rightarrow> BaseBTree \<Rightarrow> nat" where
  "getPageOfs pageNum t = ULong t (FIRST_PAGE_OFS + UInt (USub pageNum 1 * t_nodePageSize t))"

definition getFreePagesInfoAreaOfs :: "BaseBTree \<Rightarrow> nat" where
  "getFreePagesInfoAreaOfs t = getPageOfs (UInt (t_lastPageNum t + 1)) t"

definition getLastFreePageNumOfs :: "BaseBTree \<Rightarrow> nat" where
  "getLastFreePageNumOfs t =
     ULong t (getFreePagesInfoAreaOfs t + FREE_PAGES_COUNTER_SZ +
              UInt (USub (t_freePagesCounter t) 1 * FREE_PAGE_NUM_SZ))"

definition loadFreePagesCounter :: "BaseBTree \<Rightarrow> BaseBTree res" where
  "loadFreePagesCounter t =
     bindR (seekT (getFreePagesInfoAreaOfs t) t) (\<lambda>t.
     bindR (readT FREE_PAGES_COUNTER_SZ t) (\<lambda>(got, t).
       Inr (countDisk
         (t\<lparr>t_freePagesCounter := le_dec (overwrite 0 got (le_enc 4 (t_freePagesCounter t)))\<rparr>))))"

definition writeFreePagesCounter :: "BaseBTree \<Rightarrow> BaseBTree res" where
  "writeFreePagesCounter t =
     bindR (seekT (getFreePagesInfoAreaOfs t) t) (\<lambda>t.
     bindR (writeT (le_enc FREE_PAGES_COUNTER_SZ (t_freePagesCounter t)) t) (\<lambda>t.
       Inr (countDisk t)))"

text \<open>On a short read the result of the code is indeterminate in the bytes not read.\<close>

definition getLastFreePageNum :: "BaseBTree \<Rightarrow> (nat \<times> BaseBTree) res" where
  "getLastFreePageNum t =
     bindR (seekT (getLastFreePageNumOfs t) t) (\<lambda>t.
     bindR (readT FREE_PAGE_NUM_SZ t) (\<lambda>(got, t). Inr (le_dec got, countDisk t)))"

definition markPageFree :: "nat \<Rightarrow> BaseBTree \<Rightarrow> BaseBTree res" where
  "markPageFree pageNum t =
     (if pageNum > t_lastPageNum t then Inl InvalidArgument
      else bindR (seekT (ULong t (getLastFreePageNumOfs t + FREE_PAGE_NUM_SZ)) t) (\<lambda>t.
           bindR (writeT (le_enc FREE_PAGE_NUM_SZ pageNum) t) (\<lambda>t.
             let t = countDisk t;
                 t = t\<lparr>t_freePagesCounter := UInt (t_freePagesCounter t + 1)\<rparr>
             in writeFreePagesCounter t)))"

section \<open>Allocation\<close>

definition allocPageInternal ::
  "PageWrapper \<Rightarrow> nat \<Rightarrow> bool \<Rightarrow> BaseBTree \<Rightarrow> (PageWrapper \<times> BaseBTree) res" where
  "allocPageInternal pw keysNum leaf t =
     (let pw = setKeyNumLeaf keysNum leaf (clear t pw)
      in bindR (seekT (getFreePagesInfoAreaOfs t) t) (\<lambda>t.
         bindR (writeT (take (t_nodePageSize t) (pw_data pw)) t) (\<lambda>t.
         bindR (writePageCounter (t\<lparr>t_lastPageNum := UInt (t_lastPageNum t + 1)\<rparr>)) (\<lambda>t.
           Inr (pw, t)))))"

definition allocPageUsingFreePagesInternal ::
  "PageWrapper \<Rightarrow> nat \<Rightarrow> bool \<Rightarrow> nat \<Rightarrow> BaseBTree \<Rightarrow> (PageWrapper \<times> BaseBTree) res" where
  "allocPageUsingFreePagesInternal pw keysNum leaf freePageNum t =
     (let pw = setKeyNumLeaf keysNum leaf (clear t pw)
      in bindR (seekT (getPageOfs freePageNum t) t) (\<lambda>t.
         bindR (writeT (take (t_nodePageSize t) (pw_data pw)) t) (\<lambda>t.
           Inr (pw, t))))"

definition allocPageUsingFreePages ::
  "PageWrapper \<Rightarrow> nat \<Rightarrow> bool \<Rightarrow> BaseBTree \<Rightarrow> (nat \<times> PageWrapper \<times> BaseBTree) res" where
  "allocPageUsingFreePages pw keysNum leaf t =
     (if t_freePagesCounter t = 0
      then bindR (allocPageInternal pw keysNum leaf t) (\<lambda>(pw, t).
           bindR (writeFreePagesCounter t) (\<lambda>t. Inr (t_lastPageNum t, pw, t)))
      else bindR (getLastFreePageNum t) (\<lambda>(lastFree, t).
           bindR (allocPageUsingFreePagesInternal pw keysNum leaf lastFree t) (\<lambda>(pw, t).
           bindR (writeFreePagesCounter (t\<lparr>t_freePagesCounter := USub (t_freePagesCounter t) 1\<rparr>)) (\<lambda>t.
             Inr (lastFree, pw, t)))))"

text \<open>
  \<open>PageWrapper::allocPage\<close> and \<open>allocNewRootPage\<close> with the tree methods they call.  The
  flag that says whether the page is the root is passed down by the code and never read.
\<close>

definition allocPage :: "PageWrapper \<Rightarrow> nat \<Rightarrow> bool \<Rightarrow> BaseBTree \<Rightarrow> (PageWrapper \<times> BaseBTree) res" where
  "allocPage pw keysNum leaf t =
     bindR (checkForOpenStream t) (\<lambda>_.
     bindR (allocPageUsingFreePages pw keysNum leaf (countDisk t)) (\<lambda>(n, pw, t).
       Inr (pw\<lparr>pw_pageNum := n\<rparr>, t)))"

definition allocNewRootPage :: "PageWrapper \<Rightarrow> BaseBTree \<Rightarrow> (PageWrapper \<times> BaseBTree) res" where
  "allocNewRootPage pw t =
     bindR (checkForOpenStream t) (\<lambda>_.
     bindR (allocPageUsingFreePages pw 0 False t) (\<lambda>(n, pw, t).
       Inr (pw\<lparr>pw_pageNum := n\<rparr>, t)))"

section \<open>Page wrappers and the file\<close>

definition PageWrapper_readPage :: "PageWrapper \<Rightarrow> nat \<Rightarrow> BaseBTree \<Rightarrow> (PageWrapper \<times> BaseBTree) res" where
  "PageWrapper_readPage pw pnum t =
     bindR (readPage pnum (pw_data pw) t) (\<lambda>(d, t).
       Inr (pw\<lparr>pw_data := d, pw_pageNum := pnum\<rparr>, t))"

definition readPageFromChild ::
  "PageWrapper \<Rightarrow> PageWrapper \<Rightarrow> nat \<Rightarrow> BaseBTree \<Rightarrow> (PageWrapper \<times> BaseBTree) res" where
  "readPageFromChild this pw chNum t =
     bindR (getCursor t pw chNum) (\<lambda>cur.
       if cur = 0 then Inl InvalidArgument else PageWrapper_readPage this cur t)"

definition PageWrapper_writePage :: "PageWrapper \<Rightarrow> BaseBTree \<Rightarrow> BaseBTree res" where
  "PageWrapper_writePage pw t =
     (if pw_pageNum pw = 0 then Inl RuntimeError else writePage (pw_pageNum pw) (pw_data pw) t)"

definition setAsRoot :: "PageWrapper \<Rightarrow> bool \<Rightarrow> BaseBTree \<Rightarrow> BaseBTree res" where
  "setAsRoot pw writeFlag t =
     (let t = t\<lparr>t_rootPageNum := pw_pageNum pw\<rparr>
      in if \<not> writeFlag then Inr t
         else if pw_pageNum pw = 0 then Inl RuntimeError
         else setRootPageNum (pw_pageNum pw) True t)"

section \<open>Creating and loading a tree\<close>

definition createRootPage :: "BaseBTree \<Rightarrow> BaseBTree res" where
  "createRootPage t =
     bindR (allocPage (t_rootPage t) 0 True t) (\<lambda>(pw, t).
       setAsRoot pw True (t\<lparr>t_rootPage := pw\<rparr>))"

definition createTree :: "nat \<Rightarrow> nat \<Rightarrow> BaseBTree \<Rightarrow> BaseBTree res" where
  "createTree order recSize t =
     bindR (setOrder order recSize t) (\<lambda>t.
     bindR (writeHeader t) (\<lambda>t.
     bindR (writePageCounter t) (\<lambda>t.
     bindR (writeRootPageNum t) (\<lambda>t.
     bindR (createRootPage t) (\<lambda>t.
       writeFreePagesCounter t)))))"

definition loadRootPage :: "BaseBTree \<Rightarrow> BaseBTree res" where
  "loadRootPage t =
     (if t_rootPageNum t = 0 then Inl RuntimeError
      else bindR (PageWrapper_readPage (t_rootPage t) (t_rootPageNum t) t) (\<lambda>(pw, t).
             setAsRoot pw False (t\<lparr>t_rootPage := pw\<rparr>)))"

definition streamFailed :: "BaseBTree \<Rightarrow> bool" where
  "streamFailed t = (case t_stream t of None \<Rightarrow> True | Some s \<Rightarrow> failbit s)"

definition loadTree :: "BaseBTree \<Rightarrow> BaseBTree res" where
  "loadTree t =
     bindR (readHeader t) (\<lambda>(hdr, t).
       if streamFailed t then Inl RuntimeError
       else if \<not> checkIntegrity hdr then Inl RuntimeError
       else bindR (setOrder (hdr_order hdr) (hdr_recSize hdr) t) (\<lambda>t.
            bindR (readPageCounter t) (\<lambda>t.
            bindR (readRootPageNum t) (\<lambda>t.
              if streamFailed t then Inl RuntimeError
              else bindR (loadRootPage t) (\<lambda>t. loadFreePagesCounter t)))))"

end
