(* ===== verification/Page_Store.thy ===== *)
theory Page_Store
  imports Storage
begin

text \<open>
  The contract of the file layer.  An abstract page store (\<open>pstore\<close>) has numbered pages
  and a stack of free page numbers; \<open>absStore\<close> reads it off the bytes of the file, and
  each method of \<open>Storage\<close> refines an operation on it as long as the file is well formed
  (\<open>storeOk\<close>) and the offsets of the code do not wrap.  The clients, the tree
  algorithms, use the laws of the locale \<open>page_store\<close> only.
\<close>

section \<open>The abstract store\<close>

record pstore =
  ps_last :: nat
  ps_root :: nat
  ps_free :: "nat list"
  ps_page :: "nat \<Rightarrow> byte list"

definition ps_live :: "pstore \<Rightarrow> nat \<Rightarrow> bool" where
  "ps_live \<sigma> n \<longleftrightarrow> 1 \<le> n \<and> n \<le> ps_last \<sigma>"

definition ps_write :: "nat \<Rightarrow> byte list \<Rightarrow> pstore \<Rightarrow> pstore" where
  "ps_write n d \<sigma> = \<sigma>\<lparr>ps_page := (ps_page \<sigma>)(n := d)\<rparr>"

definition ps_alloc :: "byte list \<Rightarrow> pstore \<Rightarrow> nat \<times> pstore" where
  "ps_alloc d \<sigma> =
     (if ps_free \<sigma> = []
      then (ps_last \<sigma> + 1, ps_write (ps_last \<sigma> + 1) d (\<sigma>\<lparr>ps_last := ps_last \<sigma> + 1\<rparr>))
      else (last (ps_free \<sigma>),
            ps_write (last (ps_free \<sigma>)) d (\<sigma>\<lparr>ps_free := butlast (ps_free \<sigma>)\<rparr>)))"

definition ps_push :: "nat \<Rightarrow> pstore \<Rightarrow> pstore" where
  "ps_push n \<sigma> = \<sigma>\<lparr>ps_free := ps_free \<sigma> @ [n]\<rparr>"

definition ps_ok :: "pstore \<Rightarrow> bool" where
  "ps_ok \<sigma> \<longleftrightarrow> distinct (ps_free \<sigma>) \<and> (\<forall>n \<in> set (ps_free \<sigma>). ps_live \<sigma> n)"

text \<open>The pages an allocation may return.\<close>

definition ps_avail :: "pstore \<Rightarrow> nat set" where
  "ps_avail \<sigma> = set (ps_free \<sigma>) \<union> {n. ps_last \<sigma> < n}"

lemma ps_alloc_fresh:
  assumes "ps_ok \<sigma>" "ps_alloc d \<sigma> = (n, \<sigma>')"
  shows "n \<in> ps_avail \<sigma>" "ps_avail \<sigma>' = ps_avail \<sigma> - {n}" "ps_ok \<sigma>'" "ps_live \<sigma>' n"
    "ps_page \<sigma>' = (ps_page \<sigma>)(n := d)" "ps_root \<sigma>' = ps_root \<sigma>" "ps_last \<sigma> \<le> ps_last \<sigma>'"
proof -
  show "n \<in> ps_avail \<sigma>" "ps_page \<sigma>' = (ps_page \<sigma>)(n := d)" "ps_root \<sigma>' = ps_root \<sigma>"
    "ps_last \<sigma> \<le> ps_last \<sigma>'"
    using assms(2) by (auto simp: ps_alloc_def ps_avail_def ps_write_def split: if_splits)
  show "ps_avail \<sigma>' = ps_avail \<sigma> - {n}" "ps_ok \<sigma>'" "ps_live \<sigma>' n"
  proof -
    consider (new) "ps_free \<sigma> = []" | (old) fs where "ps_free \<sigma> = fs @ [n]"
      using assms(2) by (cases "ps_free \<sigma>" rule: rev_cases) (auto simp: ps_alloc_def)
    then have "ps_avail \<sigma>' = ps_avail \<sigma> - {n} \<and> ps_ok \<sigma>' \<and> ps_live \<sigma>' n"
    proof cases
      case new
      then show ?thesis
        using assms by (auto simp: ps_alloc_def ps_avail_def ps_write_def ps_ok_def ps_live_def)
    next
      case old
      then have "\<sigma>' = ps_write n d (\<sigma>\<lparr>ps_free := fs\<rparr>)"
        using assms(2) by (simp add: ps_alloc_def)
      with old assms(1) show ?thesis
        by (auto simp: ps_avail_def ps_write_def ps_ok_def ps_live_def)
    qed
    then show "ps_avail \<sigma>' = ps_avail \<sigma> - {n}" "ps_ok \<sigma>'" "ps_live \<sigma>' n" by auto
  qed
qed

section \<open>Well-formed files\<close>

definition bytesOf :: "BaseBTree \<Rightarrow> byte list" where
  "bytesOf t = (case t_stream t of None \<Rightarrow> [] | Some s \<Rightarrow> content s)"

definition pageOfs :: "BaseBTree \<Rightarrow> nat \<Rightarrow> nat" where
  "pageOfs t n = FIRST_PAGE_OFS + t_nodePageSize t * (n - 1)"

abbreviation areaOfs :: "BaseBTree \<Rightarrow> nat" where
  "areaOfs t \<equiv> pageOfs t (Suc (t_lastPageNum t))"

definition pageBytes :: "BaseBTree \<Rightarrow> nat \<Rightarrow> byte list" where
  "pageBytes t n = slice (pageOfs t n) (t_nodePageSize t) (bytesOf t)"

definition freeSlot :: "BaseBTree \<Rightarrow> nat \<Rightarrow> nat" where
  "freeSlot t i = le_dec (slice (areaOfs t + 4 + 4 * i) 4 (bytesOf t))"

definition absStore :: "BaseBTree \<Rightarrow> pstore" where
  "absStore t =
     \<lparr>ps_last = t_lastPageNum t, ps_root = t_rootPageNum t,
      ps_free = map (freeSlot t) [0..<t_freePagesCounter t],
      ps_page = (\<lambda>n. if 1 \<le> n \<and> n \<le> t_lastPageNum t then pageBytes t n else [])\<rparr>"

text \<open>Everything of a tree but the store and the operation counter.\<close>

definition frame :: "BaseBTree \<Rightarrow> BaseBTree" where
  "frame t = t\<lparr>t_lastPageNum := 0, t_rootPageNum := 0, t_freePagesCounter := 0,
               t_diskOperationsCount := 0, t_stream := None\<rparr>"

definition treeHeader :: "BaseBTree \<Rightarrow> Header" where
  "treeHeader t = \<lparr>hdr_sign = VALID_SIGN, hdr_order = t_order t, hdr_recSize = t_recSize t\<rparr>"

text \<open>
  The file of a tree: header and counters as the fields say, all pages and the free-page
  area present, and every offset of the code below \<open>2 ^ 32\<close>.
\<close>

definition storeOk :: "BaseBTree \<Rightarrow> bool" where
  "storeOk t \<longleftrightarrow>
     geom t \<and> 32 \<le> t_ulongBits t \<and> isOpened t \<and> t_rootPageNum t < 2 ^ 32 \<and>
     areaOfs t + 4 + 4 * t_freePagesCounter t \<le> length (bytesOf t) \<and>
     areaOfs t + 4 + 4 * t_freePagesCounter t < 2 ^ 32 \<and>
     slice 0 8 (bytesOf t) = headerBytes (treeHeader t) \<and>
     slice 8 4 (bytesOf t) = le_enc 4 (t_lastPageNum t) \<and>
     slice 12 4 (bytesOf t) = le_enc 4 (t_rootPageNum t) \<and>
     slice (areaOfs t) 4 (bytesOf t) = le_enc 4 (t_freePagesCounter t)"

lemma storeOkD:
  assumes "storeOk t"
  shows "geom t" "32 \<le> t_ulongBits t" "isOpened t" "t_rootPageNum t < 2 ^ 32"
    "areaOfs t + 4 + 4 * t_freePagesCounter t \<le> length (bytesOf t)"
    "areaOfs t + 4 + 4 * t_freePagesCounter t < 2 ^ 32"
    "slice 0 8 (bytesOf t) = headerBytes (treeHeader t)"
    "slice 8 4 (bytesOf t) = le_enc 4 (t_lastPageNum t)"
    "slice 12 4 (bytesOf t) = le_enc 4 (t_rootPageNum t)"
    "slice (areaOfs t) 4 (bytesOf t) = le_enc 4 (t_freePagesCounter t)"
  using assms by (simp_all add: storeOk_def)

text \<open>A write of some bytes at an offset of an open file, as the state it leaves.\<close>

definition putBytes :: "nat \<Rightarrow> byte list \<Rightarrow> BaseBTree \<Rightarrow> BaseBTree" where
  "putBytes ofs bs t =
     t\<lparr>t_stream := map_option (\<lambda>s. s\<lparr>content := overwrite ofs bs (content s), pos := ofs + length bs\<rparr>)
                      (t_stream t)\<rparr>"

definition movePos :: "nat \<Rightarrow> BaseBTree \<Rightarrow> BaseBTree" where
  "movePos p t = t\<lparr>t_stream := map_option (\<lambda>s. s\<lparr>pos := p\<rparr>) (t_stream t)\<rparr>"

lemma isOpenedE:
  assumes "isOpened t"
  obtains s where "t_stream t = Some s" "\<not> failbit s"
  using assms by (auto simp: isOpened_def split: option.splits)

lemma seek_ok: "isOpened t \<Longrightarrow> seekT ofs t = Inr (movePos ofs t)"
  by (auto elim!: isOpenedE simp: seekT_def seekg_def movePos_def)

lemma write_ok: "isOpened t \<Longrightarrow> writeT bs (movePos ofs t) = Inr (putBytes ofs bs t)"
  by (auto elim!: isOpenedE simp: writeT_def stream_write_def movePos_def putBytes_def)

lemma read_ok:
  "isOpened t \<Longrightarrow> ofs + n \<le> length (bytesOf t) \<Longrightarrow>
   readT n (movePos ofs t) = Inr (slice ofs n (bytesOf t), movePos (ofs + n) t)"
  by (auto elim!: isOpenedE simp: readT_def stream_read_def movePos_def bytesOf_def Let_def)

lemma movePos_fields [simp]:
  "t_lastPageNum (movePos p t) = t_lastPageNum t" "t_rootPageNum (movePos p t) = t_rootPageNum t"
  "t_freePagesCounter (movePos p t) = t_freePagesCounter t"
  "t_nodePageSize (movePos p t) = t_nodePageSize t"
  "t_rootPage (movePos p t) = t_rootPage t" "t_ulongBits (movePos p t) = t_ulongBits t"
  "frame (movePos p t) = frame t" "bytesOf (movePos p t) = bytesOf t"
  "isOpened (movePos p t) = isOpened t"
  by (auto simp: movePos_def frame_def bytesOf_def isOpened_def split: option.splits)

lemma putBytes_fields [simp]:
  "t_lastPageNum (putBytes p b t) = t_lastPageNum t"
  "t_rootPageNum (putBytes p b t) = t_rootPageNum t"
  "t_freePagesCounter (putBytes p b t) = t_freePagesCounter t"
  "t_nodePageSize (putBytes p b t) = t_nodePageSize t"
  "t_rootPage (putBytes p b t) = t_rootPage t" "t_ulongBits (putBytes p b t) = t_ulongBits t"
  "frame (putBytes p b t) = frame t" "isOpened (putBytes p b t) = isOpened t"
  "isOpened t \<Longrightarrow> bytesOf (putBytes p b t) = overwrite p b (bytesOf t)"
  by (auto simp: putBytes_def frame_def bytesOf_def isOpened_def split: option.splits)

lemma countDisk_fields [simp]:
  "t_lastPageNum (countDisk t) = t_lastPageNum t" "t_rootPageNum (countDisk t) = t_rootPageNum t"
  "t_freePagesCounter (countDisk t) = t_freePagesCounter t"
  "t_nodePageSize (countDisk t) = t_nodePageSize t"
  "t_rootPage (countDisk t) = t_rootPage t" "t_ulongBits (countDisk t) = t_ulongBits t"
  "frame (countDisk t) = frame t" "bytesOf (countDisk t) = bytesOf t"
  "isOpened (countDisk t) = isOpened t"
  by (auto simp: countDisk_def frame_def bytesOf_def isOpened_def)

lemma rootPage_fields [simp]:
  "isOpened (t\<lparr>t_rootPage := pw\<rparr>) = isOpened t" "bytesOf (t\<lparr>t_rootPage := pw\<rparr>) = bytesOf t"
  "frame (t\<lparr>t_rootPage := pw\<rparr>) = (frame t)\<lparr>t_rootPage := pw\<rparr>"
  "isOpened (t\<lparr>t_maxSearchDepth := d\<rparr>) = isOpened t" "bytesOf (t\<lparr>t_maxSearchDepth := d\<rparr>) = bytesOf t"
  "frame (t\<lparr>t_maxSearchDepth := d\<rparr>) = (frame t)\<lparr>t_maxSearchDepth := d\<rparr>"
  by (simp_all add: isOpened_def bytesOf_def frame_def)

section \<open>What depends on the frame only\<close>

lemma frame_eqD:
  assumes "frame t' = frame t"
  shows "t_treeType t' = t_treeType t" "t_ulongBits t' = t_ulongBits t" "t_order t' = t_order t"
    "t_maxKeys t' = t_maxKeys t" "t_minKeys t' = t_minKeys t" "t_keysSize t' = t_keysSize t"
    "t_cursorsOfs t' = t_cursorsOfs t" "t_nodePageSize t' = t_nodePageSize t"
    "t_recSize t' = t_recSize t" "t_maxSearchDepth t' = t_maxSearchDepth t"
    "t_rootPage t' = t_rootPage t" "t_comparator t' = t_comparator t"
    "t_maxLeafKeys t' = t_maxLeafKeys t" "t_minLeafKeys t' = t_minLeafKeys t"
    "t_maxRootKeys t' = t_maxRootKeys t"
  using assms by (cases t, cases t'; simp add: frame_def)+

lemma frame_eqF:
  assumes "frame t' = frame t"
  shows "pageKeys t' = pageKeys t" "geom t' = geom t" "kslot t' = kslot t" "cslot t' = cslot t"
    "keysOf t' = keysOf t" "cursorsOf t' = cursorsOf t" "wfPage t' = wfPage t"
    "pageOfs t' = pageOfs t" "treeHeader t' = treeHeader t"
    "putKeys t' = putKeys t" "putCursors t' = putCursors t"
proof -
  note f = frame_eqD [OF assms]
  show k: "pageKeys t' = pageKeys t" by (cases "t_treeType t") (simp_all add: pageKeys_def f)
  show "geom t' = geom t" by (simp add: geom_def geometry_def k f)
  show "kslot t' = kslot t" "cslot t' = cslot t" by (simp_all add: fun_eq_iff kslot_def cslot_def f)
  then show "keysOf t' = keysOf t" "cursorsOf t' = cursorsOf t"
    by (simp_all add: fun_eq_iff keysOf_def cursorsOf_def)
  show "wfPage t' = wfPage t" by (simp add: fun_eq_iff wfPage_def k f)
  show "pageOfs t' = pageOfs t" by (simp add: fun_eq_iff pageOfs_def f)
  show "treeHeader t' = treeHeader t" by (simp add: treeHeader_def f)
  show "putKeys t' = putKeys t" "putCursors t' = putCursors t"
    by (simp_all add: fun_eq_iff putKeys_def putCursors_def f)
qed

text \<open>The page layout does not depend on the cached root page or on the search statistics.\<close>

lemma layout_rootPage [simp]:
  "pageKeys (t\<lparr>t_rootPage := pw\<rparr>) = pageKeys t" "geom (t\<lparr>t_rootPage := pw\<rparr>) = geom t"
  "kslot (t\<lparr>t_rootPage := pw\<rparr>) = kslot t" "cslot (t\<lparr>t_rootPage := pw\<rparr>) = cslot t"
  "wfPage (t\<lparr>t_rootPage := pw\<rparr>) = wfPage t" "pageOfs (t\<lparr>t_rootPage := pw\<rparr>) = pageOfs t"
  "treeHeader (t\<lparr>t_rootPage := pw\<rparr>) = treeHeader t"
  "keysOf (t\<lparr>t_rootPage := pw\<rparr>) = keysOf t" "cursorsOf (t\<lparr>t_rootPage := pw\<rparr>) = cursorsOf t"
  by (cases "t_treeType t"; simp add: pageKeys_def geom_def geometry_def fun_eq_iff kslot_def cslot_def
      wfPage_def pageOfs_def treeHeader_def keysOf_def cursorsOf_def)+

lemma layout_searchDepth [simp]:
  "pageKeys (t\<lparr>t_maxSearchDepth := d\<rparr>) = pageKeys t" "geom (t\<lparr>t_maxSearchDepth := d\<rparr>) = geom t"
  "kslot (t\<lparr>t_maxSearchDepth := d\<rparr>) = kslot t" "cslot (t\<lparr>t_maxSearchDepth := d\<rparr>) = cslot t"
  "wfPage (t\<lparr>t_maxSearchDepth := d\<rparr>) = wfPage t" "pageOfs (t\<lparr>t_maxSearchDepth := d\<rparr>) = pageOfs t"
  "treeHeader (t\<lparr>t_maxSearchDepth := d\<rparr>) = treeHeader t"
  "keysOf (t\<lparr>t_maxSearchDepth := d\<rparr>) = keysOf t" "cursorsOf (t\<lparr>t_maxSearchDepth := d\<rparr>) = cursorsOf t"
  by (cases "t_treeType t"; simp add: pageKeys_def geom_def geometry_def fun_eq_iff kslot_def cslot_def
      wfPage_def pageOfs_def treeHeader_def keysOf_def cursorsOf_def)+

lemma store_rootPage [simp]:
  "absStore (t\<lparr>t_rootPage := pw\<rparr>) = absStore t" "storeOk (t\<lparr>t_rootPage := pw\<rparr>) = storeOk t"
  "absStore (t\<lparr>t_maxSearchDepth := d\<rparr>) = absStore t" "storeOk (t\<lparr>t_maxSearchDepth := d\<rparr>) = storeOk t"
  by (simp_all add: absStore_def storeOk_def pageBytes_def freeSlot_def fun_eq_iff bytesOf_def isOpened_def)

section \<open>Offsets\<close>

lemma pageSize_pos: "geom t \<Longrightarrow> 2 < t_nodePageSize t"
  using geomD(4,5) [of t] by (simp add: layout)

lemma pageOfs_ge: "FIRST_PAGE_OFS \<le> pageOfs t n"
  by (simp add: pageOfs_def)

lemma pageOfs_less:
  assumes "1 \<le> n" "n < m"
  shows "pageOfs t n + t_nodePageSize t \<le> pageOfs t m"
proof -
  have "t_nodePageSize t * (n - 1) + t_nodePageSize t = t_nodePageSize t * n"
    using assms(1) by (cases n) auto
  moreover have "t_nodePageSize t * n \<le> t_nodePageSize t * (m - 1)"
    using assms(2) by (intro mult_le_mono2) simp
  ultimately show ?thesis by (simp add: pageOfs_def)
qed

lemma last_less:
  assumes "storeOk t"
  shows "t_lastPageNum t < 2 ^ 31"
proof -
  have "2 * t_lastPageNum t \<le> t_nodePageSize t * t_lastPageNum t"
    using pageSize_pos [OF storeOkD(1) [OF assms]] by (intro mult_le_mono1) simp
  also have "\<dots> < 2 ^ 32"
    using storeOkD(6) [OF assms] by (simp add: pageOfs_def)
  finally show ?thesis by simp
qed

lemma USub_1:
  assumes "1 \<le> n" "n < 2 ^ 32"
  shows "USub n 1 = n - 1"
proof -
  have "n + 2 ^ 32 - 1 = (n - 1) + 2 ^ 32" using assms(1) by simp
  then show ?thesis using assms(2) by (simp only: USub_def mod_add_self2) simp
qed

lemma page_ofs_code':
  assumes "32 \<le> t_ulongBits t" "1 \<le> n" "n < 2 ^ 32" "pageOfs t n < 2 ^ 32"
  shows "UInt (FIRST_PAGE_OFS + t_nodePageSize t * USub n 1) = pageOfs t n"
    "getPageOfs n t = pageOfs t n"
proof -
  have u: "USub n 1 = n - 1"
    using USub_1 assms by simp
  show "UInt (FIRST_PAGE_OFS + t_nodePageSize t * USub n 1) = pageOfs t n"
    using assms(4) by (simp add: u [simplified] pageOfs_def UInt_def)
  have "(2::nat) ^ 32 \<le> 2 ^ t_ulongBits t"
    using assms(1) by (intro power_increasing) auto
  then show "getPageOfs n t = pageOfs t n"
    using assms(4)
    by (simp add: getPageOfs_def u [simplified] pageOfs_def UInt_def ULong_def mult.commute)
qed

lemma page_ofs_code:
  assumes "storeOk t" "1 \<le> n" "n \<le> Suc (t_lastPageNum t)"
  shows "UInt (FIRST_PAGE_OFS + t_nodePageSize t * USub n 1) = pageOfs t n"
    "getPageOfs n t = pageOfs t n"
proof -
  have "pageOfs t n \<le> areaOfs t"
    using assms(2,3) pageOfs_less [of n "Suc (t_lastPageNum t)" t]
    by (cases "n = Suc (t_lastPageNum t)") auto
  then have "pageOfs t n < 2 ^ 32"
    using storeOkD(6) [OF assms(1)] by linarith
  then show "UInt (FIRST_PAGE_OFS + t_nodePageSize t * USub n 1) = pageOfs t n"
    "getPageOfs n t = pageOfs t n"
    using page_ofs_code' [of t n] assms last_less [OF assms(1)] storeOkD(2) [OF assms(1)] by auto
qed

lemma area_ofs_code: "storeOk t \<Longrightarrow> getFreePagesInfoAreaOfs t = areaOfs t"
  using last_less [of t] page_ofs_code(2) [of t "Suc (t_lastPageNum t)"]
  by (simp add: getFreePagesInfoAreaOfs_def UInt_def)

lemma page_in_file:
  assumes "storeOk t" "1 \<le> n" "n \<le> t_lastPageNum t"
  shows "pageOfs t n + t_nodePageSize t \<le> areaOfs t"
    "pageOfs t n + t_nodePageSize t \<le> length (bytesOf t)"
  using pageOfs_less [of n "Suc (t_lastPageNum t)" t] storeOkD(5) [OF assms(1)] assms(2,3) by auto

lemma length_pageBytes: "storeOk t \<Longrightarrow> 1 \<le> n \<Longrightarrow> n \<le> t_lastPageNum t \<Longrightarrow> length (pageBytes t n) = t_nodePageSize t"
  using page_in_file [of t n] by (simp add: pageBytes_def)

section \<open>Reading and writing pages\<close>

lemma absStore_eqI:
  assumes "frame t' = frame t" "bytesOf t' = bytesOf t" "t_lastPageNum t' = t_lastPageNum t"
    "t_rootPageNum t' = t_rootPageNum t" "t_freePagesCounter t' = t_freePagesCounter t"
    "isOpened t' = isOpened t"
  shows "absStore t' = absStore t" "storeOk t' = storeOk t"
  using assms frame_eqF [OF assms(1)] frame_eqD [OF assms(1)]
  by (auto simp: absStore_def storeOk_def pageBytes_def freeSlot_def fun_eq_iff)

lemma write_page_law:
  assumes ok: "storeOk t" and n: "1 \<le> n" "n \<le> t_lastPageNum t" and d: "length d = t_nodePageSize t"
    and f: "frame t' = frame t" "t_lastPageNum t' = t_lastPageNum t"
      "t_rootPageNum t' = t_rootPageNum t" "t_freePagesCounter t' = t_freePagesCounter t"
      "isOpened t'" "bytesOf t' = overwrite (pageOfs t n) d (bytesOf t)"
  shows "storeOk t'" "absStore t' = ps_write n d (absStore t)"
proof -
  note F = frame_eqF [OF f(1)] frame_eqD [OF f(1)]
  note e = page_in_file [OF ok n]
  have b: "16 \<le> pageOfs t n" using pageOfs_ge [of t n] by (simp add: layout)
  note in_file = storeOkD(5) [OF ok]
  have len: "length (bytesOf t') = length (bytesOf t)" using f(6) d e by simp
  have lo: "slice a m (bytesOf t') = slice a m (bytesOf t)" if "a + m \<le> 16" for a m
    using f(6) that b e by (simp add: slice_overwrite_disj)
  have hi: "slice a m (bytesOf t') = slice a m (bytesOf t)"
    if "areaOfs t \<le> a" "a + m \<le> areaOfs t + 4 + 4 * t_freePagesCounter t" for a m
    using f(6) that d e in_file by (simp add: slice_overwrite_disj)
  show "storeOk t'"
    using ok lo [of 0 8] lo [of 8 4] lo [of 12 4] hi [of "areaOfs t" 4]
    by (simp add: storeOk_def F f(2-5) len)
  have "freeSlot t' i = freeSlot t i" if "i < t_freePagesCounter t" for i
    using that hi [of "areaOfs t + 4 + 4 * i" 4] by (simp add: freeSlot_def F f(2))
  moreover have "pageBytes t' m = (if m = n then d else pageBytes t m)"
    if "1 \<le> m" "m \<le> t_lastPageNum t" for m
  proof -
    have "m = n \<or> pageOfs t m + t_nodePageSize t \<le> pageOfs t n \<or>
        pageOfs t n + t_nodePageSize t \<le> pageOfs t m"
      using pageOfs_less [of m n t] pageOfs_less [of n m t] n that by (cases m n rule: linorder_cases) auto
    then show ?thesis
      using page_in_file [OF ok that] f(6) d
      by (auto simp: pageBytes_def F slice_overwrite_same slice_overwrite_disj)
  qed
  ultimately show "absStore t' = ps_write n d (absStore t)"
    using n by (auto simp: absStore_def ps_write_def f(2-4) fun_eq_iff)
qed

lemma readPage_ok:
  assumes "storeOk t" "ps_live (absStore t) n" "length dst = t_nodePageSize t"
  shows "\<exists>t'. readPage n dst t = Inr (ps_page (absStore t) n, t') \<and> storeOk t' \<and>
    frame t' = frame t \<and> absStore t' = absStore t"
proof -
  have n: "1 \<le> n" "n \<le> t_lastPageNum t"
    using assms(2) by (simp_all add: ps_live_def absStore_def)
  note o = storeOkD(3) [OF assms(1)] and e = page_in_file [OF assms(1) n]
  have "readPage n dst t =
      Inr (pageBytes t n, countDisk (movePos (pageOfs t n + t_nodePageSize t) t))"
    using o n assms e page_ofs_code(1) [OF assms(1), of n]
    by (simp add: readPage_def checkForOpenStream_def readPageInternal_def gotoPage_def seek_ok
        read_ok pageBytes_def overwrite_full)
  moreover have "ps_page (absStore t) n = pageBytes t n"
    using n by (simp add: absStore_def)
  ultimately show ?thesis
    using assms(1) absStore_eqI [of "countDisk (movePos (pageOfs t n + t_nodePageSize t) t)" t]
    by simp
qed

lemma writePage_ok:
  assumes "storeOk t" "ps_live (absStore t) n" "length d = t_nodePageSize t"
  shows "\<exists>t'. writePage n d t = Inr t' \<and> storeOk t' \<and> frame t' = frame t \<and>
    absStore t' = ps_write n d (absStore t)"
proof -
  have n: "1 \<le> n" "n \<le> t_lastPageNum t"
    using assms(2) by (simp_all add: ps_live_def absStore_def)
  note o = storeOkD(3) [OF assms(1)]
  let ?t = "countDisk (putBytes (pageOfs t n) d t)"
  have "writePage n d t = Inr ?t"
    using o n assms page_ofs_code(1) [OF assms(1), of n]
    by (simp add: writePage_def checkForOpenStream_def writePageInternal_def gotoPage_def seek_ok
        write_ok)
  moreover have "storeOk ?t" "absStore ?t = ps_write n d (absStore t)"
    by (rule write_page_law [OF assms(1) n assms(3)]; simp add: o)+
  ultimately show ?thesis by simp
qed

section \<open>Allocating and freeing pages\<close>

lemma alloc_new_law:
  assumes ok: "storeOk t" and z: "t_freePagesCounter t = 0" and d: "length d = t_nodePageSize t"
    and room: "pageOfs t (Suc (Suc (t_lastPageNum t))) + 4 < 2 ^ 32"
    and f: "frame t' = frame t" "t_lastPageNum t' = Suc (t_lastPageNum t)"
      "t_rootPageNum t' = t_rootPageNum t" "t_freePagesCounter t' = 0" "isOpened t'"
      "bytesOf t' = overwrite (pageOfs t (Suc (Suc (t_lastPageNum t)))) (le_enc 4 0)
         (overwrite 8 (le_enc 4 (Suc (t_lastPageNum t))) (overwrite (areaOfs t) d (bytesOf t)))"
  shows "storeOk t'" "ps_alloc d (absStore t) = (Suc (t_lastPageNum t), absStore t')"
proof -
  note F = frame_eqF [OF f(1)] frame_eqD [OF f(1)]
  let ?a = "pageOfs t (Suc (Suc (t_lastPageNum t)))"
  have a: "areaOfs t + t_nodePageSize t = ?a" by (simp add: pageOfs_def)
  have b: "16 \<le> areaOfs t" using pageOfs_ge [of t] by (simp add: layout)
  note in_file = storeOkD(5) [OF ok]
  have len: "?a + 4 \<le> length (bytesOf t')" by (simp add: f(6))
  have lo: "slice p m (bytesOf t') = slice p m (bytesOf t)"
    if "p + m \<le> 8 \<or> 12 \<le> p \<and> p + m \<le> areaOfs t" for p m
    using that b a in_file unfolding f(6) by (subst slice_overwrite_disj, force, force)+ simp
  have ctr: "slice 8 4 (bytesOf t') = le_enc 4 (Suc (t_lastPageNum t))"
    using b a unfolding f(6) by (subst slice_overwrite_disj) (auto simp: slice_overwrite_same)
  have pg: "slice (areaOfs t) (t_nodePageSize t) (bytesOf t') = d"
    using b a in_file d unfolding f(6) by (subst slice_overwrite_disj, force, force)+ (simp add: slice_overwrite_same)
  have fr: "slice ?a 4 (bytesOf t') = le_enc 4 0"
    unfolding f(6) by (simp add: slice_overwrite_same)
  show "storeOk t'"
    using ok room len lo [of 0 8] lo [of 12 4] b ctr fr
    by (simp add: storeOk_def F f(2-5))
  have "pageBytes t' m = (if m = Suc (t_lastPageNum t) then d else pageBytes t m)"
    if "1 \<le> m" "m \<le> Suc (t_lastPageNum t)" for m
  proof (cases "m = Suc (t_lastPageNum t)")
    case True
    then show ?thesis using pg by (simp add: pageBytes_def F)
  next
    case False
    then have "pageOfs t m + t_nodePageSize t \<le> areaOfs t" "16 \<le> pageOfs t m"
      using that pageOfs_less [of m] pageOfs_ge [of t m] by (simp_all add: layout)
    then show ?thesis using False lo [of "pageOfs t m"] by (simp add: pageBytes_def F)
  qed
  then show "ps_alloc d (absStore t) = (Suc (t_lastPageNum t), absStore t')"
    using z by (auto simp: ps_alloc_def ps_write_def absStore_def f(2-4) fun_eq_iff)
qed

text \<open>The counter of free pages, rewritten after the area changed.\<close>

lemma counter_law:
  assumes ok: "storeOk t"
    and room: "areaOfs t + 4 + 4 * c \<le> length (bytesOf t)" "areaOfs t + 4 + 4 * c < 2 ^ 32"
    and f: "frame t' = frame t" "t_lastPageNum t' = t_lastPageNum t"
      "t_rootPageNum t' = t_rootPageNum t" "t_freePagesCounter t' = c" "isOpened t'"
      "bytesOf t' = overwrite (areaOfs t) (le_enc 4 c) (bytesOf t)"
  shows "storeOk t'" "absStore t' = (absStore t)\<lparr>ps_free := map (freeSlot t) [0..<c]\<rparr>"
proof -
  note F = frame_eqF [OF f(1)] frame_eqD [OF f(1)]
  have b: "16 \<le> areaOfs t" using pageOfs_ge [of t] by (simp add: layout)
  have len: "length (bytesOf t') = length (bytesOf t)" using f(6) room by simp
  have out: "slice p m (bytesOf t') = slice p m (bytesOf t)"
    if "p + m \<le> areaOfs t \<or> areaOfs t + 4 \<le> p \<and> p + m \<le> areaOfs t + 4 + 4 * c" for p m
    using that room unfolding f(6) by (subst slice_overwrite_disj) auto
  have ctr: "slice (areaOfs t) 4 (bytesOf t') = le_enc 4 c"
    unfolding f(6) by (simp add: slice_overwrite_same)
  show "storeOk t'"
    using ok room len out [of 0 8] out [of 8 4] out [of 12 4] b ctr
    by (simp add: storeOk_def F f(2-5))
  have "freeSlot t' i = freeSlot t i" if "i < c" for i
    using that out [of "areaOfs t + 4 + 4 * i" 4] by (simp add: freeSlot_def F f(2))
  moreover have "pageBytes t' m = pageBytes t m" if "1 \<le> m" "m \<le> t_lastPageNum t" for m
    using out [of "pageOfs t m" "t_nodePageSize t"] page_in_file [OF ok that]
    by (simp add: pageBytes_def F)
  ultimately show "absStore t' = (absStore t)\<lparr>ps_free := map (freeSlot t) [0..<c]\<rparr>"
    by (auto simp: absStore_def f(2-4) fun_eq_iff)
qed

lemma upd_fields [simp]:
  "isOpened (t\<lparr>t_lastPageNum := n\<rparr>) = isOpened t"
  "isOpened (t\<lparr>t_freePagesCounter := n\<rparr>) = isOpened t"
  "isOpened (t\<lparr>t_rootPageNum := n\<rparr>) = isOpened t"
  "bytesOf (t\<lparr>t_lastPageNum := n\<rparr>) = bytesOf t"
  "bytesOf (t\<lparr>t_freePagesCounter := n\<rparr>) = bytesOf t"
  "bytesOf (t\<lparr>t_rootPageNum := n\<rparr>) = bytesOf t"
  "frame (t\<lparr>t_lastPageNum := n\<rparr>) = frame t"
  "frame (t\<lparr>t_freePagesCounter := n\<rparr>) = frame t"
  "frame (t\<lparr>t_rootPageNum := n\<rparr>) = frame t"
  by (simp_all add: isOpened_def bytesOf_def frame_def)

text \<open>A page as an allocation leaves it: zeroed, with its number of keys and leaf flag.\<close>

definition blankPage :: "BaseBTree \<Rightarrow> nat \<Rightarrow> bool \<Rightarrow> PageWrapper \<Rightarrow> PageWrapper" where
  "blankPage t keysNum leaf pw = setKeyNumLeaf keysNum leaf (clear t pw)"

lemma length_blank:
  assumes "geom t" "pw_data pw \<noteq> []"
  shows "length (pw_data (blankPage t kn leaf pw)) = t_nodePageSize t"
  unfolding blankPage_def using assms
  by (intro setKeyNumLeaf_frame) (simp_all add: clear_def)

lemma allocUsing_new:
  assumes ok: "storeOk t" and z: "t_freePagesCounter t = 0" and pw: "pw_data pw \<noteq> []"
    and room: "pageOfs t (Suc (Suc (t_lastPageNum t))) + 4 < 2 ^ 32"
  shows "\<exists>n t'. allocPageUsingFreePages pw kn leaf t = Inr (n, blankPage t kn leaf pw, t') \<and>
    ps_alloc (pw_data (blankPage t kn leaf pw)) (absStore t) = (n, absStore t') \<and>
    storeOk t' \<and> frame t' = frame t"
proof -
  let ?d = "pw_data (blankPage t kn leaf pw)" and ?l = "Suc (t_lastPageNum t)"
  let ?t3 = "countDisk (putBytes 8 (le_enc 4 ?l) ((putBytes (areaOfs t) ?d t)\<lparr>t_lastPageNum := ?l\<rparr>))"
  let ?t4 = "countDisk (putBytes (pageOfs t (Suc ?l)) (le_enc 4 0) ?t3)"
  note o = storeOkD(3) [OF ok]
  have d: "length ?d = t_nodePageSize t" by (rule length_blank [OF storeOkD(1) [OF ok] pw])
  have l: "UInt (t_lastPageNum t + 1) = ?l" using last_less [OF ok] by (simp add: UInt_def)
  have i: "allocPageInternal pw kn leaf t = Inr (blankPage t kn leaf pw, ?t3)"
    using o d l by (simp add: allocPageInternal_def Let_def blankPage_def area_ofs_code [OF ok] seek_ok
        write_ok writePageCounter_def layout)
  have F: "frame ?t3 = frame t" by simp
  have "pageOfs t (Suc ?l) = pageOfs ?t3 (Suc ?l)" by (simp add: frame_eqF(8) [OF F])
  moreover have "UInt (t_lastPageNum ?t3 + 1) = Suc ?l"
    using last_less [OF ok] by (simp add: UInt_def)
  ultimately have a: "getFreePagesInfoAreaOfs ?t3 = pageOfs t (Suc ?l)"
    using page_ofs_code'(2) [of ?t3 "Suc ?l"] room last_less [OF ok] storeOkD(2) [OF ok]
    by (simp add: getFreePagesInfoAreaOfs_def)
  have "allocPageUsingFreePages pw kn leaf t = Inr (?l, blankPage t kn leaf pw, ?t4)"
    using o z
    by (simp add: allocPageUsingFreePages_def i writeFreePagesCounter_def a seek_ok write_ok layout)
  moreover have "storeOk ?t4" "ps_alloc ?d (absStore t) = (?l, absStore ?t4)"
    by (rule alloc_new_law [OF ok z d room]; simp add: o z)+
  ultimately show ?thesis by simp
qed

lemma last_free_ofs:
  assumes "storeOk t" "0 < t_freePagesCounter t"
  shows "getLastFreePageNumOfs t = areaOfs t + 4 + 4 * (t_freePagesCounter t - 1)"
proof -
  let ?c = "t_freePagesCounter t"
  have b: "areaOfs t + 4 + 4 * ?c < 2 ^ 32" by (rule storeOkD(6) [OF assms(1)])
  have "(2::nat) ^ 32 \<le> 2 ^ t_ulongBits t"
    using storeOkD(2) [OF assms(1)] by (intro power_increasing) auto
  moreover have "USub ?c 1 = ?c - 1"
    using b assms(2) by (intro USub_1) auto
  ultimately show ?thesis
    using b by (simp add: getLastFreePageNumOfs_def area_ofs_code [OF assms(1)] UInt_def ULong_def layout
        mult.commute)
qed

lemma allocUsing_old:
  assumes ok: "storeOk t" and nz: "0 < t_freePagesCounter t" and pw: "pw_data pw \<noteq> []"
    and fl: "ps_ok (absStore t)"
  shows "\<exists>n t'. allocPageUsingFreePages pw kn leaf t = Inr (n, blankPage t kn leaf pw, t') \<and>
    ps_alloc (pw_data (blankPage t kn leaf pw)) (absStore t) = (n, absStore t') \<and>
    storeOk t' \<and> frame t' = frame t"
proof -
  let ?d = "pw_data (blankPage t kn leaf pw)" and ?c = "t_freePagesCounter t"
  let ?n = "freeSlot t (?c - 1)" and ?p = "areaOfs t + 4 + 4 * (?c - 1)"
  note o = storeOkD(3) [OF ok] and sz = storeOkD(5) [OF ok]
  have d: "length ?d = t_nodePageSize t" by (rule length_blank [OF storeOkD(1) [OF ok] pw])
  have fs: "ps_free (absStore t) = map (freeSlot t) [0..<?c - 1] @ [?n]"
    using nz by (cases ?c) (simp_all add: absStore_def)
  then have n: "1 \<le> ?n" "?n \<le> t_lastPageNum t"
    using fl by (auto simp: ps_ok_def ps_live_def absStore_def)
  define t1 where "t1 = countDisk (movePos (?p + 4) t)"
  have g: "getLastFreePageNum t = Inr (?n, t1)"
    using o sz nz
    by (simp add: getLastFreePageNum_def last_free_ofs [OF ok nz] seek_ok read_ok freeSlot_def
        layout t1_def)
  have t1: "frame t1 = frame t" "absStore t1 = absStore t" "storeOk t1" "t_freePagesCounter t1 = ?c"
    "t_lastPageNum t1 = t_lastPageNum t"
    using absStore_eqI [of t1 t] ok by (simp_all add: t1_def)
  define t2 where "t2 = putBytes (pageOfs t ?n) ?d t1"
  note F1 = frame_eqF [OF t1(1)] frame_eqD [OF t1(1)]
  have bl: "blankPage t1 kn leaf pw = blankPage t kn leaf pw"
    by (simp add: blankPage_def clear_def F1)
  have w: "allocPageUsingFreePagesInternal pw kn leaf ?n t1 = Inr (blankPage t kn leaf pw, t2)"
    using storeOkD(3) [OF t1(3)] d page_ofs_code(2) [OF t1(3), of ?n] n t1(5)
    by (simp add: allocPageUsingFreePagesInternal_def Let_def bl [unfolded blankPage_def]
        blankPage_def seek_ok write_ok F1 t2_def)
  have t2: "frame t2 = frame t1" "storeOk t2" "absStore t2 = ps_write ?n ?d (absStore t1)"
    "t_freePagesCounter t2 = ?c" "t_lastPageNum t2 = t_lastPageNum t"
    using write_page_law [OF t1(3) n(1), of ?d t2] n d storeOkD(3) [OF t1(3)]
    by (simp_all add: t2_def F1 t1)
  note F2 = frame_eqF [OF t2(1)] frame_eqD [OF t2(1)]
  let ?t3 = "t2\<lparr>t_freePagesCounter := ?c - 1\<rparr>"
  let ?t4 = "countDisk (putBytes (areaOfs t) (le_enc 4 (?c - 1)) ?t3)"
  have a: "areaOfs t2 = areaOfs t" by (simp add: F1 F2 t2(5))
  have "USub ?c 1 = ?c - 1" using nz storeOkD(6) [OF ok] by (intro USub_1) auto
  moreover have "getFreePagesInfoAreaOfs ?t3 = areaOfs t"
    using area_ofs_code [OF t2(2)] a by (simp add: getFreePagesInfoAreaOfs_def getPageOfs_def ULong_def)
  ultimately have "allocPageUsingFreePages pw kn leaf t = Inr (?n, blankPage t kn leaf pw, ?t4)"
    using nz storeOkD(3) [OF t2(2)]
    by (simp add: allocPageUsingFreePages_def g w [simplified] t2(4) writeFreePagesCounter_def seek_ok write_ok layout)
  moreover have "storeOk ?t4" "absStore ?t4 = (absStore t2)\<lparr>ps_free := map (freeSlot t2) [0..<?c - 1]\<rparr>"
    using storeOkD(5,6) [OF t2(2)] unfolding t2(4)
    by (intro counter_law [OF t2(2), of "?c - 1"]; simp add: a storeOkD(3) [OF t2(2)])+
  moreover have "ps_free (absStore t2) = ps_free (absStore t)"
    by (simp add: t2(3) t1(2) ps_write_def)
  then have "map (freeSlot t2) [0..<?c] = map (freeSlot t) [0..<?c]"
    by (simp add: absStore_def t2(4))
  then have "map (freeSlot t2) [0..<?c - 1] = map (freeSlot t) [0..<?c - 1]"
    by auto
  ultimately show ?thesis
    using fs t2(1) t1(1)
    by (auto simp: ps_alloc_def ps_write_def t2(3) t1(2))
qed

lemma allocUsing_ok:
  assumes "storeOk t" "ps_ok (absStore t)" "pw_data pw \<noteq> []"
    "t_freePagesCounter t = 0 \<longrightarrow> pageOfs t (Suc (Suc (t_lastPageNum t))) + 4 < 2 ^ 32"
  shows "\<exists>n t'. allocPageUsingFreePages pw kn leaf t = Inr (n, blankPage t kn leaf pw, t') \<and>
    ps_alloc (pw_data (blankPage t kn leaf pw)) (absStore t) = (n, absStore t') \<and>
    storeOk t' \<and> frame t' = frame t"
  using allocUsing_new [of t pw] allocUsing_old [of t pw] assms by (cases "t_freePagesCounter t = 0") auto

section \<open>Freeing a page\<close>

lemma push_slot_law:
  assumes ok: "storeOk t" and n: "n < 2 ^ 32"
    and f: "frame t' = frame t" "t_lastPageNum t' = t_lastPageNum t"
      "t_rootPageNum t' = t_rootPageNum t" "t_freePagesCounter t' = t_freePagesCounter t" "isOpened t'"
      "bytesOf t' = overwrite (areaOfs t + 4 + 4 * t_freePagesCounter t) (le_enc 4 n) (bytesOf t)"
  shows "storeOk t'" "absStore t' = absStore t" "freeSlot t' (t_freePagesCounter t) = n"
    "areaOfs t + 4 + 4 * (t_freePagesCounter t + 1) \<le> length (bytesOf t')"
proof -
  note F = frame_eqF [OF f(1)] frame_eqD [OF f(1)] and in_file = storeOkD(5) [OF ok]
  have b: "16 \<le> areaOfs t" using pageOfs_ge [of t] by (simp add: layout)
  show len: "areaOfs t + 4 + 4 * (t_freePagesCounter t + 1) \<le> length (bytesOf t')"
    unfolding f(6) by simp
  have out: "slice p m (bytesOf t') = slice p m (bytesOf t)"
    if "p + m \<le> areaOfs t + 4 + 4 * t_freePagesCounter t" for p m
    using that in_file unfolding f(6) by (subst slice_overwrite_disj) auto
  show "storeOk t'"
    using ok len out [of 0 8] out [of 8 4] out [of 12 4] out [of "areaOfs t" 4] b
    by (simp add: storeOk_def F f(2-5))
  have "freeSlot t' i = freeSlot t i" if "i < t_freePagesCounter t" for i
    using that out [of "areaOfs t + 4 + 4 * i" 4] by (simp add: freeSlot_def F f(2))
  moreover have "pageBytes t' m = pageBytes t m" if "1 \<le> m" "m \<le> t_lastPageNum t" for m
    using out [of "pageOfs t m" "t_nodePageSize t"] page_in_file [OF ok that]
    by (simp add: pageBytes_def F)
  ultimately show "absStore t' = absStore t"
    by (auto simp: absStore_def f(2-4) fun_eq_iff)
  show "freeSlot t' (t_freePagesCounter t) = n"
    using n unfolding freeSlot_def F f(2) f(6)
    by (simp add: slice_overwrite_same le_dec_enc)
qed

text \<open>
  Where the next free page number goes.  With a 32-bit \<open>ULong\<close>, or once one page is free,
  that is the end of the stack; with a 64-bit \<open>ULong\<close> the first number goes 4 GiB
  further, because \<open>_freePagesCounter - 1\<close> wraps in 32 bits.
\<close>

lemma push_ofs:
  assumes "storeOk t" "t_ulongBits t = 32 \<or> 0 < t_freePagesCounter t"
    "areaOfs t + 8 + 4 * t_freePagesCounter t < 2 ^ 32"
  shows "ULong t (getLastFreePageNumOfs t + FREE_PAGE_NUM_SZ) = areaOfs t + 4 + 4 * t_freePagesCounter t"
proof (cases "t_freePagesCounter t = 0")
  case True
  then have "t_ulongBits t = 32" using assms(2) by simp
  moreover have "areaOfs t < 2 ^ 32 - 8" using assms(3) by simp
  ultimately show ?thesis
    using True
    by (simp add: getLastFreePageNumOfs_def area_ofs_code [OF assms(1)] USub_def UInt_def ULong_def layout
        mod_add_left_eq add.assoc mod_add_right_eq)
next
  case False
  have "(2::nat) ^ 32 \<le> 2 ^ t_ulongBits t"
    using storeOkD(2) [OF assms(1)] by (intro power_increasing) auto
  then show ?thesis
    using False assms(3) by (simp add: last_free_ofs [OF assms(1)] ULong_def layout)
qed

lemma push_ofs_64:
  assumes "storeOk t" "t_ulongBits t = 64" "t_freePagesCounter t = 0"
  shows "ULong t (getLastFreePageNumOfs t + FREE_PAGE_NUM_SZ) = areaOfs t + 4 + 2 ^ 32"
  using storeOkD(6) [OF assms(1)] assms(2,3)
  by (simp add: getLastFreePageNumOfs_def area_ofs_code [OF assms(1)] USub_def UInt_def ULong_def layout)

lemma markPageFree_ok:
  assumes ok: "storeOk t" and n: "1 \<le> n" "n \<le> t_lastPageNum t"
    and u: "t_ulongBits t = 32 \<or> 0 < t_freePagesCounter t"
    and room: "areaOfs t + 8 + 4 * t_freePagesCounter t < 2 ^ 32"
  shows "\<exists>t'. markPageFree n t = Inr t' \<and> storeOk t' \<and> frame t' = frame t \<and>
    absStore t' = ps_push n (absStore t)"
proof -
  let ?c = "t_freePagesCounter t"
  note o = storeOkD(3) [OF ok]
  define t1 where "t1 = countDisk (putBytes (areaOfs t + 4 + 4 * ?c) (le_enc 4 n) t)"
  have n': "n < 2 ^ 32" using n last_less [OF ok] by simp
  have t1: "frame t1 = frame t" "t_freePagesCounter t1 = ?c" "t_lastPageNum t1 = t_lastPageNum t"
    "isOpened t1"
    using o by (simp_all add: t1_def)
  have s1: "storeOk t1" "absStore t1 = absStore t" "freeSlot t1 ?c = n"
    "areaOfs t + 4 + 4 * (?c + 1) \<le> length (bytesOf t1)"
    by (rule push_slot_law [OF ok n']; simp add: t1_def o)+
  note F = frame_eqF [OF t1(1)] frame_eqD [OF t1(1)]
  have a: "areaOfs t1 = areaOfs t" by (simp add: F t1(3))
  let ?t2 = "t1\<lparr>t_freePagesCounter := ?c + 1\<rparr>"
  let ?t3 = "countDisk (putBytes (areaOfs t) (le_enc 4 (?c + 1)) ?t2)"
  have "UInt (?c + 1) = ?c + 1" using room by (simp add: UInt_def)
  moreover have "getFreePagesInfoAreaOfs ?t2 = areaOfs t"
    using area_ofs_code [OF s1(1)] a by (simp add: getFreePagesInfoAreaOfs_def getPageOfs_def ULong_def)
  ultimately have m: "markPageFree n t = Inr ?t3"
    using n o t1(4) push_ofs [OF ok u room]
    by (simp add: markPageFree_def seek_ok write_ok writeFreePagesCounter_def Let_def layout
        t1_def [symmetric] t1(2))
  moreover have c: "storeOk ?t3" "absStore ?t3 = (absStore t1)\<lparr>ps_free := map (freeSlot t1) [0..<?c + 1]\<rparr>"
    using s1(4) room by (intro counter_law [OF s1(1), of "?c + 1"]; simp add: a t1(4))+
  moreover have "map (freeSlot t1) [0..<?c] = ps_free (absStore t)"
    using arg_cong [OF s1(2), of ps_free] by (simp add: absStore_def t1(2))
  ultimately show ?thesis
    using s1(3) by (simp add: ps_push_def s1(2) t1(1))
qed

section \<open>The root page number\<close>

lemma setAsRoot_ok:
  assumes ok: "storeOk t" and n: "pw_pageNum pw \<noteq> 0" "pw_pageNum pw < 2 ^ 32"
  shows "\<exists>t'. setAsRoot pw True t = Inr t' \<and> storeOk t' \<and> frame t' = frame t \<and>
    absStore t' = (absStore t)\<lparr>ps_root := pw_pageNum pw\<rparr>"
proof -
  let ?n = "pw_pageNum pw"
  note o = storeOkD(3) [OF ok] and in_file = storeOkD(5) [OF ok]
  let ?t = "countDisk (putBytes 12 (le_enc 4 ?n) (t\<lparr>t_rootPageNum := ?n\<rparr>))"
  have s: "setAsRoot pw True t = Inr ?t"
    using n o by (simp add: setAsRoot_def Let_def setRootPageNum_def writeRootPageNum_def seek_ok write_ok layout)
  have f: "frame ?t = frame t" by simp
  note F = frame_eqF [OF f] frame_eqD [OF f]
  have b: "16 \<le> areaOfs t" using pageOfs_ge [of t] by (simp add: layout)
  have B: "bytesOf ?t = overwrite 12 (le_enc 4 ?n) (bytesOf t)" using o by simp
  have out: "slice p m (bytesOf ?t) = slice p m (bytesOf t)"
    if "p + m \<le> 12 \<or> 16 \<le> p" "p + m \<le> length (bytesOf t)" for p m
    using that unfolding B by (subst slice_overwrite_disj) auto
  have len: "length (bytesOf ?t) = length (bytesOf t)" unfolding B using in_file b by simp
  have "slice 12 4 (bytesOf ?t) = le_enc 4 ?n" unfolding B by (simp add: slice_overwrite_same)
  then have "storeOk ?t"
    using ok len out [of 0 8] out [of 8 4] out [of "areaOfs t" 4] b n in_file o
    by (simp add: storeOk_def F)
  moreover have "freeSlot ?t i = freeSlot t i" if "i < t_freePagesCounter t" for i
    using that out [of "areaOfs t + 4 + 4 * i" 4] b in_file by (simp add: freeSlot_def F)
  moreover have "pageBytes ?t m = pageBytes t m" if "1 \<le> m" "m \<le> t_lastPageNum t" for m
    using out [of "pageOfs t m" "t_nodePageSize t"] page_in_file [OF ok that] pageOfs_ge [of t m]
    by (simp add: pageBytes_def F layout)
  ultimately show ?thesis
    using s by (auto simp: absStore_def fun_eq_iff)
qed

section \<open>The contract of the file layer\<close>

text \<open>The state after a method of the file layer: still well formed, nothing but the store changed.\<close>

definition keeps :: "BaseBTree \<Rightarrow> BaseBTree \<Rightarrow> bool" where
  "keeps t t' \<longleftrightarrow> storeOk t' \<and> frame t' = frame t"

lemma keepsD: "keeps t t' \<Longrightarrow> storeOk t'" "keeps t t' \<Longrightarrow> frame t' = frame t"
  by (simp_all add: keeps_def)

lemma keeps_trans: "keeps t t' \<Longrightarrow> keeps t' t'' \<Longrightarrow> keeps t t''"
  by (simp add: keeps_def)

locale page_store =
  fixes ok :: "'s \<Rightarrow> bool" and view :: "'s \<Rightarrow> pstore" and psize :: "'s \<Rightarrow> nat"
    and kept :: "'s \<Rightarrow> 's \<Rightarrow> bool"
    and rd :: "nat \<Rightarrow> byte list \<Rightarrow> 's \<Rightarrow> (byte list \<times> 's) res"
    and wr :: "nat \<Rightarrow> byte list \<Rightarrow> 's \<Rightarrow> 's res"
  assumes rd_law: "ok s \<Longrightarrow> ps_live (view s) n \<Longrightarrow> length dst = psize s \<Longrightarrow>
      runs (rd n dst s) (\<lambda>(d, s'). d = ps_page (view s) n \<and> view s' = view s \<and> kept s s')"
    and wr_law: "ok s \<Longrightarrow> ps_live (view s) n \<Longrightarrow> length d = psize s \<Longrightarrow>
      runs (wr n d s) (\<lambda>s'. view s' = ps_write n d (view s) \<and> kept s s')"
    and kept_ok: "kept s s' \<Longrightarrow> ok s' \<and> psize s' = psize s"
    and kept_trans: "kept s s' \<Longrightarrow> kept s' s'' \<Longrightarrow> kept s s''"
begin

lemma ps_live_write [simp]: "ps_live (ps_write n d \<sigma>) m = ps_live \<sigma> m"
  by (simp add: ps_live_def ps_write_def)

text \<open>Reading a page after writing one.\<close>

lemma write_read:
  assumes "ok s" "ps_live (view s) n" "length d = psize s" "ps_live (view s) m" "length dst = psize s"
  shows "runs (bindR (wr n d s) (rd m dst))
    (\<lambda>(d', s'). d' = (if m = n then d else ps_page (view s) m) \<and>
       view s' = ps_write n d (view s) \<and> kept s s')"
proof (rule runs_bindI [OF wr_law [OF assms(1-3)]])
  fix s1 assume "view s1 = ps_write n d (view s) \<and> kept s s1"
  then show "runs (rd m dst s1) (\<lambda>(d', s'). d' = (if m = n then d else ps_page (view s) m) \<and>
       view s' = ps_write n d (view s) \<and> kept s s')"
    using rd_law [of s1 m dst] kept_ok [of s s1] kept_trans [of s s1] assms(4,5)
    by (auto elim!: runs_mono simp: ps_write_def ps_live_def)
qed

end

text \<open>With allocation.  A page that is neither live and in use nor new is never returned.\<close>

locale page_alloc = page_store ok view psize kept rd wr
  for ok :: "'s \<Rightarrow> bool" and view :: "'s \<Rightarrow> pstore" and psize kept rd wr +
  fixes al :: "'s \<Rightarrow> (nat \<times> byte list \<times> 's) res" and room :: "'s \<Rightarrow> bool"
  assumes al_law: "ok s \<Longrightarrow> ps_ok (view s) \<Longrightarrow> room s \<Longrightarrow>
      runs (al s) (\<lambda>(n, d, s'). ps_alloc d (view s) = (n, view s') \<and> length d = psize s \<and> kept s s')"
begin

lemma alloc_read:
  assumes "ok s" "ps_ok (view s)" "room s" "ps_live (view s) m" "m \<notin> ps_avail (view s)"
    "length dst = psize s"
  shows "runs (bindR (al s) (\<lambda>(n, d, s'). bindR (rd m dst s') (\<lambda>(d', s''). Inr (n, d', s''))))
    (\<lambda>(n, d', s'). n \<noteq> m \<and> n \<in> ps_avail (view s) \<and> d' = ps_page (view s) m \<and>
       n \<notin> ps_avail (view s') \<and> ps_ok (view s') \<and> kept s s')"
proof (rule runs_bindI [OF al_law [OF assms(1-3)]])
  fix x assume x: "case x of (n, d, s') \<Rightarrow>
    ps_alloc d (view s) = (n, view s') \<and> length d = psize s \<and> kept s s'"
  obtain n d s1 where [simp]: "x = (n, d, s1)" by (cases x)
  note f = ps_alloc_fresh [OF assms(2), of d n "view s1"]
  have "n \<noteq> m" "ps_live (view s1) m" "ps_page (view s1) m = ps_page (view s) m"
    using f x assms(4,5) by (auto simp: ps_live_def)
  moreover have "ok s1" "length dst = psize s1"
    using x kept_ok [of s s1] assms(6) by auto
  ultimately obtain s2 where "rd m dst s1 = Inr (ps_page (view s) m, s2)" "view s2 = view s1" "kept s s2"
    using rd_law [of s1 m dst] kept_trans [of s s1] x by (auto elim!: runsE)
  then show "runs (case x of (n, d, s') \<Rightarrow> bindR (rd m dst s') (\<lambda>(d', s''). Inr (n, d', s'')))
    (\<lambda>(n, d', s'). n \<noteq> m \<and> n \<in> ps_avail (view s) \<and> d' = ps_page (view s) m \<and>
       n \<notin> ps_avail (view s') \<and> ps_ok (view s') \<and> kept s s')"
    using f(1-3) x \<open>n \<noteq> m\<close> by simp
qed

end

text \<open>The file of a tree provides both.\<close>

definition roomFor :: "BaseBTree \<Rightarrow> bool" where
  "roomFor t \<longleftrightarrow> t_freePagesCounter t = 0 \<longrightarrow> pageOfs t (Suc (Suc (t_lastPageNum t))) + 4 < 2 ^ 32"

definition newPage :: "nat \<Rightarrow> bool \<Rightarrow> BaseBTree \<Rightarrow> (nat \<times> byte list \<times> BaseBTree) res" where
  "newPage keysNum leaf t =
     bindR (allocPageUsingFreePages (new_PageWrapper t) keysNum leaf t)
       (\<lambda>(n, pw, t). Inr (n, pw_data pw, t))"

lemma new_PageWrapper_ok: "isOpened t \<Longrightarrow> new_PageWrapper t = \<lparr>pw_data = replicate (t_nodePageSize t) 0, pw_pageNum = 0\<rparr>"
  by (auto elim!: isOpenedE simp: new_PageWrapper_def)

lemma length_new_page: "isOpened t \<Longrightarrow> length (pw_data (new_PageWrapper t)) = t_nodePageSize t"
  by (simp add: new_PageWrapper_ok)

lemma new_page_nonempty: "storeOk t \<Longrightarrow> pw_data (new_PageWrapper t) \<noteq> []"
  using length_new_page [of t] pageSize_pos [of t] storeOkD(1,3) [of t] by auto

interpretation ps: page_store storeOk absStore t_nodePageSize keeps readPage writePage
proof
  show "runs (readPage n dst s) (\<lambda>(d, s'). d = ps_page (absStore s) n \<and> absStore s' = absStore s \<and> keeps s s')"
    if "storeOk s" "ps_live (absStore s) n" "length dst = t_nodePageSize s" for s n dst
    using readPage_ok [OF that] by (auto simp: keeps_def)
  show "runs (writePage n d s) (\<lambda>s'. absStore s' = ps_write n d (absStore s) \<and> keeps s s')"
    if "storeOk s" "ps_live (absStore s) n" "length d = t_nodePageSize s" for s n d
    using writePage_ok [OF that] by (auto simp: keeps_def)
qed (auto simp: keeps_def dest: frame_eqD(8))

interpretation pa: page_alloc storeOk absStore t_nodePageSize keeps readPage writePage
  "newPage keysNum leaf" roomFor for keysNum leaf
proof
  fix t assume "storeOk t" "ps_ok (absStore t)" "roomFor t"
  then show "runs (newPage keysNum leaf t) (\<lambda>(n, d, t').
      ps_alloc d (absStore t) = (n, absStore t') \<and> length d = t_nodePageSize t \<and> keeps t t')"
    using allocUsing_ok [of t "new_PageWrapper t" keysNum leaf] new_page_nonempty [of t]
      length_blank [of t "new_PageWrapper t" keysNum leaf] storeOkD(1) [of t]
    by (auto simp: newPage_def keeps_def roomFor_def)
qed

end
