(* ===== verification/Comparators.thy ===== *)
theory Comparators
  imports Tree_State
begin

text \<open>
  The key comparators of the C interface (btree_c.h, btree_c.hpp) and the contract that
  the trees rely on: a strict weak order with its equivalence.  The locale \<open>key_order\<close>
  states the contract and derives what the searches and the insertions need about keys in
  order; it is interpreted on \<open>ByteComparator\<close>.
\<close>

section \<open>The comparators of the C interface\<close>

text \<open>The loop over the first part of the keys, from byte \<open>i\<close>, with \<open>n\<close> bytes to go.\<close>

fun compareBytes :: "byte list \<Rightarrow> byte list \<Rightarrow> nat \<Rightarrow> nat \<Rightarrow> bool" where
  "compareBytes lhv rhv i 0 = False"
| "compareBytes lhv rhv i (Suc n) =
     (if lhv ! i < rhv ! i then True
      else if lhv ! i > rhv ! i then False
      else compareBytes lhv rhv (i + 1) n)"

definition ByteComparator_compare :: "nat \<Rightarrow> byte list \<Rightarrow> byte list \<Rightarrow> nat \<Rightarrow> bool" where
  "ByteComparator_compare firstPartBytes lhv rhv sz = compareBytes lhv rhv 0 (min sz firstPartBytes)"

fun equalBytes :: "byte list \<Rightarrow> byte list \<Rightarrow> nat \<Rightarrow> nat \<Rightarrow> bool" where
  "equalBytes lhv rhv i 0 = True"
| "equalBytes lhv rhv i (Suc n) =
     (if lhv ! i \<noteq> rhv ! i then False else equalBytes lhv rhv (i + 1) n)"

definition ByteComparator_isEqual :: "nat \<Rightarrow> byte list \<Rightarrow> byte list \<Rightarrow> nat \<Rightarrow> bool" where
  "ByteComparator_isEqual firstPartBytes lhv rhv sz = equalBytes lhv rhv 0 (min sz firstPartBytes)"

definition ByteComparator :: "nat \<Rightarrow> IComparator" where
  "ByteComparator firstPartBytes =
     \<lparr>cmp_compare = ByteComparator_compare firstPartBytes,
      cmp_isEqual = ByteComparator_isEqual firstPartBytes\<rparr>"

text \<open>The comparator of the full scan: the same order, and every key is equal.\<close>

definition SearchAllByteComparator_compare :: "nat \<Rightarrow> byte list \<Rightarrow> byte list \<Rightarrow> nat \<Rightarrow> bool" where
  "SearchAllByteComparator_compare firstPartBytes lhv rhv sz =
     compareBytes lhv rhv 0 (min sz firstPartBytes)"

definition SearchAllByteComparator :: "nat \<Rightarrow> IComparator" where
  "SearchAllByteComparator firstPartBytes =
     \<lparr>cmp_compare = SearchAllByteComparator_compare firstPartBytes,
      cmp_isEqual = (\<lambda>lhv rhv sz. True)\<rparr>"

section \<open>The contract\<close>

locale key_order =
  fixes less :: "'k \<Rightarrow> 'k \<Rightarrow> bool"
  assumes irrefl: "\<not> less x x"
    and trans: "less x y \<Longrightarrow> less y z \<Longrightarrow> less x z"
    and weak: "less x z \<Longrightarrow> less x y \<or> less y z"
begin

abbreviation le :: "'k \<Rightarrow> 'k \<Rightarrow> bool" where
  "le x y \<equiv> \<not> less y x"

abbreviation ord :: "'k list \<Rightarrow> bool" where
  "ord xs \<equiv> sorted_wrt le xs"

lemma le_trans: "le x y \<Longrightarrow> le y z \<Longrightarrow> le x z"
  using weak by blast

lemma le_less_trans: "le x y \<Longrightarrow> less y z \<Longrightarrow> less x z"
  using weak by blast

lemma less_le_trans: "less x y \<Longrightarrow> le y z \<Longrightarrow> less x z"
  using weak by blast

lemma less_le: "less x y \<Longrightarrow> le x y"
  using irrefl trans by blast

text \<open>Inserting between the keys that are not greater and the keys that are not smaller.\<close>

lemma ord_insert:
  "ord (xs @ ys) \<Longrightarrow> \<forall>x \<in> set xs. le x k \<Longrightarrow> \<forall>y \<in> set ys. le k y \<Longrightarrow> ord (xs @ k # ys)"
  by (auto simp: sorted_wrt_append)

lemma ord_nth: "ord xs \<Longrightarrow> i \<le> j \<Longrightarrow> j < length xs \<Longrightarrow> le (xs ! i) (xs ! j)"
  using irrefl by (cases "i = j") (auto simp: sorted_wrt_iff_nth_less)

text \<open>A boundary key separates the keys before it and after it.\<close>

lemma ord_take_le:
  assumes "ord xs" "i < length xs" "le (xs ! i) k" "x \<in> set (take (Suc i) xs)"
  shows "le x k"
proof -
  obtain j where "j \<le> i" "x = xs ! j"
    using assms(2,4) by (auto simp: in_set_conv_nth less_Suc_eq_le)
  then show ?thesis
    using ord_nth [OF assms(1), of j i] assms(2,3) le_trans by blast
qed

lemma ord_take_less:
  assumes "ord xs" "i < length xs" "less (xs ! i) k" "x \<in> set (take (Suc i) xs)"
  shows "less x k"
proof -
  obtain j where "j \<le> i" "x = xs ! j"
    using assms(2,4) by (auto simp: in_set_conv_nth less_Suc_eq_le)
  then show ?thesis
    using ord_nth [OF assms(1), of j i] assms(2,3) le_less_trans by blast
qed

lemma ord_drop_le:
  assumes "ord xs" "i < length xs" "le k (xs ! i)" "x \<in> set (drop i xs)"
  shows "le k x"
proof -
  obtain j where "i + j < length xs" "x = xs ! (i + j)"
    by (rule in_drop_nth [OF assms(4)])
  then show ?thesis
    using le_trans [OF assms(3), of "xs ! (i + j)"] ord_nth [OF assms(1), of i "i + j"] by simp
qed

lemma ord_drop_less:
  assumes "ord xs" "i < length xs" "less k (xs ! i)" "x \<in> set (drop i xs)"
  shows "less k x"
proof -
  obtain j where "i + j < length xs" "x = xs ! (i + j)"
    by (rule in_drop_nth [OF assms(4)])
  then show ?thesis
    using less_le_trans [OF assms(3), of "xs ! (i + j)"] ord_nth [OF assms(1), of i "i + j"] by simp
qed

end

text \<open>With an equality test that holds exactly between incomparable keys.\<close>

locale comparator = key_order less for less :: "'k \<Rightarrow> 'k \<Rightarrow> bool" +
  fixes eq :: "'k \<Rightarrow> 'k \<Rightarrow> bool"
  assumes eq_iff: "eq x y \<longleftrightarrow> \<not> less x y \<and> \<not> less y x"
begin

lemma eq_sym: "eq x y \<longleftrightarrow> eq y x"
  by (auto simp: eq_iff)

lemma eq_trans: "eq x y \<Longrightarrow> eq y z \<Longrightarrow> eq x z"
  using le_trans by (meson eq_iff)

lemma less_not_eq: "less x y \<Longrightarrow> \<not> eq x y" "less x y \<Longrightarrow> \<not> eq y x"
  by (auto simp: eq_iff)

end

section \<open>The byte comparators meet it\<close>

lemma compareBytes_irrefl: "\<not> compareBytes x x i n"
  by (induction n arbitrary: i) auto

lemma compareBytes_trans: "compareBytes x y i n \<Longrightarrow> compareBytes y z i n \<Longrightarrow> compareBytes x z i n"
  by (induction n arbitrary: i) (auto split: if_splits)

lemma compareBytes_weak: "compareBytes x z i n \<Longrightarrow> compareBytes x y i n \<or> compareBytes y z i n"
  by (induction n arbitrary: i) (auto split: if_splits)

lemma equalBytes_iff: "equalBytes x y i n \<longleftrightarrow> \<not> compareBytes x y i n \<and> \<not> compareBytes y x i n"
  by (induction n arbitrary: i) auto

text \<open>The loops as the lexicographic order and the equality of the compared bytes.\<close>

lemma take_drop_Suc: "i + Suc n \<le> length xs \<Longrightarrow> take (Suc n) (drop i xs) = xs ! i # take n (drop (Suc i) xs)"
  by (subst Cons_nth_drop_Suc [symmetric]) simp_all

lemma compareBytes_lexord:
  "i + n \<le> length x \<Longrightarrow> i + n \<le> length y \<Longrightarrow>
   compareBytes x y i n \<longleftrightarrow> (take n (drop i x), take n (drop i y)) \<in> lexord {(a, b). a < b}"
proof (induction n arbitrary: i)
  case (Suc n)
  then show ?case using Suc.IH [of "Suc i"] by (auto simp: take_drop_Suc)
qed simp

lemma equalBytes_take:
  "i + n \<le> length x \<Longrightarrow> i + n \<le> length y \<Longrightarrow> equalBytes x y i n \<longleftrightarrow> take n (drop i x) = take n (drop i y)"
proof (induction n arbitrary: i)
  case (Suc n)
  then show ?case using Suc.IH [of "Suc i"] by (auto simp: take_drop_Suc)
qed simp

interpretation bytes: comparator "\<lambda>x y. ByteComparator_compare f x y sz"
    "\<lambda>x y. ByteComparator_isEqual f x y sz" for f sz
  by unfold_locales
    (use compareBytes_irrefl compareBytes_trans compareBytes_weak equalBytes_iff in
      \<open>auto simp: ByteComparator_compare_def ByteComparator_isEqual_def\<close>)

interpretation scan: key_order "\<lambda>x y. SearchAllByteComparator_compare f x y sz" for f sz
  using bytes.key_order_axioms
  by (simp add: SearchAllByteComparator_compare_def [abs_def] ByteComparator_compare_def [abs_def])

end
