(* ===== verification/Create_Load.thy ===== *)
theory Create_Load
  imports Page_Store Comparators
begin

text \<open>
  Creating a tree in an empty file and loading it again: \<open>createTree\<close> leaves a well-formed
  file with one empty leaf as the root, and \<open>loadTree\<close> on the bytes of a well-formed
  file restores the state.
\<close>

section \<open>Writes that extend a file\<close>

lemma overwrite_end: "p = length xs \<Longrightarrow> overwrite p ys xs = xs @ ys"
  by (simp add: overwrite_def)

lemma overwrite_mid: "p = length a \<Longrightarrow> length y = length b \<Longrightarrow> overwrite p y (a @ b @ c) = a @ y @ c"
  by (simp add: overwrite_def)

lemma slice_mid: "p = length a \<Longrightarrow> n = length b \<Longrightarrow> slice p n (a @ b @ c) = b"
  by (simp add: slice_def)

lemma length_headerBytes [simp]: "length (headerBytes h) = 8"
  by (simp add: headerBytes_def)

text \<open>The bytes of a tree file, assembled.\<close>

definition treeFile :: "Header \<Rightarrow> nat \<Rightarrow> nat \<Rightarrow> byte list \<Rightarrow> byte list" where
  "treeFile h lastNum rootNum rest = headerBytes h @ le_enc 4 lastNum @ le_enc 4 rootNum @ rest"

lemma length_treeFile [simp]: "length (treeFile h l r rest) = 16 + length rest"
  by (simp add: treeFile_def)

lemma treeFile_slices:
  "slice 0 8 (treeFile h l r rest) = headerBytes h"
  "slice 8 4 (treeFile h l r rest) = le_enc 4 l"
  "slice 12 4 (treeFile h l r rest) = le_enc 4 r"
  "slice (16 + p) n (treeFile h l r rest) = slice p n rest"
proof -
  show "slice 0 8 (treeFile h l r rest) = headerBytes h"
    unfolding treeFile_def using slice_mid [of 0 "[]" 8 "headerBytes h"] by simp
  show "slice 8 4 (treeFile h l r rest) = le_enc 4 l"
    unfolding treeFile_def by (rule slice_mid) simp_all
  show "slice 12 4 (treeFile h l r rest) = le_enc 4 r"
    unfolding treeFile_def using slice_mid [of 12 "headerBytes h @ le_enc 4 l" 4 "le_enc 4 r" rest] by simp
  show "slice (16 + p) n (treeFile h l r rest) = slice p n rest"
    by (simp add: slice_def treeFile_def)
qed

lemma treeFile_writes:
  "overwrite 8 (le_enc 4 l') (treeFile h l r rest) = treeFile h l' r rest"
  "overwrite 12 (le_enc 4 r') (treeFile h l r rest) = treeFile h l r' rest"
  "q = length rest \<Longrightarrow> overwrite (16 + q) ys (treeFile h l r rest) = treeFile h l r (rest @ ys)"
  "length b = length ys \<Longrightarrow> length a = q \<Longrightarrow>
   overwrite (16 + q) ys (treeFile h l r (a @ b)) = treeFile h l r (a @ ys)"
proof -
  show "overwrite 8 (le_enc 4 l') (treeFile h l r rest) = treeFile h l' r rest"
    unfolding treeFile_def by (rule overwrite_mid) simp_all
  show "overwrite 12 (le_enc 4 r') (treeFile h l r rest) = treeFile h l r' rest"
    unfolding treeFile_def
    using overwrite_mid [of 12 "headerBytes h @ le_enc 4 l" "le_enc 4 r'" "le_enc 4 r" rest] by simp
  show "q = length rest \<Longrightarrow> overwrite (16 + q) ys (treeFile h l r rest) = treeFile h l r (rest @ ys)"
    by (subst overwrite_end) (simp_all add: treeFile_def)
  show "overwrite (16 + q) ys (treeFile h l r (a @ b)) = treeFile h l r (a @ ys)"
    if "length b = length ys" "length a = q"
    unfolding treeFile_def using that
      overwrite_mid [of "16 + q" "headerBytes h @ le_enc 4 l @ le_enc 4 r @ a" ys b "[]"]
    by simp
qed

section \<open>Creating a tree\<close>

lemma write_at: "isOpened t \<Longrightarrow> t_stream t = Some s \<Longrightarrow> pos s = p \<Longrightarrow> writeT bs t = Inr (putBytes p bs t)"
  by (auto simp: isOpened_def writeT_def stream_write_def putBytes_def)

text \<open>What \<open>createTree\<close> has done before it allocates the root page.\<close>

lemma create_start:
  assumes "setOrder order recSize t = Inr t1" "t_stream t = Some emptyStream"
    "t_lastPageNum t = 0" "t_rootPageNum t = 0"
  shows "\<exists>t2. bindR (writeHeader t1) (\<lambda>t. bindR (writePageCounter t) writeRootPageNum) = Inr t2 \<and>
    frame t2 = frame t1 \<and> isOpened t2 \<and> t_lastPageNum t2 = 0 \<and> t_rootPageNum t2 = 0 \<and>
    t_freePagesCounter t2 = t_freePagesCounter t1 \<and> bytesOf t2 = treeFile (treeHeader t1) 0 0 []"
proof -
  note f = setOrder_frame [OF assms(1)]
  have o: "isOpened t1" "t_stream t1 = Some emptyStream" and b0: "bytesOf t1 = []"
    using f assms(2) by (simp_all add: isOpened_def emptyStream_def bytesOf_def)
  let ?a = "countDisk (putBytes 0 (headerBytes (treeHeader t1)) t1)"
  let ?b = "countDisk (putBytes 8 (le_enc 4 0) ?a)"
  let ?c = "countDisk (putBytes 12 (le_enc 4 0) ?b)"
  have "writeHeader t1 = Inr ?a"
    using o by (simp add: writeHeader_def Let_def treeHeader_def write_at [OF o] emptyStream_def)
  moreover have "writePageCounter ?a = Inr ?b" "writeRootPageNum ?b = Inr ?c"
    using o f assms(3,4)
    by (simp_all add: writePageCounter_def writeRootPageNum_def seek_ok write_ok layout)
  moreover have "bytesOf ?c = treeFile (treeHeader t1) 0 0 []"
    using o by (simp add: b0 overwrite_end treeFile_def)
  ultimately show ?thesis
    using o f assms(3,4) by (intro exI [of _ ?c]) simp
qed

text \<open>Allocating the first page of a file that has no page area yet.\<close>

lemma alloc_first:
  assumes t: "geom t" "32 \<le> t_ulongBits t" "isOpened t" "t_lastPageNum t = 0" "t_freePagesCounter t = 0"
    "bytesOf t = treeFile h 0 0 []" and pw: "pw_data pw \<noteq> []"
  shows "\<exists>t'. allocPageUsingFreePages pw kn leaf t = Inr (1, blankPage t kn leaf pw, t') \<and>
    frame t' = frame t \<and> isOpened t' \<and> t_lastPageNum t' = 1 \<and> t_rootPageNum t' = t_rootPageNum t \<and>
    t_freePagesCounter t' = 0 \<and>
    bytesOf t' = treeFile h 1 0 (pw_data (blankPage t kn leaf pw) @ le_enc 4 0)"
proof -
  let ?d = "pw_data (blankPage t kn leaf pw)"
  have d: "length ?d = t_nodePageSize t" by (rule length_blank [OF t(1) pw])
  have p1: "pageOfs t 1 = 16" and p2: "pageOfs t 2 = 16 + t_nodePageSize t"
    by (simp_all add: pageOfs_def layout)
  have g1: "getFreePagesInfoAreaOfs t = 16"
    using page_ofs_code'(2) [OF t(2), of 1] t(4) p1
    by (simp add: getFreePagesInfoAreaOfs_def UInt_def)
  let ?a = "putBytes 16 ?d t"
  let ?b = "countDisk (putBytes 8 (le_enc 4 1) (?a\<lparr>t_lastPageNum := 1\<rparr>))"
  have A: "allocPageInternal pw kn leaf t = Inr (blankPage t kn leaf pw, ?b)"
    using t(3,4) d
    by (simp add: allocPageInternal_def Let_def blankPage_def [symmetric] g1 seek_ok write_ok
        writePageCounter_def UInt_def layout)
  have "t_nodePageSize ?b = t_nodePageSize t" "t_ulongBits ?b = t_ulongBits t" by simp_all
  then have g2: "getFreePagesInfoAreaOfs ?b = 16 + t_nodePageSize t"
    using page_ofs_code'(2) [of ?b 2] t(2) geomD(6) [OF t(1)]
    by (simp add: getFreePagesInfoAreaOfs_def UInt_def pageOfs_def layout numeral_2_eq_2 [symmetric])
  let ?c = "countDisk (putBytes (16 + t_nodePageSize t) (le_enc 4 0) ?b)"
  have "allocPageUsingFreePages pw kn leaf t = Inr (1, blankPage t kn leaf pw, ?c)"
    using t(3,5) by (simp add: allocPageUsingFreePages_def A [simplified] writeFreePagesCounter_def
        g2 [simplified] seek_ok write_ok layout)
  moreover have "bytesOf ?c = treeFile h 1 0 (?d @ le_enc 4 0)"
    using t(3) d treeFile_writes(3) [of 0 "[]"]
    by (simp add: t(6) treeFile_writes)
  ultimately show ?thesis
    using t(3,5) by (intro exI [of _ ?c]) simp
qed

definition emptyLeaf :: "BaseBTree \<Rightarrow> byte list" where
  "emptyLeaf t = pw_data (setKeyNumLeaf 0 True \<lparr>pw_data = replicate (t_nodePageSize t) 0, pw_pageNum = 0\<rparr>)"

lemma blank_leaf: "pw_data pw \<noteq> [] \<Longrightarrow> pw_data (blankPage t 0 True pw) = emptyLeaf t"
  by (simp add: blankPage_def emptyLeaf_def clear_def setKeyNumLeaf_def putNodeInfo_def Let_def)

lemma blank_pageNum: "pw_pageNum (blankPage t kn leaf pw) = pw_pageNum pw"
  by (simp add: blankPage_def clear_def setKeyNumLeaf_def putNodeInfo_def Let_def)

lemma length_emptyLeaf: "geom t \<Longrightarrow> length (emptyLeaf t) = t_nodePageSize t"
  unfolding emptyLeaf_def by (intro setKeyNumLeaf_frame) simp_all

lemma storeOk_first:
  assumes "geom t" "32 \<le> t_ulongBits t" "isOpened t" "t_lastPageNum t = 1" "t_rootPageNum t = 1"
    "t_freePagesCounter t = 0" "bytesOf t = treeFile (treeHeader t) 1 1 (d @ le_enc 4 0)"
    "length d = t_nodePageSize t"
  shows "storeOk t" "absStore t = \<lparr>ps_last = 1, ps_root = 1, ps_free = [], ps_page = (\<lambda>n. []) (1 := d)\<rparr>"
proof -
  have p: "pageOfs t (Suc 0) = 16 + 0" "pageOfs t (Suc (Suc 0)) = 16 + t_nodePageSize t"
    by (simp_all add: pageOfs_def layout)
  have "slice (t_nodePageSize t) 4 (d @ le_enc 4 0) = le_enc 4 0"
    using slice_mid [of "t_nodePageSize t" d 4 "le_enc 4 0" "[]"] assms(8) by simp
  then show "storeOk t"
    using assms(1-6,8) geomD(6) [OF assms(1)]
    by (simp add: storeOk_def assms(7) p treeFile_slices)
  have "slice 0 (t_nodePageSize t) (d @ le_enc 4 0) = d"
    using slice_mid [of 0 "[]" "t_nodePageSize t" d "le_enc 4 0"] assms(8) by simp
  then have "pageBytes t (Suc 0) = d"
    unfolding pageBytes_def p(1) assms(7) treeFile_slices(4) .
  moreover have "n = Suc 0" if "Suc 0 \<le> n" "n \<le> Suc 0" for n :: nat using that by simp
  ultimately show "absStore t = \<lparr>ps_last = 1, ps_root = 1, ps_free = [], ps_page = (\<lambda>n. []) (1 := d)\<rparr>"
    by (auto simp: absStore_def assms(4-6) fun_eq_iff)
qed

lemma createTree_ok:
  assumes so: "setOrder order recSize t = Inr t1" and st: "t_stream t = Some emptyStream"
    and z: "t_lastPageNum t = 0" "t_rootPageNum t = 0" "t_freePagesCounter t = 0"
    and u: "32 \<le> t_ulongBits t" and g: "geom t1"
  shows "\<exists>t'. createTree order recSize t = Inr t' \<and> storeOk t' \<and>
    frame t' = frame (t1\<lparr>t_rootPage := \<lparr>pw_data = emptyLeaf t1, pw_pageNum = 1\<rparr>\<rparr>) \<and>
    absStore t' = \<lparr>ps_last = 1, ps_root = 1, ps_free = [], ps_page = (\<lambda>n. []) (1 := emptyLeaf t1)\<rparr> \<and>
    length (bytesOf t') = areaOfs t' + 4"
proof -
  note f = setOrder_frame [OF so]
  obtain t2 where t2: "bindR (writeHeader t1) (\<lambda>t. bindR (writePageCounter t) writeRootPageNum) = Inr t2"
    "frame t2 = frame t1" "isOpened t2" "t_lastPageNum t2 = 0" "t_rootPageNum t2 = 0"
    "t_freePagesCounter t2 = 0" "bytesOf t2 = treeFile (treeHeader t1) 0 0 []"
    using create_start [OF so st z(1,2)] f z(3) by auto
  note F = frame_eqF [OF t2(2)] frame_eqD [OF t2(2)]
  let ?t2 = "countDisk t2" and ?pw = "t_rootPage t1"
  have pw: "pw_data ?pw \<noteq> []" using f(10) pageSize_pos [OF g] by (simp add: reallocData_def)
  have F2: "frame ?t2 = frame t1" using t2(2) by simp
  note G = frame_eqF [OF F2] frame_eqD [OF F2]
  obtain t3 where t3: "allocPageUsingFreePages ?pw 0 True ?t2 = Inr (1, blankPage ?t2 0 True ?pw, t3)"
    "frame t3 = frame t1" "isOpened t3" "t_lastPageNum t3 = 1" "t_freePagesCounter t3 = 0"
    "bytesOf t3 = treeFile (treeHeader t1) 1 0 (emptyLeaf t1 @ le_enc 4 0)"
    using alloc_first [of ?t2 "treeHeader t1" ?pw 0 True] t2 g u pw G f(2)
    by (auto simp: blank_leaf emptyLeaf_def)
  note H = frame_eqF [OF t3(2)] frame_eqD [OF t3(2)]
  let ?root = "\<lparr>pw_data = emptyLeaf t1, pw_pageNum = 1\<rparr>"
  have bl: "(blankPage ?t2 0 True ?pw)\<lparr>pw_pageNum := Suc 0\<rparr> = ?root"
    using blank_leaf [OF pw, of ?t2] by (intro PageWrapper.equality) (simp_all add: emptyLeaf_def F)
  let ?t4 = "countDisk (putBytes 12 (le_enc 4 1) (t3\<lparr>t_rootPage := ?root, t_rootPageNum := 1\<rparr>))"
  have c: "createRootPage t2 = Inr ?t4"
    using t2(3) t3(3) t3(1) [simplified]
    by (simp add: createRootPage_def allocPage_def checkForOpenStream_def F bl setAsRoot_def Let_def
        setRootPageNum_def writeRootPageNum_def seek_ok write_ok layout)
  have "t_nodePageSize ?t4 = t_nodePageSize t1" "t_ulongBits ?t4 = t_ulongBits t" "t_lastPageNum ?t4 = 1"
    using t3(4) f(2) by (simp_all add: H)
  then have g4: "getFreePagesInfoAreaOfs ?t4 = 16 + t_nodePageSize t1"
    using page_ofs_code'(2) [of ?t4 2] u geomD(6) [OF g]
    by (simp add: getFreePagesInfoAreaOfs_def UInt_def pageOfs_def layout numeral_2_eq_2 [symmetric])
  let ?t5 = "countDisk (putBytes (16 + t_nodePageSize t1) (le_enc 4 0) ?t4)"
  have "createTree order recSize t = bindR (Inr t2) (\<lambda>t. bindR (createRootPage t) writeFreePagesCounter)"
    unfolding t2(1) [symmetric] by (simp add: createTree_def so bindR_assoc)
  also have "\<dots> = Inr ?t5"
    using t3(3,5)
    by (simp add: c [simplified] writeFreePagesCounter_def g4 [simplified] seek_ok write_ok layout)
  finally have C: "createTree order recSize t = Inr ?t5" .
  have fr: "frame ?t5 = frame (t1\<lparr>t_rootPage := ?root\<rparr>)"
    using t3(2) by simp
  have by5: "bytesOf ?t5 = treeFile (treeHeader t1) 1 1 (emptyLeaf t1 @ le_enc 4 0)"
    using t3(3,6) length_emptyLeaf [OF g] by (simp add: treeFile_writes)
  have "pageOfs ?t5 (Suc (Suc 0)) = 16 + t_nodePageSize t1"
    using frame_eqF(8) [OF fr] by (simp add: pageOfs_def layout)
  then have ln: "length (bytesOf ?t5) = areaOfs ?t5 + 4"
    using t3(4) unfolding by5 by (simp add: length_emptyLeaf [OF g])
  have "geom ?t5" "treeHeader ?t5 = treeHeader t1" "t_ulongBits ?t5 = t_ulongBits t"
    using frame_eqF [OF fr] frame_eqD [OF fr] g f(2) by simp_all
  then have "storeOk ?t5" "absStore ?t5 =
      \<lparr>ps_last = 1, ps_root = 1, ps_free = [], ps_page = (\<lambda>n. []) (1 := emptyLeaf t1)\<rparr>"
    using storeOk_first [of ?t5 "emptyLeaf t1"] by5 u t3(3-5) length_emptyLeaf [OF g] H by simp_all
  then show ?thesis
    using C fr ln by blast
qed

section \<open>Loading a tree\<close>

lemma headerOf_headerBytes:
  assumes "hdr_sign h < 2 ^ 32" "hdr_order h < 2 ^ 16" "hdr_recSize h < 2 ^ 16"
  shows "headerOf (headerBytes h) = h"
proof -
  have "slice 0 4 (headerBytes h) = le_enc 4 (hdr_sign h)"
    "slice 4 2 (headerBytes h) = le_enc 2 (hdr_order h)"
    "slice 6 2 (headerBytes h) = le_enc 2 (hdr_recSize h)"
    using slice_mid [of 0 "[]" 4 "le_enc 4 (hdr_sign h)"]
      slice_mid [of 4 "le_enc 4 (hdr_sign h)" 2 "le_enc 2 (hdr_order h)"]
      slice_mid [of 6 "le_enc 4 (hdr_sign h) @ le_enc 2 (hdr_order h)" 2 "le_enc 2 (hdr_recSize h)" "[]"]
    by (simp_all add: headerBytes_def)
  then show ?thesis using assms by (simp add: headerOf_def le_dec_enc)
qed

lemma setOrder_moved:
  assumes "setOrder order recSize t = Inr t1" "frame t' = frame t"
  shows "\<exists>t1'. setOrder order recSize t' = Inr t1' \<and> frame t1' = frame t1"
proof -
  have "t' = t\<lparr>t_lastPageNum := t_lastPageNum t', t_rootPageNum := t_rootPageNum t',
      t_freePagesCounter := t_freePagesCounter t', t_diskOperationsCount := t_diskOperationsCount t',
      t_stream := t_stream t'\<rparr>"
    using assms(2) by (cases t, cases t') (simp add: frame_def)
  then obtain l r f d s where t': "t' = t\<lparr>t_lastPageNum := l, t_rootPageNum := r,
      t_freePagesCounter := f, t_diskOperationsCount := d, t_stream := s\<rparr>"
    by blast
  have "setOrder order recSize t' = Inr (t1\<lparr>t_lastPageNum := l, t_rootPageNum := r,
      t_freePagesCounter := f, t_diskOperationsCount := d, t_stream := s\<rparr>)"
    using assms(1) unfolding t'
    by (cases "t_treeType t"; auto simp: setOrder_defs Let_def reallocWorkPages_def setGeometry_def
        split: if_splits)
  then show ?thesis by (simp add: frame_def)
qed

lemma opened_not_failed: "isOpened t \<Longrightarrow> \<not> streamFailed t"
  by (auto simp: isOpened_def streamFailed_def split: option.splits)

text \<open>Reading a four-byte field that the file holds.\<close>

lemma read_u32:
  assumes "isOpened t" "slice p 4 (bytesOf t) = le_enc 4 n" "p + 4 \<le> length (bytesOf t)" "n < 2 ^ 32"
  shows "bindR (seekT p t) (readT 4) = Inr (le_enc 4 n, movePos (p + 4) t)"
    "le_dec (overwrite 0 (le_enc 4 n) (le_enc 4 m)) = n"
  using assms by (simp_all add: seek_ok read_ok overwrite_0_full le_dec_enc)

lemma absStore_cong:
  assumes "t_nodePageSize t' = t_nodePageSize t" "bytesOf t' = bytesOf t"
    "t_lastPageNum t' = t_lastPageNum t" "t_rootPageNum t' = t_rootPageNum t"
    "t_freePagesCounter t' = t_freePagesCounter t"
  shows "absStore t' = absStore t"
  using assms by (simp add: absStore_def pageBytes_def freeSlot_def pageOfs_def cong: if_cong)

lemma loadTree_ok:
  assumes ok: "storeOk t" and hdr: "t_order t < 2 ^ 16" "1 \<le> t_order t" "t_recSize t < 2 ^ 16" "0 < t_recSize t"
    and live: "ps_live (absStore t) (t_rootPageNum t)"
    and t0: "isOpened t0" "bytesOf t0 = bytesOf t" "t_ulongBits t0 = t_ulongBits t"
    and so: "setOrder (t_order t) (t_recSize t) t0 = Inr t1" "t_nodePageSize t1 = t_nodePageSize t" "geom t1"
  shows "\<exists>t'. loadTree t0 = Inr t' \<and> storeOk t' \<and> absStore t' = absStore t \<and>
    frame t' = frame (t1\<lparr>t_rootPage :=
      \<lparr>pw_data = ps_page (absStore t) (t_rootPageNum t), pw_pageNum = t_rootPageNum t\<rparr>\<rparr>)"
proof -
  let ?h = "treeHeader t" and ?B = "bytesOf t"
  note d = storeOkD [OF ok]
  have b: "16 \<le> areaOfs t" using pageOfs_ge [of t] by (simp add: layout)
  have hd: "readHeader t0 = Inr (?h, countDisk (movePos 8 t0))"
    using t0 d(5,7) b hdr headerOf_headerBytes [of ?h]
    by (simp add: readHeader_def seek_ok read_ok overwrite_full layout treeHeader_def)
  have ci: "checkIntegrity ?h" using hdr by (simp add: checkIntegrity_def treeHeader_def)
  let ?t0 = "countDisk (movePos 8 t0)"
  have "frame ?t0 = frame t0" by simp
  then obtain t1' where so': "setOrder (t_order t) (t_recSize t) ?t0 = Inr t1'" "frame t1' = frame t1"
    using setOrder_moved [OF so(1)] by blast
  have t1': "isOpened t1'" "bytesOf t1' = ?B"
    using setOrder_frame(3) [OF so'(1)] t0
    by (auto simp: isOpened_def bytesOf_def countDisk_def movePos_def split: option.splits)
  note F = frame_eqD [OF so'(2)] frame_eqF [OF so'(2)]
  let ?t2 = "countDisk ((movePos 12 t1')\<lparr>t_lastPageNum := t_lastPageNum t\<rparr>)"
  have r2: "readPageCounter t1' = Inr ?t2"
    using t1' d(5,8) b last_less [OF ok]
    by (simp add: readPageCounter_def seek_ok read_ok layout overwrite_0_full le_dec_enc)
  let ?t3 = "countDisk ((movePos 16 ?t2)\<lparr>t_rootPageNum := t_rootPageNum t\<rparr>)"
  have r3: "readRootPageNum ?t2 = Inr ?t3"
    using t1' d(4,5,9) b
    by (simp add: readRootPageNum_def seek_ok read_ok layout overwrite_0_full le_dec_enc)
  have po: "pageOfs t1 = pageOfs t" by (simp add: fun_eq_iff pageOfs_def so(2))
  let ?n = "t_rootPageNum t"
  have n: "1 \<le> ?n" "?n \<le> t_lastPageNum t" using live by (simp_all add: ps_live_def absStore_def)
  let ?t4 = "countDisk (movePos (pageOfs t ?n + t_nodePageSize t) ?t3)"
  let ?root = "\<lparr>pw_data = pageBytes t ?n, pw_pageNum = ?n\<rparr>"
  have u: "t_ulongBits t1 = t_ulongBits t" using setOrder_frame(2) [OF so(1)] t0(3) by simp
  have len: "length (pw_data (t_rootPage t1)) = t_nodePageSize t"
    using setOrder_frame(10) [OF so(1)] so(2) by (simp add: reallocData_def)
  have rp: "readPage ?n (pw_data (t_rootPage t1)) ?t3 = Inr (pageBytes t ?n, ?t4)"
    using t1' n page_ofs_code(1) [OF ok, of ?n] page_in_file [OF ok n] len
    by (simp add: readPage_def checkForOpenStream_def readPageInternal_def gotoPage_def F so(2) seek_ok
        read_ok pageBytes_def overwrite_full)
  let ?t5 = "?t4\<lparr>t_rootPage := ?root, t_rootPageNum := ?n\<rparr>"
  have r5: "loadRootPage ?t3 = Inr ?t5"
    using n rp by (simp add: loadRootPage_def PageWrapper_readPage_def F setAsRoot_def Let_def)
  have "getPageOfs (Suc (t_lastPageNum t)) ?t5 = areaOfs t"
    using page_ofs_code'(2) [of ?t5 "Suc (t_lastPageNum t)"] d(2,6) last_less [OF ok] u
    by (simp add: F pageOfs_def so(2))
  then have ar: "getFreePagesInfoAreaOfs ?t5 = areaOfs t"
    using last_less [OF ok] by (simp add: getFreePagesInfoAreaOfs_def UInt_def)
  let ?t6 = "countDisk ((movePos (areaOfs t + 4) ?t5)\<lparr>t_freePagesCounter := t_freePagesCounter t\<rparr>)"
  have r6: "loadFreePagesCounter ?t5 = Inr ?t6"
    using t1' d(5,6,10) ar
    by (simp add: loadFreePagesCounter_def seek_ok read_ok layout overwrite_0_full le_dec_enc)
  have L: "loadTree t0 = Inr ?t6"
    using t1' t0(1) ci so'(1)
    by (simp add: loadTree_def hd opened_not_failed treeHeader_def r2 r3 [simplified] r5 [simplified]
        r6 [simplified])
  have fr: "frame ?t6 = frame (t1\<lparr>t_rootPage := ?root\<rparr>)" using so'(2) by simp
  note H = frame_eqF [OF fr] frame_eqD [OF fr]
  have B: "bytesOf ?t6 = ?B" "isOpened ?t6" using t1' by simp_all
  have th: "treeHeader ?t6 = treeHeader t"
    using H(9) setOrder_frame(4,5) [OF so(1)] by (simp add: treeHeader_def)
  have "storeOk ?t6"
    using d so(3) u B th by (simp add: storeOk_def H po F)
  moreover have "absStore ?t6 = absStore t"
    using B by (intro absStore_cong) (simp_all add: F so(2))
  moreover have "ps_page (absStore t) ?n = pageBytes t ?n" using n by (simp add: absStore_def)
  ultimately show ?thesis using L fr by (intro exI [of _ ?t6]) simp
qed

section \<open>A sample tree\<close>

text \<open>
  A tree object of each kind on an empty file, before \<open>createTree\<close>: records of eight bytes
  compared by their first four.
\<close>

definition sampleTree :: "TreeType \<Rightarrow> nat \<Rightarrow> BaseBTree" where
  "sampleTree ty ulongBits = new_BaseBTree ty ulongBits 0 0 (Some (ByteComparator 4)) (Some emptyStream)"

lemma sample_order:
  assumes "order \<in> {4, 5}"
  shows "\<exists>t1. setOrder order 8 (sampleTree ty u) = Inr t1 \<and> geom t1 \<and> t_ulongBits t1 = u"
proof -
  have "setOrder order 8 (sampleTree ty u) \<noteq> Inl InvalidArgument"
    using assms unfolding setOrder_error(1)
    by (cases ty) (auto simp: sampleTree_def new_BaseBTree_def minOrder_def orderKeys_def layout)
  then obtain t1 where so: "setOrder order 8 (sampleTree ty u) = Inr t1"
    using setOrder_error(2) by (cases "setOrder order 8 (sampleTree ty u)") auto
  have "t_nodePageSize t1 < 2 ^ 31"
    using setOrder_sizes(2,3) [OF so] setOrder_keys(1,2) [OF so] by (simp add: layout)
  then show ?thesis
    using so setOrder_geometry [OF so] setOrder_frame(2) [OF so]
    by (simp add: geom_def sampleTree_def new_BaseBTree_def)
qed

lemma sample_created:
  assumes "order \<in> {4, 5}" "32 \<le> u"
  shows "\<exists>t'. createTree order 8 (sampleTree ty u) = Inr t' \<and> storeOk t' \<and> t_ulongBits t' = u \<and>
    t_treeType t' = ty \<and> t_order t' = order \<and> t_recSize t' = 8 \<and> t_comparator t' = Some (ByteComparator 4) \<and>
    absStore t' = \<lparr>ps_last = 1, ps_root = 1, ps_free = [], ps_page = (\<lambda>n. []) (1 := emptyLeaf t')\<rparr> \<and>
    t_rootPage t' = \<lparr>pw_data = emptyLeaf t', pw_pageNum = 1\<rparr> \<and> length (bytesOf t') = areaOfs t' + 4"
proof -
  obtain t1 where t1: "setOrder order 8 (sampleTree ty u) = Inr t1" "geom t1" "t_ulongBits t1 = u"
    using sample_order [OF assms(1)] by blast
  note f = setOrder_frame [OF t1(1)]
  have z: "t_stream (sampleTree ty u) = Some emptyStream" "t_lastPageNum (sampleTree ty u) = 0"
    "t_rootPageNum (sampleTree ty u) = 0" "t_freePagesCounter (sampleTree ty u) = 0"
    by (simp_all add: sampleTree_def new_BaseBTree_def)
  have w: "32 \<le> t_ulongBits (sampleTree ty u)"
    using assms(2) by (simp add: sampleTree_def new_BaseBTree_def)
  obtain t' where t': "createTree order 8 (sampleTree ty u) = Inr t'" "storeOk t'"
    "frame t' = frame (t1\<lparr>t_rootPage := \<lparr>pw_data = emptyLeaf t1, pw_pageNum = 1\<rparr>\<rparr>)"
    "absStore t' = \<lparr>ps_last = 1, ps_root = 1, ps_free = [], ps_page = (\<lambda>n. []) (1 := emptyLeaf t1)\<rparr>"
    "length (bytesOf t') = areaOfs t' + 4"
    using createTree_ok [OF t1(1) z w t1(2)] by blast
  note F = frame_eqD [OF t'(3)]
  have "emptyLeaf t' = emptyLeaf t1" by (simp add: emptyLeaf_def F)
  then show ?thesis
    using t'(1,2,4,5) f t1(3) F by (intro exI [of _ t']) (simp add: sampleTree_def new_BaseBTree_def)
qed

end
