(* ===== verification/Tree_Ops.thy ===== *)
theory Tree_Ops
  imports Create_Load
begin

text \<open>
  Searching, splitting and inserting (btree.hpp) for \<open>BaseBTree\<close> and \<open>BaseBPlusTree\<close>, and
  the searches and the splitting of one child for \<open>BaseBStarTree\<close> and \<open>BaseBStarPlusTree\<close>.
  A page wrapper that the code passes by reference is an argument and, where the callee
  changes it, a part of the result.  The depth of the recursion over pages is bounded by
  fuel; the public methods pass one more than the number of pages in the file, which no
  path without a repeated page exceeds.
\<close>

text \<open>\<open>UShort\<close> subtraction wraps.\<close>

definition SSub :: "nat \<Rightarrow> nat \<Rightarrow> nat" where
  "SSub a b = (a + 2 ^ 16 - b) mod 2 ^ 16"

section \<open>Full pages\<close>

definition BaseBTree_isFull :: "BaseBTree \<Rightarrow> PageWrapper \<Rightarrow> bool" where
  "BaseBTree_isFull t page = (getKeysNum page = t_maxKeys t)"

definition BaseBPlusTree_isFull :: "BaseBTree \<Rightarrow> PageWrapper \<Rightarrow> bool" where
  "BaseBPlusTree_isFull t page =
     ((\<not> isLeaf page \<and> BaseBTree_isFull t page) \<or> (isLeaf page \<and> getKeysNum page = t_maxLeafKeys t))"

definition BaseBStarTree_isFull :: "BaseBTree \<Rightarrow> PageWrapper \<Rightarrow> bool" where
  "BaseBStarTree_isFull t page =
     ((\<not> isRoot t page \<and> BaseBTree_isFull t page) \<or> (isRoot t page \<and> getKeysNum page = t_maxRootKeys t))"

definition isFull :: "BaseBTree \<Rightarrow> PageWrapper \<Rightarrow> bool" where
  "isFull t page =
     (case t_treeType t of
        B_TREE \<Rightarrow> BaseBTree_isFull t page
      | B_PLUS_TREE \<Rightarrow> BaseBPlusTree_isFull t page
      | B_STAR_TREE \<Rightarrow> BaseBStarTree_isFull t page
      | B_STAR_PLUS_TREE \<Rightarrow> BaseBStarTree_isFull t page)"

section \<open>Loops over the keys of a page\<close>

text \<open>
  \<open>scanUp\<close> is \<open>for (i = 0; i < keysNum && compare(key(i), k); ++i) ;\<close> from \<open>i\<close> with \<open>m\<close> keys
  to go.  \<open>scanDown\<close> is \<open>for ( ; i >= 0 && compare(k, key(i)); --i) ;\<close> followed by \<open>++i\<close>; its
  argument and its result are \<open>i + 1\<close>.  \<open>shiftGreater\<close> is the same loop with the copy of
  a key one slot up as its body.
\<close>

fun scanUp :: "IComparator \<Rightarrow> BaseBTree \<Rightarrow> PageWrapper \<Rightarrow> byte list \<Rightarrow> nat \<Rightarrow> nat \<Rightarrow> nat res" where
  "scanUp c t pw k i 0 = Inr i"
| "scanUp c t pw k i (Suc m) =
     bindR (keyAt t pw i) (\<lambda>x.
       if cmp_compare c x k (t_recSize t) then scanUp c t pw k (i + 1) m else Inr i)"

fun scanDown :: "IComparator \<Rightarrow> BaseBTree \<Rightarrow> PageWrapper \<Rightarrow> byte list \<Rightarrow> nat \<Rightarrow> nat res" where
  "scanDown c t pw k 0 = Inr 0"
| "scanDown c t pw k (Suc i) =
     bindR (keyAt t pw i) (\<lambda>x.
       if cmp_compare c k x (t_recSize t) then scanDown c t pw k i else Inr (Suc i))"

fun shiftGreater ::
  "IComparator \<Rightarrow> BaseBTree \<Rightarrow> byte list \<Rightarrow> PageWrapper \<Rightarrow> nat \<Rightarrow> (nat \<times> PageWrapper) res" where
  "shiftGreater c t k pw 0 = Inr (0, pw)"
| "shiftGreater c t k pw (Suc i) =
     bindR (keyAt t pw i) (\<lambda>x.
       if cmp_compare c k x (t_recSize t)
       then bindR (copyKeyAt t pw (Suc i) pw i) (\<lambda>pw. shiftGreater c t k pw i)
       else Inr (Suc i, pw))"

text \<open>\<open>i < keysNum && isEqual(k, key(i))\<close>.\<close>

definition equalAt :: "IComparator \<Rightarrow> BaseBTree \<Rightarrow> PageWrapper \<Rightarrow> byte list \<Rightarrow> nat \<Rightarrow> bool res" where
  "equalAt c t pw k i =
     (if i < getKeysNum pw
      then bindR (keyAt t pw i) (\<lambda>x. Inr (cmp_isEqual c k x (t_recSize t))) else Inr False)"

section \<open>Searching for one key\<close>

definition noteDepth :: "nat \<Rightarrow> BaseBTree \<Rightarrow> BaseBTree" where
  "noteDepth depth t = (if depth > t_maxSearchDepth t then t\<lparr>t_maxSearchDepth := depth\<rparr> else t)"

fun BaseBTree_search ::
  "nat \<Rightarrow> byte list \<Rightarrow> PageWrapper \<Rightarrow> nat \<Rightarrow> BaseBTree \<Rightarrow> (byte list option \<times> BaseBTree) res" where
  "BaseBTree_search 0 k pw depth t = Inl OutOfFuel"
| "BaseBTree_search (Suc fuel) k pw depth t =
     (case t_comparator t of None \<Rightarrow> Inl MemoryFault
      | Some c \<Rightarrow>
        let t = noteDepth depth t in
        bindR (scanUp c t pw k 0 (getKeysNum pw)) (\<lambda>i.
        bindR (equalAt c t pw k i) (\<lambda>found.
          if found then bindR (keyAt t pw i) (\<lambda>x. Inr (Some x, t))
          else if isLeaf pw then Inr (None, t)
          else bindR (readPageFromChild (new_PageWrapper t) pw i t) (\<lambda>(nextPage, t).
                 BaseBTree_search fuel k nextPage (depth + 1) t))))"

fun BaseBPlusTree_search ::
  "nat \<Rightarrow> byte list \<Rightarrow> PageWrapper \<Rightarrow> nat \<Rightarrow> BaseBTree \<Rightarrow> (byte list option \<times> BaseBTree) res" where
  "BaseBPlusTree_search 0 k pw depth t = Inl OutOfFuel"
| "BaseBPlusTree_search (Suc fuel) k pw depth t =
     (case t_comparator t of None \<Rightarrow> Inl MemoryFault
      | Some c \<Rightarrow>
        let t = noteDepth depth t in
        bindR (scanUp c t pw k 0 (getKeysNum pw)) (\<lambda>i.
          if isLeaf pw
          then bindR (equalAt c t pw k i) (\<lambda>found.
                 if found then bindR (keyAt t pw i) (\<lambda>x. Inr (Some x, t)) else Inr (None, t))
          else bindR (readPageFromChild (new_PageWrapper t) pw i t) (\<lambda>(nextPage, t).
                 BaseBPlusTree_search fuel k nextPage (depth + 1) t)))"

text \<open>On a leaf it calls \<open>BaseBTree::search\<close>, which does not descend there.\<close>

fun BaseBStarPlusTree_search ::
  "nat \<Rightarrow> byte list \<Rightarrow> PageWrapper \<Rightarrow> nat \<Rightarrow> BaseBTree \<Rightarrow> (byte list option \<times> BaseBTree) res" where
  "BaseBStarPlusTree_search 0 k pw depth t = Inl OutOfFuel"
| "BaseBStarPlusTree_search (Suc fuel) k pw depth t =
     (case t_comparator t of None \<Rightarrow> Inl MemoryFault
      | Some c \<Rightarrow>
        let t = noteDepth depth t in
        bindR (scanUp c t pw k 0 (getKeysNum pw)) (\<lambda>i.
          if isLeaf pw then BaseBTree_search (Suc fuel) k pw depth t
          else bindR (readPageFromChild (new_PageWrapper t) pw i t) (\<lambda>(nextPage, t).
                 BaseBStarPlusTree_search fuel k nextPage (depth + 1) t)))"

definition searchFrom ::
  "nat \<Rightarrow> byte list \<Rightarrow> PageWrapper \<Rightarrow> nat \<Rightarrow> BaseBTree \<Rightarrow> (byte list option \<times> BaseBTree) res" where
  "searchFrom fuel k pw depth t =
     (case t_treeType t of
        B_TREE \<Rightarrow> BaseBTree_search fuel k pw depth t
      | B_PLUS_TREE \<Rightarrow> BaseBPlusTree_search fuel k pw depth t
      | B_STAR_TREE \<Rightarrow> BaseBTree_search fuel k pw depth t
      | B_STAR_PLUS_TREE \<Rightarrow> BaseBStarPlusTree_search fuel k pw depth t)"

definition fuelOf :: "BaseBTree \<Rightarrow> nat" where
  "fuelOf t = Suc (t_lastPageNum t)"

definition search :: "byte list \<Rightarrow> BaseBTree \<Rightarrow> (byte list option \<times> BaseBTree) res" where
  "search k t =
     (if t_comparator t = None then Inl RuntimeError
      else let t = t\<lparr>t_maxSearchDepth := 0\<rparr> in searchFrom (fuelOf t) k (t_rootPage t) 1 t)"

section \<open>Searching for all keys\<close>

text \<open>
  The loop \<open>for ( ; i < keysNum && (i == first || isEqual(k, key(i))); ++i)\<close> with \<open>m\<close> keys to
  go.  \<open>descend\<close> is the recursive call, \<open>collect\<close> says whether keys of this page are
  results.  It returns the final \<open>i\<close>, the amount, the keys pushed in order, the wrapper
  \<open>nextPage\<close> and the state.
\<close>

fun searchAllLoop ::
  "(PageWrapper \<Rightarrow> BaseBTree \<Rightarrow> (nat \<times> byte list list \<times> BaseBTree) res) \<Rightarrow> IComparator \<Rightarrow> byte list \<Rightarrow>
   bool \<Rightarrow> PageWrapper \<Rightarrow> nat \<Rightarrow> nat \<Rightarrow> nat \<Rightarrow> PageWrapper \<Rightarrow> BaseBTree \<Rightarrow>
   (nat \<times> nat \<times> byte list list \<times> PageWrapper \<times> BaseBTree) res" where
  "searchAllLoop descend c k collect pw first i 0 nextPage t = Inr (i, 0, [], nextPage, t)"
| "searchAllLoop descend c k collect pw first i (Suc m) nextPage t =
     bindR (keyAt t pw i) (\<lambda>x.
       let e = cmp_isEqual c k x (t_recSize t) in
       if \<not> (i = first \<or> e) then Inr (i, 0, [], nextPage, t)
       else let here = (if collect \<and> e then [x] else []) in
            bindR (if isLeaf pw then Inr (0, [], nextPage, t)
                   else bindR (readPageFromChild nextPage pw i t) (\<lambda>(nextPage, t).
                        bindR (descend nextPage t) (\<lambda>(a, ks, t). Inr (a, ks, nextPage, t))))
              (\<lambda>(a, ks, nextPage, t).
            bindR (searchAllLoop descend c k collect pw first (i + 1) m nextPage t)
              (\<lambda>(j, a', ks', nextPage, t).
            Inr (j, length here + a + a', here @ ks @ ks', nextPage, t))))"

text \<open>The body of the three \<open>searchAll\<close> methods; they differ in \<open>collect\<close> only.\<close>

definition searchAllPage ::
  "(PageWrapper \<Rightarrow> BaseBTree \<Rightarrow> (nat \<times> byte list list \<times> BaseBTree) res) \<Rightarrow> bool \<Rightarrow> byte list \<Rightarrow>
   PageWrapper \<Rightarrow> nat \<Rightarrow> BaseBTree \<Rightarrow> (nat \<times> byte list list \<times> BaseBTree) res" where
  "searchAllPage descend collect k pw depth t =
     (case t_comparator t of None \<Rightarrow> Inl MemoryFault
      | Some c \<Rightarrow>
        let t = noteDepth depth t; keysNum = getKeysNum pw in
        bindR (scanUp c t pw k 0 keysNum) (\<lambda>first.
        bindR (searchAllLoop descend c k collect pw first first (keysNum - first) (new_PageWrapper t) t)
          (\<lambda>(i, amount, keys, nextPage, t).
          if isLeaf pw then Inr (amount, keys, t)
          else bindR (readPageFromChild nextPage pw i t) (\<lambda>(nextPage, t).
               bindR (descend nextPage t) (\<lambda>(a, ks, t). Inr (amount + a, keys @ ks, t))))))"

fun BaseBTree_searchAll ::
  "nat \<Rightarrow> byte list \<Rightarrow> PageWrapper \<Rightarrow> nat \<Rightarrow> BaseBTree \<Rightarrow> (nat \<times> byte list list \<times> BaseBTree) res" where
  "BaseBTree_searchAll 0 k pw depth t = Inl OutOfFuel"
| "BaseBTree_searchAll (Suc fuel) k pw depth t =
     searchAllPage (\<lambda>pw t. BaseBTree_searchAll fuel k pw (depth + 1) t) True k pw depth t"

fun BaseBPlusTree_searchAll ::
  "nat \<Rightarrow> byte list \<Rightarrow> PageWrapper \<Rightarrow> nat \<Rightarrow> BaseBTree \<Rightarrow> (nat \<times> byte list list \<times> BaseBTree) res" where
  "BaseBPlusTree_searchAll 0 k pw depth t = Inl OutOfFuel"
| "BaseBPlusTree_searchAll (Suc fuel) k pw depth t =
     searchAllPage (\<lambda>pw t. BaseBPlusTree_searchAll fuel k pw (depth + 1) t) (isLeaf pw) k pw depth t"

fun BaseBStarPlusTree_searchAll ::
  "nat \<Rightarrow> byte list \<Rightarrow> PageWrapper \<Rightarrow> nat \<Rightarrow> BaseBTree \<Rightarrow> (nat \<times> byte list list \<times> BaseBTree) res" where
  "BaseBStarPlusTree_searchAll 0 k pw depth t = Inl OutOfFuel"
| "BaseBStarPlusTree_searchAll (Suc fuel) k pw depth t =
     searchAllPage (\<lambda>pw t. BaseBStarPlusTree_searchAll fuel k pw (depth + 1) t) (isLeaf pw) k pw depth t"

definition searchAllFrom ::
  "nat \<Rightarrow> byte list \<Rightarrow> PageWrapper \<Rightarrow> nat \<Rightarrow> BaseBTree \<Rightarrow> (nat \<times> byte list list \<times> BaseBTree) res" where
  "searchAllFrom fuel k pw depth t =
     (case t_treeType t of
        B_TREE \<Rightarrow> BaseBTree_searchAll fuel k pw depth t
      | B_PLUS_TREE \<Rightarrow> BaseBPlusTree_searchAll fuel k pw depth t
      | B_STAR_TREE \<Rightarrow> BaseBTree_searchAll fuel k pw depth t
      | B_STAR_PLUS_TREE \<Rightarrow> BaseBStarPlusTree_searchAll fuel k pw depth t)"

definition searchAll :: "byte list \<Rightarrow> BaseBTree \<Rightarrow> (nat \<times> byte list list \<times> BaseBTree) res" where
  "searchAll k t =
     (if t_comparator t = None then Inl RuntimeError
      else let t = t\<lparr>t_maxSearchDepth := 0\<rparr> in searchAllFrom (fuelOf t) k (t_rootPage t) 1 t)"

section \<open>Splitting a child\<close>

text \<open>\<open>for (j = hi; j > lo; --j)\<close>: cursor or key \<open>j - 1\<close> is copied to slot \<open>j\<close>.\<close>

fun shiftCursors :: "BaseBTree \<Rightarrow> PageWrapper \<Rightarrow> nat \<Rightarrow> nat \<Rightarrow> PageWrapper res" where
  "shiftCursors t node lo 0 = Inr node"
| "shiftCursors t node lo (Suc j) =
     (if Suc j > lo
      then bindR (copyCursorsAt t node (Suc j) node j 1) (\<lambda>node. shiftCursors t node lo j)
      else Inr node)"

fun shiftKeys :: "BaseBTree \<Rightarrow> PageWrapper \<Rightarrow> nat \<Rightarrow> nat \<Rightarrow> PageWrapper res" where
  "shiftKeys t node lo 0 = Inr node"
| "shiftKeys t node lo (Suc j) =
     (if Suc j > lo
      then bindR (copyKeyAt t node (Suc j) node j) (\<lambda>node. shiftKeys t node lo j)
      else Inr node)"

text \<open>
  The middle part of every \<open>splitChild\<close>: one more key in the parent, cursors behind \<open>iChild\<close>
  and keys from \<open>iChild\<close> on moved one slot up, the new page's number set.
\<close>

definition openSlot :: "BaseBTree \<Rightarrow> PageWrapper \<Rightarrow> nat \<Rightarrow> nat \<Rightarrow> PageWrapper res" where
  "openSlot t node iChild rightNum =
     (let keysNum = getKeysNum node + 1;
          node = setKeyNum keysNum node in
      bindR (shiftCursors t node (iChild + 1) keysNum) (\<lambda>node.
      bindR (setCursor t node (iChild + 1) rightNum) (\<lambda>node.
        shiftKeys t node iChild (keysNum - 1))))"

fun writePages :: "PageWrapper list \<Rightarrow> BaseBTree \<Rightarrow> BaseBTree res" where
  "writePages [] t = Inr t"
| "writePages (pw # pws) t = bindR (PageWrapper_writePage pw t) (\<lambda>t. writePages pws t)"

text \<open>\<open>if (child.getPageNum() == 0) child.readPageFromChild(node, iChild)\<close>.\<close>

definition ensureChild ::
  "PageWrapper \<Rightarrow> PageWrapper \<Rightarrow> nat \<Rightarrow> BaseBTree \<Rightarrow> (PageWrapper \<times> BaseBTree) res" where
  "ensureChild child node iChild t =
     (if pw_pageNum child = 0 then readPageFromChild child node iChild t else Inr (child, t))"

type_synonym split_result = "(PageWrapper \<times> PageWrapper \<times> PageWrapper \<times> BaseBTree) res"

definition BaseBTree_splitChild ::
  "PageWrapper \<Rightarrow> nat \<Rightarrow> PageWrapper \<Rightarrow> PageWrapper \<Rightarrow> BaseBTree \<Rightarrow> split_result" where
  "BaseBTree_splitChild node iChild leftChild rightChild t =
     (if isFull t node then Inl DomainError
      else if iChild > getKeysNum node then Inl InvalidArgument
      else
        bindR (ensureChild leftChild node iChild t) (\<lambda>(leftChild, t).
        let minKeys = t_minKeys t in
        bindR (allocPage rightChild minKeys (isLeaf leftChild) t) (\<lambda>(rightChild, t).
        bindR (copyKeysAt t rightChild 0 leftChild (minKeys + 1) minKeys) (\<lambda>rightChild.
        bindR (if isLeaf leftChild then Inr rightChild
               else copyCursorsAt t rightChild 0 leftChild (minKeys + 1) (minKeys + 1)) (\<lambda>rightChild.
        bindR (openSlot t node iChild (pw_pageNum rightChild)) (\<lambda>node.
        bindR (copyKeyAt t node iChild leftChild minKeys) (\<lambda>node.
          let leftChild = setKeyNum minKeys leftChild in
          bindR (writePages [leftChild, rightChild, node] t) (\<lambda>t.
            Inr (node, leftChild, rightChild, t)))))))))"

definition BaseBPlusTree_splitChild ::
  "PageWrapper \<Rightarrow> nat \<Rightarrow> PageWrapper \<Rightarrow> PageWrapper \<Rightarrow> BaseBTree \<Rightarrow> split_result" where
  "BaseBPlusTree_splitChild node iChild leftChild rightChild t =
     (if isFull t node then Inl DomainError
      else if iChild > getKeysNum node then Inl InvalidArgument
      else
        bindR (ensureChild leftChild node iChild t) (\<lambda>(leftChild, t).
        if \<not> isLeaf leftChild then BaseBTree_splitChild node iChild leftChild rightChild t
        else
        let minLeafKeys = t_minLeafKeys t in
        bindR (allocPage rightChild minLeafKeys (isLeaf leftChild) t) (\<lambda>(rightChild, t).
        bindR (copyKeysAt t rightChild 0 leftChild minLeafKeys minLeafKeys) (\<lambda>rightChild.
        bindR (openSlot t node iChild (pw_pageNum rightChild)) (\<lambda>node.
        bindR (copyKeyAt t node iChild leftChild (minLeafKeys - 1)) (\<lambda>node.
          let leftChild = setKeyNum minLeafKeys leftChild in
          bindR (writePages [leftChild, rightChild, node] t) (\<lambda>t.
            Inr (node, leftChild, rightChild, t))))))))"

definition BaseBStarTree_splitChild ::
  "PageWrapper \<Rightarrow> nat \<Rightarrow> PageWrapper \<Rightarrow> PageWrapper \<Rightarrow> BaseBTree \<Rightarrow> split_result" where
  "BaseBStarTree_splitChild node iChild leftChild rightChild t =
     (if isFull t node then Inl DomainError
      else if iChild > getKeysNum node then Inl InvalidArgument
      else
        bindR (ensureChild leftChild node iChild t) (\<lambda>(leftChild, t).
        let rightChildKeysNum = getKeysNum leftChild div 2;
            leftChildKeysNum = SSub (getKeysNum leftChild) (rightChildKeysNum + 1) in
        bindR (allocPage rightChild rightChildKeysNum (isLeaf leftChild) t) (\<lambda>(rightChild, t).
        bindR (copyKeysAt t rightChild 0 leftChild (leftChildKeysNum + 1) rightChildKeysNum) (\<lambda>rightChild.
        bindR (if isLeaf leftChild then Inr rightChild
               else copyCursorsAt t rightChild 0 leftChild (leftChildKeysNum + 1) (rightChildKeysNum + 1)) (\<lambda>rightChild.
        bindR (openSlot t node iChild (pw_pageNum rightChild)) (\<lambda>node.
        bindR (copyKeyAt t node iChild leftChild leftChildKeysNum) (\<lambda>node.
          let leftChild = setKeyNum leftChildKeysNum leftChild in
          bindR (writePages [leftChild, rightChild, node] t) (\<lambda>t.
            Inr (node, leftChild, rightChild, t)))))))))"

text \<open>The router key of a B*+ node: the last key of the child left of it, as the file has it.\<close>

definition setRouterKey :: "PageWrapper \<Rightarrow> nat \<Rightarrow> BaseBTree \<Rightarrow> (PageWrapper \<times> BaseBTree) res" where
  "setRouterKey page keyNum t =
     (if keyNum \<ge> getKeysNum page then Inl InvalidArgument
      else if isLeaf page then Inl InvalidArgument
      else
        bindR (readPageFromChild (new_PageWrapper t) page keyNum t) (\<lambda>(leftChild, t).
        if getKeysNum leftChild = 0 then Inl DomainError
        else bindR (copyKeyAt t page keyNum leftChild (getKeysNum leftChild - 1)) (\<lambda>page.
             bindR (PageWrapper_writePage page t) (\<lambda>t. Inr (page, t)))))"

text \<open>The copy of cursors there is never reached: the child is a leaf.\<close>

definition BaseBStarPlusTree_splitChild ::
  "PageWrapper \<Rightarrow> nat \<Rightarrow> PageWrapper \<Rightarrow> PageWrapper \<Rightarrow> BaseBTree \<Rightarrow> split_result" where
  "BaseBStarPlusTree_splitChild node iChild leftChild rightChild t =
     (if isFull t node then Inl DomainError
      else if iChild > getKeysNum node then Inl InvalidArgument
      else
        bindR (ensureChild leftChild node iChild t) (\<lambda>(leftChild, t).
        if \<not> isLeaf leftChild then BaseBStarTree_splitChild node iChild leftChild rightChild t
        else
        let rightChildKeysNum = getKeysNum leftChild div 2;
            leftChildKeysNum = getKeysNum leftChild - rightChildKeysNum in
        bindR (allocPage rightChild rightChildKeysNum (isLeaf leftChild) t) (\<lambda>(rightChild, t).
        bindR (copyKeysAt t rightChild 0 leftChild leftChildKeysNum rightChildKeysNum) (\<lambda>rightChild.
        bindR (openSlot t node iChild (pw_pageNum rightChild)) (\<lambda>node.
          let leftChild = setKeyNum leftChildKeysNum leftChild in
          bindR (writePages [leftChild, rightChild, node] t) (\<lambda>t.
          bindR (setRouterKey node iChild t) (\<lambda>(node, t).
            Inr (node, leftChild, rightChild, t))))))))"

text \<open>The virtual \<open>splitChild\<close>, and \<open>PageWrapper::splitChild\<close>, which discards the children.\<close>

definition splitChild ::
  "PageWrapper \<Rightarrow> nat \<Rightarrow> PageWrapper \<Rightarrow> PageWrapper \<Rightarrow> BaseBTree \<Rightarrow> split_result" where
  "splitChild node iChild leftChild rightChild t =
     (case t_treeType t of
        B_TREE \<Rightarrow> BaseBTree_splitChild node iChild leftChild rightChild t
      | B_PLUS_TREE \<Rightarrow> BaseBPlusTree_splitChild node iChild leftChild rightChild t
      | B_STAR_TREE \<Rightarrow> BaseBStarTree_splitChild node iChild leftChild rightChild t
      | B_STAR_PLUS_TREE \<Rightarrow> BaseBStarPlusTree_splitChild node iChild leftChild rightChild t)"

definition PageWrapper_splitChild :: "PageWrapper \<Rightarrow> nat \<Rightarrow> BaseBTree \<Rightarrow> (PageWrapper \<times> BaseBTree) res" where
  "PageWrapper_splitChild node iChild t =
     bindR (splitChild node iChild (new_PageWrapper t) (new_PageWrapper t) t)
       (\<lambda>(node, leftChild, rightChild, t). Inr (node, t))"

section \<open>Inserting\<close>

text \<open>The leaf branch of both \<open>insertNonFull\<close> methods.\<close>

definition insertIntoLeaf ::
  "IComparator \<Rightarrow> byte list \<Rightarrow> PageWrapper \<Rightarrow> BaseBTree \<Rightarrow> (PageWrapper \<times> BaseBTree) res" where
  "insertIntoLeaf c k node t =
     (let keysNum = getKeysNum node in
      bindR (shiftGreater c t k (setKeyNum (keysNum + 1) node) keysNum) (\<lambda>(i, node).
      bindR (copyKeyFrom t node i k) (\<lambda>node.
      bindR (PageWrapper_writePage node t) (\<lambda>t. Inr (node, t)))))"

fun BaseBTree_insertNonFull ::
  "nat \<Rightarrow> byte list \<Rightarrow> PageWrapper \<Rightarrow> BaseBTree \<Rightarrow> (PageWrapper \<times> BaseBTree) res" where
  "BaseBTree_insertNonFull 0 k node t = Inl OutOfFuel"
| "BaseBTree_insertNonFull (Suc fuel) k node t =
     (if isFull t node then Inl DomainError
      else case t_comparator t of None \<Rightarrow> Inl RuntimeError
      | Some c \<Rightarrow>
        if isLeaf node then insertIntoLeaf c k node t
        else
          bindR (scanDown c t node k (getKeysNum node)) (\<lambda>i.
          bindR (readPageFromChild (new_PageWrapper t) node i t) (\<lambda>(child, t).
          if isFull t child
          then bindR (splitChild node i child (new_PageWrapper t) t) (\<lambda>(node, child, newChild, t).
               bindR (keyAt t node i) (\<lambda>x.
               bindR (BaseBTree_insertNonFull fuel k
                        (if cmp_compare c x k (t_recSize t) then newChild else child) t)
                 (\<lambda>(_, t). Inr (node, t))))
          else bindR (BaseBTree_insertNonFull fuel k child t) (\<lambda>(_, t). Inr (node, t)))))"

end
