(* ===== verification/Star_Ops.thy ===== *)
theory Star_Ops
  imports Tree_Ops
begin

text \<open>
  Inserting into \<open>BaseBStarTree\<close> and \<open>BaseBStarPlusTree\<close> (btree.hpp): a full child first
  shares keys with a sibling that is not full, and two full siblings are split into three
  pages.  At the end stand the virtual \<open>insertNonFull\<close> and the public \<open>insert\<close> of all four
  kinds of tree.
\<close>

section \<open>Moving keys within a page and through a buffer\<close>

text \<open>\<open>for (j = 0; j < n; ++j)\<close>: slot \<open>j + d\<close> to slot \<open>j\<close>; from \<open>j\<close> with \<open>m\<close> to go.\<close>

fun moveKeysDown :: "BaseBTree \<Rightarrow> PageWrapper \<Rightarrow> nat \<Rightarrow> nat \<Rightarrow> nat \<Rightarrow> PageWrapper res" where
  "moveKeysDown t pw d j 0 = Inr pw"
| "moveKeysDown t pw d j (Suc m) =
     bindR (copyKeyAt t pw j pw (j + d)) (\<lambda>pw. moveKeysDown t pw d (j + 1) m)"

fun moveCursorsDown :: "BaseBTree \<Rightarrow> PageWrapper \<Rightarrow> nat \<Rightarrow> nat \<Rightarrow> nat \<Rightarrow> PageWrapper res" where
  "moveCursorsDown t pw d j 0 = Inr pw"
| "moveCursorsDown t pw d j (Suc m) =
     bindR (copyCursorsAt t pw j pw (j + d) 1) (\<lambda>pw. moveCursorsDown t pw d (j + 1) m)"

text \<open>\<open>for (j = n - 1; j >= d; --j)\<close>: slot \<open>j - d\<close> to slot \<open>j\<close>.\<close>

fun moveKeysUp :: "BaseBTree \<Rightarrow> PageWrapper \<Rightarrow> nat \<Rightarrow> nat \<Rightarrow> PageWrapper res" where
  "moveKeysUp t pw d 0 = Inr pw"
| "moveKeysUp t pw d (Suc j) =
     (if j \<ge> d then bindR (copyKeyAt t pw j pw (j - d)) (\<lambda>pw. moveKeysUp t pw d j) else Inr pw)"

fun moveCursorsUp :: "BaseBTree \<Rightarrow> PageWrapper \<Rightarrow> nat \<Rightarrow> nat \<Rightarrow> PageWrapper res" where
  "moveCursorsUp t pw d 0 = Inr pw"
| "moveCursorsUp t pw d (Suc j) =
     (if j \<ge> d then bindR (copyCursorsAt t pw j pw (j - d) 1) (\<lambda>pw. moveCursorsUp t pw d j) else Inr pw)"

text \<open>Between a page and record \<open>o\<close> (cursor \<open>o\<close>) of an allocated buffer.\<close>

definition saveKeys :: "BaseBTree \<Rightarrow> byte list \<Rightarrow> nat \<Rightarrow> PageWrapper \<Rightarrow> nat \<Rightarrow> nat \<Rightarrow> byte list res" where
  "saveKeys t keys ofs pw i num =
     copyKeys t keys (Some (int (ofs * t_recSize t))) (pw_data pw) (getKey t pw i) num"

definition loadKeys :: "BaseBTree \<Rightarrow> PageWrapper \<Rightarrow> nat \<Rightarrow> byte list \<Rightarrow> nat \<Rightarrow> nat \<Rightarrow> PageWrapper res" where
  "loadKeys t pw i keys ofs num =
     bindR (copyKeys t (pw_data pw) (getKey t pw i) keys (Some (int (ofs * t_recSize t))) num)
       (\<lambda>d. Inr (pw\<lparr>pw_data := d\<rparr>))"

definition saveCursors :: "BaseBTree \<Rightarrow> byte list \<Rightarrow> nat \<Rightarrow> PageWrapper \<Rightarrow> nat \<Rightarrow> nat \<Rightarrow> byte list res" where
  "saveCursors t cursors ofs pw i num =
     bindR (getCursorPtr t pw i) (\<lambda>p. copyCursors cursors (int (ofs * CURSOR_SZ)) (pw_data pw) p num)"

definition loadCursors :: "BaseBTree \<Rightarrow> PageWrapper \<Rightarrow> nat \<Rightarrow> byte list \<Rightarrow> nat \<Rightarrow> nat \<Rightarrow> PageWrapper res" where
  "loadCursors t pw i cursors ofs num =
     bindR (getCursorPtr t pw i) (\<lambda>p.
     bindR (copyCursors (pw_data pw) p cursors (int (ofs * CURSOR_SZ)) num) (\<lambda>d.
       Inr (pw\<lparr>pw_data := d\<rparr>)))"

section \<open>Splitting two children into three\<close>

definition getRightSplitProductKeys :: "bool \<Rightarrow> BaseBTree \<Rightarrow> nat" where
  "getRightSplitProductKeys isShort t =
     (if isShort then t_shortRightSplitProductKeys t else t_rightSplitProductKeys t)"

type_synonym split3_result =
  "(PageWrapper \<times> PageWrapper \<times> PageWrapper \<times> PageWrapper \<times> BaseBTree) res"

text \<open>Collecting the keys and the cursors of both children with the key between them.\<close>

definition collectPair ::
  "BaseBTree \<Rightarrow> PageWrapper \<Rightarrow> nat \<Rightarrow> PageWrapper \<Rightarrow> PageWrapper \<Rightarrow> (byte list \<times> byte list) res" where
  "collectPair t node iLeft left right =
     (let leftNum = getKeysNum left; rightNum = getKeysNum right;
          keysNum = leftNum + rightNum + 1;
          keys = replicate (keysNum * t_recSize t) 0;
          cursors = (if isLeaf left then [] else replicate ((keysNum + 1) * CURSOR_SZ) 0) in
      bindR (saveKeys t keys 0 left 0 leftNum) (\<lambda>keys.
      bindR (if isLeaf left then Inr cursors else saveCursors t cursors 0 left 0 (leftNum + 1)) (\<lambda>cursors.
      bindR (saveKeys t keys leftNum node iLeft 1) (\<lambda>keys.
      bindR (saveKeys t keys (leftNum + 1) right 0 rightNum) (\<lambda>keys.
      bindR (if isLeaf left then Inr cursors
             else saveCursors t cursors (leftNum + 1) right 0 (rightNum + 1)) (\<lambda>cursors.
        Inr (keys, cursors)))))))"

text \<open>Filling a product page from record and cursor \<open>ofs\<close> of the buffers.\<close>

definition fillPage ::
  "BaseBTree \<Rightarrow> bool \<Rightarrow> byte list \<Rightarrow> byte list \<Rightarrow> nat \<Rightarrow> nat \<Rightarrow> PageWrapper \<Rightarrow> PageWrapper res" where
  "fillPage t leaf keys cursors ofs num pw =
     bindR (loadKeys t pw 0 keys ofs num) (\<lambda>pw.
       if leaf then Inr pw else loadCursors t pw 0 cursors ofs (num + 1))"

definition BaseBStarTree_splitChildren ::
  "PageWrapper \<Rightarrow> nat \<Rightarrow> PageWrapper \<Rightarrow> PageWrapper \<Rightarrow> PageWrapper \<Rightarrow> bool \<Rightarrow> BaseBTree \<Rightarrow> split3_result" where
  "BaseBStarTree_splitChildren node iLeft left middle right isShort t =
     (if isFull t node then Inl DomainError
      else if iLeft \<ge> getKeysNum node then Inl InvalidArgument
      else
        bindR (ensureChild left node iLeft t) (\<lambda>(left, t).
        bindR (ensureChild right node (iLeft + 1) t) (\<lambda>(right, t).
        let leaf = isLeaf left; iRight = iLeft + 1;
            l = t_leftSplitProductKeys t; m = t_middleSplitProductKeys t;
            r = getRightSplitProductKeys isShort t in
        bindR (allocPage middle m leaf t) (\<lambda>(middle, t).
        bindR (collectPair t node iLeft left right) (\<lambda>(keys, cursors).
        bindR (fillPage t leaf keys cursors 0 l (setKeyNum l left)) (\<lambda>left.
        bindR (fillPage t leaf keys cursors (l + 1) m middle) (\<lambda>middle.
        bindR (fillPage t leaf keys cursors (l + m + 2) r (setKeyNum r right)) (\<lambda>right.
        bindR (loadKeys t node iLeft keys l 1) (\<lambda>node.
        let parentKeysNum = getKeysNum node + 1 in
        bindR (shiftKeys t (setKeyNum parentKeysNum node) iLeft (parentKeysNum - 1)) (\<lambda>node.
        bindR (loadKeys t node iRight keys (l + m + 1) 1) (\<lambda>node.
        bindR (shiftCursors t node iRight parentKeysNum) (\<lambda>node.
        bindR (setCursor t node iRight (pw_pageNum middle)) (\<lambda>node.
        bindR (writePages [left, middle, right, node] t) (\<lambda>t.
          Inr (node, left, middle, right, t)))))))))))))))"

definition BaseBStarPlusTree_splitChildren ::
  "PageWrapper \<Rightarrow> nat \<Rightarrow> PageWrapper \<Rightarrow> PageWrapper \<Rightarrow> PageWrapper \<Rightarrow> bool \<Rightarrow> BaseBTree \<Rightarrow> split3_result" where
  "BaseBStarPlusTree_splitChildren node iLeft left middle right isShort t =
     (if isFull t node then Inl DomainError
      else if iLeft \<ge> getKeysNum node then Inl InvalidArgument
      else
        bindR (ensureChild left node iLeft t) (\<lambda>(left, t).
        bindR (ensureChild right node (iLeft + 1) t) (\<lambda>(right, t).
        if \<not> isLeaf left then BaseBStarTree_splitChildren node iLeft left middle right isShort t
        else
        let iRight = iLeft + 1;
            l = t_leftSplitProductKeys t; m = t_middleLeafSplitProductKeys t;
            r = getRightSplitProductKeys isShort t;
            leftNum = getKeysNum left; rightNum = getKeysNum right in
        bindR (allocPage middle m (isLeaf left) t) (\<lambda>(middle, t).
        bindR (saveKeys t (replicate ((leftNum + rightNum) * t_recSize t) 0) 0 left 0 leftNum) (\<lambda>keys.
        bindR (saveKeys t keys leftNum right 0 rightNum) (\<lambda>keys.
        bindR (loadKeys t (setKeyNum l left) 0 keys 0 l) (\<lambda>left.
        bindR (loadKeys t middle 0 keys l m) (\<lambda>middle.
        bindR (loadKeys t (setKeyNum r right) 0 keys (l + m) r) (\<lambda>right.
        let parentKeysNum = getKeysNum node + 1 in
        bindR (shiftKeys t (setKeyNum parentKeysNum node) iLeft (parentKeysNum - 1)) (\<lambda>node.
        bindR (shiftCursors t node iRight parentKeysNum) (\<lambda>node.
        bindR (setCursor t node iRight (pw_pageNum middle)) (\<lambda>node.
        bindR (writePages [left, middle, right, node] t) (\<lambda>t.
        bindR (setRouterKey node iLeft t) (\<lambda>(node, t).
        bindR (setRouterKey node iRight t) (\<lambda>(node, t).
          Inr (node, left, middle, right, t))))))))))))))))"

definition splitChildren ::
  "PageWrapper \<Rightarrow> nat \<Rightarrow> PageWrapper \<Rightarrow> PageWrapper \<Rightarrow> PageWrapper \<Rightarrow> bool \<Rightarrow> BaseBTree \<Rightarrow> split3_result" where
  "splitChildren node iLeft left middle right isShort t =
     (if t_treeType t = B_STAR_PLUS_TREE
      then BaseBStarPlusTree_splitChildren node iLeft left middle right isShort t
      else BaseBStarTree_splitChildren node iLeft left middle right isShort t)"

section \<open>Sharing keys with a sibling\<close>

text \<open>
  The methods return whether they inserted; \<open>insertCall\<close> is the call \<open>insertNonFull(k, _)\<close> they
  make at the end.  The child wrappers are not used by the caller after a true result, and
  not changed before a false one.
\<close>

type_synonym insert_call = "PageWrapper \<Rightarrow> BaseBTree \<Rightarrow> (PageWrapper \<times> BaseBTree) res"

type_synonym share_result = "(bool \<times> PageWrapper \<times> BaseBTree) res"

definition BaseBStarTree_shareKeysWithLeftChildAndInsert ::
  "insert_call \<Rightarrow> byte list \<Rightarrow> PageWrapper \<Rightarrow> nat \<Rightarrow> PageWrapper \<Rightarrow> PageWrapper \<Rightarrow> BaseBTree \<Rightarrow> share_result" where
  "BaseBStarTree_shareKeysWithLeftChildAndInsert insertCall k node iChild child left t =
     (if \<not> isFull t child then Inl InvalidArgument
      else if isFull t left then Inl InvalidArgument
      else if iChild > getKeysNum node then Inl InvalidArgument
      else case t_comparator t of None \<Rightarrow> Inl RuntimeError
      | Some c \<Rightarrow>
        let leaf = isLeaf child; childKeysNum = getKeysNum child; leftNum = getKeysNum left;
            sum = childKeysNum + leftNum;
            newLeftNum = sum div 2 + (if sum mod 2 = 1 then 1 else 0);
            movedKeys = SSub newLeftNum leftNum;
            childLeftKeys = SSub childKeysNum movedKeys in
        bindR (if newLeftNum = t_maxKeys t \<and> movedKeys = 1
               then bindR (keyAt t child 0) (\<lambda>x. Inr (cmp_compare c k x (t_recSize t))) else Inr False) (\<lambda>refuse.
        if refuse then Inr (False, node, t)
        else
          bindR (copyKeyAt t (setKeyNum newLeftNum left) leftNum node (SSub iChild 1)) (\<lambda>left.
          bindR (copyKeysAt t left (leftNum + 1) child 0 (SSub movedKeys 1)) (\<lambda>left.
          bindR (copyKeyAt t node (SSub iChild 1) child (SSub movedKeys 1)) (\<lambda>node.
          bindR (if leaf then Inr left else copyCursorsAt t left (leftNum + 1) child 0 movedKeys) (\<lambda>left.
          bindR (moveKeysDown t child movedKeys 0 childLeftKeys) (\<lambda>child.
          bindR (if leaf then Inr child else moveCursorsDown t child movedKeys 0 (childLeftKeys + 1)) (\<lambda>child.
          let child = setKeyNum childLeftKeys child in
          bindR (writePages [left, child, node] t) (\<lambda>t.
          bindR (keyAt t node (SSub iChild 1)) (\<lambda>x.
          bindR (insertCall (if cmp_compare c k x (t_recSize t) then left else child) t) (\<lambda>(_, t).
            Inr (True, node, t))))))))))))"

definition BaseBStarTree_shareKeysWithRightChildAndInsert ::
  "insert_call \<Rightarrow> byte list \<Rightarrow> PageWrapper \<Rightarrow> nat \<Rightarrow> PageWrapper \<Rightarrow> PageWrapper \<Rightarrow> BaseBTree \<Rightarrow> share_result" where
  "BaseBStarTree_shareKeysWithRightChildAndInsert insertCall k node iChild child right t =
     (if \<not> isFull t child then Inl InvalidArgument
      else if isFull t right then Inl InvalidArgument
      else if iChild \<ge> getKeysNum node then Inl InvalidArgument
      else case t_comparator t of None \<Rightarrow> Inl RuntimeError
      | Some c \<Rightarrow>
        let leaf = isLeaf child; childKeysNum = getKeysNum child; rightNum = getKeysNum right;
            sum = childKeysNum + rightNum;
            newRightNum = sum div 2 + (if sum mod 2 = 1 then 1 else 0);
            movedKeys = SSub newRightNum rightNum;
            childLeftKeys = SSub childKeysNum movedKeys in
        bindR (if newRightNum = t_maxKeys t \<and> movedKeys = 1
               then bindR (keyAt t child (SSub childKeysNum 1)) (\<lambda>x. Inr (cmp_compare c x k (t_recSize t)))
               else Inr False) (\<lambda>refuse.
        if refuse then Inr (False, node, t)
        else
          bindR (moveKeysUp t (setKeyNum newRightNum right) movedKeys newRightNum) (\<lambda>right.
          bindR (if leaf then Inr right else moveCursorsUp t right movedKeys (newRightNum + 1)) (\<lambda>right.
          bindR (copyKeyAt t right (SSub movedKeys 1) node iChild) (\<lambda>right.
          bindR (copyKeysAt t right 0 child (childLeftKeys + 1) (SSub movedKeys 1)) (\<lambda>right.
          bindR (if leaf then Inr right else copyCursorsAt t right 0 child (childLeftKeys + 1) movedKeys) (\<lambda>right.
          bindR (copyKeyAt t node iChild child childLeftKeys) (\<lambda>node.
          let child = setKeyNum childLeftKeys child in
          bindR (writePages [child, right, node] t) (\<lambda>t.
          bindR (keyAt t node iChild) (\<lambda>x.
          bindR (insertCall (if cmp_compare c x k (t_recSize t) then right else child) t) (\<lambda>(_, t).
            Inr (True, node, t))))))))))))"

definition BaseBStarPlusTree_shareKeysWithLeftChildAndInsert ::
  "insert_call \<Rightarrow> byte list \<Rightarrow> PageWrapper \<Rightarrow> nat \<Rightarrow> PageWrapper \<Rightarrow> PageWrapper \<Rightarrow> BaseBTree \<Rightarrow> share_result" where
  "BaseBStarPlusTree_shareKeysWithLeftChildAndInsert insertCall k node iChild child left t =
     (if \<not> isFull t child then Inl InvalidArgument
      else if isFull t left then Inl InvalidArgument
      else if iChild > getKeysNum node then Inl InvalidArgument
      else case t_comparator t of None \<Rightarrow> Inl RuntimeError
      | Some c \<Rightarrow>
        if \<not> isLeaf child
        then BaseBStarTree_shareKeysWithLeftChildAndInsert insertCall k node iChild child left t
        else
        let childKeysNum = getKeysNum child; leftNum = getKeysNum left;
            sum = childKeysNum + leftNum;
            newLeftNum = sum div 2 + (if sum mod 2 = 1 then 1 else 0);
            movedKeys = SSub newLeftNum leftNum;
            childLeftKeys = SSub childKeysNum movedKeys in
        bindR (if newLeftNum = t_maxKeys t \<and> movedKeys = 1
               then bindR (keyAt t child 0) (\<lambda>x. Inr (cmp_compare c k x (t_recSize t))) else Inr False) (\<lambda>refuse.
        if refuse then Inr (False, node, t)
        else
          bindR (copyKeysAt t (setKeyNum newLeftNum left) leftNum child 0 movedKeys) (\<lambda>left.
          bindR (moveKeysDown t child movedKeys 0 childLeftKeys) (\<lambda>child.
          let child = setKeyNum childLeftKeys child in
          bindR (writePages [left, child, node] t) (\<lambda>t.
          bindR (setRouterKey node (SSub iChild 1) t) (\<lambda>(node, t).
          bindR (keyAt t node (SSub iChild 1)) (\<lambda>x.
          bindR (insertCall (if cmp_compare c k x (t_recSize t) then left else child) t) (\<lambda>(_, t).
            Inr (True, node, t)))))))))"

definition BaseBStarPlusTree_shareKeysWithRightChildAndInsert ::
  "insert_call \<Rightarrow> byte list \<Rightarrow> PageWrapper \<Rightarrow> nat \<Rightarrow> PageWrapper \<Rightarrow> PageWrapper \<Rightarrow> BaseBTree \<Rightarrow> share_result" where
  "BaseBStarPlusTree_shareKeysWithRightChildAndInsert insertCall k node iChild child right t =
     (if \<not> isFull t child then Inl InvalidArgument
      else if isFull t right then Inl InvalidArgument
      else if iChild \<ge> getKeysNum node then Inl InvalidArgument
      else case t_comparator t of None \<Rightarrow> Inl RuntimeError
      | Some c \<Rightarrow>
        if \<not> isLeaf child
        then BaseBStarTree_shareKeysWithRightChildAndInsert insertCall k node iChild child right t
        else
        let childKeysNum = getKeysNum child; rightNum = getKeysNum right;
            sum = childKeysNum + rightNum;
            newRightNum = sum div 2 + (if sum mod 2 = 1 then 1 else 0);
            movedKeys = SSub newRightNum rightNum;
            childLeftKeys = SSub childKeysNum movedKeys in
        bindR (if newRightNum = t_maxKeys t \<and> movedKeys = 1
               then bindR (keyAt t child (SSub childKeysNum 2)) (\<lambda>x. Inr (cmp_compare c x k (t_recSize t)))
               else Inr False) (\<lambda>refuse.
        if refuse then Inr (False, node, t)
        else
          bindR (moveKeysUp t (setKeyNum newRightNum right) movedKeys newRightNum) (\<lambda>right.
          bindR (copyKeysAt t right 0 child childLeftKeys movedKeys) (\<lambda>right.
          let child = setKeyNum childLeftKeys child in
          bindR (writePages [child, right, node] t) (\<lambda>t.
          bindR (setRouterKey node iChild t) (\<lambda>(node, t).
          bindR (keyAt t node iChild) (\<lambda>x.
          bindR (insertCall (if cmp_compare c x k (t_recSize t) then right else child) t) (\<lambda>(_, t).
            Inr (True, node, t)))))))))"

definition shareKeysWithLeftChildAndInsert ::
  "insert_call \<Rightarrow> byte list \<Rightarrow> PageWrapper \<Rightarrow> nat \<Rightarrow> PageWrapper \<Rightarrow> PageWrapper \<Rightarrow> BaseBTree \<Rightarrow> share_result" where
  "shareKeysWithLeftChildAndInsert insertCall k node iChild child left t =
     (if t_treeType t = B_STAR_PLUS_TREE
      then BaseBStarPlusTree_shareKeysWithLeftChildAndInsert insertCall k node iChild child left t
      else BaseBStarTree_shareKeysWithLeftChildAndInsert insertCall k node iChild child left t)"

definition shareKeysWithRightChildAndInsert ::
  "insert_call \<Rightarrow> byte list \<Rightarrow> PageWrapper \<Rightarrow> nat \<Rightarrow> PageWrapper \<Rightarrow> PageWrapper \<Rightarrow> BaseBTree \<Rightarrow> share_result" where
  "shareKeysWithRightChildAndInsert insertCall k node iChild child right t =
     (if t_treeType t = B_STAR_PLUS_TREE
      then BaseBStarPlusTree_shareKeysWithRightChildAndInsert insertCall k node iChild child right t
      else BaseBStarTree_shareKeysWithRightChildAndInsert insertCall k node iChild child right t)"

section \<open>Inserting\<close>

text \<open>
  The branch of a full child: try the left sibling, then the right one, then split two
  siblings into three pages and go on in the one that the key belongs to.
\<close>

definition makeRoomAndInsert ::
  "insert_call \<Rightarrow> IComparator \<Rightarrow> byte list \<Rightarrow> PageWrapper \<Rightarrow> nat \<Rightarrow> PageWrapper \<Rightarrow> BaseBTree \<Rightarrow>
   (PageWrapper \<times> BaseBTree) res" where
  "makeRoomAndInsert insertCall c k node i child t =
     (let keysNum = getKeysNum node;
          leftSibling = new_PageWrapper t; rightSibling = new_PageWrapper t in
      bindR (if i > 0
             then bindR (readPageFromChild leftSibling node (i - 1) t) (\<lambda>(leftSibling, t).
                  if \<not> isFull t leftSibling
                  then bindR (shareKeysWithLeftChildAndInsert insertCall k node i child leftSibling t)
                         (\<lambda>(done, node, t). Inr (done, node, leftSibling, t))
                  else Inr (False, node, leftSibling, t))
             else Inr (False, node, leftSibling, t)) (\<lambda>(done, node, leftSibling, t).
      if done then Inr (node, t)
      else
      bindR (if i < keysNum
             then bindR (readPageFromChild rightSibling node (i + 1) t) (\<lambda>(rightSibling, t).
                  if \<not> isFull t rightSibling
                  then bindR (shareKeysWithRightChildAndInsert insertCall k node i child rightSibling t)
                         (\<lambda>(done, node, t). Inr (done, node, rightSibling, t))
                  else Inr (False, node, rightSibling, t))
             else Inr (False, node, rightSibling, t)) (\<lambda>(done, node, rightSibling, t).
      if done then Inr (node, t)
      else if i > 0
      then bindR (splitChildren node (i - 1) leftSibling (new_PageWrapper t) child (\<not> isFull t leftSibling) t)
             (\<lambda>(node, leftSibling, middle, child, t).
           bindR (keyAt t node i) (\<lambda>x. bindR (keyAt t node (i - 1)) (\<lambda>y.
           bindR (insertCall (if cmp_compare c x k (t_recSize t) then child
                          else if cmp_compare c y k (t_recSize t) then middle else leftSibling) t)
             (\<lambda>(_, t). Inr (node, t)))))
      else bindR (splitChildren node i child (new_PageWrapper t) rightSibling (\<not> isFull t rightSibling) t)
             (\<lambda>(node, child, middle, rightSibling, t).
           bindR (keyAt t node (i + 1)) (\<lambda>x. bindR (keyAt t node i) (\<lambda>y.
           bindR (insertCall (if cmp_compare c x k (t_recSize t) then rightSibling
                          else if cmp_compare c y k (t_recSize t) then middle else child) t)
             (\<lambda>(_, t). Inr (node, t))))))))"

fun BaseBStarTree_insertNonFull ::
  "nat \<Rightarrow> byte list \<Rightarrow> PageWrapper \<Rightarrow> BaseBTree \<Rightarrow> (PageWrapper \<times> BaseBTree) res" where
  "BaseBStarTree_insertNonFull 0 k node t = Inl OutOfFuel"
| "BaseBStarTree_insertNonFull (Suc fuel) k node t =
     (if isFull t node then Inl DomainError
      else case t_comparator t of None \<Rightarrow> Inl RuntimeError
      | Some c \<Rightarrow>
        if isLeaf node then insertIntoLeaf c k node t
        else
          bindR (scanDown c t node k (getKeysNum node)) (\<lambda>i.
          bindR (readPageFromChild (new_PageWrapper t) node i t) (\<lambda>(child, t).
          if isFull t child
          then makeRoomAndInsert (\<lambda>pw t. BaseBStarTree_insertNonFull fuel k pw t) c k node i child t
          else bindR (BaseBStarTree_insertNonFull fuel k child t) (\<lambda>(_, t). Inr (node, t)))))"

text \<open>The virtual \<open>insertNonFull\<close>.\<close>

definition insertNonFull :: "nat \<Rightarrow> byte list \<Rightarrow> PageWrapper \<Rightarrow> BaseBTree \<Rightarrow> (PageWrapper \<times> BaseBTree) res" where
  "insertNonFull fuel k node t =
     (case t_treeType t of
        B_TREE \<Rightarrow> BaseBTree_insertNonFull fuel k node t
      | B_PLUS_TREE \<Rightarrow> BaseBTree_insertNonFull fuel k node t
      | B_STAR_TREE \<Rightarrow> BaseBStarTree_insertNonFull fuel k node t
      | B_STAR_PLUS_TREE \<Rightarrow> BaseBStarTree_insertNonFull fuel k node t)"

text \<open>A new root above a full one, with the old root as its only child, which is split.\<close>

definition growRoot :: "BaseBTree \<Rightarrow> BaseBTree res" where
  "growRoot t =
     (let prevRootPageNum = t_rootPageNum t in
      bindR (allocNewRootPage (t_rootPage t) t) (\<lambda>(rootPage, t).
      bindR (setCursor t rootPage 0 prevRootPageNum) (\<lambda>rootPage.
      bindR (setAsRoot rootPage True (t\<lparr>t_rootPage := rootPage\<rparr>)) (\<lambda>t.
      bindR (PageWrapper_splitChild (t_rootPage t) 0 t) (\<lambda>(rootPage, t).
        Inr (t\<lparr>t_rootPage := rootPage\<rparr>))))))"

definition BaseBTree_insert :: "byte list \<Rightarrow> BaseBTree \<Rightarrow> BaseBTree res" where
  "BaseBTree_insert k t =
     bindR (if isFull t (t_rootPage t) then growRoot t else Inr t) (\<lambda>t.
     bindR (insertNonFull (fuelOf t) k (t_rootPage t) t) (\<lambda>(rootPage, t).
       Inr (t\<lparr>t_rootPage := rootPage\<rparr>)))"

end
