(* ===== verification/Page_View.thy ===== *)
theory Page_View
  imports Star_Ops
begin

text \<open>
  Pages seen as slots.  \<open>pview t pw p n leaf K C\<close>: wrapper \<open>pw\<close> is associated with page \<open>p\<close>, has
  \<open>n\<close> keys, the given leaf flag, key \<open>K i\<close> in slot \<open>i\<close> and cursor \<open>C i\<close> in slot \<open>i\<close>.  Each
  operation and each loop of the tree algorithms on a page becomes an update of \<open>K\<close> or \<open>C\<close>.
  \<open>pageHas\<close> is the list form that nodes of a tree use.
\<close>

definition pview ::
  "BaseBTree \<Rightarrow> PageWrapper \<Rightarrow> nat \<Rightarrow> nat \<Rightarrow> bool \<Rightarrow> (nat \<Rightarrow> byte list) \<Rightarrow> (nat \<Rightarrow> nat) \<Rightarrow> bool" where
  "pview t pw p n leaf K C \<longleftrightarrow>
     pw_pageNum pw = p \<and> length (pw_data pw) = t_nodePageSize t \<and> getKeysNum pw = n \<and> n \<le> pageKeys t \<and>
     isLeaf pw = leaf \<and> (\<forall>i < pageKeys t. kslot t pw i = K i) \<and> (\<forall>i \<le> pageKeys t. cslot t pw i = C i)"

named_theorems view_ops "what the page operations do to a page view"

lemma pviewD:
  assumes "pview t pw p n leaf K C"
  shows "pw_pageNum pw = p" "length (pw_data pw) = t_nodePageSize t" "getKeysNum pw = n"
    "n \<le> pageKeys t" "isLeaf pw = leaf" "i < pageKeys t \<Longrightarrow> kslot t pw i = K i"
    "i \<le> pageKeys t \<Longrightarrow> cslot t pw i = C i" "wfPage t pw"
  using assms by (simp_all add: pview_def wfPage_def)

lemma pview_self: "wfPage t pw \<Longrightarrow> pview t pw (pw_pageNum pw) (getKeysNum pw) (isLeaf pw) (kslot t pw) (cslot t pw)"
  by (simp add: pview_def wfPage_def)

lemma pview_cong:
  "pview t pw p n leaf K C \<Longrightarrow> (\<And>i. i < pageKeys t \<Longrightarrow> K i = K' i) \<Longrightarrow>
   (\<And>i. i \<le> pageKeys t \<Longrightarrow> C i = C' i) \<Longrightarrow> pview t pw p n leaf K' C'"
  by (simp add: pview_def)

lemma pview_keyLength: "geom t \<Longrightarrow> pview t pw p n leaf K C \<Longrightarrow> i < pageKeys t \<Longrightarrow> length (K i) = t_recSize t"
  using length_kslot [of t pw i] by (simp add: pview_def)

lemma pview_cursor: "geom t \<Longrightarrow> pview t pw p n leaf K C \<Longrightarrow> i \<le> pageKeys t \<Longrightarrow> C i < 2 ^ 32"
  using cslot_less [of t pw i] by (simp add: pview_def)

lemma pview_frame:
  assumes "frame t' = frame t"
  shows "pview t' = pview t"
  by (simp add: fun_eq_iff pview_def frame_eqF [OF assms] frame_eqD [OF assms])

section \<open>Single operations\<close>

lemma view_keyAt [view_ops]:
  "geom t \<Longrightarrow> pview t pw p n leaf K C \<Longrightarrow> i < n \<Longrightarrow> keyAt t pw i = Inr (K i)"
  using keyAt_ok [of t pw i] pviewD [of t pw p n leaf K C] by simp

lemma view_getCursor [view_ops]:
  "geom t \<Longrightarrow> pview t pw p n leaf K C \<Longrightarrow> i \<le> n \<Longrightarrow> getCursor t pw i = Inr (C i)"
  using getCursor_ok [of t pw i] pviewD [of t pw p n leaf K C] by simp

lemma view_setKeyNum:
  assumes "geom t" "pview t pw p n leaf K C" "m \<le> pageKeys t"
  shows "pview t (setKeyNum m pw) p m leaf K C"
proof -
  note v = pviewD [OF assms(2)]
  have m: "m \<le> MAX_KEYS_NUM" using assms(3) geomD(3) [OF assms(1)] by simp
  show ?thesis
    using v assms(3) setKeyNum_frame [OF assms(1) v(2)] setKeyNum_info [OF two_le_page [OF assms(1) v(2)] m]
    by (simp add: pview_def)
qed

lemma view_putKeys:
  assumes "geom t" "pview t pw p n leaf K C" "\<forall>k \<in> set ks. length k = t_recSize t"
    "j + length ks \<le> pageKeys t"
  shows "pview t (putKeys t j ks pw) p n leaf
    (\<lambda>i. if j \<le> i \<and> i < j + length ks then ks ! (i - j) else K i) C"
  using pviewD [OF assms(2)] assms putKeys_frame [OF assms(1) _ assms(3,4)]
    putKeys_info [OF assms(1) _ assms(3,4)] kslot_putKeys [OF assms(1) _ assms(3,4)]
  by (simp add: pview_def)

lemma view_putCursors:
  assumes "geom t" "pview t pw p n leaf K C" "\<forall>c \<in> set cs. c < 2 ^ 32" "j + length cs \<le> Suc (pageKeys t)"
  shows "pview t (putCursors t j cs pw) p n leaf K
    (\<lambda>i. if j \<le> i \<and> i < j + length cs then cs ! (i - j) else C i)"
  using pviewD [OF assms(2)] assms putCursors_frame [OF assms(1) _ assms(4)]
    putCursors_info [OF assms(1) _ assms(4)] cslot_putCursors [OF assms(1) _ assms(3,4)]
  by (simp add: pview_def)

lemma view_copyKeysAt:
  assumes "geom t" "pview t dst p n leaf K C" "pview t src q m leaf' K' C'"
    "j + num \<le> n" "i + num \<le> m"
  shows "runs (copyKeysAt t dst j src i num)
    (\<lambda>pw. pview t pw p n leaf (\<lambda>l. if j \<le> l \<and> l < j + num then K' (l - j + i) else K l) C)"
proof -
  note d = pviewD [OF assms(2)] and s = pviewD [OF assms(3)]
  let ?ks = "map (kslot t src) [i..<i + num]"
  have l: "\<forall>k \<in> set ?ks. length k = t_recSize t"
    using length_kslot [OF assms(1) s(2)] assms(5) s(4) by auto
  have "copyKeysAt t dst j src i num = Inr (putKeys t j ?ks dst)"
    using assms(4,5) d(3,4,8) s(3,8) by (intro copyKeysAt_ok assms(1)) auto
  moreover have "pview t (putKeys t j ?ks dst) p n leaf
      (\<lambda>l. if j \<le> l \<and> l < j + num then K' (l - j + i) else K l) C"
  proof (rule pview_cong [OF view_putKeys [OF assms(1,2) l]])
    show "j + length ?ks \<le> pageKeys t" using assms(4) d(4) by simp
    show "(if j \<le> l \<and> l < j + length ?ks then ?ks ! (l - j) else K l) =
        (if j \<le> l \<and> l < j + num then K' (l - j + i) else K l)" for l
      using s(4,6) assms(5) by (auto simp: add.commute)
  qed simp
  ultimately show ?thesis by simp
qed

lemma view_copyKeyAt:
  assumes "geom t" "pview t dst p n leaf K C" "pview t src q m leaf' K' C'" "j < n" "i < m"
  shows "runs (copyKeyAt t dst j src i) (\<lambda>pw. pview t pw p n leaf (K(j := K' i)) C)"
  unfolding copyKeyAt_eq
  by (rule runs_mono [OF view_copyKeysAt [OF assms(1-3), of j 1 i]])
    (use assms in \<open>auto elim!: pview_cong\<close>)

lemma view_copyKeyFrom:
  assumes "geom t" "pview t pw p n leaf K C" "j < n" "length k = t_recSize t"
  shows "runs (copyKeyFrom t pw j k) (\<lambda>pw. pview t pw p n leaf (K(j := k)) C)"
proof -
  note d = pviewD [OF assms(2)]
  have "copyKeyFrom t pw j k = Inr (putKeys t j [k] pw)"
    using assms d by (intro copyKeyFrom_ok) auto
  moreover have "pview t (putKeys t j [k] pw) p n leaf (K(j := k)) C"
    by (rule pview_cong [OF view_putKeys [OF assms(1,2)]]) (use assms d(4) in auto)
  ultimately show ?thesis by simp
qed

lemma view_copyCursorsAt:
  assumes "geom t" "pview t dst p n leaf K C" "pview t src q m leaf' K' C'"
    "0 < num" "j + num \<le> Suc n" "i + num \<le> Suc m"
  shows "runs (copyCursorsAt t dst j src i num)
    (\<lambda>pw. pview t pw p n leaf K (\<lambda>l. if j \<le> l \<and> l < j + num then C' (l - j + i) else C l))"
proof -
  note d = pviewD [OF assms(2)] and s = pviewD [OF assms(3)]
  let ?cs = "map (cslot t src) [i..<i + num]"
  have l: "\<forall>c \<in> set ?cs. c < 2 ^ 32"
    using cslot_less [OF assms(1) s(2)] assms(6) s(4) by auto
  have "copyCursorsAt t dst j src i num = Inr (putCursors t j ?cs dst)"
    using assms(4-6) d(3,8) s(3,8) by (intro copyCursorsAt_ok assms(1)) auto
  moreover have "pview t (putCursors t j ?cs dst) p n leaf K
      (\<lambda>l. if j \<le> l \<and> l < j + num then C' (l - j + i) else C l)"
  proof (rule pview_cong [OF view_putCursors [OF assms(1,2) l]])
    show "j + length ?cs \<le> Suc (pageKeys t)" using assms(5) d(4) by simp
    show "(if j \<le> l \<and> l < j + length ?cs then ?cs ! (l - j) else C l) =
        (if j \<le> l \<and> l < j + num then C' (l - j + i) else C l)" for l
      using s(4,7) assms(6) by (auto simp: add.commute)
  qed simp
  ultimately show ?thesis by simp
qed

lemma view_setCursor:
  assumes "geom t" "pview t pw p n leaf K C" "j \<le> n" "c < 2 ^ 32"
  shows "runs (setCursor t pw j c) (\<lambda>pw. pview t pw p n leaf K (C(j := c)))"
proof -
  note d = pviewD [OF assms(2)]
  have "setCursor t pw j c = Inr (putCursors t j [c] pw)"
    using assms d by (intro setCursor_ok) auto
  moreover have "pview t (putCursors t j [c] pw) p n leaf K (C(j := c))"
    by (rule pview_cong [OF view_putCursors [OF assms(1,2)]]) (use assms d(4) in auto)
  ultimately show ?thesis by simp
qed

section \<open>Loops\<close>

lemma view_shiftKeys:
  assumes "geom t" "pview t pw p n leaf K C" "hi < n"
  shows "runs (shiftKeys t pw lo hi)
    (\<lambda>pw. pview t pw p n leaf (\<lambda>i. if lo < i \<and> i \<le> hi then K (i - 1) else K i) C)"
  using assms(2,3)
proof (induction hi arbitrary: pw K)
  case 0
  then show ?case by (auto elim!: pview_cong)
next
  case (Suc j)
  show ?case
  proof (cases "lo < Suc j")
    case True
    have "runs (copyKeyAt t pw (Suc j) pw j) (\<lambda>pw. pview t pw p n leaf (K(Suc j := K j)) C)"
      using Suc.prems by (intro view_copyKeyAt [OF assms(1)]) auto
    then show ?thesis
      unfolding shiftKeys.simps if_P [OF True]
    proof (rule runs_bindI)
      fix pw' assume "pview t pw' p n leaf (K(Suc j := K j)) C"
      from Suc.IH [OF this] Suc.prems(2)
      show "runs (shiftKeys t pw' lo j)
          (\<lambda>pw. pview t pw p n leaf (\<lambda>i. if lo < i \<and> i \<le> Suc j then K (i - 1) else K i) C)"
        using True by (auto elim!: runs_mono pview_cong simp: le_Suc_eq)
    qed
  next
    case False
    then show ?thesis using Suc.prems by (auto elim!: pview_cong)
  qed
qed

lemma view_shiftCursors:
  assumes "geom t" "pview t pw p n leaf K C" "hi \<le> n"
  shows "runs (shiftCursors t pw lo hi)
    (\<lambda>pw. pview t pw p n leaf K (\<lambda>i. if lo < i \<and> i \<le> hi then C (i - 1) else C i))"
  using assms(2,3)
proof (induction hi arbitrary: pw C)
  case 0
  then show ?case by (auto elim!: pview_cong)
next
  case (Suc j)
  show ?case
  proof (cases "lo < Suc j")
    case True
    have "runs (copyCursorsAt t pw (Suc j) pw j 1) (\<lambda>pw. pview t pw p n leaf K (C(Suc j := C j)))"
      using view_copyCursorsAt [OF assms(1) Suc.prems(1) Suc.prems(1), of 1 "Suc j" j] Suc.prems(2)
      by (auto elim!: runs_mono pview_cong)
    then show ?thesis
      unfolding shiftCursors.simps if_P [OF True]
    proof (rule runs_bindI)
      fix pw' assume "pview t pw' p n leaf K (C(Suc j := C j))"
      from Suc.IH [OF this] Suc.prems(2)
      show "runs (shiftCursors t pw' lo j)
          (\<lambda>pw. pview t pw p n leaf K (\<lambda>i. if lo < i \<and> i \<le> Suc j then C (i - 1) else C i))"
        using True by (auto elim!: runs_mono pview_cong simp: le_Suc_eq)
    qed
  next
    case False
    then show ?thesis using Suc.prems by (auto elim!: pview_cong)
  qed
qed

text \<open>The loops that look for the position of a key, and where they stop.\<close>

lemma view_scanUp:
  assumes "geom t" "pview t pw p n leaf K C" "i + m \<le> n"
  shows "\<exists>r. scanUp c t pw k i m = Inr r \<and> i \<le> r \<and> r \<le> i + m \<and>
    (\<forall>j. i \<le> j \<and> j < r \<longrightarrow> cmp_compare c (K j) k (t_recSize t)) \<and>
    (r < i + m \<longrightarrow> \<not> cmp_compare c (K r) k (t_recSize t))"
  using assms(3)
proof (induction m arbitrary: i)
  case (Suc m)
  have k: "keyAt t pw i = Inr (K i)"
    using Suc.prems by (intro view_keyAt [OF assms(1,2)]) auto
  show ?case
  proof (cases "cmp_compare c (K i) k (t_recSize t)")
    case True
    obtain r where "scanUp c t pw k (i + 1) m = Inr r" "i + 1 \<le> r" "r \<le> i + 1 + m"
      "\<forall>j. i + 1 \<le> j \<and> j < r \<longrightarrow> cmp_compare c (K j) k (t_recSize t)"
      "r < i + 1 + m \<longrightarrow> \<not> cmp_compare c (K r) k (t_recSize t)"
      using Suc.IH [of "i + 1"] Suc.prems by auto
    then show ?thesis
      using True k by (intro exI [of _ r]) (auto simp: Suc_le_eq dest: le_neq_implies_less)
  qed (auto simp: k)
qed auto

lemma view_scanDown:
  assumes "geom t" "pview t pw p n leaf K C" "i \<le> n"
  shows "\<exists>r. scanDown c t pw k i = Inr r \<and> r \<le> i \<and>
    (\<forall>j. r \<le> j \<and> j < i \<longrightarrow> cmp_compare c k (K j) (t_recSize t)) \<and>
    (0 < r \<longrightarrow> \<not> cmp_compare c k (K (r - 1)) (t_recSize t))"
  using assms(3)
proof (induction i)
  case (Suc i)
  have "keyAt t pw i = Inr (K i)"
    using Suc.prems by (intro view_keyAt [OF assms(1,2)]) auto
  then show ?case using Suc by (auto simp: less_Suc_eq)
qed auto

lemma view_shiftGreater:
  assumes "geom t" "pview t pw p n leaf K C" "i < n"
  shows "\<exists>r pw'. shiftGreater c t k pw i = Inr (r, pw') \<and> r \<le> i \<and>
    (\<forall>j. r \<le> j \<and> j < i \<longrightarrow> cmp_compare c k (K j) (t_recSize t)) \<and>
    (0 < r \<longrightarrow> \<not> cmp_compare c k (K (r - 1)) (t_recSize t)) \<and>
    pview t pw' p n leaf (\<lambda>j. if r < j \<and> j \<le> i then K (j - 1) else K j) C"
  using assms(2,3)
proof (induction i arbitrary: pw K)
  case 0
  then show ?case by (auto elim!: pview_cong)
next
  case (Suc i)
  have k: "keyAt t pw i = Inr (K i)"
    using Suc.prems by (intro view_keyAt [OF assms(1)]) auto
  show ?case
  proof (cases "cmp_compare c k (K i) (t_recSize t)")
    case True
    have "runs (copyKeyAt t pw (Suc i) pw i) (\<lambda>pw. pview t pw p n leaf (K(Suc i := K i)) C)"
      using Suc.prems by (intro view_copyKeyAt [OF assms(1)]) auto
    then obtain pw1 where c: "copyKeyAt t pw (Suc i) pw i = Inr pw1"
      and v: "pview t pw1 p n leaf (K(Suc i := K i)) C"
      by (rule runsE)
    obtain r pw' where "shiftGreater c t k pw1 i = Inr (r, pw')" "r \<le> i"
      "\<forall>j. r \<le> j \<and> j < i \<longrightarrow> cmp_compare c k (K j) (t_recSize t)"
      "0 < r \<longrightarrow> \<not> cmp_compare c k (K (r - 1)) (t_recSize t)"
      "pview t pw' p n leaf (\<lambda>j. if r < j \<and> j \<le> i then (K(Suc i := K i)) (j - 1) else (K(Suc i := K i)) j) C"
      using Suc.IH [OF v] Suc.prems(2) by (auto split: if_splits)
    then show ?thesis
      using True k c
      by (intro exI [of _ r] exI [of _ pw']) (auto simp: less_Suc_eq le_Suc_eq elim!: pview_cong)
  next
    case False
    then show ?thesis using k Suc.prems(1) by (auto elim!: pview_cong)
  qed
qed

section \<open>Pages with lists of keys and cursors\<close>

text \<open>An empty list of cursors stands for a leaf.\<close>

definition pageHas :: "BaseBTree \<Rightarrow> PageWrapper \<Rightarrow> nat \<Rightarrow> byte list list \<Rightarrow> nat list \<Rightarrow> bool" where
  "pageHas t pw p ks cs \<longleftrightarrow>
     pw_pageNum pw = p \<and> wfPage t pw \<and> getKeysNum pw = length ks \<and>
     (\<forall>i < length ks. kslot t pw i = ks ! i) \<and> isLeaf pw = (cs = []) \<and>
     (cs \<noteq> [] \<longrightarrow> length cs = Suc (length ks) \<and> (\<forall>i \<le> length ks. cslot t pw i = cs ! i))"

lemma pageHasD:
  assumes "pageHas t pw p ks cs"
  shows "pw_pageNum pw = p" "wfPage t pw" "getKeysNum pw = length ks" "isLeaf pw = (cs = [])"
    "length (pw_data pw) = t_nodePageSize t" "length ks \<le> pageKeys t"
    "i < length ks \<Longrightarrow> kslot t pw i = ks ! i" "cs \<noteq> [] \<Longrightarrow> length cs = Suc (length ks)"
    "cs \<noteq> [] \<Longrightarrow> i \<le> length ks \<Longrightarrow> cslot t pw i = cs ! i"
  using assms by (auto simp: pageHas_def wfPage_def)

lemma pageHas_view:
  "pageHas t pw p ks cs \<Longrightarrow> pview t pw p (length ks) (cs = []) (kslot t pw) (cslot t pw)"
  by (simp add: pageHas_def pview_def wfPage_def)

lemma view_pageHas:
  "pview t pw p n leaf K C \<Longrightarrow> length ks = n \<Longrightarrow> leaf = (cs = []) \<Longrightarrow> (\<And>i. i < n \<Longrightarrow> K i = ks ! i) \<Longrightarrow>
   (cs \<noteq> [] \<Longrightarrow> length cs = Suc n) \<Longrightarrow> (\<And>i. cs \<noteq> [] \<Longrightarrow> i \<le> n \<Longrightarrow> C i = cs ! i) \<Longrightarrow> pageHas t pw p ks cs"
  by (auto simp: pageHas_def pview_def wfPage_def)

lemma pageHas_frame:
  assumes "frame t' = frame t"
  shows "pageHas t' = pageHas t"
  by (simp add: fun_eq_iff pageHas_def frame_eqF [OF assms])

lemma pageHas_layout [simp]:
  "pageHas (t\<lparr>t_rootPage := pw\<rparr>) = pageHas t" "pageHas (t\<lparr>t_maxSearchDepth := d\<rparr>) = pageHas t"
  by (simp_all add: fun_eq_iff pageHas_def)

lemma pageHas_keyLength:
  assumes "geom t" "pageHas t pw p ks cs" "k \<in> set ks"
  shows "length k = t_recSize t"
proof -
  obtain i where "i < length ks" "k = ks ! i" using assms(3) by (auto simp: in_set_conv_nth)
  then show ?thesis
    using pageHasD [OF assms(2)] length_kslot [OF assms(1), of pw i] by simp
qed

lemma has_keyAt: "geom t \<Longrightarrow> pageHas t pw p ks cs \<Longrightarrow> i < length ks \<Longrightarrow> keyAt t pw i = Inr (ks ! i)"
  using view_keyAt [OF _ pageHas_view, of t pw p ks cs i] pageHasD(7) [of t pw p ks cs i] by simp

lemma has_getCursor:
  "geom t \<Longrightarrow> pageHas t pw p ks cs \<Longrightarrow> cs \<noteq> [] \<Longrightarrow> i \<le> length ks \<Longrightarrow> getCursor t pw i = Inr (cs ! i)"
  using view_getCursor [OF _ pageHas_view, of t pw p ks cs i] pageHasD(9) [of t pw p ks cs i] by simp

lemma has_setKeyNum:
  assumes "geom t" "pageHas t pw p ks cs" "m \<le> length ks"
  shows "pageHas t (setKeyNum m pw) p (take m ks) (take (Suc m) cs)"
proof -
  note h = pageHasD [OF assms(2)]
  have "pview t (setKeyNum m pw) p m (cs = []) (kslot t pw) (cslot t pw)"
    using assms(3) h(6) by (intro view_setKeyNum [OF assms(1) pageHas_view [OF assms(2)]]) simp
  then show ?thesis
    by (rule view_pageHas) (use assms(3) h(7-9) in \<open>auto simp: min_def\<close>)
qed

lemma has_scanUp:
  assumes "geom t" "pageHas t pw p ks cs"
  shows "\<exists>r. scanUp c t pw k 0 (length ks) = Inr r \<and> r \<le> length ks \<and>
    (\<forall>j < r. cmp_compare c (ks ! j) k (t_recSize t)) \<and>
    (r < length ks \<longrightarrow> \<not> cmp_compare c (ks ! r) k (t_recSize t))"
  using view_scanUp [OF assms(1) pageHas_view [OF assms(2)], of 0 "length ks" c k] pageHasD(7) [OF assms(2)]
  by fastforce

lemma has_scanDown:
  assumes "geom t" "pageHas t pw p ks cs"
  shows "\<exists>r. scanDown c t pw k (length ks) = Inr r \<and> r \<le> length ks \<and>
    (r < length ks \<longrightarrow> cmp_compare c k (ks ! r) (t_recSize t)) \<and>
    (0 < r \<longrightarrow> \<not> cmp_compare c k (ks ! (r - 1)) (t_recSize t))"
  using view_scanDown [OF assms(1) pageHas_view [OF assms(2)], of "length ks" c k] pageHasD(7) [OF assms(2)]
  by fastforce

text \<open>The page part of inserting into a leaf.\<close>

lemma has_insertKey:
  assumes "geom t" "pageHas t pw p ks []" "length ks < pageKeys t" "length k = t_recSize t"
  shows "\<exists>r pw1 pw2. shiftGreater c t k (setKeyNum (length ks + 1) pw) (length ks) = Inr (r, pw1) \<and>
    copyKeyFrom t pw1 r k = Inr pw2 \<and> pageHas t pw2 p (insertAt r k ks) [] \<and> r \<le> length ks \<and>
    (r < length ks \<longrightarrow> cmp_compare c k (ks ! r) (t_recSize t)) \<and>
    (0 < r \<longrightarrow> \<not> cmp_compare c k (ks ! (r - 1)) (t_recSize t))"
proof -
  note h = pageHasD [OF assms(2)]
  let ?n = "length ks"
  have "pview t (setKeyNum (?n + 1) pw) p (?n + 1) True (kslot t pw) (cslot t pw)"
    using view_setKeyNum [OF assms(1) pageHas_view [OF assms(2)], of "?n + 1"] assms(3) by simp
  from view_shiftGreater [OF assms(1) this, of ?n c k]
  obtain r pw1 where r: "shiftGreater c t k (setKeyNum (?n + 1) pw) ?n = Inr (r, pw1)" "r \<le> ?n"
    "\<forall>j. r \<le> j \<and> j < ?n \<longrightarrow> cmp_compare c k (kslot t pw j) (t_recSize t)"
    "0 < r \<longrightarrow> \<not> cmp_compare c k (kslot t pw (r - 1)) (t_recSize t)"
    "pview t pw1 p (?n + 1) True (\<lambda>j. if r < j \<and> j \<le> ?n then kslot t pw (j - 1) else kslot t pw j) (cslot t pw)"
    by auto
  obtain pw2 where w: "copyKeyFrom t pw1 r k = Inr pw2"
    "pview t pw2 p (?n + 1) True ((\<lambda>j. if r < j \<and> j \<le> ?n then kslot t pw (j - 1) else kslot t pw j)(r := k))
      (cslot t pw)"
    using view_copyKeyFrom [OF assms(1) r(5), of r k] r(2) assms(4) by (auto elim!: runsE)
  have "pageHas t pw2 p (insertAt r k ks) []"
    by (rule view_pageHas [OF w(2)]) (use r(2) h(7) in \<open>auto simp: nth_insertAt\<close>)
  then show ?thesis
    using r w(1) h(7) by (intro exI [of _ r] exI [of _ pw1] exI [of _ pw2]) auto
qed

text \<open>The parent part of splitting a child: a new key and a new cursor.\<close>

lemma has_openSlot:
  assumes "geom t" "pageHas t node p ks cs" "cs \<noteq> []" "i \<le> length ks" "length ks < pageKeys t" "q < 2 ^ 32"
  shows "runs (openSlot t node i q) (\<lambda>pw. pview t pw p (Suc (length ks)) False
    (\<lambda>j. if i < j \<and> j \<le> length ks then kslot t node (j - 1) else kslot t node j)
    ((\<lambda>j. if i + 1 < j \<and> j \<le> Suc (length ks) then cslot t node (j - 1) else cslot t node j)(i + 1 := q)))"
proof -
  note h = pageHasD [OF assms(2)]
  let ?n = "length ks" and ?K = "kslot t node" and ?C = "cslot t node"
  have v: "pview t (setKeyNum (Suc ?n) node) p (Suc ?n) False ?K ?C"
    using view_setKeyNum [OF assms(1) pageHas_view [OF assms(2)], of "Suc ?n"] assms(3,5) by simp
  obtain n1 where n1: "shiftCursors t (setKeyNum (Suc ?n) node) (i + 1) (Suc ?n) = Inr n1"
    "pview t n1 p (Suc ?n) False ?K (\<lambda>j. if i + 1 < j \<and> j \<le> Suc ?n then ?C (j - 1) else ?C j)"
    using view_shiftCursors [OF assms(1) v, of "Suc ?n" "i + 1"] by (auto elim!: runsE)
  obtain n2 where n2: "setCursor t n1 (i + 1) q = Inr n2"
    "pview t n2 p (Suc ?n) False ?K ((\<lambda>j. if i + 1 < j \<and> j \<le> Suc ?n then ?C (j - 1) else ?C j)(i + 1 := q))"
    using view_setCursor [OF assms(1) n1(2), of "i + 1" q] assms(4,6) by (auto elim!: runsE)
  have "openSlot t node i q = shiftKeys t n2 i ?n"
    using n1(1) n2(1) by (simp add: openSlot_def Let_def h(3))
  then show ?thesis
    using view_shiftKeys [OF assms(1) n2(2), of ?n i] by simp
qed

lemma has_newSlot:
  assumes "geom t" "pageHas t node p ks cs" "cs \<noteq> []" "i \<le> length ks" "length ks < pageKeys t" "q < 2 ^ 32"
    "pageHas t src r ks' cs'" "l < length ks'"
  shows "runs (bindR (openSlot t node i q) (\<lambda>node. copyKeyAt t node i src l))
    (\<lambda>pw. pageHas t pw p (insertAt i (ks' ! l) ks) (insertAt (Suc i) q cs))"
proof (rule runs_bindI [OF has_openSlot [OF assms(1-6)]])
  note h = pageHasD [OF assms(2)] and s = pageHasD [OF assms(7)]
  let ?n = "length ks"
  fix pw assume v: "pview t pw p (Suc ?n) False
    (\<lambda>j. if i < j \<and> j \<le> ?n then kslot t node (j - 1) else kslot t node j)
    ((\<lambda>j. if i + 1 < j \<and> j \<le> Suc ?n then cslot t node (j - 1) else cslot t node j)(i + 1 := q))"
  show "runs (copyKeyAt t pw i src l)
      (\<lambda>pw. pageHas t pw p (insertAt i (ks' ! l) ks) (insertAt (Suc i) q cs))"
  proof (rule runs_mono [OF view_copyKeyAt [OF assms(1) v pageHas_view [OF assms(7)]]])
    show "i < Suc ?n" "l < length ks'" using assms by simp_all
    fix pw' assume "pview t pw' p (Suc ?n) False
      ((\<lambda>j. if i < j \<and> j \<le> ?n then kslot t node (j - 1) else kslot t node j)(i := kslot t src l))
      ((\<lambda>j. if i + 1 < j \<and> j \<le> Suc ?n then cslot t node (j - 1) else cslot t node j)(i + 1 := q))"
    then show "pageHas t pw' p (insertAt i (ks' ! l) ks) (insertAt (Suc i) q cs)"
      by (rule view_pageHas)
        (use assms(3,4,8) h(7,8,9) s(7) in \<open>auto simp: nth_insertAt\<close>)
  qed
qed

text \<open>The page part of filling a new right sibling with the tail of a page.\<close>

lemma has_copyTail:
  assumes "geom t" "pview t right q n (cs = []) K C" "pageHas t left p ks cs" "i + n \<le> length ks"
  shows "runs (bindR (copyKeysAt t right 0 left i n)
      (\<lambda>right. if isLeaf left then Inr right else copyCursorsAt t right 0 left i (n + 1)))
    (\<lambda>pw. pageHas t pw q (take n (drop i ks)) (take (Suc n) (drop i cs)))"
proof -
  note h = pageHasD [OF assms(3)]
  have b: "0 + n \<le> n" by simp
  obtain r1 where r1: "copyKeysAt t right 0 left i n = Inr r1"
    "pview t r1 q n (cs = []) (\<lambda>l. if 0 \<le> l \<and> l < 0 + n then kslot t left (l - 0 + i) else K l) C"
    using view_copyKeysAt [OF assms(1,2) pageHas_view [OF assms(3)] b assms(4)] by (auto elim!: runsE)
  show ?thesis
  proof (cases "cs = []")
    case True
    have "pageHas t r1 q (take n (drop i ks)) []"
      by (rule view_pageHas [OF r1(2)]) (use True assms(4) h(7) in \<open>auto simp: add.commute\<close>)
    then show ?thesis using r1(1) True h(4) by simp
  next
    case False
    have "runs (copyCursorsAt t r1 0 left i (n + 1)) (\<lambda>pw. pview t pw q n (cs = [])
        (\<lambda>l. if 0 \<le> l \<and> l < 0 + n then kslot t left (l - 0 + i) else K l)
        (\<lambda>l. if 0 \<le> l \<and> l < 0 + (n + 1) then cslot t left (l - 0 + i) else C l))"
      using assms(4) by (intro view_copyCursorsAt [OF assms(1) r1(2) pageHas_view [OF assms(3)]]) auto
    then have "runs (copyCursorsAt t r1 0 left i (n + 1))
        (\<lambda>pw. pageHas t pw q (take n (drop i ks)) (take (Suc n) (drop i cs)))"
      by (elim runs_mono view_pageHas) (use False assms(4) h(7-9) in \<open>auto simp: add.commute\<close>)
    then show ?thesis using r1(1) False h(4) by simp
  qed
qed

end
