(* ===== verification/Key_Tree.thy ===== *)
theory Key_Tree
  imports Comparators
begin

text \<open>
  The abstract trees behind the pages: nodes with a page number, keys and children.
  \<open>inorder\<close> lists all keys, \<open>leafKeys\<close> those of the leaves (the content of a B+-tree, whose
  inner nodes hold router keys only).  The locale \<open>key_order\<close> is extended with the tree
  invariant and with what inserting below one child and splitting one child do to it.
\<close>

section \<open>Interleaving keys and children\<close>

definition lft :: "'a list list \<Rightarrow> 'a list \<Rightarrow> 'a list" where
  "lft ls ks = concat (map (\<lambda>(l, k). l @ [k]) (zip ls ks))"

definition rgt :: "'a list \<Rightarrow> 'a list list \<Rightarrow> 'a list" where
  "rgt ks ls = concat (map (\<lambda>(k, l). k # l) (zip ks ls))"

fun weave :: "'a list list \<Rightarrow> 'a list \<Rightarrow> 'a list" where
  "weave [] ks = ks"
| "weave (l # ls) ks = l @ rgt ks ls"

lemma lft_simps [simp]: "lft [] ks = []" "lft ls [] = []" "lft (l # ls) (k # ks) = l @ k # lft ls ks"
  by (simp_all add: lft_def)

lemma rgt_simps [simp]: "rgt [] ls = []" "rgt ks [] = []" "rgt (k # ks) (l # ls) = k # l @ rgt ks ls"
  by (simp_all add: rgt_def)

lemma weave_split:
  "length ls = Suc (length ks) \<Longrightarrow> i \<le> length ks \<Longrightarrow>
   weave ls ks = lft (take i ls) (take i ks) @ ls ! i @ rgt (drop i ks) (drop (Suc i) ls)"
proof (induction i arbitrary: ls ks)
  case 0
  then show ?case by (cases ls) auto
next
  case (Suc i)
  then obtain l l' ls' k ks' where [simp]: "ls = l # l' # ls'" "ks = k # ks'"
    by (cases ls; cases "tl ls"; cases ks) auto
  have "weave (l' # ls') ks' =
      lft (take i (l' # ls')) (take i ks') @ (l' # ls') ! i @ rgt (drop i ks') (drop (Suc i) (l' # ls'))"
    using Suc by (intro Suc.IH) auto
  then show ?case by simp
qed

lemma weave_cut:
  assumes "length ls = Suc (length ks)" "j < length ks"
  shows "weave ls ks = weave (take (Suc j) ls) (take j ks) @ ks ! j # weave (drop (Suc j) ls) (drop (Suc j) ks)"
proof -
  have l: "weave (take (Suc j) ls) (take j ks) = lft (take j ls) (take j ks) @ ls ! j"
    using weave_split [of "take (Suc j) ls" "take j ks" j] assms by (simp add: min_def)
  have "drop (Suc j) ls = ls ! Suc j # drop (Suc (Suc j)) ls" "drop j ks = ks ! j # drop (Suc j) ks"
    using assms by (simp_all add: Cons_nth_drop_Suc)
  then show ?thesis using weave_split [OF assms(1), of j] assms(2) l by simp
qed

lemma lft_last: "0 < i \<Longrightarrow> i \<le> length ks \<Longrightarrow> i \<le> length ls \<Longrightarrow>
   \<exists>xs. lft (take i ls) (take i ks) = xs @ [ks ! (i - 1)]"
proof (induction i arbitrary: ls ks)
  case (Suc i)
  obtain l ls' k ks' where [simp]: "ls = l # ls'" "ks = k # ks'"
    using Suc by (cases ls; cases ks) auto
  show ?case
  proof (cases i)
    case (Suc i')
    then obtain xs where "lft (take i ls') (take i ks') = xs @ [ks' ! (i - 1)]"
      using Suc.IH [of ks' ls'] Suc.prems by auto
    then show ?thesis using Suc by (intro exI [of _ "l @ k # xs"]) simp
  qed simp
qed simp

lemma rgt_hd: "i < length ks \<Longrightarrow> i < length ls \<Longrightarrow> \<exists>xs. rgt (drop i ks) (drop i ls) = ks ! i # xs"
  by (metis Cons_nth_drop_Suc rgt_simps(3))

lemma update_all: "\<forall>x \<in> set xs. P x \<Longrightarrow> P y \<Longrightarrow> \<forall>x \<in> set (xs[i := y]). P x"
  by (auto dest!: set_update_subset_insert [THEN subsetD])

section \<open>Trees\<close>

datatype 'k ptree = PNode (pno: nat) (pkeys: "'k list") (pkids: "'k ptree list")

fun inorder :: "'k ptree \<Rightarrow> 'k list" where
  "inorder (PNode p ks Ts) = weave (map inorder Ts) ks"

fun leafKeys :: "'k ptree \<Rightarrow> 'k list" where
  "leafKeys (PNode p ks Ts) = (if Ts = [] then ks else concat (map leafKeys Ts))"

fun pages :: "'k ptree \<Rightarrow> nat list" where
  "pages (PNode p ks Ts) = p # concat (map pages Ts)"

fun bal :: "nat \<Rightarrow> 'k ptree \<Rightarrow> bool" where
  "bal 0 (PNode p ks Ts) = (Ts = [])"
| "bal (Suc h) (PNode p ks Ts) = (length Ts = Suc (length ks) \<and> (\<forall>T \<in> set Ts. bal h T))"

text \<open>Every node below the root has at least \<open>mn\<close> and at most \<open>mx\<close> keys; both depend on
  whether the node is a leaf.  The bound of the root is its own in the star variants.\<close>

fun sized :: "(bool \<Rightarrow> nat) \<Rightarrow> (bool \<Rightarrow> nat) \<Rightarrow> 'k ptree \<Rightarrow> bool" where
  "sized mn mx (PNode p ks Ts) =
     (\<forall>T \<in> set Ts. mn (pkids T = []) \<le> length (pkeys T) \<and> length (pkeys T) \<le> mx (pkids T = []) \<and>
        sized mn mx T)"

text \<open>What the tree holds: all keys, or the keys of the leaves in the plus variants.\<close>

definition contents :: "bool \<Rightarrow> 'k ptree \<Rightarrow> 'k list" where
  "contents leafy T = (if leafy then leafKeys T else inorder T)"

definition before :: "bool \<Rightarrow> nat \<Rightarrow> 'k list \<Rightarrow> 'k ptree list \<Rightarrow> 'k list" where
  "before leafy i ks Ts =
     (if leafy then concat (map leafKeys (take i Ts)) else lft (map inorder (take i Ts)) (take i ks))"

definition after :: "bool \<Rightarrow> nat \<Rightarrow> 'k list \<Rightarrow> 'k ptree list \<Rightarrow> 'k list" where
  "after leafy i ks Ts =
     (if leafy then concat (map leafKeys (drop (Suc i) Ts))
      else rgt (drop i ks) (map inorder (drop (Suc i) Ts)))"

lemma contents_split:
  assumes "length Ts = Suc (length ks)" "i \<le> length ks"
  shows "contents leafy (PNode p ks Ts) = before leafy i ks Ts @ contents leafy (Ts ! i) @ after leafy i ks Ts"
proof (cases leafy)
  case True
  have "Ts = take i Ts @ Ts ! i # drop (Suc i) Ts"
    using assms by (simp add: id_take_nth_drop)
  then have "concat (map leafKeys Ts) =
      concat (map leafKeys (take i Ts)) @ leafKeys (Ts ! i) @ concat (map leafKeys (drop (Suc i) Ts))"
    by (metis concat.simps(2) concat_append list.simps(9) map_append)
  then show ?thesis
    using True assms(1) by (auto simp: contents_def before_def after_def)
next
  case False
  then show ?thesis
    using weave_split [of "map inorder Ts" ks i] assms
    by (simp add: contents_def before_def after_def take_map drop_map)
qed

lemma inorder_split:
  "length Ts = Suc (length ks) \<Longrightarrow> i \<le> length ks \<Longrightarrow>
   inorder (PNode p ks Ts) = before False i ks Ts @ inorder (Ts ! i) @ after False i ks Ts"
  using contents_split [of Ts ks i False p] by (simp add: contents_def)

lemma contents_update:
  assumes "length Ts = Suc (length ks)" "i \<le> length ks"
  shows "contents leafy (PNode p ks (Ts[i := U])) = before leafy i ks Ts @ contents leafy U @ after leafy i ks Ts"
  using contents_split [of "Ts[i := U]" ks i leafy p] assms
  by (simp add: before_def after_def)

text \<open>Replacing child \<open>i\<close> by two children with a key between them.\<close>

definition splitKids :: "nat \<Rightarrow> 'a \<Rightarrow> 'a \<Rightarrow> 'a list \<Rightarrow> 'a list" where
  "splitKids i L R Ts = take i Ts @ L # R # drop (Suc i) Ts"

lemma length_splitKids [simp]: "i < length Ts \<Longrightarrow> length (splitKids i L R Ts) = Suc (length Ts)"
  by (simp add: splitKids_def)

lemma splitKids_insertAt: "i < length Ts \<Longrightarrow> splitKids i L R Ts = insertAt (Suc i) R (Ts[i := L])"
  by (simp add: splitKids_def insertAt_def upd_conv_take_nth_drop take_Suc_conv_app_nth)

lemma nth_splitKids:
  "i < length Ts \<Longrightarrow> j \<le> length Ts \<Longrightarrow>
   splitKids i L R Ts ! j = (if j < i then Ts ! j else if j = i then L else if j = Suc i then R else Ts ! (j - 1))"
  by (auto simp: splitKids_insertAt nth_insertAt)

lemma splitKids_split:
  assumes "length Ts = Suc (length ks)" "i \<le> length ks"
  shows "contents leafy (PNode p (insertAt i m ks) (splitKids i L R Ts)) =
    before leafy i ks Ts @ contents leafy L @ (if leafy then [] else [m]) @ contents leafy R @ after leafy i ks Ts"
proof -
  let ?Ts = "splitKids i L R Ts" and ?ks = "insertAt i m ks"
  have "length ?Ts = Suc (length ?ks)" "i \<le> length ?ks" using assms by simp_all
  from contents_split [OF this, of leafy p] assms show ?thesis
    by (auto simp: before_def after_def splitKids_def contents_def nth_append insertAt_def)
qed

lemma leafKeys_subset: "bal h T \<Longrightarrow> set (leafKeys T) \<subseteq> set (inorder T)"
proof (induction h arbitrary: T)
  case 0
  then show ?case by (cases T) auto
next
  case (Suc h)
  obtain p ks Ts where T: "T = PNode p ks Ts" by (cases T)
  have len: "length Ts = Suc (length ks)" and b: "\<forall>U \<in> set Ts. bal h U"
    using Suc.prems T by simp_all
  have "set (leafKeys U) \<subseteq> set (inorder T)" if U: "U \<in> set Ts" for U
  proof -
    obtain i where "i < length Ts" "U = Ts ! i" using U by (auto simp: in_set_conv_nth)
    then have "set (inorder U) \<subseteq> set (inorder T)"
      using inorder_split [OF len, of i p] len unfolding T by auto
    then show ?thesis using Suc.IH [of U] b U by blast
  qed
  then show ?case using T len by auto
qed

lemma leafKeys_nonempty:
  assumes "\<And>b. 0 < mn b"
  shows "bal h T \<Longrightarrow> sized mn mx T \<Longrightarrow> (h = 0 \<longrightarrow> pkeys T \<noteq> []) \<Longrightarrow> leafKeys T \<noteq> []"
proof (induction h arbitrary: T)
  case 0
  then show ?case by (cases T) auto
next
  case (Suc h)
  obtain p ks Ts where T: "T = PNode p ks Ts" by (cases T)
  then obtain U Us where U: "Ts = U # Us" "bal h U" using Suc.prems(1) by (cases Ts) auto
  have "pkeys U \<noteq> []" "sized mn mx U"
    using Suc.prems(2) T U(1) assms [of "pkids U = []"] by auto
  then show ?case using Suc.IH [OF U(2)] T U(1) by auto
qed

lemma height_pages: "bal h T \<Longrightarrow> Suc h \<le> length (pages T)"
proof (induction h arbitrary: T)
  case 0
  then show ?case by (cases T) auto
next
  case (Suc h)
  obtain p ks Ts where T: "T = PNode p ks Ts" by (cases T)
  then obtain U Us where "Ts = U # Us" "bal h U" using Suc.prems by (cases Ts) auto
  then show ?case using Suc.IH [of U] T by simp
qed

section \<open>The tree invariant\<close>

text \<open>A router key is at most some key of the leaves left of it.\<close>

fun routed :: "('k \<Rightarrow> 'k \<Rightarrow> bool) \<Rightarrow> 'k ptree \<Rightarrow> bool" where
  "routed lt (PNode p ks Ts) =
     ((\<forall>i < length ks. Ts \<noteq> [] \<longrightarrow> (\<exists>y \<in> set (leafKeys (Ts ! i)). \<not> lt y (ks ! i))) \<and>
      (\<forall>T \<in> set Ts. routed lt T))"

definition tinv ::
  "('k \<Rightarrow> 'k \<Rightarrow> bool) \<Rightarrow> bool \<Rightarrow> (bool \<Rightarrow> nat) \<Rightarrow> (bool \<Rightarrow> nat) \<Rightarrow> nat \<Rightarrow> 'k ptree \<Rightarrow> bool" where
  "tinv lt leafy mn mx h T \<longleftrightarrow>
     bal h T \<and> sorted_wrt (\<lambda>x y. \<not> lt y x) (inorder T) \<and> sized mn mx T \<and> (leafy \<longrightarrow> routed lt T)"

lemma sized_mono: "sized mn mx T \<Longrightarrow> mx \<le> mx' \<Longrightarrow> sized mn mx' T"
  by (induction T) (auto simp: le_fun_def intro: order_trans)

lemma tinv_mono: "tinv lt leafy mn mx h T \<Longrightarrow> mx \<le> mx' \<Longrightarrow> tinv lt leafy mn mx' h T"
  using sized_mono by (auto simp: tinv_def)

text \<open>\<open>T'\<close> is \<open>T\<close> with \<open>k\<close> inserted.\<close>

definition inserted :: "bool \<Rightarrow> 'k \<Rightarrow> 'k ptree \<Rightarrow> 'k ptree \<Rightarrow> bool" where
  "inserted leafy k T T' \<longleftrightarrow>
     pno T' = pno T \<and> set (inorder T') \<subseteq> insert k (set (inorder T)) \<and>
     mset (contents leafy T') = add_mset k (mset (contents leafy T)) \<and>
     length (pkeys T) \<le> length (pkeys T') \<and> (pkids T' = []) = (pkids T = [])"

lemma inserted_leafKeys: "inserted True k T T' \<Longrightarrow> set (leafKeys T) \<subseteq> set (leafKeys T')"
  unfolding inserted_def contents_def by (metis set_mset_add_mset_insert set_mset_mset subset_insertI)

context key_order
begin

lemma ord_le_last: "ord (xs @ [y]) \<Longrightarrow> le y k \<Longrightarrow> x \<in> set (xs @ [y]) \<Longrightarrow> le x k"
  using le_trans by (auto simp: sorted_wrt_append)

lemma ord_hd_le: "ord (y # ys) \<Longrightarrow> le k y \<Longrightarrow> x \<in> set (y # ys) \<Longrightarrow> le k x"
  using le_trans by auto

text \<open>The keys left and right of a position whose neighbouring keys bound \<open>k\<close>.\<close>

lemma bounds_before:
  assumes "ord (before False i ks Ts)" "length Ts = Suc (length ks)" "i \<le> length ks"
    "0 < i \<longrightarrow> le (ks ! (i - 1)) k" "x \<in> set (before False i ks Ts)"
  shows "le x k"
proof (cases "i = 0")
  case False
  then obtain xs where "before False i ks Ts = xs @ [ks ! (i - 1)]"
    using lft_last [of i ks "map inorder Ts"] assms(2,3) by (auto simp: before_def take_map)
  then show ?thesis using ord_le_last [of xs "ks ! (i - 1)" k x] assms False by simp
qed (use assms in \<open>simp add: before_def\<close>)

lemma bounds_after:
  assumes "ord (after False i ks Ts)" "length Ts = Suc (length ks)" "i \<le> length ks"
    "i < length ks \<longrightarrow> le k (ks ! i)" "x \<in> set (after False i ks Ts)"
  shows "le k x"
proof (cases "i < length ks")
  case True
  then obtain xs where "after False i ks Ts = ks ! i # xs"
    using rgt_hd [of i ks "map inorder (tl Ts)"] assms(2)
    by (auto simp: after_def drop_map drop_Suc)
  then show ?thesis using ord_hd_le [of "ks ! i" xs k x] assms True by simp
qed (use assms in \<open>simp add: after_def\<close>)

subsection \<open>Inserting below one child\<close>

lemma ord_replace:
  assumes "ord (A @ xs @ B)" "ord ys" "set ys \<subseteq> insert k (set xs)"
    "\<forall>a \<in> set A. le a k" "\<forall>b \<in> set B. le k b"
  shows "ord (A @ ys @ B)"
  using assms by (auto simp: sorted_wrt_append subset_iff)

lemma tinv_child:
  assumes "tinv less leafy mn mx (Suc h) (PNode p ks Ts)" "U \<in> set Ts"
  shows "tinv less leafy mn mx h U"
proof -
  obtain i where i: "i < length Ts" "U = Ts ! i" using assms(2) by (auto simp: in_set_conv_nth)
  have "ord (inorder U)"
    using assms(1) inorder_split [of Ts ks i p] i by (auto simp: tinv_def sorted_wrt_append)
  then show ?thesis using assms by (auto simp: tinv_def)
qed

lemma routed_update:
  assumes "routed less (PNode p ks Ts)" "routed less U" "i < length Ts"
    "set (leafKeys (Ts ! i)) \<subseteq> set (leafKeys U)"
  shows "routed less (PNode p ks (Ts[i := U]))"
proof -
  have "\<exists>y \<in> set (leafKeys (Ts[i := U] ! j)). le (ks ! j) y" if "j < length ks" "Ts \<noteq> []" for j
    using assms(1,3,4) that by (cases "j = i") force+
  moreover have "\<forall>V \<in> set (Ts[i := U]). routed less V"
    using assms(1,2) by (intro update_all) auto
  ultimately show ?thesis by simp
qed

lemma insert_below:
  assumes T: "tinv less leafy mn mx (Suc h) (PNode p ks Ts)" and i: "i \<le> length ks"
    and U: "tinv less leafy mn mx h U" "inserted leafy k (Ts ! i) U" "length (pkeys U) \<le> mx (pkids U = [])"
    and b: "0 < i \<longrightarrow> le (ks ! (i - 1)) k" "i < length ks \<longrightarrow> le k (ks ! i)"
  shows "tinv less leafy mn mx (Suc h) (PNode p ks (Ts[i := U]))"
    "inserted leafy k (PNode p ks Ts) (PNode p ks (Ts[i := U]))"
proof -
  have len: "length Ts = Suc (length ks)" and o: "ord (inorder (PNode p ks Ts))"
    and kids: "\<forall>V \<in> set Ts. bal h V" using T by (simp_all add: tinv_def)
  let ?A = "before False i ks Ts" and ?B = "after False i ks Ts" and ?V = "Ts ! i"
  have V: "?V \<in> set Ts" using i len by simp
  have oA: "ord (?A @ inorder ?V @ ?B)" using o by (simp only: inorder_split [OF len i])
  then have "\<forall>a \<in> set ?A. le a k" "\<forall>x \<in> set ?B. le k x"
    using bounds_before [OF _ len i b(1)] bounds_after [OF _ len i b(2)]
    by (auto simp: sorted_wrt_append)
  moreover have "set (inorder U) \<subseteq> insert k (set (inorder ?V))" "ord (inorder U)"
    using U by (simp_all add: inserted_def tinv_def)
  ultimately have oU: "ord (?A @ inorder U @ ?B)"
    using ord_replace [OF oA] by blast
  have e: "inorder (PNode p ks (Ts[i := U])) = ?A @ inorder U @ ?B"
    using contents_update [OF len i, of False p U] by (simp add: contents_def)
  have "mn (pkids ?V = []) \<le> length (pkeys ?V)" using T V by (simp add: tinv_def)
  then have "mn (pkids U = []) \<le> length (pkeys U)" using U(2) by (simp add: inserted_def)
  then have "\<forall>W \<in> set (Ts[i := U]). mn (pkids W = []) \<le> length (pkeys W) \<and>
      length (pkeys W) \<le> mx (pkids W = []) \<and> sized mn mx W"
    using T U(1,3) by (intro update_all) (simp_all add: tinv_def)
  then have "sized mn mx (PNode p ks (Ts[i := U]))"
    using T by (simp add: tinv_def)
  moreover have "routed less (PNode p ks (Ts[i := U]))" if l: leafy
  proof (rule routed_update)
    show "routed less (PNode p ks Ts)" "routed less U" using T U(1) l unfolding tinv_def by blast+
    show "set (leafKeys ?V) \<subseteq> set (leafKeys U)" using inserted_leafKeys U(2) l by simp
    show "i < length Ts" using i len by simp
  qed
  moreover have "bal (Suc h) (PNode p ks (Ts[i := U]))"
    using T U(1) update_all [of Ts "bal h" U i] by (simp add: tinv_def)
  ultimately show "tinv less leafy mn mx (Suc h) (PNode p ks (Ts[i := U]))"
    using oU unfolding tinv_def e by blast
  have "set (inorder (PNode p ks (Ts[i := U]))) \<subseteq> insert k (set (inorder (PNode p ks Ts)))"
    using U(2) unfolding e inorder_split [OF len i] by (auto simp: inserted_def)
  moreover have "mset (contents leafy (PNode p ks (Ts[i := U]))) = add_mset k (mset (contents leafy (PNode p ks Ts)))"
    using U(2) unfolding contents_update [OF len i] contents_split [OF len i] by (simp add: inserted_def)
  ultimately show "inserted leafy k (PNode p ks Ts) (PNode p ks (Ts[i := U]))"
    by (simp add: inserted_def del: inorder.simps)
qed

lemma insert_leaf:
  assumes "tinv less leafy mn mx 0 (PNode p ks [])" "i \<le> length ks"
    and b: "0 < i \<longrightarrow> le (ks ! (i - 1)) k" "i < length ks \<longrightarrow> le k (ks ! i)"
  shows "tinv less leafy mn mx 0 (PNode p (insertAt i k ks) [])"
    "inserted leafy k (PNode p ks []) (PNode p (insertAt i k ks) [])"
proof -
  have o: "ord (take i ks @ drop i ks)" using assms(1) by (simp add: tinv_def)
  have "le x k" if "x \<in> set (take i ks)" for x
    using ord_take_le [of ks "i - 1" k x] o b(1) that assms(2) by (cases i) auto
  moreover have "le k x" if "x \<in> set (drop i ks)" for x
    using ord_drop_le [of ks i k x] o b(2) that assms(2) by (cases "i < length ks") auto
  ultimately show "tinv less leafy mn mx 0 (PNode p (insertAt i k ks) [])"
    using ord_insert [OF o] assms(2) by (simp add: tinv_def insertAt_def)
  show "inserted leafy k (PNode p ks []) (PNode p (insertAt i k ks) [])"
    using assms(2) by (auto simp: inserted_def contents_def set_insertAt mset_insertAt)
qed

subsection \<open>Splitting one child\<close>

text \<open>
  What a split of node \<open>U\<close> into \<open>L\<close> and \<open>R\<close> with key \<open>m\<close> between them has to keep.  In a plus
  variant \<open>m\<close> may be a copy of a key of \<open>L\<close>.
\<close>

definition splits :: "bool \<Rightarrow> 'k ptree \<Rightarrow> 'k ptree \<Rightarrow> 'k \<Rightarrow> 'k ptree \<Rightarrow> bool" where
  "splits leafy U L m R \<longleftrightarrow>
     pno L = pno U \<and> ord (inorder L @ m # inorder R) \<and>
     set (inorder L @ m # inorder R) \<subseteq> set (inorder U) \<and>
     (if leafy then leafKeys U = leafKeys L @ leafKeys R \<and> leafKeys R \<noteq> [] \<and> (\<exists>y \<in> set (leafKeys L). le m y)
      else inorder U = inorder L @ m # inorder R)"

lemma splits_router:
  assumes "splits True U L m R" "bal h L" "bal h R" "\<exists>y \<in> set (leafKeys U). le x y"
  shows "\<exists>y \<in> set (leafKeys R). le x y"
proof -
  obtain y where y: "y \<in> set (leafKeys L) \<union> set (leafKeys R)" "le x y"
    using assms(1,4) by (auto simp: splits_def)
  show ?thesis
  proof (cases "y \<in> set (leafKeys R)")
    case False
    obtain z where z: "z \<in> set (leafKeys R)"
      using assms(1) by (cases "leafKeys R") (auto simp: splits_def)
    have "y \<in> set (inorder L)" "z \<in> set (inorder R)"
      using y(1) False z leafKeys_subset [OF assms(2)] leafKeys_subset [OF assms(3)] by auto
    then have "le y z" using assms(1) by (auto simp: splits_def sorted_wrt_append)
    then show ?thesis using y(2) z le_trans by blast
  qed (use y in blast)
qed

lemma routed_split:
  assumes "routed less (PNode p ks Ts)" "length Ts = Suc (length ks)" "i \<le> length ks"
    "routed less L" "routed less R" "splits True (Ts ! i) L m R" "bal h L" "bal h R"
  shows "routed less (PNode p (insertAt i m ks) (splitKids i L R Ts))"
proof -
  have "\<exists>y \<in> set (leafKeys (splitKids i L R Ts ! j)). le (insertAt i m ks ! j) y"
    if j: "j < Suc (length ks)" for j
  proof -
    have old: "\<exists>y \<in> set (leafKeys (Ts ! l)). le (ks ! l) y" if "l < length ks" for l
      using assms(1,2) that by auto
    consider "j < i" | "j = i" | "j = Suc i" | "Suc i < j" by linarith
    then show ?thesis
    proof cases
      case 1
      then show ?thesis using old [of j] assms(2,3) by (simp add: nth_splitKids nth_insertAt)
    next
      case 2
      then show ?thesis using assms(2,3,6) by (simp add: nth_splitKids nth_insertAt splits_def)
    next
      case 3
      then have "\<exists>y \<in> set (leafKeys R). le (ks ! i) y"
        using splits_router [OF assms(6-8), of "ks ! i"] old [of i] j by simp
      then show ?thesis using 3 j assms(2,3) by (simp add: nth_splitKids nth_insertAt)
    next
      case 4
      then show ?thesis using old [of "j - 1"] j assms(2,3) by (simp add: nth_splitKids nth_insertAt)
    qed
  qed
  moreover have "\<forall>V \<in> set (splitKids i L R Ts). routed less V"
    using assms(1,4,5) by (auto simp: splitKids_def dest: in_set_takeD in_set_dropD)
  ultimately show ?thesis by simp
qed

lemma split_child:
  assumes T: "tinv less leafy mn mx (Suc h) (PNode p ks Ts)" and i: "i \<le> length ks"
    and LR: "tinv less leafy mn mx h L" "tinv less leafy mn mx h R"
    "mn (pkids L = []) \<le> length (pkeys L)" "mn (pkids R = []) \<le> length (pkeys R)"
    "length (pkeys L) \<le> mx (pkids L = [])" "length (pkeys R) \<le> mx (pkids R = [])"
    and s: "splits leafy (Ts ! i) L m R"
  defines "T' \<equiv> PNode p (insertAt i m ks) (splitKids i L R Ts)"
  shows "tinv less leafy mn mx (Suc h) T'" "contents leafy T' = contents leafy (PNode p ks Ts)"
    "set (inorder T') \<subseteq> set (inorder (PNode p ks Ts))"
proof -
  have len: "length Ts = Suc (length ks)" and o: "ord (inorder (PNode p ks Ts))"
    using T by (simp_all add: tinv_def)
  let ?A = "before False i ks Ts" and ?B = "after False i ks Ts"
  have e: "inorder T' = ?A @ (inorder L @ m # inorder R) @ ?B"
    using splitKids_split [OF len i, of False p m L R] by (simp add: contents_def T'_def)
  have oA: "ord (?A @ inorder (Ts ! i) @ ?B)" using o by (simp only: inorder_split [OF len i])
  have sub: "set (inorder L @ m # inorder R) \<subseteq> set (inorder (Ts ! i))"
    and ordLR: "ord (inorder L @ m # inorder R)"
    using s by (simp_all add: splits_def)
  have "ord (inorder T')"
    unfolding e using oA sub ordLR by (auto simp: sorted_wrt_append subset_iff)
  moreover have "bal (Suc h) T'"
    using T LR(1,2) len i by (auto simp: tinv_def T'_def splitKids_def dest: in_set_takeD in_set_dropD)
  moreover have "sized mn mx T'"
    using T LR by (auto simp: tinv_def T'_def splitKids_def dest: in_set_takeD in_set_dropD)
  moreover have "routed less T'" if l: leafy
    unfolding T'_def using T LR(1,2) s l
    by (intro routed_split [OF _ len i]) (auto simp: tinv_def simp del: routed.simps)
  ultimately show "tinv less leafy mn mx (Suc h) T'" unfolding tinv_def by blast
  show "contents leafy T' = contents leafy (PNode p ks Ts)"
    unfolding T'_def splitKids_split [OF len i] contents_split [OF len i]
    using s by (auto simp: splits_def contents_def split: if_splits)
  show "set (inorder T') \<subseteq> set (inorder (PNode p ks Ts))"
    unfolding e inorder_split [OF len i] using sub by auto
qed

text \<open>The two ways to split a node: around a key, and a leaf of a plus variant behind a key.\<close>

lemma splits_around:
  fixes q' :: nat
  assumes U: "tinv less leafy mn mx h (PNode q us Vs)" and j: "j < length us"
    and l: "leafy \<longrightarrow> Vs \<noteq> []" and mn: "\<And>b. 0 < mn b"
  defines "L \<equiv> PNode q (take j us) (take (Suc j) Vs)"
    and "R \<equiv> PNode q' (drop (Suc j) us) (drop (Suc j) Vs)"
  shows "splits leafy (PNode q us Vs) L (us ! j) R" "tinv less leafy mn mx h L" "tinv less leafy mn mx h R"
proof -
  have b: "bal h (PNode q us Vs)" and o: "ord (inorder (PNode q us Vs))" and sz: "sized mn mx (PNode q us Vs)"
    and ro: "leafy \<Longrightarrow> routed less (PNode q us Vs)"
    using U by (simp_all add: tinv_def del: routed.simps sized.simps)
  have len: "Vs \<noteq> [] \<Longrightarrow> length Vs = Suc (length us)" using b by (cases h) auto
  have e: "inorder (PNode q us Vs) = inorder L @ us ! j # inorder R"
  proof (cases "Vs = []")
    case True
    then show ?thesis using j by (simp add: L_def R_def id_take_nth_drop)
  next
    case False
    then show ?thesis
      using weave_cut [of "map inorder Vs" us j] len j by (simp add: L_def R_def take_map drop_map)
  qed
  have nl: "(take (Suc j) Vs = []) = (Vs = [])" "(drop (Suc j) Vs = []) = (Vs = [])"
    using len j by (cases "Vs = []"; simp)+
  have bL: "bal h L" and bR: "bal h R"
    using b j len by (cases h; auto simp: L_def R_def dest: in_set_takeD in_set_dropD)+
  have sL: "sized mn mx L" and sR: "sized mn mx R"
    using sz j nl by (auto simp: L_def R_def dest: in_set_takeD in_set_dropD)
  have rV: "\<exists>y \<in> set (leafKeys (Vs ! i)). le (us ! i) y" if leafy "i < length us" "Vs \<noteq> []" for i
    using ro [OF that(1)] that(2,3) by simp
  have rL: "routed less L" if leafy
    using ro [OF that] j len rV [OF that] by (auto simp: L_def dest: in_set_takeD)
  have rR: "routed less R" if lf: leafy
  proof -
    have "\<exists>y \<in> set (leafKeys (drop (Suc j) Vs ! i)). le (drop (Suc j) us ! i) y"
      if "i < length (drop (Suc j) us)" "drop (Suc j) Vs \<noteq> []" for i
      using rV [OF lf, of "Suc j + i"] that nl len j by simp
    then show ?thesis using ro [OF lf] by (auto simp: R_def dest: in_set_dropD)
  qed
  have oL: "ord (inorder L)" "ord (inorder R)" using o unfolding e by (auto simp: sorted_wrt_append)
  show "tinv less leafy mn mx h L" "tinv less leafy mn mx h R"
    using bL bR sL sR rL rR oL unfolding tinv_def by blast+
  have "leafKeys (PNode q us Vs) = leafKeys L @ leafKeys R" "leafKeys R \<noteq> []"
    "\<exists>y \<in> set (leafKeys L). le (us ! j) y" if lf: leafy
  proof -
    have V: "Vs \<noteq> []" using l lf by simp
    have "concat (map leafKeys Vs) = concat (map leafKeys (take (Suc j) Vs)) @ concat (map leafKeys (drop (Suc j) Vs))"
      by (metis append_take_drop_id concat_append map_append)
    then show "leafKeys (PNode q us Vs) = leafKeys L @ leafKeys R"
      using V nl by (simp add: L_def R_def)
    have "h \<noteq> 0" using b V by (cases h) auto
    then show "leafKeys R \<noteq> []" using leafKeys_nonempty [OF mn bR sR] by simp
    obtain y where y: "y \<in> set (leafKeys (Vs ! j))" "le (us ! j) y"
      using ro [OF lf] j V by auto
    have "Vs ! j \<in> set (take (Suc j) Vs)" using len [OF V] j by (auto simp: take_Suc_conv_app_nth)
    then have "y \<in> set (leafKeys L)" using y(1) nl V by (auto simp: L_def)
    then show "\<exists>y \<in> set (leafKeys L). le (us ! j) y" using y(2) by blast
  qed
  then show "splits leafy (PNode q us Vs) L (us ! j) R"
    using o e by (auto simp: splits_def L_def simp del: inorder.simps leafKeys.simps)
qed

lemma splits_leaf:
  fixes q' :: nat
  assumes U: "tinv less True mn mx 0 (PNode q us [])" and j: "0 < j" "j < length us"
  defines "L \<equiv> PNode q (take j us) []" and "R \<equiv> PNode q' (drop j us) []"
  shows "splits True (PNode q us []) L (us ! (j - 1)) R" "tinv less True mn mx 0 L" "tinv less True mn mx 0 R"
proof -
  have o: "ord (take j us @ drop j us)" using U by (simp add: tinv_def)
  have t: "take j us = take (j - 1) us @ [us ! (j - 1)]"
    using j by (metis Suc_pred' less_imp_diff_less take_Suc_conv_app_nth)
  show "tinv less True mn mx 0 L" "tinv less True mn mx 0 R"
    using U o j by (auto simp: tinv_def L_def R_def sorted_wrt_append)
  have "ord (take j us @ us ! (j - 1) # drop j us)"
    using o irrefl unfolding t by (auto simp: sorted_wrt_append)
  moreover have "us ! (j - 1) \<in> set (take j us)" unfolding t by simp
  ultimately show "splits True (PNode q us []) L (us ! (j - 1)) R"
    using j irrefl by (auto simp: splits_def L_def R_def dest: in_set_takeD in_set_dropD)
qed

end

end
