(* ===== verification/Stored_Tree.thy ===== *)
theory Stored_Tree
  imports Page_View Key_Tree
begin

text \<open>
  Trees in a page store.  \<open>stored t \<sigma> T\<close>: every node of \<open>T\<close> is on the page it names, live and
  in use, with its keys, its leaf flag and the page numbers of its children.  \<open>evolves A \<sigma> \<sigma>'\<close>:
  a store that changed on the pages of \<open>A\<close> and on newly allocated pages only.
\<close>

abbreviation pageImg :: "pstore \<Rightarrow> nat \<Rightarrow> PageWrapper" where
  "pageImg \<sigma> p \<equiv> \<lparr>pw_data = ps_page \<sigma> p, pw_pageNum = p\<rparr>"

fun stored :: "BaseBTree \<Rightarrow> pstore \<Rightarrow> byte list ptree \<Rightarrow> bool" where
  "stored t \<sigma> (PNode p ks Ts) =
     (ps_live \<sigma> p \<and> p \<notin> ps_avail \<sigma> \<and> pageHas t (pageImg \<sigma> p) p ks (map pno Ts) \<and>
      (\<forall>T \<in> set Ts. stored t \<sigma> T))"

definition evolves :: "nat set \<Rightarrow> pstore \<Rightarrow> pstore \<Rightarrow> bool" where
  "evolves A \<sigma> \<sigma>' \<longleftrightarrow>
     ps_ok \<sigma>' \<and> ps_avail \<sigma>' \<subseteq> ps_avail \<sigma> \<and> ps_last \<sigma> \<le> ps_last \<sigma>' \<and> ps_root \<sigma>' = ps_root \<sigma> \<and>
     (\<forall>n. n \<notin> A \<and> n \<notin> ps_avail \<sigma> \<longrightarrow> ps_page \<sigma>' n = ps_page \<sigma> n)"

lemma evolves_refl: "ps_ok \<sigma> \<Longrightarrow> evolves A \<sigma> \<sigma>"
  by (simp add: evolves_def)

lemma evolves_trans:
  "evolves A \<sigma> \<sigma>' \<Longrightarrow> evolves B \<sigma>' \<sigma>'' \<Longrightarrow> B \<subseteq> A \<union> ps_avail \<sigma> \<Longrightarrow> evolves A \<sigma> \<sigma>''"
  unfolding evolves_def by (smt (verit) Un_iff le_trans subset_iff)

lemma evolves_mono: "evolves A \<sigma> \<sigma>' \<Longrightarrow> A \<subseteq> B \<Longrightarrow> evolves B \<sigma> \<sigma>'"
  by (auto simp: evolves_def)

lemma evolves_write: "ps_ok \<sigma> \<Longrightarrow> evolves {p} \<sigma> (ps_write p d \<sigma>)"
  by (auto simp: evolves_def ps_write_def ps_ok_def ps_live_def ps_avail_def)

lemma evolves_alloc: "ps_ok \<sigma> \<Longrightarrow> ps_alloc d \<sigma> = (n, \<sigma>') \<Longrightarrow> evolves {} \<sigma> \<sigma>'"
  using ps_alloc_fresh [of \<sigma> d n \<sigma>'] by (auto simp: evolves_def)

lemma evolves_live: "evolves A \<sigma> \<sigma>' \<Longrightarrow> ps_live \<sigma> n \<Longrightarrow> ps_live \<sigma>' n"
  by (auto simp: evolves_def ps_live_def)

lemma stored_node: "stored t \<sigma> T \<Longrightarrow> pageHas t (pageImg \<sigma> (pno T)) (pno T) (pkeys T) (map pno (pkids T))"
  by (cases T) simp

lemma stored_pages: "stored t \<sigma> T \<Longrightarrow> n \<in> set (pages T) \<Longrightarrow> ps_live \<sigma> n \<and> n \<notin> ps_avail \<sigma>"
  by (induction T) auto

lemma pno_in_pages: "pno T \<in> set (pages T)"
  by (cases T) simp

lemma stored_frame:
  assumes "evolves A \<sigma> \<sigma>'" "stored t \<sigma> T" "set (pages T) \<inter> A = {}"
  shows "stored t \<sigma>' T"
  using assms(2,3)
proof (induction T)
  case (PNode p ks Ts)
  have "ps_page \<sigma>' p = ps_page \<sigma> p" using PNode.prems assms(1) by (auto simp: evolves_def)
  moreover have "ps_live \<sigma>' p" "p \<notin> ps_avail \<sigma>'"
    using PNode.prems assms(1) evolves_live [OF assms(1), of p] by (auto simp: evolves_def)
  moreover have "stored t \<sigma>' T" if "T \<in> set Ts" for T
    using PNode.IH [OF that] PNode.prems that by auto
  ultimately show ?case using PNode.prems by simp
qed

lemma stored_cong:
  assumes "pageHas t' = pageHas t"
  shows "stored t' \<sigma> T = stored t \<sigma> T"
  by (induction T) (simp add: assms)

lemma stored_keeps: "keeps t t' \<Longrightarrow> stored t' = stored t"
  using pageHas_frame [of t' t] stored_cong [of t' t] by (auto simp: keeps_def fun_eq_iff)

lemma stored_layout [simp]:
  "stored (t\<lparr>t_rootPage := pw\<rparr>) = stored t" "stored (t\<lparr>t_maxSearchDepth := d\<rparr>) = stored t"
  using stored_cong by (auto simp: fun_eq_iff)

text \<open>The pages of a stored tree bound its height.\<close>

lemma stored_height:
  assumes "storeOk t" "stored t (absStore t) T" "distinct (pages T)" "bal h T"
  shows "h < fuelOf t"
proof -
  have "set (pages T) \<subseteq> {1..t_lastPageNum t}"
    using stored_pages [OF assms(2)] by (auto simp: ps_live_def absStore_def)
  then have "card (set (pages T)) \<le> t_lastPageNum t"
    using card_mono [of "{1..t_lastPageNum t}"] by simp
  then show ?thesis
    using height_pages [OF assms(4)] distinct_card [OF assms(3)] by (simp add: fuelOf_def)
qed

section \<open>Page operations on stored trees\<close>

text \<open>Space for \<open>n\<close> more pages below the 4 GiB that the 32-bit offsets reach.\<close>

definition roomy :: "BaseBTree \<Rightarrow> pstore \<Rightarrow> nat \<Rightarrow> bool" where
  "roomy t \<sigma> n \<longleftrightarrow> pageOfs t (ps_last \<sigma> + n + 1) + 4 < 2 ^ 32"

lemma pageOfs_mono: "n \<le> m \<Longrightarrow> pageOfs t n \<le> pageOfs t m"
  by (simp add: pageOfs_def diff_le_mono)

lemma roomy_mono: "roomy t \<sigma> n \<Longrightarrow> m \<le> n \<Longrightarrow> roomy t \<sigma> m"
  using pageOfs_mono [of "ps_last \<sigma> + m + 1" "ps_last \<sigma> + n + 1" t] by (simp add: roomy_def)

lemma roomy_keeps: "keeps t t' \<Longrightarrow> roomy t' = roomy t"
  using frame_eqF(8) [of t' t] by (auto simp: roomy_def keeps_def fun_eq_iff)

lemma read_page:
  assumes "storeOk t" "ps_live (absStore t) n" "length (pw_data pw) = t_nodePageSize t"
  shows "\<exists>t'. PageWrapper_readPage pw n t = Inr (pageImg (absStore t) n, t') \<and> keeps t t' \<and>
    absStore t' = absStore t"
proof -
  obtain t' where "readPage n (pw_data pw) t = Inr (ps_page (absStore t) n, t')" "keeps t t'"
    "absStore t' = absStore t"
    using ps.rd_law [OF assms] by (auto elim!: runsE)
  then show ?thesis by (auto simp: PageWrapper_readPage_def)
qed

lemma read_child:
  assumes "storeOk t" "stored t (absStore t) (PNode p ks Ts)" "pageHas t pw p ks (map pno Ts)"
    "i < length Ts" "length (pw_data next) = t_nodePageSize t"
  shows "\<exists>t'. readPageFromChild next pw i t = Inr (pageImg (absStore t) (pno (Ts ! i)), t') \<and> keeps t t' \<and>
    absStore t' = absStore t"
proof -
  have "i \<le> length ks" using assms(4) pageHasD(8) [OF assms(3)] by (cases Ts) auto
  then have c: "getCursor t pw i = Inr (pno (Ts ! i))"
    using has_getCursor [OF storeOkD(1) [OF assms(1)] assms(3), of i] assms(4) by (cases "Ts = []") auto
  have "stored t (absStore t) (Ts ! i)" using assms(2,4) by simp
  then have l: "ps_live (absStore t) (pno (Ts ! i))"
    using stored_pages [OF _ pno_in_pages] by blast
  then have "pno (Ts ! i) \<noteq> 0" by (auto simp: ps_live_def)
  then show ?thesis
    using read_page [OF assms(1) l assms(5)] by (simp add: readPageFromChild_def c)
qed

lemma write_page:
  assumes "storeOk t" "ps_live (absStore t) (pw_pageNum pw)" "length (pw_data pw) = t_nodePageSize t"
  shows "\<exists>t'. PageWrapper_writePage pw t = Inr t' \<and> keeps t t' \<and>
    absStore t' = ps_write (pw_pageNum pw) (pw_data pw) (absStore t)"
  using ps.wr_law [OF assms] assms(2) by (auto elim!: runsE simp: PageWrapper_writePage_def ps_live_def)

lemma ps_alloc_last: "ps_alloc d \<sigma> = (n, \<sigma>') \<Longrightarrow> ps_last \<sigma>' \<le> Suc (ps_last \<sigma>)"
  by (auto simp: ps_alloc_def ps_write_def split: if_splits)

lemma alloc_any:
  assumes "storeOk t" "ps_ok (absStore t)" "roomy t (absStore t) (Suc n)" "pw_data pw \<noteq> []"
    "kn \<le> pageKeys t"
  shows "\<exists>q pw' t'. allocPageUsingFreePages pw kn leaf t = Inr (q, pw', t') \<and> keeps t t' \<and>
    evolves {} (absStore t) (absStore t') \<and> roomy t (absStore t') n \<and>
    q \<in> ps_avail (absStore t) \<and> q \<notin> ps_avail (absStore t') \<and> ps_live (absStore t') q \<and> q < 2 ^ 32 \<and>
    length (pw_data pw') = t_nodePageSize t \<and> getKeysNum pw' = kn \<and> isLeaf pw' = leaf \<and>
    ps_page (absStore t') q = pw_data pw'"
proof -
  let ?b = "blankPage t kn leaf pw"
  have r: "t_freePagesCounter t = 0 \<longrightarrow> pageOfs t (Suc (Suc (t_lastPageNum t))) + 4 < 2 ^ 32"
    using roomy_mono [OF assms(3), of 1] by (simp add: roomy_def absStore_def)
  obtain q t' where a: "allocPageUsingFreePages pw kn leaf t = Inr (q, ?b, t')"
    "ps_alloc (pw_data ?b) (absStore t) = (q, absStore t')" "storeOk t'" "frame t' = frame t"
    using allocUsing_ok [OF assms(1,2,4) r] by blast
  note f = ps_alloc_fresh [OF assms(2) a(2)]
  have "ps_last (absStore t') \<le> Suc (ps_last (absStore t))"
    by (rule ps_alloc_last [OF a(2)])
  then have "roomy t (absStore t') n"
    using assms(3) pageOfs_mono [of "ps_last (absStore t') + n + 1" "ps_last (absStore t) + Suc n + 1" t]
    by (simp add: roomy_def)
  moreover have "q < 2 ^ 32"
    using f(4) last_less [OF a(3)] by (simp add: ps_live_def absStore_def)
  moreover have g: "geom t" by (rule storeOkD(1) [OF assms(1)])
  have cl: "length (pw_data (clear t pw)) = t_nodePageSize t" using assms(4) by (simp add: clear_def)
  have "kn \<le> MAX_KEYS_NUM" using assms(5) geomD(3) [OF g] by simp
  then have "getKeysNum ?b = kn" "isLeaf ?b = leaf"
    unfolding blankPage_def using setKeyNumLeaf_info [OF two_le_page [OF g cl]] by simp_all
  ultimately show ?thesis
    using a f evolves_alloc [OF assms(2) a(2)] length_blank [OF g assms(4)]
    by (intro exI [of _ q] exI [of _ ?b] exI [of _ t']) (simp add: keeps_def)
qed

lemma alloc_page:
  assumes "storeOk t" "ps_ok (absStore t)" "roomy t (absStore t) (Suc n)" "pw_data pw \<noteq> []"
    "kn \<le> pageKeys t"
  shows "\<exists>q pw' t' K C. allocPage pw kn leaf t = Inr (pw', t') \<and> keeps t t' \<and>
    evolves {} (absStore t) (absStore t') \<and> roomy t (absStore t') n \<and>
    q \<in> ps_avail (absStore t) \<and> q \<notin> ps_avail (absStore t') \<and> ps_live (absStore t') q \<and> q < 2 ^ 32 \<and>
    pview t pw' q kn leaf K C"
proof -
  let ?t = "countDisk t"
  have s: "absStore ?t = absStore t" "storeOk ?t" "frame ?t = frame t"
    using absStore_eqI [of ?t t] assms(1) by simp_all
  note F = frame_eqF [OF s(3)] frame_eqD [OF s(3)]
  have "roomy ?t = roomy t" by (simp add: fun_eq_iff roomy_def F)
  then obtain q pw' t' where a: "allocPageUsingFreePages pw kn leaf ?t = Inr (q, pw', t')" "keeps ?t t'"
    "evolves {} (absStore t) (absStore t')" "roomy t (absStore t') n" "q \<in> ps_avail (absStore t)"
    "q \<notin> ps_avail (absStore t')" "ps_live (absStore t') q" "q < 2 ^ 32"
    "length (pw_data pw') = t_nodePageSize t" "getKeysNum pw' = kn" "isLeaf pw' = leaf"
    using alloc_any [OF s(2), of n pw kn leaf] assms s(1) by (auto simp: F)
  let ?pw = "pw'\<lparr>pw_pageNum := q\<rparr>"
  have "allocPage pw kn leaf t = Inr (?pw, t')"
    using a(1) storeOkD(3) [OF assms(1)] by (simp add: allocPage_def checkForOpenStream_def)
  moreover have "pview t ?pw q kn leaf (kslot t ?pw) (cslot t ?pw)"
    using a(9-11) assms(5) by (simp add: pview_def getKeysNum_def isLeaf_def nodeInfo_def)
  moreover have "keeps t t'" using a(2) s(3) by (simp add: keeps_def)
  ultimately show ?thesis using a(3-8) by blast
qed

end
