(* ===== verification/Split_Child.thy ===== *)
theory Split_Child
  imports Stored_Tree
begin

text \<open>
  Splitting a child on the pages: all \<open>splitChild\<close> methods have the same core, with different
  numbers for how many keys go to the new page and which key goes up.  The core refines
  the replacement of one child by two in the abstract tree.
\<close>

section \<open>Writing several pages\<close>

definition ps_writes :: "PageWrapper list \<Rightarrow> pstore \<Rightarrow> pstore" where
  "ps_writes pws \<sigma> = fold (\<lambda>pw. ps_write (pw_pageNum pw) (pw_data pw)) pws \<sigma>"

lemma ps_writes_fields [simp]:
  "ps_last (ps_writes pws \<sigma>) = ps_last \<sigma>" "ps_free (ps_writes pws \<sigma>) = ps_free \<sigma>"
  "ps_root (ps_writes pws \<sigma>) = ps_root \<sigma>"
  by (induction pws arbitrary: \<sigma>) (simp_all add: ps_writes_def ps_write_def)

lemma ps_writes_ok [simp]:
  "ps_live (ps_writes pws \<sigma>) = ps_live \<sigma>" "ps_avail (ps_writes pws \<sigma>) = ps_avail \<sigma>"
  "ps_ok (ps_writes pws \<sigma>) = ps_ok \<sigma>"
  by (simp_all add: fun_eq_iff ps_live_def ps_avail_def ps_ok_def)

lemma ps_writes_other: "n \<notin> pw_pageNum ` set pws \<Longrightarrow> ps_page (ps_writes pws \<sigma>) n = ps_page \<sigma> n"
  by (induction pws arbitrary: \<sigma>) (auto simp: ps_writes_def ps_write_def)

lemma ps_writes_page:
  "distinct (map pw_pageNum pws) \<Longrightarrow> pw \<in> set pws \<Longrightarrow> pageImg (ps_writes pws \<sigma>) (pw_pageNum pw) = pw"
proof (induction pws arbitrary: \<sigma>)
  case (Cons x xs)
  have c: "ps_writes (x # xs) \<sigma> = ps_writes xs (ps_write (pw_pageNum x) (pw_data x) \<sigma>)" for \<sigma>
    by (simp add: ps_writes_def)
  show ?case
  proof (cases "pw = x")
    case True
    then have "pw_pageNum pw \<notin> pw_pageNum ` set xs" using Cons.prems(1) by simp
    from ps_writes_other [OF this] show ?thesis
      unfolding c True by (simp add: ps_write_def)
  next
    case False
    then show ?thesis using Cons unfolding c by simp
  qed
qed simp

lemma evolves_writes: "ps_ok \<sigma> \<Longrightarrow> pw_pageNum ` set pws \<subseteq> A \<union> ps_avail \<sigma> \<Longrightarrow> evolves A \<sigma> (ps_writes pws \<sigma>)"
  by (auto simp: evolves_def intro!: ps_writes_other)

lemma write_pages:
  assumes "storeOk t" "\<forall>pw \<in> set pws. ps_live (absStore t) (pw_pageNum pw) \<and> length (pw_data pw) = t_nodePageSize t"
  shows "\<exists>t'. writePages pws t = Inr t' \<and> keeps t t' \<and> absStore t' = ps_writes pws (absStore t)"
  using assms
proof (induction pws arbitrary: t)
  case Nil
  then show ?case by (simp add: keeps_def ps_writes_def)
next
  case (Cons x xs)
  obtain t1 where t1: "PageWrapper_writePage x t = Inr t1" "keeps t t1"
    "absStore t1 = ps_write (pw_pageNum x) (pw_data x) (absStore t)"
    using write_page [OF Cons.prems(1), of x] Cons.prems(2) by auto
  have "t_nodePageSize t1 = t_nodePageSize t" by (rule frame_eqD(8) [OF keepsD(2) [OF t1(2)]])
  then obtain t2 where t2: "writePages xs t1 = Inr t2" "keeps t1 t2" "absStore t2 = ps_writes xs (absStore t1)"
    using Cons.IH [OF keepsD(1) [OF t1(2)]] Cons.prems(2) by (auto simp: t1(3) ps_write_def ps_live_def)
  show ?case
    using t1 t2 keeps_trans [OF t1(2) t2(2)] by (simp add: ps_writes_def)
qed

section \<open>The core of the splits\<close>

definition splitWith ::
  "nat \<Rightarrow> nat \<Rightarrow> nat \<Rightarrow> (BaseBTree \<Rightarrow> PageWrapper \<Rightarrow> PageWrapper res) \<Rightarrow> PageWrapper \<Rightarrow> nat \<Rightarrow> PageWrapper \<Rightarrow>
   PageWrapper \<Rightarrow> BaseBTree \<Rightarrow> split_result" where
  "splitWith kn from keep setMid node i left right t =
     bindR (allocPage right kn (isLeaf left) t) (\<lambda>(right, t).
     bindR (bindR (copyKeysAt t right 0 left from kn) (\<lambda>right.
              if isLeaf left then Inr right else copyCursorsAt t right 0 left from (kn + 1))) (\<lambda>right.
     bindR (bindR (openSlot t node i (pw_pageNum right)) (setMid t)) (\<lambda>node.
     bindR (writePages [setKeyNum keep left, right, node] t) (\<lambda>t.
       Inr (node, setKeyNum keep left, right, t)))))"

abbreviation splitCore ::
  "nat \<Rightarrow> nat \<Rightarrow> nat \<Rightarrow> nat \<Rightarrow> PageWrapper \<Rightarrow> nat \<Rightarrow> PageWrapper \<Rightarrow> PageWrapper \<Rightarrow> BaseBTree \<Rightarrow> split_result" where
  "splitCore kn from mid keep node i left \<equiv>
     splitWith kn from keep (\<lambda>t node. copyKeyAt t node i left mid) node i left"

lemma pages_kid: "U \<in> set Ts \<Longrightarrow> set (pages U) \<subseteq> set (pages (PNode p ks Ts))"
  by auto

lemma splitKids_mset: "i < length Ts \<Longrightarrow> mset (splitKids i L R Ts) + {#Ts ! i#} = mset Ts + {#L#} + {#R#}"
  by (simp add: splitKids_insertAt mset_insertAt mset_update)

text \<open>The pages of the split tree.\<close>

lemma splitKids_pages:
  assumes "i < length Ts" "mset (pages L) + mset (pages R) = add_mset q' (mset (pages (Ts ! i)))"
  shows "mset (pages (PNode p ks' (splitKids i L R Ts))) = add_mset q' (mset (pages (PNode p ks Ts)))"
proof -
  have c: "mset (concat (map pages Us)) = \<Sum>\<^sub># (image_mset (mset \<circ> pages) (mset Us))" for Us
    by (induction Us) auto
  have "image_mset (mset \<circ> pages) (mset (splitKids i L R Ts)) + {#mset (pages (Ts ! i))#} =
      image_mset (mset \<circ> pages) (mset Ts) + {#mset (pages L)#} + {#mset (pages R)#}"
    using arg_cong [OF splitKids_mset [OF assms(1), of L R], of "image_mset (mset \<circ> pages)"] by simp
  from arg_cong [OF this, of sum_mset]
  have "mset (concat (map pages (splitKids i L R Ts))) + mset (pages (Ts ! i)) =
      mset (concat (map pages Ts)) + (mset (pages L) + mset (pages R))"
    unfolding c by (simp add: ac_simps)
  then show ?thesis using assms(2) by (simp add: add.commute)
qed

lemma stored_kids_frame:
  assumes "evolves A \<sigma> \<sigma>'" "\<forall>T \<in> set Ts. stored t \<sigma> T" "set (concat (map pages Ts)) \<inter> A = {}"
  shows "\<forall>T \<in> set Ts. stored t \<sigma>' T"
  using assms stored_frame [OF assms(1)] by fastforce

text \<open>The pages before they are written.\<close>

lemma splitWith_pages:
  assumes ok: "storeOk t" "ps_ok (absStore t)" "roomy t (absStore t) (Suc n)" "pw_data right \<noteq> []"
    and left: "pageHas t left q us (map pno Vs)"
    and num: "from + kn = length us" "keep \<le> length us"
    and f: "\<And>t1 q'. keeps t t1 \<Longrightarrow> q' < 2 ^ 32 \<Longrightarrow> runs (bindR (openSlot t1 node i q') (setMid t1))
      (\<lambda>pw. pageHas t pw p (insertAt i m ks) (insertAt (Suc i) q' (map pno Ts)))"
  shows "\<exists>q' right' node' t1. splitWith kn from keep setMid node i left right t =
      bindR (writePages [setKeyNum keep left, right', node'] t1) (\<lambda>t. Inr (node', setKeyNum keep left, right', t)) \<and>
    keeps t t1 \<and> evolves {} (absStore t) (absStore t1) \<and> roomy t (absStore t1) n \<and>
    q' \<in> ps_avail (absStore t) \<and> q' \<notin> ps_avail (absStore t1) \<and> ps_live (absStore t1) q' \<and>
    pageHas t right' q' (drop from us) (map pno (drop from Vs)) \<and>
    pageHas t node' p (insertAt i (m) ks) (insertAt (Suc i) q' (map pno Ts)) \<and>
    pageHas t (setKeyNum keep left) q (take keep us) (map pno (take (Suc keep) Vs))"
proof -
  note g = storeOkD(1) [OF ok(1)]
  have kn: "kn \<le> pageKeys t" using num(1) pageHasD(6) [OF left] by simp
  obtain q' r1 t1 K C where a: "allocPage right kn (isLeaf left) t = Inr (r1, t1)" "keeps t t1"
    "evolves {} (absStore t) (absStore t1)" "roomy t (absStore t1) n" "q' \<in> ps_avail (absStore t)"
    "q' \<notin> ps_avail (absStore t1)" "ps_live (absStore t1) q'" "q' < 2 ^ 32"
    "pview t r1 q' kn (isLeaf left) K C"
    using alloc_page [OF ok kn, of "isLeaf left"] by blast
  have pv: "pview t1 = pview t" "pageHas t1 = pageHas t"
    using pview_frame pageHas_frame keepsD(2) [OF a(2)] by blast+
  have lf: "isLeaf left = (map pno Vs = [])" by (rule pageHasD(4) [OF left])
  have v1: "pview t1 r1 q' kn (map pno Vs = []) K C" using a(9) unfolding lf pv .
  note g1 = storeOkD(1) [OF keepsD(1) [OF a(2)]]
  have left1: "pageHas t1 left q us (map pno Vs)" using left unfolding pv .
  have len: "from + kn \<le> length us" using num(1) by simp
  obtain r2 where r2: "bindR (copyKeysAt t1 r1 0 left from kn) (\<lambda>right.
      if isLeaf left then Inr right else copyCursorsAt t1 right 0 left from (kn + 1)) = Inr r2"
    "pageHas t1 r2 q' (take kn (drop from us)) (take (Suc kn) (drop from (map pno Vs)))"
    using has_copyTail [OF g1 v1 left1 len] by (rule runsE)
  have lV: "Vs \<noteq> [] \<Longrightarrow> length Vs = Suc (length us)" using pageHasD(8) [OF left] by simp
  have tail: "take kn (drop from us) = drop from us" "take (Suc kn) (drop from (map pno Vs)) = map pno (drop from Vs)"
    using num(1) lV by (cases "Vs = []"; simp add: drop_map)+
  have right2: "pageHas t r2 q' (drop from us) (map pno (drop from Vs))" using r2(2) unfolding tail pv .
  obtain n2 where n2: "bindR (openSlot t1 node i q') (setMid t1) = Inr n2"
    "pageHas t n2 p (insertAt i m ks) (insertAt (Suc i) q' (map pno Ts))"
    using f [OF a(2,8)] by (rule runsE)
  have "pw_pageNum r2 = q'" by (rule pageHasD(1) [OF right2])
  then have "splitWith kn from keep setMid node i left right t =
      bindR (writePages [setKeyNum keep left, r2, n2] t1) (\<lambda>t. Inr (n2, setKeyNum keep left, r2, t))"
    by (simp only: splitWith_def a(1) r2(1) n2(1) bindR_simps split)
  moreover have "pageHas t (setKeyNum keep left) q (take keep us) (map pno (take (Suc keep) Vs))"
    using has_setKeyNum [OF g left num(2)] by (simp add: take_map)
  ultimately show ?thesis
    using a(2-7) right2 n2(2) unfolding pv by blast
qed

text \<open>The tree they form once they are written.\<close>

lemma split_stored:
  assumes ev: "evolves {p, q} \<sigma> \<sigma>'" and kids: "\<forall>T \<in> set Ts. stored t \<sigma> T"
    and d: "distinct (pages (PNode p ks Ts))" and i: "i < length Ts" "Ts ! i = PNode q us Vs"
    and V: "set VL \<union> set VR \<subseteq> set Vs"
    and img: "pageHas t (pageImg \<sigma>' p) p ks' (insertAt (Suc i) q' (map pno Ts))"
      "pageHas t (pageImg \<sigma>' q) q usL (map pno VL)" "pageHas t (pageImg \<sigma>' q') q' usR (map pno VR)"
    and av: "\<forall>n \<in> {p, q, q'}. ps_live \<sigma>' n \<and> n \<notin> ps_avail \<sigma>'"
  shows "stored t \<sigma>' (PNode p ks' (splitKids i (PNode q usL VL) (PNode q' usR VR) Ts))"
proof -
  have T: "Ts = take i Ts @ PNode q us Vs # drop (Suc i) Ts" using id_take_nth_drop [OF i(1)] i(2) by simp
  have dk: "set (pages W) \<inter> {p, q} = {}"
    if W: "W \<in> set (take i Ts) \<or> W \<in> set (drop (Suc i) Ts) \<or> W \<in> set Vs" for W
  proof -
    have "distinct (pages (PNode p ks (take i Ts @ PNode q us Vs # drop (Suc i) Ts)))"
      using d T by simp
    then show ?thesis using W by auto
  qed
  have "stored t \<sigma> W" if "W \<in> set Vs" for W
  proof -
    have "stored t \<sigma> (PNode q us Vs)" using kids i nth_mem by metis
    then show ?thesis using that by simp
  qed
  then have "\<forall>W \<in> set Vs. stored t \<sigma>' W" using stored_frame [OF ev] dk by blast
  then have "stored t \<sigma>' (PNode q usL VL)" "stored t \<sigma>' (PNode q' usR VR)"
    using img(2,3) av V by auto
  moreover have "\<forall>W \<in> set (take i Ts) \<union> set (drop (Suc i) Ts). stored t \<sigma>' W"
    using stored_frame [OF ev] dk kids by (blast dest: in_set_takeD in_set_dropD)
  ultimately have "\<forall>W \<in> set (splitKids i (PNode q usL VL) (PNode q' usR VR) Ts). stored t \<sigma>' W"
    by (auto simp: splitKids_def)
  moreover have "(map pno Ts)[i := q] = map pno Ts"
    by (rule list_update_same_conv [THEN iffD2]) (simp_all add: i)
  then have "map pno (splitKids i (PNode q usL VL) (PNode q' usR VR) Ts) = insertAt (Suc i) q' (map pno Ts)"
    using i by (simp add: splitKids_insertAt map_insertAt map_update)
  ultimately show ?thesis using img(1) av by simp
qed

lemma splitWith_ok:
  assumes ok: "storeOk t" "ps_ok (absStore t)" "roomy t (absStore t) (Suc n)" "pw_data right \<noteq> []"
    and kids: "\<forall>T \<in> set Ts. stored t (absStore t) T" and d: "distinct (pages (PNode p ks Ts))"
    and p: "ps_live (absStore t) p" "p \<notin> ps_avail (absStore t)"
    and i: "i < length Ts" "Ts ! i = PNode q us Vs"
    and num: "from + kn = length us" "keep \<le> length us"
    and f: "\<And>t1 q'. keeps t t1 \<Longrightarrow> q' < 2 ^ 32 \<Longrightarrow> runs (bindR (openSlot t1 node i q') (setMid t1))
      (\<lambda>pw. pageHas t pw p (insertAt i m ks) (insertAt (Suc i) q' (map pno Ts)))"
  shows "\<exists>q' t'. splitWith kn from keep setMid node i (pageImg (absStore t) q) right t =
      Inr (pageImg (absStore t') p, pageImg (absStore t') q, pageImg (absStore t') q', t') \<and>
    keeps t t' \<and> evolves {p, q} (absStore t) (absStore t') \<and> roomy t (absStore t') n \<and>
    q' \<in> ps_avail (absStore t) \<and>
    stored t (absStore t') (PNode p (insertAt i (m) ks)
      (splitKids i (PNode q (take keep us) (take (Suc keep) Vs)) (PNode q' (drop from us) (drop from Vs)) Ts))"
proof -
  let ?\<sigma> = "absStore t" and ?l2 = "setKeyNum keep (pageImg (absStore t) q)"
  have U: "stored t ?\<sigma> (PNode q us Vs)" using kids i nth_mem by metis
  then have left: "pageHas t (pageImg ?\<sigma> q) q us (map pno Vs)" and q: "ps_live ?\<sigma> q" "q \<notin> ps_avail ?\<sigma>"
    by simp_all
  obtain q' r2 n2 t1 where c: "splitWith kn from keep setMid node i (pageImg ?\<sigma> q) right t =
      bindR (writePages [?l2, r2, n2] t1) (\<lambda>t. Inr (n2, ?l2, r2, t))"
    and t1: "keeps t t1" "evolves {} ?\<sigma> (absStore t1)" "roomy t (absStore t1) n"
    "q' \<in> ps_avail ?\<sigma>" "q' \<notin> ps_avail (absStore t1)" "ps_live (absStore t1) q'"
    and h: "pageHas t r2 q' (drop from us) (map pno (drop from Vs))"
    "pageHas t n2 p (insertAt i (m) ks) (insertAt (Suc i) q' (map pno Ts))"
    "pageHas t ?l2 q (take keep us) (map pno (take (Suc keep) Vs))"
    using splitWith_pages [OF ok left num f] by blast
  let ?ps = "[?l2, r2, n2]"
  have nums: "pw_pageNum ?l2 = q" "pw_pageNum r2 = q'" "pw_pageNum n2 = p"
    using pageHasD(1) [OF h(3)] pageHasD(1) [OF h(1)] pageHasD(1) [OF h(2)] by simp_all
  have ne: "p \<noteq> q" "p \<noteq> q'" "q \<noteq> q'"
    using d i nth_mem [OF i(1)] p q t1(4) by (auto simp: i(2))
  have "t_nodePageSize t1 = t_nodePageSize t" by (rule frame_eqD(8) [OF keepsD(2) [OF t1(1)]])
  then have "\<forall>pw \<in> set ?ps. ps_live (absStore t1) (pw_pageNum pw) \<and> length (pw_data pw) = t_nodePageSize t1"
    using nums evolves_live [OF t1(2)] p q t1(6) pageHasD(5) [OF h(1)] pageHasD(5) [OF h(2)]
      pageHasD(5) [OF h(3)] by simp
  from write_pages [OF keepsD(1) [OF t1(1)] this]
  obtain t2 where t2: "writePages ?ps t1 = Inr t2" "keeps t1 t2" "absStore t2 = ps_writes ?ps (absStore t1)"
    by blast
  have dn: "distinct (map pw_pageNum ?ps)" using nums ne by simp
  have img: "n2 = pageImg (absStore t2) p" "?l2 = pageImg (absStore t2) q" "r2 = pageImg (absStore t2) q'"
    using ps_writes_page [OF dn, of n2 "absStore t1"] ps_writes_page [OF dn, of ?l2 "absStore t1"]
      ps_writes_page [OF dn, of r2 "absStore t1"] nums t2(3) by simp_all
  have ps1: "ps_ok (absStore t1)" using t1(2) by (simp add: evolves_def)
  have "evolves {p, q, q'} (absStore t1) (absStore t2)"
    unfolding t2(3) using nums by (intro evolves_writes [OF ps1]) auto
  then have ev: "evolves {p, q} ?\<sigma> (absStore t2)"
    using evolves_trans [OF evolves_mono [OF t1(2), of "{p, q}"]] t1(4) by blast
  have av: "\<forall>n \<in> {p, q, q'}. ps_live (absStore t2) n \<and> n \<notin> ps_avail (absStore t2)"
    using evolves_live [OF t1(2)] p q t1(5,6) t1(2) by (auto simp: t2(3) evolves_def)
  have "stored t (absStore t2) (PNode p (insertAt i (m) ks)
      (splitKids i (PNode q (take keep us) (take (Suc keep) Vs)) (PNode q' (drop from us) (drop from Vs)) Ts))"
    using h img by (intro split_stored [OF ev kids d i _ _ _ _ av]) (auto dest: in_set_takeD in_set_dropD)
  moreover have "roomy t (absStore t2) n" using t1(3) by (simp add: t2(3) roomy_def)
  moreover have "splitWith kn from keep setMid node i (pageImg ?\<sigma> q) right t =
      Inr (pageImg (absStore t2) p, pageImg (absStore t2) q, pageImg (absStore t2) q', t2)"
    using c t2(1) img by simp
  ultimately show ?thesis
    using ev t1(4) keeps_trans [OF t1(1) t2(2)] by blast
qed

lemma splitCore_ok:
  assumes ok: "storeOk t" "ps_ok (absStore t)" "roomy t (absStore t) (Suc n)" "pw_data right \<noteq> []"
    and kids: "\<forall>T \<in> set Ts. stored t (absStore t) T" and d: "distinct (pages (PNode p ks Ts))"
    and p: "ps_live (absStore t) p" "p \<notin> ps_avail (absStore t)"
    and node: "pageHas t node p ks (map pno Ts)" "length ks < pageKeys t"
    and i: "i < length Ts" "Ts ! i = PNode q us Vs"
    and num: "from + kn = length us" "keep \<le> length us" "mid < length us"
  shows "\<exists>q' t'. splitCore kn from mid keep node i (pageImg (absStore t) q) right t =
      Inr (pageImg (absStore t') p, pageImg (absStore t') q, pageImg (absStore t') q', t') \<and>
    keeps t t' \<and> evolves {p, q} (absStore t) (absStore t') \<and> roomy t (absStore t') n \<and>
    q' \<in> ps_avail (absStore t) \<and>
    stored t (absStore t') (PNode p (insertAt i (us ! mid) ks)
      (splitKids i (PNode q (take keep us) (take (Suc keep) Vs)) (PNode q' (drop from us) (drop from Vs)) Ts))"
proof (rule splitWith_ok [OF ok kids d p i num(1,2)])
  fix t1 q' assume t1: "keeps t t1" and q': "q' < (2 :: nat) ^ 32"
  have "stored t (absStore t) (PNode q us Vs)" using kids i nth_mem by metis
  then have "pageHas t (pageImg (absStore t) q) q us (map pno Vs)" by simp
  then have h: "pageHas t1 (pageImg (absStore t) q) q us (map pno Vs)" "pageHas t1 node p ks (map pno Ts)"
    using node(1) by (simp_all only: pageHas_frame [OF keepsD(2) [OF t1]])
  have nz: "map pno Ts \<noteq> []" and ik: "i \<le> length ks" using i pageHasD(8) [OF node(1)] by (cases Ts; auto)+
  have "length ks < pageKeys t1" using node(2) frame_eqF(1) [OF keepsD(2) [OF t1]] by simp
  from has_newSlot [OF storeOkD(1) [OF keepsD(1) [OF t1]] h(2) nz ik this q' h(1) num(3)]
  show "runs (bindR (openSlot t1 node i q') (\<lambda>node. copyKeyAt t1 node i (pageImg (absStore t) q) mid))
      (\<lambda>pw. pageHas t pw p (insertAt i (us ! mid) ks) (insertAt (Suc i) q' (map pno Ts)))"
    by (simp only: pageHas_frame [OF keepsD(2) [OF t1]])
qed

text \<open>Without a key set, the slot keeps what it held.\<close>

lemma has_openSlot_key:
  assumes "geom t" "pageHas t node p ks cs" "cs \<noteq> []" "i \<le> length ks" "length ks < pageKeys t" "q < 2 ^ 32"
  shows "runs (bindR (openSlot t node i q) Inr) (\<lambda>pw. pageHas t pw p (insertAt i (kslot t node i) ks) (insertAt (Suc i) q cs))"
proof -
  note h = pageHasD [OF assms(2)]
  obtain pw where pw: "openSlot t node i q = Inr pw" "pview t pw p (Suc (length ks)) False
    (\<lambda>j. if i < j \<and> j \<le> length ks then kslot t node (j - 1) else kslot t node j)
    ((\<lambda>j. if i + 1 < j \<and> j \<le> Suc (length ks) then cslot t node (j - 1) else cslot t node j)(i + 1 := q))"
    using has_openSlot [OF assms] by (rule runsE)
  have "pageHas t pw p (insertAt i (kslot t node i) ks) (insertAt (Suc i) q cs)"
    by (rule view_pageHas [OF pw(2)]) (use h(7-9) assms(3,4) in \<open>auto simp: nth_insertAt\<close>)
  then show ?thesis using pw(1) by simp
qed

end
