(* ===== verification/Insert_Proofs.thy ===== *)
theory Insert_Proofs
  imports Split_Child
begin

text \<open>
  Inserting into a B-tree and into a B+-tree, from the pages up: \<open>insertNonFull\<close> and
  \<open>insert\<close> return, keep the tree invariant (balance, order of the keys, occupancy, router
  keys), add exactly the inserted key and change no page outside the tree.
\<close>

section \<open>Occupancy of the pages\<close>

definition leafyOf :: "BaseBTree \<Rightarrow> bool" where
  "leafyOf t \<longleftrightarrow> t_treeType t = B_PLUS_TREE \<or> t_treeType t = B_STAR_PLUS_TREE"

definition starTree :: "BaseBTree \<Rightarrow> bool" where
  "starTree t \<longleftrightarrow> t_treeType t = B_STAR_TREE \<or> t_treeType t = B_STAR_PLUS_TREE"

text \<open>The bounds of the pages below the root, and the most keys of page \<open>p\<close>: the root of the star
  variants has a bound of its own.\<close>

definition nodeMax :: "BaseBTree \<Rightarrow> bool \<Rightarrow> nat" where
  "nodeMax t leaf = (if t_treeType t = B_PLUS_TREE \<and> leaf then t_maxLeafKeys t else t_maxKeys t)"

definition nodeMin :: "BaseBTree \<Rightarrow> bool \<Rightarrow> nat" where
  "nodeMin t leaf = (if t_treeType t = B_PLUS_TREE \<and> leaf then t_minLeafKeys t else t_minKeys t)"

definition pageMax :: "BaseBTree \<Rightarrow> nat \<Rightarrow> bool \<Rightarrow> nat" where
  "pageMax t p leaf = (if starTree t \<and> p = t_rootPageNum t then t_maxRootKeys t else nodeMax t leaf)"

text \<open>What \<open>setOrder\<close> establishes.\<close>

definition starOrder :: "BaseBTree \<Rightarrow> bool" where
  "starOrder t \<longleftrightarrow>
     4 \<le> t_maxKeys t \<and> t_minKeys t = (2 * t_maxKeys t - 2) div 3 \<and> t_maxRootKeys t = 2 * t_minKeys t + 1 \<and>
     t_leftSplitProductKeys t = (2 * t_maxKeys t - 1) div 3 \<and>
     t_middleSplitProductKeys t = 2 * t_maxKeys t div 3 \<and>
     t_rightSplitProductKeys t = (2 * t_maxKeys t + 1) div 3 \<and>
     t_shortRightSplitProductKeys t = t_rightSplitProductKeys t - 1 \<and>
     (t_treeType t = B_STAR_PLUS_TREE \<longrightarrow> t_middleLeafSplitProductKeys t = t_middleSplitProductKeys t + 1)"

definition orderOk :: "BaseBTree \<Rightarrow> bool" where
  "orderOk t \<longleftrightarrow>
     (if starTree t then starOrder t
      else 0 < t_minKeys t \<and> t_maxKeys t = 2 * t_minKeys t + 1 \<and>
        (t_treeType t = B_PLUS_TREE \<longrightarrow> t_minLeafKeys t = t_minKeys t + 1 \<and> t_maxLeafKeys t = 2 * t_minLeafKeys t))"

lemma setOrder_orderOk:
  assumes "setOrder order recSize t = Inr t'"
  shows "orderOk t'"
proof (cases "starTree t")
  case True
  note so = setOrder_frame(1) [OF assms] setOrder_keys(3) [OF assms]
  have "t_minKeys t' = (2 * order - 2) div 3" "t_maxKeys t' = order" "t_maxRootKeys t' = 2 * t_minKeys t' + 1"
    "t_leftSplitProductKeys t' = (2 * order - 1) div 3" "t_middleSplitProductKeys t' = 2 * order div 3"
    "t_rightSplitProductKeys t' = (2 * order + 1) div 3"
    "t_shortRightSplitProductKeys t' = t_rightSplitProductKeys t' - 1"
    "t_treeType t' = B_STAR_PLUS_TREE \<longrightarrow> t_middleLeafSplitProductKeys t' = t_middleSplitProductKeys t' + 1"
    using assms True
    by (auto simp: starTree_def setOrder_def BaseBStarTree_setOrder_def BaseBStarPlusTree_setOrder_def Let_def
        reallocWorkPages_def setGeometry_def split: if_splits)
  then show ?thesis using so True by (auto simp: orderOk_def starOrder_def starTree_def minOrder_def)
next
  case False
  note so = setOrder_frame(1) [OF assms] setOrder_keys(3) [OF assms]
  have "t_minKeys t' = order - 1" "t_maxKeys t' = 2 * order - 1"
    "t_treeType t' = B_PLUS_TREE \<longrightarrow> t_minLeafKeys t' = t_minKeys t' + 1 \<and> t_maxLeafKeys t' = t_maxKeys t' + 1"
    using assms False
    by (cases "t_treeType t"; auto simp: starTree_def setOrder_def BaseBTree_setOrder_def BaseBPlusTree_setOrder_def Let_def
        reallocWorkPages_def setGeometry_def split: if_splits)+
  then show ?thesis using so False by (auto simp: orderOk_def starTree_def minOrder_def split: if_splits)
qed

lemma starOrderD:
  assumes "starOrder t"
  shows "0 < t_minKeys t" "t_minKeys t < t_maxKeys t" "1 < t_maxRootKeys t" "1 < t_maxKeys t"
  using assms by (simp_all add: starOrder_def) linarith+

lemma isFull_pageMax: "isFull t pw \<longleftrightarrow> getKeysNum pw = pageMax t (pw_pageNum pw) (isLeaf pw)"
  by (cases "t_treeType t")
    (auto simp: pageMax_def starTree_def nodeMax_def isFull_def BaseBTree_isFull_def BaseBPlusTree_isFull_def
      BaseBStarTree_isFull_def isRoot_def)

lemma orderOkD:
  assumes "orderOk t"
  shows "0 < nodeMin t b" "nodeMin t b < nodeMax t b" "1 < nodeMax t b" "1 < pageMax t p b"
    "isFull t pw \<longleftrightarrow> getKeysNum pw = pageMax t (pw_pageNum pw) (isLeaf pw)"
    "nodeMax t False = t_maxKeys t"
proof -
  show "0 < nodeMin t b" "nodeMin t b < nodeMax t b" "1 < nodeMax t b"
    using assms starOrderD [of t] by (auto simp: orderOk_def nodeMin_def nodeMax_def starTree_def split: if_splits)
  then show "1 < pageMax t p b"
    using assms starOrderD [of t] by (simp add: pageMax_def orderOk_def)
qed (simp_all add: isFull_pageMax nodeMax_def)

lemma pageMax_room:
  assumes "orderOk t" "geom t"
  shows "nodeMax t b \<le> pageKeys t" "pageMax t p b \<le> pageKeys t"
proof -
  show n: "nodeMax t b \<le> pageKeys t"
    using geomD(2) [OF assms(2)] by (simp add: nodeMax_def pageKeys_def)
  have "starTree t \<Longrightarrow> t_maxRootKeys t \<le> pageKeys t" by (auto simp: starTree_def pageKeys_def)
  then show "pageMax t p b \<le> pageKeys t" using n by (simp add: pageMax_def)
qed

lemma frame_eqS:
  assumes "frame t' = frame t"
  shows "t_leftSplitProductKeys t' = t_leftSplitProductKeys t" "t_middleSplitProductKeys t' = t_middleSplitProductKeys t"
    "t_rightSplitProductKeys t' = t_rightSplitProductKeys t"
    "t_shortRightSplitProductKeys t' = t_shortRightSplitProductKeys t"
    "t_middleLeafSplitProductKeys t' = t_middleLeafSplitProductKeys t"
  using assms by (cases t, cases t'; simp add: frame_def)+

lemma order_frame:
  assumes "frame t' = frame t"
  shows "leafyOf t' = leafyOf t" "nodeMax t' = nodeMax t" "nodeMin t' = nodeMin t" "orderOk t' = orderOk t"
    "starTree t' = starTree t" "starOrder t' = starOrder t"
  using frame_eqD [OF assms] frame_eqS [OF assms]
  by (simp_all add: leafyOf_def nodeMax_def nodeMin_def orderOk_def starOrder_def starTree_def fun_eq_iff)

lemma pageMax_frame:
  assumes "frame t' = frame t" "t_rootPageNum t' = t_rootPageNum t"
  shows "pageMax t' = pageMax t"
  using order_frame [OF assms(1)] frame_eqD [OF assms(1)] assms(2) by (simp add: pageMax_def fun_eq_iff)

lemma pageMax_node: "\<not> starTree t \<or> p \<noteq> t_rootPageNum t \<Longrightarrow> pageMax t p b = nodeMax t b"
  by (auto simp: pageMax_def)

text \<open>The number of the root page is not handed out as a new page, and is not below \<open>T\<close>.\<close>

definition rootAside :: "BaseBTree \<Rightarrow> byte list ptree \<Rightarrow> bool" where
  "rootAside t T \<longleftrightarrow>
     t_rootPageNum t \<notin> ps_avail (absStore t) \<and> (\<forall>U \<in> set (pkids T). t_rootPageNum t \<notin> set (pages U))"

lemma rootAside_kid: "rootAside t T \<Longrightarrow> U \<in> set (pkids T) \<Longrightarrow> rootAside t U \<and> pno U \<noteq> t_rootPageNum t"
  by (cases U) (auto simp: rootAside_def)

lemma evolves_root: "evolves A (absStore t) (absStore t') \<Longrightarrow> t_rootPageNum t' = t_rootPageNum t"
  by (simp add: evolves_def absStore_def)

lemma rootAside_step:
  assumes r: "rootAside t T" and ev: "evolves A (absStore t) (absStore t')"
    and T: "pno T' = pno T" "distinct (pages T')" "set (pages T') \<subseteq> set (pages T) \<union> ps_avail (absStore t)"
  shows "rootAside t' T'"
proof -
  have "ps_avail (absStore t') \<subseteq> ps_avail (absStore t)" using ev by (simp add: evolves_def)
  moreover have "t_rootPageNum t \<notin> set (pages U)" if U: "U \<in> set (pkids T')" for U
  proof
    assume "t_rootPageNum t \<in> set (pages U)"
    then have "t_rootPageNum t \<noteq> pno T'" "t_rootPageNum t \<in> set (pages T')"
      using U T(2) by (cases T'; auto)+
    then show False using r T(1,3) by (cases T) (auto simp: rootAside_def)
  qed
  ultimately show ?thesis using r evolves_root [OF ev] by (auto simp: rootAside_def)
qed

section \<open>The splits in terms of their core\<close>

lemma BaseBTree_split_core:
  "\<not> isFull t node \<Longrightarrow> i \<le> getKeysNum node \<Longrightarrow>
   BaseBTree_splitChild node i left right t =
     bindR (ensureChild left node i t) (\<lambda>(left, t).
       splitCore (t_minKeys t) (t_minKeys t + 1) (t_minKeys t) (t_minKeys t) node i left right t)"
  unfolding BaseBTree_splitChild_def splitWith_def Let_def by (simp add: bindR_assoc)

lemma BaseBPlusTree_split_core:
  "\<not> isFull t node \<Longrightarrow> i \<le> getKeysNum node \<Longrightarrow>
   BaseBPlusTree_splitChild node i left right t =
     bindR (ensureChild left node i t) (\<lambda>(left, t).
       if \<not> isLeaf left then BaseBTree_splitChild node i left right t
       else splitCore (t_minLeafKeys t) (t_minLeafKeys t) (t_minLeafKeys t - 1) (t_minLeafKeys t) node i left right t)"
  unfolding BaseBPlusTree_splitChild_def splitWith_def Let_def
  by (cases "ensureChild left node i t"; cases "isLeaf (fst (projr (ensureChild left node i t)))")
    (auto simp: bindR_assoc split: prod.splits)

text \<open>The child is the one the file has, whether it was read before or not.\<close>

lemma ensure_child:
  assumes "storeOk t" "\<forall>T \<in> set Ts. stored t (absStore t) T" "pageHas t node p ks (map pno Ts)" "i < length Ts"
    and "left = pageImg (absStore t) (pno (Ts ! i)) \<or>
      pw_pageNum left = 0 \<and> length (pw_data left) = t_nodePageSize t"
  shows "\<exists>t'. ensureChild left node i t = Inr (pageImg (absStore t) (pno (Ts ! i)), t') \<and> keeps t t' \<and>
    absStore t' = absStore t"
proof -
  have l: "ps_live (absStore t) (pno (Ts ! i))"
    using stored_pages [OF _ pno_in_pages, of t "absStore t" "Ts ! i"] assms(2,4) by simp
  show ?thesis
  proof (cases "pw_pageNum left = 0")
    case True
    then have len: "length (pw_data left) = t_nodePageSize t" using assms(5) l by (auto simp: ps_live_def)
    have "i \<le> length ks" using assms(4) pageHasD(8) [OF assms(3)] by (cases Ts) auto
    then have "getCursor t node i = Inr (pno (Ts ! i))"
      using has_getCursor [OF storeOkD(1) [OF assms(1)] assms(3), of i] assms(4) by (cases "Ts = []") auto
    then show ?thesis
      using read_page [OF assms(1) l len] True l by (simp add: ensureChild_def readPageFromChild_def ps_live_def)
  next
    case False
    then show ?thesis using assms(1,5) by (auto simp: ensureChild_def keeps_def)
  qed
qed

text \<open>Replacing the tree below one child.\<close>

lemma update_child_pages:
  assumes d: "distinct (pages (PNode p ks Ts))" and i: "i < length Ts"
    and U: "distinct (pages U)" "set (pages U) \<subseteq> set (pages (Ts ! i)) \<union> A"
    and A: "set (pages (PNode p ks Ts)) \<inter> A = {}"
  shows "distinct (pages (PNode p ks' (Ts[i := U])))"
    "set (pages (PNode p ks' (Ts[i := U]))) \<subseteq> set (pages (PNode p ks Ts)) \<union> A"
    "\<forall>W \<in> set (take i Ts) \<union> set (drop (Suc i) Ts). set (pages W) \<inter> set (pages (Ts ! i)) = {}"
proof -
  define X Y V where "X = take i Ts" and "Y = drop (Suc i) Ts" and "V = Ts ! i"
  have T: "Ts = X @ V # Y" "Ts[i := U] = X @ U # Y"
    using i by (simp_all add: X_def Y_def V_def id_take_nth_drop upd_conv_take_nth_drop)
  let ?X = "set (concat (map pages X))" and ?Y = "set (concat (map pages Y))"
  have D: "distinct (concat (map pages X))" "distinct (concat (map pages Y))" "?X \<inter> ?Y = {}" "p \<notin> ?X \<union> ?Y"
    "set (pages V) \<inter> (?X \<union> ?Y) = {}" "p \<notin> set (pages V)"
    using d unfolding T(1) by auto
  have "set (pages (PNode p ks Ts)) = insert p (?X \<union> set (pages V) \<union> ?Y)" unfolding T(1) by auto
  then have "set (pages U) \<inter> insert p (?X \<union> ?Y) = {}"
    using U(2) A D(5,6) unfolding V_def [symmetric] by blast
  then show "distinct (pages (PNode p ks' (Ts[i := U])))"
    using D(1-4) U(1) unfolding T(2) by auto
  show "set (pages (PNode p ks' (Ts[i := U]))) \<subseteq> set (pages (PNode p ks Ts)) \<union> A"
    using U(2) unfolding T(2) V_def [symmetric] unfolding T(1) by auto
  show "\<forall>W \<in> set (take i Ts) \<union> set (drop (Suc i) Ts). set (pages W) \<inter> set (pages (Ts ! i)) = {}"
    using d unfolding X_def [symmetric] Y_def [symmetric] V_def [symmetric] unfolding T(1) by auto
qed

lemma update_child_stored:
  assumes T: "stored t \<sigma> (PNode p ks Ts)" and d: "distinct (pages (PNode p ks Ts))" and i: "i < length Ts"
    and ev: "evolves (set (pages (Ts ! i))) \<sigma> \<sigma>'"
    and U: "stored t \<sigma>' U" "pno U = pno (Ts ! i)" "distinct (pages U)"
      "set (pages U) \<subseteq> set (pages (Ts ! i)) \<union> ps_avail \<sigma>"
  shows "stored t \<sigma>' (PNode p ks (Ts[i := U]))" "distinct (pages (PNode p ks (Ts[i := U])))"
    "set (pages (PNode p ks (Ts[i := U]))) \<subseteq> set (pages (PNode p ks Ts)) \<union> ps_avail \<sigma>"
    "ps_page \<sigma>' p = ps_page \<sigma> p"
proof -
  have A: "set (pages (PNode p ks Ts)) \<inter> ps_avail \<sigma> = {}" using stored_pages [OF T] by auto
  note u = update_child_pages [OF d i U(3,4) A]
  show "distinct (pages (PNode p ks (Ts[i := U])))"
    "set (pages (PNode p ks (Ts[i := U]))) \<subseteq> set (pages (PNode p ks Ts)) \<union> ps_avail \<sigma>"
    by (rule u)+
  have p: "p \<notin> set (pages (Ts ! i))" "p \<notin> ps_avail \<sigma>" using d nth_mem [OF i] A by auto
  then show pg: "ps_page \<sigma>' p = ps_page \<sigma> p" using ev by (auto simp: evolves_def)
  have "\<forall>W \<in> set (take i Ts) \<union> set (drop (Suc i) Ts). stored t \<sigma>' W"
  proof
    fix W assume W: "W \<in> set (take i Ts) \<union> set (drop (Suc i) Ts)"
    then have "W \<in> set Ts" by (auto dest: in_set_takeD in_set_dropD)
    then show "stored t \<sigma>' W" using T stored_frame [OF ev, of t W] u(3) W by simp
  qed
  then have "\<forall>W \<in> set (Ts[i := U]). stored t \<sigma>' W"
    using i U(1) by (auto simp: upd_conv_take_nth_drop)
  moreover have "map pno (Ts[i := U]) = map pno Ts"
    using i U(2) by (simp add: map_update list_update_same_conv)
  moreover have "ps_live \<sigma>' p" "p \<notin> ps_avail \<sigma>'"
    using T evolves_live [OF ev] p(2) ev by (auto simp: evolves_def)
  ultimately show "stored t \<sigma>' (PNode p ks (Ts[i := U]))" using T by (simp add: pg)
qed

section \<open>Inserting in a given order of keys\<close>

locale tree_order =
  fixes c :: IComparator and sz :: nat
  assumes order: "key_order (\<lambda>x y. cmp_compare c x y sz)"

sublocale tree_order \<subseteq> key_order "\<lambda>x y. cmp_compare c x y sz"
  by (rule order)

interpretation byte_order: tree_order "ByteComparator f" sz for f sz
  by (rule tree_order.intro) (use bytes.key_order_axioms in \<open>simp add: ByteComparator_def\<close>)

context tree_order
begin

abbreviation lt :: "byte list \<Rightarrow> byte list \<Rightarrow> bool" where
  "lt x y \<equiv> cmp_compare c x y sz"

text \<open>The invariant of the tree below a node.\<close>

abbreviation tree_inv :: "BaseBTree \<Rightarrow> nat \<Rightarrow> byte list ptree \<Rightarrow> bool" where
  "tree_inv t h T \<equiv> tinv lt (leafyOf t) (nodeMin t) (nodeMax t) h T"

text \<open>What the pages of a split look like, whatever the kind of tree.\<close>

definition split_done ::
  "BaseBTree \<Rightarrow> nat \<Rightarrow> nat \<Rightarrow> nat \<Rightarrow> nat \<Rightarrow> byte list list \<Rightarrow> byte list ptree list \<Rightarrow> split_result \<Rightarrow> bool" where
  "split_done t n h p i ks Ts result \<longleftrightarrow>
     (\<exists>t' L m R. result = Inr (pageImg (absStore t') p, pageImg (absStore t') (pno L), pageImg (absStore t') (pno R), t') \<and>
        keeps t t' \<and> evolves {p, pno (Ts ! i)} (absStore t) (absStore t') \<and> roomy t (absStore t') n \<and>
        pno R \<in> ps_avail (absStore t) \<and>
        stored t (absStore t') (PNode p (insertAt i m ks) (splitKids i L R Ts)) \<and>
        mset (pages L) + mset (pages R) = add_mset (pno R) (mset (pages (Ts ! i))) \<and>
        splits (leafyOf t) (Ts ! i) L m R \<and> tree_inv t h L \<and> tree_inv t h R \<and>
        nodeMin t (pkids L = []) \<le> length (pkeys L) \<and> length (pkeys L) < nodeMax t (pkids L = []) \<and>
        nodeMin t (pkids R = []) \<le> length (pkeys R) \<and> length (pkeys R) < nodeMax t (pkids R = []))"

lemma split_around_done:
  assumes ok: "storeOk t" "ps_ok (absStore t)" "roomy t (absStore t) (Suc n)" "pw_data right \<noteq> []"
    and kids: "\<forall>T \<in> set Ts. stored t (absStore t) T" and d: "distinct (pages (PNode p ks Ts))"
    and p: "ps_live (absStore t) p" "p \<notin> ps_avail (absStore t)"
    and node: "pageHas t node p ks (map pno Ts)" "length ks < pageKeys t" and i: "i < length Ts"
    and bt: "orderOk t" and U: "Ts ! i = PNode q us Vs" "tree_inv t h (Ts ! i)" "length us = j + 1 + kn"
      "leafyOf t \<longrightarrow> Vs \<noteq> []"
    and occ: "nodeMin t (Vs = []) \<le> j" "j < nodeMax t (Vs = [])" "nodeMin t (Vs = []) \<le> kn" "kn < nodeMax t (Vs = [])"
  shows "split_done t n h p i ks Ts (splitCore kn (j + 1) j j node i (pageImg (absStore t) q) right t)"
proof -
  have num: "j + 1 + kn = length us" "j \<le> length us" "j < length us" using U(3) by simp_all
  obtain q' t' where s: "splitCore kn (j + 1) j j node i (pageImg (absStore t) q) right t =
      Inr (pageImg (absStore t') p, pageImg (absStore t') q, pageImg (absStore t') q', t')"
    "keeps t t'" "evolves {p, q} (absStore t) (absStore t')" "roomy t (absStore t') n" "q' \<in> ps_avail (absStore t)"
    "stored t (absStore t') (PNode p (insertAt i (us ! j) ks)
      (splitKids i (PNode q (take j us) (take (Suc j) Vs)) (PNode q' (drop (j + 1) us) (drop (j + 1) Vs)) Ts))"
    using splitCore_ok [OF ok kids d p node i U(1) num] by blast
  let ?L = "PNode q (take j us) (take (Suc j) Vs)" and ?R = "PNode q' (drop (Suc j) us) (drop (Suc j) Vs)"
  have sp: "splits (leafyOf t) (Ts ! i) ?L (us ! j) ?R" "tree_inv t h ?L" "tree_inv t h ?R"
    using splits_around [OF U(2) [unfolded U(1)] num(3) U(4) orderOkD(1) [OF bt]] unfolding U(1) by blast+
  have "bal h (PNode q us Vs)" using U(1,2) by (simp add: tinv_def)
  then have "(take (Suc j) Vs = []) = (Vs = [])" "(drop (Suc j) Vs = []) = (Vs = [])"
    using num by (cases h; auto)+
  then have "nodeMin t (pkids ?L = []) \<le> length (pkeys ?L) \<and> length (pkeys ?L) < nodeMax t (pkids ?L = []) \<and>
      nodeMin t (pkids ?R = []) \<le> length (pkeys ?R) \<and> length (pkeys ?R) < nodeMax t (pkids ?R = [])"
    using num(1) [symmetric] occ by simp
  moreover have "mset (pages ?L) + mset (pages ?R) = add_mset (pno ?R) (mset (pages (Ts ! i)))"
  proof -
    have "concat (map pages Vs) = concat (map pages (take (Suc j) Vs)) @ concat (map pages (drop (Suc j) Vs))"
      by (metis append_take_drop_id concat_append map_append)
    then show ?thesis by (simp add: U(1))
  qed
  ultimately show ?thesis
    unfolding split_done_def using s sp by (intro exI [of _ t'] exI [of _ ?L] exI [of _ "us ! j"] exI [of _ ?R]) (simp add: U(1))
qed

lemma split_leaf_done:
  assumes ok: "storeOk t" "ps_ok (absStore t)" "roomy t (absStore t) (Suc n)" "pw_data right \<noteq> []"
    and kids: "\<forall>T \<in> set Ts. stored t (absStore t) T" and d: "distinct (pages (PNode p ks Ts))"
    and p: "ps_live (absStore t) p" "p \<notin> ps_avail (absStore t)"
    and node: "pageHas t node p ks (map pno Ts)" "length ks < pageKeys t" and i: "i < length Ts"
    and bt: "orderOk t" "t_treeType t = B_PLUS_TREE"
    and U: "Ts ! i = PNode q us []" "tree_inv t 0 (Ts ! i)" "length us = t_maxLeafKeys t"
  shows "split_done t n 0 p i ks Ts (splitCore (t_minLeafKeys t) (t_minLeafKeys t) (t_minLeafKeys t - 1)
    (t_minLeafKeys t) node i (pageImg (absStore t) q) right t)"
proof -
  let ?m = "t_minLeafKeys t"
  have num: "?m + ?m = length us" "?m \<le> length us" "?m - 1 < length us" and m: "0 < ?m" "?m < length us"
    using bt U(3) by (simp_all add: orderOk_def starTree_def)
  obtain q' t' where s: "splitCore ?m ?m (?m - 1) ?m node i (pageImg (absStore t) q) right t =
      Inr (pageImg (absStore t') p, pageImg (absStore t') q, pageImg (absStore t') q', t')"
    "keeps t t'" "evolves {p, q} (absStore t) (absStore t')" "roomy t (absStore t') n" "q' \<in> ps_avail (absStore t)"
    "stored t (absStore t') (PNode p (insertAt i (us ! (?m - 1)) ks)
      (splitKids i (PNode q (take ?m us) []) (PNode q' (drop ?m us) []) Ts))"
    using splitCore_ok [OF ok kids d p node i U(1) num] by auto
  let ?L = "PNode q (take ?m us) []" and ?R = "PNode q' (drop ?m us) []"
  have lf: "leafyOf t = True" using bt(2) by (simp add: leafyOf_def)
  have sp: "splits (leafyOf t) (Ts ! i) ?L (us ! (?m - 1)) ?R" "tree_inv t 0 ?L" "tree_inv t 0 ?R"
    using splits_leaf [OF U(2) [unfolded U(1) lf] m] unfolding U(1) lf by blast+
  have "nodeMin t True = ?m" "nodeMax t True = ?m + ?m"
    using bt by (auto simp: nodeMin_def nodeMax_def orderOk_def starTree_def)
  then show ?thesis
    unfolding split_done_def using s sp m num(1) [symmetric]
    by (intro exI [of _ t'] exI [of _ ?L] exI [of _ "us ! (?m - 1)"] exI [of _ ?R]) (simp add: U(1))
qed

text \<open>The virtual \<open>splitChild\<close> of a B-tree and of a B+-tree on a full child of a node that is not full.\<close>

lemma splitChild_ok:
  assumes ok: "storeOk t" "ps_ok (absStore t)" "roomy t (absStore t) (Suc n)"
    "length (pw_data right) = t_nodePageSize t"
    and kids: "\<forall>T \<in> set Ts. stored t (absStore t) T" and d: "distinct (pages (PNode p ks Ts))"
    and p: "ps_live (absStore t) p" "p \<notin> ps_avail (absStore t)"
    and node: "pageHas t node p ks (map pno Ts)" "length ks < t_maxKeys t" and i: "i < length Ts"
    and bt: "orderOk t" "\<not> starTree t" and U: "tree_inv t h (Ts ! i)"
      "length (pkeys (Ts ! i)) = nodeMax t (pkids (Ts ! i) = [])"
    and left: "left = pageImg (absStore t) (pno (Ts ! i)) \<or>
      pw_pageNum left = 0 \<and> length (pw_data left) = t_nodePageSize t"
  shows "split_done t n h p i ks Ts (splitChild node i left right t)"
proof -
  obtain q us Vs where V: "Ts ! i = PNode q us Vs" by (cases "Ts ! i")
  obtain t1 where t1: "ensureChild left node i t = Inr (pageImg (absStore t) q, t1)" "keeps t t1"
    "absStore t1 = absStore t"
    using ensure_child [OF ok(1) kids node(1) i left] V by auto
  note F = frame_eqD [OF keepsD(2) [OF t1(2)]] frame_eqF [OF keepsD(2) [OF t1(2)]]
    order_frame [OF keepsD(2) [OF t1(2)]] stored_keeps [OF t1(2)] roomy_keeps [OF t1(2)]
    pageHas_frame [OF keepsD(2) [OF t1(2)]]
  have g: "geom t" by (rule storeOkD(1) [OF ok(1)])
  have lk: "length ks < pageKeys t" using node(2) geomD(2) [OF g] by simp
  have nl: "\<not> isLeaf node" "getKeysNum node = length ks" "i \<le> length ks"
    using pageHasD(3,4,8) [OF node(1)] i by (cases Ts; auto)+
  have nf: "\<not> isFull t node" "\<not> isFull t1 node"
    using orderOkD(6) [OF bt(1)] bt nl node(2) by (simp_all add: F isFull_pageMax pageMax_node)
  have ic: "i \<le> getKeysNum node" using nl by simp
  have lf: "isLeaf (pageImg (absStore t) q) = (Vs = [])"
    using kids nth_mem [OF i] V by (force dest!: pageHasD(4))
  have R: "pw_data right \<noteq> []" using ok(4) pageSize_pos [OF g] by auto
  have same: "split_done t1 n h p i ks Ts r = split_done t n h p i ks Ts r" for r
    unfolding split_done_def F t1(3) using t1(2) by (auto simp: keeps_def)
  have ok1: "storeOk t1" "ps_ok (absStore t1)" "roomy t1 (absStore t1) (Suc n)"
    using keepsD(1) [OF t1(2)] ok by (simp_all add: F t1(3))
  have base: "split_done t n h p i ks Ts (splitCore (t_minKeys t1) (t_minKeys t1 + 1) (t_minKeys t1) (t_minKeys t1)
      node i (pageImg (absStore t) q) right t1)"
    if "t_treeType t = B_PLUS_TREE \<longrightarrow> Vs \<noteq> []"
  proof -
    let ?m = "t_minKeys t"
    have "nodeMin t (Vs = []) = ?m" "nodeMax t (Vs = []) = 2 * ?m + 1" "0 < ?m" "leafyOf t \<longrightarrow> Vs \<noteq> []"
      using bt that by (auto simp: nodeMin_def nodeMax_def orderOk_def leafyOf_def starTree_def)
    then show ?thesis
      using split_around_done [OF ok1 R, of Ts p ks node i q us Vs h ?m ?m] kids d p node(1) lk i bt(1) V U
      unfolding same F t1(3) by auto
  qed
  show ?thesis
  proof (cases "t_treeType t = B_TREE")
    case True
    then show ?thesis
      using base BaseBTree_split_core [OF nf(1) ic] t1(1) by (simp add: splitChild_def)
  next
    case False
    then have pt: "t_treeType t = B_PLUS_TREE" using bt(2) by (cases "t_treeType t") (simp_all add: starTree_def)
    show ?thesis
    proof (cases "Vs = []")
      case True
      have h0: "h = 0" using U(1) True V by (cases h) (auto simp: tinv_def)
      have "split_done t n 0 p i ks Ts (splitCore (t_minLeafKeys t1) (t_minLeafKeys t1) (t_minLeafKeys t1 - 1)
          (t_minLeafKeys t1) node i (pageImg (absStore t) q) right t1)"
        using split_leaf_done [OF ok1 R, of Ts p ks node i q us] kids d p node(1) lk i bt(1) V U True pt
        unfolding same [unfolded h0] F t1(3) h0 by (auto simp: nodeMax_def)
      then show ?thesis
        using BaseBPlusTree_split_core [OF nf(1) ic] t1(1) lf True pt h0 by (simp add: splitChild_def)
    next
      case False
      have e: "ensureChild (pageImg (absStore t) q) node i t1 = Inr (pageImg (absStore t) q, t1)"
      proof -
        have "ps_live (absStore t) q" using kids nth_mem [OF i] V by force
        then show ?thesis by (simp add: ensureChild_def ps_live_def)
      qed
      show ?thesis
        using base False BaseBPlusTree_split_core [OF nf(1) ic] BaseBTree_split_core [OF nf(2) ic] t1(1) lf pt e
        by (simp add: splitChild_def)
    qed
  qed
qed

text \<open>What an insertion below a node leaves.\<close>

definition ins_done ::
  "BaseBTree \<Rightarrow> nat \<Rightarrow> nat \<Rightarrow> byte list ptree \<Rightarrow> byte list \<Rightarrow> (PageWrapper \<times> BaseBTree) res \<Rightarrow> bool" where
  "ins_done t n h T k result \<longleftrightarrow>
     (\<exists>t' T'. result = Inr (pageImg (absStore t') (pno T), t') \<and> keeps t t' \<and>
        evolves (set (pages T)) (absStore t) (absStore t') \<and> roomy t (absStore t') n \<and>
        stored t (absStore t') T' \<and> distinct (pages T') \<and>
        set (pages T') \<subseteq> set (pages T) \<union> ps_avail (absStore t) \<and>
        tree_inv t h T' \<and> inserted (leafyOf t) k T T' \<and> length (pkeys T') \<le> pageMax t (pno T) (pkids T = []))"

lemma leaf_done:
  assumes ok: "storeOk t" "ps_ok (absStore t)" "roomy t (absStore t) n" "t_recSize t = sz" "length k = sz"
    and T: "stored t (absStore t) (PNode p ks [])" "tree_inv t 0 (PNode p ks [])" "length ks < pageMax t p True"
    and bt: "orderOk t"
  shows "ins_done t n 0 (PNode p ks []) k (insertIntoLeaf c k (pageImg (absStore t) p) t)"
proof -
  let ?\<sigma> = "absStore t"
  note g = storeOkD(1) [OF ok(1)]
  have h: "pageHas t (pageImg ?\<sigma> p) p ks []" and l: "ps_live ?\<sigma> p" "p \<notin> ps_avail ?\<sigma>" using T(1) by simp_all
  have "length ks < pageKeys t" using T(3) pageMax_room(2) [OF bt g, of p True] by simp
  then obtain r pw1 pw2 where r: "shiftGreater c t k (setKeyNum (length ks + 1) (pageImg ?\<sigma> p)) (length ks) = Inr (r, pw1)"
    "copyKeyFrom t pw1 r k = Inr pw2" "pageHas t pw2 p (insertAt r k ks) []" "r \<le> length ks"
    "r < length ks \<longrightarrow> lt k (ks ! r)" "0 < r \<longrightarrow> \<not> lt k (ks ! (r - 1))"
    using has_insertKey [OF g h, of k c] ok(4,5) by auto
  note h2 = pageHasD [OF r(3)]
  obtain t' where t': "PageWrapper_writePage pw2 t = Inr t'" "keeps t t'"
    "absStore t' = ps_write p (pw_data pw2) ?\<sigma>"
    using write_page [OF ok(1), of pw2] h2(1,5) l by auto
  have img: "pageImg (absStore t') p = pw2"
    using h2(1) by (simp add: t'(3) ps_write_def)
  have "insertIntoLeaf c k (pageImg ?\<sigma> p) t = Inr (pageImg (absStore t') p, t')"
    using r(1,2) t'(1) pageHasD(3) [OF h] by (simp add: insertIntoLeaf_def img)
  moreover have "tree_inv t 0 (PNode p (insertAt r k ks) [])"
    "inserted (leafyOf t) k (PNode p ks []) (PNode p (insertAt r k ks) [])"
    using insert_leaf [OF T(2) r(4)] r(5,6) less_le by blast+
  moreover have "stored t (absStore t') (PNode p (insertAt r k ks) [])"
  proof -
    have "ps_live (absStore t') p" "p \<notin> ps_avail (absStore t')"
      using l by (simp_all add: t'(3) ps_write_def ps_live_def ps_avail_def)
    then show ?thesis using r(3) by (simp add: img)
  qed
  moreover have "evolves {p} ?\<sigma> (absStore t')" unfolding t'(3) by (rule evolves_write [OF ok(2)])
  moreover have "roomy t (absStore t') n" using ok(3) by (simp add: t'(3) roomy_def ps_write_def)
  ultimately show ?thesis
    unfolding ins_done_def using t'(2) T(3)
    by (intro exI [of _ t'] exI [of _ "PNode p (insertAt r k ks) []"]) simp
qed

text \<open>From an insertion below child \<open>i\<close> to one below the node.\<close>

lemma below_done:
  assumes T: "stored t (absStore t) (PNode p ks Ts)" "distinct (pages (PNode p ks Ts))"
      "tree_inv t (Suc h) (PNode p ks Ts)" "rootAside t (PNode p ks Ts)" "length ks \<le> pageMax t p False"
    and i: "i \<le> length ks"
    and b: "0 < i \<longrightarrow> \<not> lt k (ks ! (i - 1))" "i < length ks \<longrightarrow> \<not> lt (ks ! i) k"
    and t1: "keeps t t1" "absStore t1 = absStore t" and r: "ins_done t1 n h (Ts ! i) k r"
  shows "ins_done t n (Suc h) (PNode p ks Ts) k (bindR r (\<lambda>(_, t). Inr (pageImg (absStore t1) p, t)))"
proof -
  note F = order_frame [OF keepsD(2) [OF t1(1)]] stored_keeps [OF t1(1)] roomy_keeps [OF t1(1)]
  obtain t2 U where U: "r = Inr (pageImg (absStore t2) (pno (Ts ! i)), t2)" "keeps t1 t2"
    "evolves (set (pages (Ts ! i))) (absStore t) (absStore t2)" "roomy t (absStore t2) n"
    "stored t (absStore t2) U" "distinct (pages U)"
    "set (pages U) \<subseteq> set (pages (Ts ! i)) \<union> ps_avail (absStore t)"
    "tree_inv t h U" "inserted (leafyOf t) k (Ts ! i) U" "length (pkeys U) \<le> pageMax t1 (pno (Ts ! i)) (pkids (Ts ! i) = [])"
    using r unfolding ins_done_def F t1(2) by blast
  have "bal (Suc h) (PNode p ks Ts)" using T(3) by (simp add: tinv_def)
  then have il: "i < length Ts" using i by simp
  have "pno U = pno (Ts ! i)" using U(9) by (simp add: inserted_def)
  note s = update_child_stored [OF T(1,2) il U(3,5) this U(6,7)]
  have "t_rootPageNum t1 = t_rootPageNum t" using t1(2) by (simp add: absStore_def)
  moreover have "pno (Ts ! i) \<noteq> t_rootPageNum t" using rootAside_kid [OF T(4)] nth_mem [OF il] by simp
  ultimately have "length (pkeys U) \<le> nodeMax t (pkids U = [])"
    using U(9,10) F by (simp add: pageMax_node inserted_def)
  note n = insert_below [OF T(3) i U(8,9) this b]
  have "evolves (set (pages (PNode p ks Ts))) (absStore t) (absStore t2)"
    by (rule evolves_mono [OF U(3) pages_kid [OF nth_mem [OF il]]])
  then show ?thesis
    unfolding ins_done_def using U(1,4) s n keeps_trans [OF t1(1) U(2)] t1(2) T(5) il
    by (intro exI [of _ t2] exI [of _ "PNode p ks (Ts[i := U])"]) (cases Ts; simp)
qed

text \<open>An insertion after a split.\<close>

lemma after_split_done:
  assumes t1: "keeps t t1" "evolves (set (pages T)) (absStore t) (absStore t1)"
    and T1: "set (pages T1) \<subseteq> set (pages T) \<union> ps_avail (absStore t)" "pno T1 = pno T"
      "contents (leafyOf t) T1 = contents (leafyOf t) T" "set (inorder T1) \<subseteq> set (inorder T)"
      "length (pkeys T) \<le> length (pkeys T1)" "(pkids T1 = []) = (pkids T = [])"
    and r: "ins_done t1 n h T1 k r"
  shows "ins_done t n h T k r"
proof -
  note F = order_frame [OF keepsD(2) [OF t1(1)]] stored_keeps [OF t1(1)] roomy_keeps [OF t1(1)]
  obtain t2 U where U: "r = Inr (pageImg (absStore t2) (pno T), t2)" "keeps t1 t2"
    "evolves (set (pages T1)) (absStore t1) (absStore t2)" "roomy t (absStore t2) n"
    "stored t (absStore t2) U" "distinct (pages U)" "set (pages U) \<subseteq> set (pages T1) \<union> ps_avail (absStore t1)"
    "tree_inv t h U" "inserted (leafyOf t) k T1 U" "length (pkeys U) \<le> pageMax t (pno T) (pkids T = [])"
    using r pageMax_frame [OF keepsD(2) [OF t1(1)] evolves_root [OF t1(2)]] unfolding ins_done_def F T1(2,6) by auto
  have "evolves (set (pages T)) (absStore t) (absStore t2)"
    by (rule evolves_trans [OF t1(2) U(3) T1(1)])
  moreover have "ps_avail (absStore t1) \<subseteq> ps_avail (absStore t)" using t1(2) by (simp add: evolves_def)
  then have "set (pages U) \<subseteq> set (pages T) \<union> ps_avail (absStore t)" using U(7) T1(1) by blast
  moreover have "inserted (leafyOf t) k T U" using U(9) T1(2-6) by (auto simp: inserted_def)
  ultimately show ?thesis
    unfolding ins_done_def using U(1,4-6,8,10) keeps_trans [OF t1(1) U(2)] by blast
qed

text \<open>
  A node whose children were rearranged: \<open>T1\<close> is the new node, with the same contents, and the
  insertion goes on below its child \<open>j\<close>.
\<close>

lemma reshaped_done:
  assumes ok: "storeOk t" "t_recSize t = sz" "rootAside t (PNode p ks Ts)"
    and t': "keeps t t'" "evolves (set (pages (PNode p ks Ts))) (absStore t) (absStore t')"
    and T1: "stored t (absStore t') (PNode p ks1 Ts1)" "distinct (pages (PNode p ks1 Ts1))"
      "set (pages (PNode p ks1 Ts1)) \<subseteq> set (pages (PNode p ks Ts)) \<union> ps_avail (absStore t)"
      "tree_inv t (Suc h) (PNode p ks1 Ts1)" "contents (leafyOf t) (PNode p ks1 Ts1) = contents (leafyOf t) (PNode p ks Ts)"
      "set (inorder (PNode p ks1 Ts1)) \<subseteq> set (inorder (PNode p ks Ts))"
      "length ks \<le> length ks1" "Ts \<noteq> []" "length ks1 \<le> pageMax t p False"
    and j: "j \<le> length ks1" "0 < j \<longrightarrow> \<not> lt k (ks1 ! (j - 1))" "j < length ks1 \<longrightarrow> \<not> lt (ks1 ! j) k"
    and r: "ins_done t' n h (Ts1 ! j) k r"
  shows "ins_done t n (Suc h) (PNode p ks Ts) k (bindR r (\<lambda>(_, t). Inr (pageImg (absStore t') p, t)))"
proof -
  note F = order_frame [OF keepsD(2) [OF t'(1)]] stored_keeps [OF t'(1)]
    pageMax_frame [OF keepsD(2) [OF t'(1)] evolves_root [OF t'(2)]]
  have a: "rootAside t' (PNode p ks1 Ts1)" by (rule rootAside_step [OF ok(3) t'(2) _ T1(2,3)]) simp
  have ne: "Ts1 \<noteq> []" using T1(4) by (auto simp: tinv_def)
  have "keeps t' t'" using keepsD(1) [OF t'(1)] by (simp add: keeps_def)
  then have "ins_done t' n (Suc h) (PNode p ks1 Ts1) k (bindR r (\<lambda>(_, t). Inr (pageImg (absStore t') p, t)))"
    using T1 a j r by (intro below_done) (simp_all add: F del: pages.simps stored.simps)
  then show ?thesis
    using T1(5-8) ne by (intro after_split_done [OF t' T1(3)]) simp_all
qed

text \<open>The branch of a full child: split it, and go on below the half that the key belongs to.\<close>

lemma split_branch_done:
  assumes s: "split_done t (h + n) h p i ks Ts r" and ok: "storeOk t" "t_recSize t = sz"
    and T: "stored t (absStore t) (PNode p ks Ts)" "distinct (pages (PNode p ks Ts))"
      "tree_inv t (Suc h) (PNode p ks Ts)" "rootAside t (PNode p ks Ts)"
    and i: "i \<le> length ks" and nf: "length ks < pageMax t p False"
    and b: "0 < i \<longrightarrow> \<not> lt k (ks ! (i - 1))" "i < length ks \<longrightarrow> \<not> lt (ks ! i) k"
    and IH: "\<And>t' V. keeps t t' \<Longrightarrow> ps_ok (absStore t') \<Longrightarrow> roomy t (absStore t') (h + n) \<Longrightarrow>
      stored t (absStore t') V \<Longrightarrow> distinct (pages V) \<Longrightarrow> tree_inv t h V \<Longrightarrow> rootAside t' V \<Longrightarrow>
      pno V \<noteq> t_rootPageNum t' \<Longrightarrow> length (pkeys V) < nodeMax t (pkids V = []) \<Longrightarrow>
      ins_done t' n h V k (call (pageImg (absStore t') (pno V)) t')"
  shows "ins_done t n (Suc h) (PNode p ks Ts) k
    (bindR r (\<lambda>(node, child, newChild, t). bindR (keyAt t node i) (\<lambda>x.
       bindR (call (if cmp_compare c x k (t_recSize t) then newChild else child) t) (\<lambda>(_, t). Inr (node, t)))))"
proof -
  obtain t' L m R where
    d: "r = Inr (pageImg (absStore t') p, pageImg (absStore t') (pno L), pageImg (absStore t') (pno R), t')"
    and t': "keeps t t'" "evolves {p, pno (Ts ! i)} (absStore t) (absStore t')" "roomy t (absStore t') (h + n)"
      "pno R \<in> ps_avail (absStore t)"
      "stored t (absStore t') (PNode p (insertAt i m ks) (splitKids i L R Ts))"
    and LR: "mset (pages L) + mset (pages R) = add_mset (pno R) (mset (pages (Ts ! i)))"
      "splits (leafyOf t) (Ts ! i) L m R" "tree_inv t h L" "tree_inv t h R"
      "nodeMin t (pkids L = []) \<le> length (pkeys L)" "length (pkeys L) < nodeMax t (pkids L = [])"
      "nodeMin t (pkids R = []) \<le> length (pkeys R)" "length (pkeys R) < nodeMax t (pkids R = [])"
    using s unfolding split_done_def by blast
  let ?T1 = "PNode p (insertAt i m ks) (splitKids i L R Ts)" and ?\<sigma> = "absStore t'"
  have len: "length Ts = Suc (length ks)" using T(3) by (simp add: tinv_def)
  have il: "i < length Ts" using i len by simp
  note c1 = split_child [OF T(3) i LR(3,4,5,7) less_imp_le [OF LR(6)] less_imp_le [OF LR(8)] LR(2)]
  have pm: "mset (pages ?T1) = add_mset (pno R) (mset (pages (PNode p ks Ts)))"
    by (rule splitKids_pages [OF il LR(1)])
  have "pno R \<notin> set (pages (PNode p ks Ts))" using stored_pages [OF T(1)] t'(4) by blast
  then have d1: "distinct (pages ?T1)"
    using mset_eq_imp_distinct_iff [of "pages ?T1" "pno R # pages (PNode p ks Ts)"] pm T(2) by simp
  have "set (pages ?T1) = insert (pno R) (set (pages (PNode p ks Ts)))"
    using arg_cong [OF pm, of set_mset] by (simp del: pages.simps)
  then have p1: "set (pages ?T1) \<subseteq> set (pages (PNode p ks Ts)) \<union> ps_avail (absStore t)"
    using t'(4) by (metis Un_iff insert_iff subsetI)
  have "Ts ! i \<in> set Ts" using il by simp
  then have ev: "evolves (set (pages (PNode p ks Ts))) (absStore t) ?\<sigma>"
    by (intro evolves_mono [OF t'(2)]) (use pno_in_pages [of "Ts ! i"] in auto)
  note F = frame_eqD [OF keepsD(2) [OF t'(1)]] pageHas_frame [OF keepsD(2) [OF t'(1)]]
  have h1: "pageHas t' (pageImg ?\<sigma> p) p (insertAt i m ks) (map pno (splitKids i L R Ts))"
    using t'(5) by (simp add: F)
  have key: "keyAt t' (pageImg ?\<sigma> p) i = Inr m"
    using has_keyAt [OF storeOkD(1) [OF keepsD(1) [OF t'(1)]] h1, of i] i by (simp add: nth_insertAt)
  define j where "j = (if lt m k then Suc i else i)"
  have V: "splitKids i L R Ts ! j = (if lt m k then R else L)" using il by (simp add: j_def nth_splitKids)
  let ?V = "splitKids i L R Ts ! j"
  have jl: "j \<le> length (insertAt i m ks)" "j < length (splitKids i L R Ts)" using i il by (simp_all add: j_def)
  have bj: "0 < j \<longrightarrow> \<not> lt k (insertAt i m ks ! (j - 1))"
    "j < length (insertAt i m ks) \<longrightarrow> \<not> lt (insertAt i m ks ! j) k"
    using b i less_le [of m k] by (cases "lt m k"; simp add: j_def nth_insertAt)+
  have sV: "stored t ?\<sigma> ?V" "distinct (pages ?V)"
    using t'(5) d1 nth_mem [OF jl(2)] by (auto simp: distinct_concat_iff)
  have "rootAside t' ?T1" by (rule rootAside_step [OF T(4) ev _ d1 p1]) simp
  then have "rootAside t' ?V \<and> pno ?V \<noteq> t_rootPageNum t'" by (rule rootAside_kid) (use jl in simp)
  then have "ins_done t' n h ?V k (call (pageImg ?\<sigma> (pno ?V)) t')"
    using LR(3,4,6,8) by (intro IH t' sV) (use t'(2) V in \<open>auto simp: evolves_def\<close>)
  then have "ins_done t n (Suc h) (PNode p ks Ts) k
      (bindR (call (pageImg ?\<sigma> (pno ?V)) t') (\<lambda>(_, t). Inr (pageImg ?\<sigma> p, t)))"
    using ok T(4) t'(1,5) ev d1 p1 c1 i nf len jl(1) bj by (intro reshaped_done) auto
  then show ?thesis using V ok(2) by (cases "lt m k") (simp_all add: d key F)
qed

lemma BaseBTree_insertNonFull_ok:
  assumes "storeOk t" "ps_ok (absStore t)" "roomy t (absStore t) (h + n)" "t_comparator t = Some c"
    "t_recSize t = sz" "length k = sz" "orderOk t" "stored t (absStore t) T" "distinct (pages T)"
    "tree_inv t h T" "length (pkeys T) < nodeMax t (pkids T = [])" "h < fuel" "\<not> starTree t" "rootAside t T"
  shows "ins_done t n h T k (BaseBTree_insertNonFull fuel k (pageImg (absStore t) (pno T)) t)"
  using assms
proof (induction h arbitrary: t T fuel)
  case 0
  obtain p ks Ts where T: "T = PNode p ks Ts" by (cases T)
  have Ts: "Ts = []" using 0(10) T by (simp add: tinv_def)
  obtain f where f: "fuel = Suc f" using 0(12) by (cases fuel) auto
  have h: "pageHas t (pageImg (absStore t) p) p ks []" using 0(8) T Ts by simp
  have "\<not> isFull t (pageImg (absStore t) p)"
    using pageHasD(3,4) [OF h] 0(11,13) T Ts by (simp add: isFull_pageMax pageMax_node)
  then show ?case
    using leaf_done [of t n k p ks] 0 T Ts f pageHasD(4) [OF h] by (simp add: pageMax_node)
next
  case (Suc h)
  let ?\<sigma> = "absStore t"
  obtain p ks Ts where T: "T = PNode p ks Ts" by (cases T)
  obtain f where f: "fuel = Suc f" "h < f" using Suc.prems(12) by (cases fuel) auto
  have len: "length Ts = Suc (length ks)" using Suc.prems(10) T by (simp add: tinv_def)
  have h: "pageHas t (pageImg ?\<sigma> p) p ks (map pno Ts)" and kids: "\<forall>V \<in> set Ts. stored t ?\<sigma> V"
    and live: "ps_live ?\<sigma> p" "p \<notin> ps_avail ?\<sigma>" using Suc.prems(8) T by simp_all
  have lf: "\<not> isLeaf (pageImg ?\<sigma> p)" using pageHasD(4) [OF h] len by auto
  have nl: "length ks < nodeMax t False" using Suc.prems(11) T len by (cases Ts) auto
  have nf: "\<not> isFull t (pageImg ?\<sigma> p)"
    using pageHasD(3) [OF h] lf nl Suc.prems(13) by (simp add: isFull_pageMax pageMax_node)
  obtain i where i: "scanDown c t (pageImg ?\<sigma> p) k (length ks) = Inr i" "i \<le> length ks"
    "i < length ks \<longrightarrow> lt k (ks ! i)" "0 < i \<longrightarrow> \<not> lt k (ks ! (i - 1))"
    using has_scanDown [OF storeOkD(1) [OF Suc.prems(1)] h, of c k] Suc.prems(5) by auto
  have b: "0 < i \<longrightarrow> \<not> lt k (ks ! (i - 1))" "i < length ks \<longrightarrow> \<not> lt (ks ! i) k"
    using i(3,4) less_le by blast+
  have il: "i < length Ts" using i(2) len by simp
  let ?V = "Ts ! i"
  have V: "stored t ?\<sigma> ?V" "distinct (pages ?V)" "tree_inv t h ?V"
    using kids Suc.prems(9) T nth_mem [OF il] tinv_child [OF Suc.prems(10) [unfolded T] nth_mem [OF il]]
    by (auto simp: distinct_concat_iff)
  obtain t1 where t1: "readPageFromChild (new_PageWrapper t) (pageImg ?\<sigma> p) i t = Inr (pageImg ?\<sigma> (pno ?V), t1)"
    "keeps t t1" "absStore t1 = ?\<sigma>"
    using read_child [OF Suc.prems(1) Suc.prems(8) [unfolded T] h il length_new_page] storeOkD(3) [OF Suc.prems(1)]
    by blast
  note F = order_frame [OF keepsD(2) [OF t1(2)]] stored_keeps [OF t1(2)] frame_eqD [OF keepsD(2) [OF t1(2)]]
    roomy_keeps [OF t1(2)] pageHas_frame [OF keepsD(2) [OF t1(2)]]
  note ok1 = keepsD(1) [OF t1(2)]
  have hV: "pageHas t (pageImg ?\<sigma> (pno ?V)) (pno ?V) (pkeys ?V) (map pno (pkids ?V))" by (rule stored_node [OF V(1)])
  have full: "isFull t1 (pageImg ?\<sigma> (pno ?V)) \<longleftrightarrow> length (pkeys ?V) = nodeMax t (pkids ?V = [])"
    using pageHasD(3,4) [OF hV] Suc.prems(13) by (simp add: isFull_pageMax pageMax_node F)
  have step: "ins_done t' n h W k (BaseBTree_insertNonFull f k (pageImg (absStore t') (pno W)) t')"
    if "keeps t1 t'" "ps_ok (absStore t')" "roomy t1 (absStore t') (h + n)" "stored t1 (absStore t') W"
      "distinct (pages W)" "tree_inv t1 h W" "rootAside t' W" "length (pkeys W) < nodeMax t1 (pkids W = [])" for t' W
    using Suc.IH [OF keepsD(1) [OF that(1)], of W f] that Suc.prems(4-7,13) f(2)
      order_frame [OF keepsD(2) [OF that(1)]] stored_keeps [OF that(1)] roomy_keeps [OF that(1)]
      frame_eqD [OF keepsD(2) [OF that(1)]]
    by (simp add: F)
  have r1: "t_rootPageNum t1 = t_rootPageNum t" using t1(3) by (simp add: absStore_def)
  have ra1: "rootAside t1 W = rootAside t W" for W by (simp add: rootAside_def r1 t1(3))
  have ra: "rootAside t1 ?V" using rootAside_kid [OF Suc.prems(14)] T nth_mem [OF il] by (simp add: ra1)
  show ?case
  proof (cases "isFull t1 (pageImg ?\<sigma> (pno ?V))")
    case False
    have "length (pkeys ?V) \<le> nodeMax t (pkids ?V = [])"
      using Suc.prems(10) T nth_mem [OF il] by (simp add: tinv_def)
    then have "length (pkeys ?V) < nodeMax t (pkids ?V = [])" using False full by simp
    then have "ins_done t1 n h ?V k (BaseBTree_insertNonFull f k (pageImg (absStore t1) (pno ?V)) t1)"
      using step [of t1 ?V] ok1 Suc.prems(2,3) V roomy_mono [OF Suc.prems(3), of "h + n"] ra
      by (simp add: F t1(3) keeps_def)
    from below_done [OF Suc.prems(8-10,14) [unfolded T] _ i(2) b t1(2,3) this]
    show ?thesis using f(1) nf lf i(1) t1 False pageHasD(3) [OF h] Suc.prems(4,13) nl by (simp add: T pageMax_node)
  next
    case True
    let ?r = "splitChild (pageImg ?\<sigma> p) i (pageImg ?\<sigma> (pno ?V)) (new_PageWrapper t1) t1"
    have "split_done t1 (h + n) h p i ks Ts ?r"
      using True full Suc.prems(2,3,7,9,13) V(3) kids live h il nl T orderOkD(6) [OF Suc.prems(7)]
        length_new_page [OF storeOkD(3) [OF ok1]]
      by (intro splitChild_ok [OF ok1]) (simp_all add: F t1(3))
    then have "ins_done t1 n (Suc h) (PNode p ks Ts) k (bindR ?r (\<lambda>(node, child, newChild, t).
        bindR (keyAt t node i) (\<lambda>x. bindR (BaseBTree_insertNonFull f k
          (if cmp_compare c x k (t_recSize t) then newChild else child) t) (\<lambda>(_, t). Inr (node, t)))))"
      using Suc.prems(5,8-10,13,14) T i(2) nl b step
      by (intro split_branch_done [OF _ ok1]) (simp_all add: F t1(3) pageMax_node ra1)
    then have "ins_done t n (Suc h) (PNode p ks Ts) k (bindR ?r (\<lambda>(node, child, newChild, t).
        bindR (keyAt t node i) (\<lambda>x. bindR (BaseBTree_insertNonFull f k
          (if cmp_compare c x k (t_recSize t) then newChild else child) t) (\<lambda>(_, t). Inr (node, t)))))"
      using Suc.prems(2) by (intro after_split_done [OF t1(2)]) (auto simp: t1(3) evolves_refl)
    then show ?thesis using f(1) nf lf i(1) t1(1) True pageHasD(3) [OF h] Suc.prems(4) by (simp add: T)
  qed
qed

end

section \<open>The public insertion\<close>

text \<open>The most keys of a root: it has a bound of its own in the star variants.\<close>

definition rootMax :: "BaseBTree \<Rightarrow> bool \<Rightarrow> nat" where
  "rootMax t leaf = (if starTree t then t_maxRootKeys t else nodeMax t leaf)"

lemma pageMax_root: "pageMax t (t_rootPageNum t) b = rootMax t b"
  by (simp add: pageMax_def rootMax_def)

text \<open>
  A tree object: a well-formed file, the root page cached, and the tree \<open>T\<close> of
  height \<open>h\<close> in the file, with the invariant in the order of the comparator.  The root has a
  key unless it is a leaf.
\<close>

definition treeState :: "BaseBTree \<Rightarrow> IComparator \<Rightarrow> nat \<Rightarrow> byte list ptree \<Rightarrow> bool" where
  "treeState t c h T \<longleftrightarrow>
     storeOk t \<and> ps_ok (absStore t) \<and> t_comparator t = Some c \<and> orderOk t \<and>
     pno T = t_rootPageNum t \<and> t_rootPage t = pageImg (absStore t) (pno T) \<and>
     stored t (absStore t) T \<and> distinct (pages T) \<and> length (pkeys T) \<le> rootMax t (pkids T = []) \<and>
     tinv (\<lambda>x y. cmp_compare c x y (t_recSize t)) (leafyOf t) (nodeMin t) (nodeMax t) h T \<and>
     (0 < h \<longrightarrow> pkeys T \<noteq> [])"

text \<open>The objects differ in the store and in the cached root page only.\<close>

definition sameTree :: "BaseBTree \<Rightarrow> BaseBTree \<Rightarrow> bool" where
  "sameTree t t' \<longleftrightarrow> (\<exists>pw. frame t' = frame (t\<lparr>t_rootPage := pw\<rparr>))"

lemma order_rootPage [simp]:
  "leafyOf (t\<lparr>t_rootPage := pw\<rparr>) = leafyOf t" "nodeMax (t\<lparr>t_rootPage := pw\<rparr>) = nodeMax t"
  "nodeMin (t\<lparr>t_rootPage := pw\<rparr>) = nodeMin t" "orderOk (t\<lparr>t_rootPage := pw\<rparr>) = orderOk t"
  "starTree (t\<lparr>t_rootPage := pw\<rparr>) = starTree t" "pageMax (t\<lparr>t_rootPage := pw\<rparr>) = pageMax t"
  "roomy (t\<lparr>t_rootPage := pw\<rparr>) = roomy t" "rootMax (t\<lparr>t_rootPage := pw\<rparr>) = rootMax t"
  by (simp_all add: rootMax_def leafyOf_def nodeMax_def nodeMin_def orderOk_def starOrder_def starTree_def pageMax_def roomy_def fun_eq_iff)

lemma sameTreeD:
  assumes "sameTree t t'"
  shows "leafyOf t' = leafyOf t" "nodeMax t' = nodeMax t" "nodeMin t' = nodeMin t" "orderOk t' = orderOk t"
    "roomy t' = roomy t" "pageHas t' = pageHas t" "stored t' = stored t" "t_recSize t' = t_recSize t"
    "t_comparator t' = t_comparator t" "t_order t' = t_order t" "t_treeType t' = t_treeType t"
    "t_nodePageSize t' = t_nodePageSize t" "t_ulongBits t' = t_ulongBits t" "geom t' = geom t"
    "starTree t' = starTree t" "t_maxRootKeys t' = t_maxRootKeys t"
    "t_rootPageNum t' = t_rootPageNum t \<Longrightarrow> pageMax t' = pageMax t" "rootMax t' = rootMax t"
proof -
  obtain pw where f: "frame t' = frame (t\<lparr>t_rootPage := pw\<rparr>)" using assms by (auto simp: sameTree_def)
  show "leafyOf t' = leafyOf t" "nodeMax t' = nodeMax t" "nodeMin t' = nodeMin t" "orderOk t' = orderOk t"
    using order_frame [OF f] by simp_all
  show "roomy t' = roomy t" using frame_eqF(8) [OF f] by (simp add: roomy_def fun_eq_iff)
  show p: "pageHas t' = pageHas t" using pageHas_frame [OF f] by simp
  show "stored t' = stored t" using stored_cong [OF p] by (simp add: fun_eq_iff)
  show "t_recSize t' = t_recSize t" "t_comparator t' = t_comparator t" "t_order t' = t_order t"
    "t_treeType t' = t_treeType t" "t_nodePageSize t' = t_nodePageSize t" "t_ulongBits t' = t_ulongBits t"
    "geom t' = geom t" "t_maxRootKeys t' = t_maxRootKeys t"
    using frame_eqD [OF f] frame_eqF [OF f] by simp_all
  show "starTree t' = starTree t" using order_frame [OF f] by simp
  show "t_rootPageNum t' = t_rootPageNum t \<Longrightarrow> pageMax t' = pageMax t"
    using pageMax_frame [OF f] by simp
  show "rootMax t' = rootMax t"
    using order_frame [OF f] frame_eqD [OF f] by (simp add: rootMax_def fun_eq_iff)
qed

lemma frame_self: "(frame t)\<lparr>t_rootPage := t_rootPage t\<rparr> = frame t"
  by (cases t) (simp add: frame_def)

lemma sameTree_keeps: "keeps t t' \<Longrightarrow> sameTree t t'"
  using frame_self [of t] by (auto simp: sameTree_def keeps_def intro!: exI [of _ "t_rootPage t"])

lemma sameTree_trans: "sameTree t t1 \<Longrightarrow> sameTree t1 t2 \<Longrightarrow> sameTree t t2"
  by (auto simp: sameTree_def)

lemma sameTree_rootPage: "sameTree t (t\<lparr>t_rootPage := pw\<rparr>)"
  by (auto simp: sameTree_def)

text \<open>A store that differs in the root page number only.\<close>

lemma ps_root_irrelevant [simp]:
  "ps_live (\<sigma>\<lparr>ps_root := r\<rparr>) = ps_live \<sigma>" "ps_avail (\<sigma>\<lparr>ps_root := r\<rparr>) = ps_avail \<sigma>"
  "ps_ok (\<sigma>\<lparr>ps_root := r\<rparr>) = ps_ok \<sigma>" "roomy t (\<sigma>\<lparr>ps_root := r\<rparr>) = roomy t \<sigma>"
  by (auto simp: fun_eq_iff ps_live_def ps_avail_def ps_ok_def roomy_def)

lemma stored_root [simp]: "stored t (\<sigma>\<lparr>ps_root := r\<rparr>) T = stored t \<sigma> T"
  by (induction T) auto

context tree_order
begin

text \<open>The new root: a page without keys whose only child is the old root.\<close>

lemma tinv_single:
  assumes "tree_inv t h T" "nodeMin t (pkids T = []) \<le> length (pkeys T)"
    "nodeMax t \<le> mx" "length (pkeys T) \<le> mx (pkids T = [])"
  shows "tinv lt (leafyOf t) (nodeMin t) mx (Suc h) (PNode q [] [T])"
  using assms tinv_mono [OF assms(1,3)] by (simp add: tinv_def)

lemma new_root:
  assumes st: "treeState t c h T" "roomy t (absStore t) (Suc n)"
  shows "\<exists>q pw t1. bindR (allocNewRootPage (t_rootPage t) t) (\<lambda>(rootPage, t1).
      bindR (setCursor t1 rootPage 0 (t_rootPageNum t)) (\<lambda>rootPage.
        setAsRoot rootPage True (t1\<lparr>t_rootPage := rootPage\<rparr>))) = Inr t1 \<and>
    t_rootPage t1 = pw \<and> storeOk t1 \<and> sameTree t t1 \<and> ps_ok (absStore t1) \<and> roomy t (absStore t1) n \<and>
    q \<in> ps_avail (absStore t) \<and> q \<notin> ps_avail (absStore t1) \<and> ps_live (absStore t1) q \<and> ps_root (absStore t1) = q \<and>
    ps_avail (absStore t1) \<subseteq> ps_avail (absStore t) \<and> pageHas t pw q [] [pno T] \<and> stored t (absStore t1) T"
proof -
  let ?\<sigma> = "absStore t"
  have s: "storeOk t" "ps_ok ?\<sigma>" "pno T = t_rootPageNum t" "t_rootPage t = pageImg ?\<sigma> (pno T)" "stored t ?\<sigma> T"
    using st(1) by (simp_all add: treeState_def)
  note g = storeOkD(1) [OF s(1)]
  have "length (pw_data (t_rootPage t)) = t_nodePageSize t"
    using pageHasD(5) [OF stored_node [OF s(5)]] s(4) by simp
  then have ne: "pw_data (t_rootPage t) \<noteq> []" using pageSize_pos [OF g] by auto
  obtain q pw0 t1 where a: "allocPageUsingFreePages (t_rootPage t) 0 False t = Inr (q, pw0, t1)" "keeps t t1"
    "evolves {} ?\<sigma> (absStore t1)" "roomy t (absStore t1) n" "q \<in> ps_avail ?\<sigma>" "q \<notin> ps_avail (absStore t1)"
    "ps_live (absStore t1) q" "q < 2 ^ 32" "length (pw_data pw0) = t_nodePageSize t" "getKeysNum pw0 = 0" "\<not> isLeaf pw0"
    using alloc_any [OF s(1,2) st(2) ne, of 0 False] by auto
  let ?pw = "pw0\<lparr>pw_pageNum := q\<rparr>"
  have al: "allocNewRootPage (t_rootPage t) t = Inr (?pw, t1)"
    using a(1) storeOkD(3) [OF s(1)] by (simp add: allocNewRootPage_def checkForOpenStream_def)
  note F = frame_eqD [OF keepsD(2) [OF a(2)]] frame_eqF [OF keepsD(2) [OF a(2)]]
  have v: "pview t1 ?pw q 0 False (kslot t ?pw) (cslot t ?pw)"
    using a(9-11) by (simp add: pview_def getKeysNum_def isLeaf_def nodeInfo_def F)
  have r32: "t_rootPageNum t < 2 ^ 32" by (rule storeOkD(4) [OF s(1)])
  obtain pw where pw: "setCursor t1 ?pw 0 (t_rootPageNum t) = Inr pw"
    "pview t1 pw q 0 False (kslot t ?pw) ((cslot t ?pw)(0 := t_rootPageNum t))"
    using view_setCursor [OF _ v, of 0 "t_rootPageNum t"] storeOkD(1) [OF keepsD(1) [OF a(2)]] r32
    by (auto elim!: runsE)
  have "pageHas t1 pw q [] [pno T]" by (rule view_pageHas [OF pw(2)]) (auto simp: s(3))
  then have h: "pageHas t pw q [] [pno T]" using pageHas_frame [OF keepsD(2) [OF a(2)]] by simp
  have pn: "pw_pageNum pw = q" by (rule pageHasD(1) [OF h])
  have q0: "q \<noteq> 0" using a(7) by (auto simp: ps_live_def)
  obtain t2 where t2: "setAsRoot pw True (t1\<lparr>t_rootPage := pw\<rparr>) = Inr t2" "storeOk t2"
    "frame t2 = frame (t1\<lparr>t_rootPage := pw\<rparr>)" "absStore t2 = (absStore t1)\<lparr>ps_root := q\<rparr>"
    using setAsRoot_ok [of "t1\<lparr>t_rootPage := pw\<rparr>" pw] keepsD(1) [OF a(2)] pn q0 a(8) by auto
  have "sameTree t1 t2" using t2(3) by (auto simp: sameTree_def)
  then have "sameTree t t2" using sameTree_trans [OF sameTree_keeps [OF a(2)]] by blast
  moreover have "t_rootPage t2 = pw" using frame_eqD(11) [OF t2(3)] by simp
  moreover have "ps_ok (absStore t1)" "ps_avail (absStore t1) \<subseteq> ps_avail ?\<sigma>" using a(3) by (simp_all add: evolves_def)
  moreover have "stored t (absStore t1) T" using stored_frame [OF a(3) s(5)] by simp
  ultimately show ?thesis
    using al pw(1) t2(1,2,4) a(4-7) h by (intro exI [of _ q] exI [of _ pw] exI [of _ t2]) simp
qed

end

end
