(* ===== verification/Move_View.thy ===== *)
theory Move_View
  imports Page_View
begin

text \<open>
  The loops of the star variants that move keys and cursors within a page, and the copies
  between pages and allocated buffers, as updates of views.
\<close>

section \<open>Moving within a page\<close>

lemma view_moveKeysDown:
  assumes "geom t" "pview t pw p n leaf K C" "j + m + d \<le> n" "0 < d"
  shows "runs (moveKeysDown t pw d j m)
    (\<lambda>pw. pview t pw p n leaf (\<lambda>l. if j \<le> l \<and> l < j + m then K (l + d) else K l) C)"
  using assms(2,3)
proof (induction m arbitrary: pw j K)
  case 0
  then show ?case by (auto elim!: pview_cong)
next
  case (Suc m)
  have "runs (copyKeyAt t pw j pw (j + d)) (\<lambda>pw. pview t pw p n leaf (K(j := K (j + d))) C)"
    using Suc.prems by (intro view_copyKeyAt [OF assms(1)]) auto
  then show ?case
    unfolding moveKeysDown.simps
  proof (rule runs_bindI)
    fix pw' assume v: "pview t pw' p n leaf (K(j := K (j + d))) C"
    have "runs (moveKeysDown t pw' d (j + 1) m) (\<lambda>pw. pview t pw p n leaf
        (\<lambda>l. if j + 1 \<le> l \<and> l < j + 1 + m then (K(j := K (j + d))) (l + d) else (K(j := K (j + d))) l) C)"
      using Suc.prems(2) by (intro Suc.IH [OF v]) simp
    then show "runs (moveKeysDown t pw' d (j + 1) m)
        (\<lambda>pw. pview t pw p n leaf (\<lambda>l. if j \<le> l \<and> l < j + Suc m then K (l + d) else K l) C)"
      using assms(4) by (auto elim!: runs_mono pview_cong)
  qed
qed

lemma view_copyCursor:
  assumes "geom t" "pview t pw p n leaf K C" "j \<le> n" "i \<le> n"
  shows "runs (copyCursorsAt t pw j pw i 1) (\<lambda>pw. pview t pw p n leaf K (C(j := C i)))"
  by (rule runs_mono [OF view_copyCursorsAt [OF assms(1) assms(2,2), of 1 j i]])
    (use assms in \<open>auto elim!: pview_cong\<close>)

lemma view_moveCursorsDown:
  assumes "geom t" "pview t pw p n leaf K C" "j + m + d \<le> Suc n" "0 < d"
  shows "runs (moveCursorsDown t pw d j m)
    (\<lambda>pw. pview t pw p n leaf K (\<lambda>l. if j \<le> l \<and> l < j + m then C (l + d) else C l))"
  using assms(2,3)
proof (induction m arbitrary: pw j C)
  case 0
  then show ?case by (auto elim!: pview_cong)
next
  case (Suc m)
  have "runs (copyCursorsAt t pw j pw (j + d) 1) (\<lambda>pw. pview t pw p n leaf K (C(j := C (j + d))))"
    using Suc.prems by (intro view_copyCursor [OF assms(1)]) auto
  then show ?case
    unfolding moveCursorsDown.simps
  proof (rule runs_bindI)
    fix pw' assume v: "pview t pw' p n leaf K (C(j := C (j + d)))"
    have "runs (moveCursorsDown t pw' d (j + 1) m) (\<lambda>pw. pview t pw p n leaf K
        (\<lambda>l. if j + 1 \<le> l \<and> l < j + 1 + m then (C(j := C (j + d))) (l + d) else (C(j := C (j + d))) l))"
      using Suc.prems(2) by (intro Suc.IH [OF v]) simp
    then show "runs (moveCursorsDown t pw' d (j + 1) m)
        (\<lambda>pw. pview t pw p n leaf K (\<lambda>l. if j \<le> l \<and> l < j + Suc m then C (l + d) else C l))"
      using assms(4) by (auto elim!: runs_mono pview_cong)
  qed
qed

lemma view_moveKeysUp:
  assumes "geom t" "pview t pw p n leaf K C" "m \<le> n" "0 < d"
  shows "runs (moveKeysUp t pw d m)
    (\<lambda>pw. pview t pw p n leaf (\<lambda>l. if d \<le> l \<and> l < m then K (l - d) else K l) C)"
  using assms(2,3)
proof (induction m arbitrary: pw K)
  case 0
  then show ?case by (auto elim!: pview_cong)
next
  case (Suc j)
  show ?case
  proof (cases "j \<ge> d")
    case True
    have "runs (copyKeyAt t pw j pw (j - d)) (\<lambda>pw. pview t pw p n leaf (K(j := K (j - d))) C)"
      using Suc.prems by (intro view_copyKeyAt [OF assms(1)]) auto
    then show ?thesis
      unfolding moveKeysUp.simps if_P [OF True]
    proof (rule runs_bindI)
      fix pw' assume v: "pview t pw' p n leaf (K(j := K (j - d))) C"
      have "runs (moveKeysUp t pw' d j) (\<lambda>pw. pview t pw p n leaf
          (\<lambda>l. if d \<le> l \<and> l < j then (K(j := K (j - d))) (l - d) else (K(j := K (j - d))) l) C)"
        using Suc.prems(2) by (intro Suc.IH [OF v]) simp
      then show "runs (moveKeysUp t pw' d j)
          (\<lambda>pw. pview t pw p n leaf (\<lambda>l. if d \<le> l \<and> l < Suc j then K (l - d) else K l) C)"
        using True by (auto elim!: runs_mono pview_cong simp: less_Suc_eq)
    qed
  next
    case False
    then show ?thesis using Suc.prems(1) by (auto elim!: pview_cong)
  qed
qed

lemma view_moveCursorsUp:
  assumes "geom t" "pview t pw p n leaf K C" "m \<le> Suc n" "0 < d"
  shows "runs (moveCursorsUp t pw d m)
    (\<lambda>pw. pview t pw p n leaf K (\<lambda>l. if d \<le> l \<and> l < m then C (l - d) else C l))"
  using assms(2,3)
proof (induction m arbitrary: pw C)
  case 0
  then show ?case by (auto elim!: pview_cong)
next
  case (Suc j)
  show ?case
  proof (cases "j \<ge> d")
    case True
    have "runs (copyCursorsAt t pw j pw (j - d) 1) (\<lambda>pw. pview t pw p n leaf K (C(j := C (j - d))))"
      using Suc.prems by (intro view_copyCursor [OF assms(1)]) auto
    then show ?thesis
      unfolding moveCursorsUp.simps if_P [OF True]
    proof (rule runs_bindI)
      fix pw' assume v: "pview t pw' p n leaf K (C(j := C (j - d)))"
      have "runs (moveCursorsUp t pw' d j) (\<lambda>pw. pview t pw p n leaf K
          (\<lambda>l. if d \<le> l \<and> l < j then (C(j := C (j - d))) (l - d) else (C(j := C (j - d))) l))"
        using Suc.prems(2) by (intro Suc.IH [OF v]) simp
      then show "runs (moveCursorsUp t pw' d j)
          (\<lambda>pw. pview t pw p n leaf K (\<lambda>l. if d \<le> l \<and> l < Suc j then C (l - d) else C l))"
        using True by (auto elim!: runs_mono pview_cong simp: less_Suc_eq)
    qed
  next
    case False
    then show ?thesis using Suc.prems(1) by (auto elim!: pview_cong)
  qed
qed

section \<open>Buffers of records\<close>

text \<open>A buffer of \<open>n\<close> records of \<open>r\<close> bytes each.\<close>

definition bufHas :: "nat \<Rightarrow> byte list \<Rightarrow> nat \<Rightarrow> (nat \<Rightarrow> byte list) \<Rightarrow> bool" where
  "bufHas r buf n B \<longleftrightarrow> length buf = r * n \<and> (\<forall>i < n. slice (r * i) r buf = B i)"

lemma bufHas_cong: "bufHas r buf n B \<Longrightarrow> (\<And>i. i < n \<Longrightarrow> B i = B' i) \<Longrightarrow> bufHas r buf n B'"
  by (simp add: bufHas_def)

lemma bufHas_fresh: "bufHas r (replicate (n * r) 0) n (\<lambda>i. slice (r * i) r (replicate (n * r) 0))"
  by (simp add: bufHas_def mult.commute)

lemma record_end: "i + n \<le> (m :: nat) \<Longrightarrow> r * i + r * n \<le> r * m"
  by (metis add_mult_distrib2 mult_le_mono2)

lemma bufHas_write:
  assumes "bufHas r buf n B" "\<forall>k \<in> set ks. length k = r" "j + length ks \<le> n"
  shows "bufHas r (overwrite (r * j) (concat ks) buf) n
    (\<lambda>i. if j \<le> i \<and> i < j + length ks then ks ! (i - j) else B i)"
proof -
  have l: "length (concat ks) = r * length ks" by (rule length_concat_keys [OF assms(2)])
  have b: "length buf = r * n" using assms(1) by (simp add: bufHas_def)
  have "slice (r * i) r (overwrite (r * j) (concat ks) buf) =
      (if j \<le> i \<and> i < j + length ks then ks ! (i - j) else slice (r * i) r buf)" if i: "i < n" for i
  proof (cases "j \<le> i \<and> i < j + length ks")
    case True
    have "r * (i - j) + r \<le> r * length ks" using record_end [of "i - j" 1 "length ks" r] True by (simp add: less_diff_conv2 Suc_le_eq)
    moreover have "r * i = r * j + r * (i - j)" using True by (metis add_mult_distrib2 le_add_diff_inverse)
    ultimately have "slice (r * i) r (overwrite (r * j) (concat ks) buf) = slice (r * (i - j)) r (concat ks)"
      using l by (simp add: slice_overwrite_inside)
    moreover have "i - j < length ks" using True by linarith
    ultimately show ?thesis using True slice_chunk [OF assms(2)] by simp
  next
    case False
    then have "i + 1 \<le> j \<or> j + length ks \<le> i" by auto
    then have "r * i + r \<le> r * j \<or> r * j + r * length ks \<le> r * i"
      using record_end [of i 1 j r] record_end [of j "length ks" i r] by auto
    then have "slice (r * i) r (overwrite (r * j) (concat ks) buf) = slice (r * i) r buf"
      using record_end [of i 1 n r] i b l by (intro slice_overwrite_disj) auto
    then show ?thesis unfolding if_not_P [OF False] .
  qed
  then show ?thesis
    using assms(1,3) record_end [of j "length ks" n r] l b by (simp add: bufHas_def max_def)
qed

lemma bufHas_slice:
  assumes "bufHas r buf n B" "i + m \<le> n"
  shows "slice (r * i) (r * m) buf = concat (map B [i..<i + m])"
proof -
  have "r * i + r * m \<le> length buf" using assms record_end [of i m n r] by (simp add: bufHas_def)
  note c = concat_slices [OF this, symmetric]
  have "map (\<lambda>l. slice (r * i + r * l) r buf) [0..<m] = map (\<lambda>l. B (i + l)) [0..<m]"
  proof (rule map_cong [OF refl])
    fix l assume "l \<in> set [0..<m]"
    then have "i + l < n" using assms(2) by simp
    then have "slice (r * (i + l)) r buf = B (i + l)" using assms(1) unfolding bufHas_def by blast
    then show "slice (r * i + r * l) r buf = B (i + l)" by (simp add: add_mult_distrib2)
  qed
  then show ?thesis unfolding c map_upt_shift by (rule arg_cong)
qed

lemma bufHas_length:
  assumes "bufHas r buf n B" "i < n"
  shows "length (B i) = r"
proof -
  have "slice (r * i) r buf = B i" "length buf = r * n" using assms by (simp_all add: bufHas_def)
  then show ?thesis using record_end [of i 1 n r] assms(2) length_slice [of "r * i" r buf] by simp
qed

lemma view_saveKeys:
  assumes "geom t" "pview t pw p n leaf K C" "i + num \<le> n"
    and b: "bufHas (t_recSize t) buf m B" "j + num \<le> m"
  shows "runs (saveKeys t buf j pw i num)
    (\<lambda>buf. bufHas (t_recSize t) buf m (\<lambda>l. if j \<le> l \<and> l < j + num then K (l - j + i) else B l))"
proof -
  note v = pviewD [OF assms(2)]
  let ?r = "t_recSize t" and ?ks = "map (kslot t pw) [i..<i + num]"
  have l: "\<forall>k \<in> set ?ks. length k = ?r" using length_kslot [OF assms(1) v(2)] assms(3) v(4) by auto
  have "saveKeys t buf j pw i num = Inr (overwrite (?r * j) (concat ?ks) buf)"
  proof (cases "?r * num = 0")
    case True
    then have "concat ?ks = []" using length_concat_keys [OF l] by (simp only: length_map length_upt length_0_conv [symmetric]) simp
    moreover have "?r * j \<le> length buf" using b record_end [of j 0 m ?r] by (simp add: bufHas_def)
    ultimately have "overwrite (?r * j) (concat ?ks) buf = buf" by (simp only: overwrite_nil)
    with True show ?thesis by (simp only: saveKeys_def copyKeys_def memcpy_def simp_thms if_True)
  next
    case False
    have "i < getKeysNum pw" using False assms(3) v(3) by (cases num) auto
    then have g: "getKey t pw i = Some (int (KEYS_OFS + ?r * i))" using getKey_ok assms(1) v(8) by blast
    have s: "KEYS_OFS + ?r * i + ?r * num \<le> length (pw_data pw)"
      using key_end [OF assms(1), of i num] cursors_end [OF assms(1)] v(2,4) assms(3) by simp
    have d: "?r * j + ?r * num \<le> length buf" using b record_end [of j num m ?r] by (simp add: bufHas_def)
    have "slice (KEYS_OFS + ?r * i) (?r * num) (pw_data pw) = concat ?ks"
      using keys_slice [OF assms(1) v(2)] assms(3) v(4) by simp
    then show ?thesis
      using False s d by (simp add: saveKeys_def copyKeys_def memcpy_def g inBuffer_def mult.commute [of j]
          del: of_nat_add of_nat_mult)
  qed
  moreover have "bufHas ?r (overwrite (?r * j) (concat ?ks) buf) m
      (\<lambda>l. if j \<le> l \<and> l < j + num then K (l - j + i) else B l)"
    by (rule bufHas_cong [OF bufHas_write [OF b(1) l]]) (use b(2) v(4,6) assms(3) in \<open>auto simp: add.commute\<close>)
  ultimately show ?thesis by simp
qed

lemma view_loadKeys:
  assumes "geom t" "pview t pw p n leaf K C" "i + num \<le> n"
    and b: "bufHas (t_recSize t) buf m B" "j + num \<le> m"
  shows "runs (loadKeys t pw i buf j num)
    (\<lambda>pw. pview t pw p n leaf (\<lambda>l. if i \<le> l \<and> l < i + num then B (l - i + j) else K l) C)"
proof -
  note v = pviewD [OF assms(2)]
  let ?r = "t_recSize t" and ?ks = "map B [j..<j + num]"
  have l: "\<forall>k \<in> set ?ks. length k = ?r" using bufHas_length [OF b(1)] b(2) by auto
  have e: "KEYS_OFS + ?r * i + ?r * num \<le> length (pw_data pw)"
    using key_end [OF assms(1), of i num] cursors_end [OF assms(1)] v(2,4) assms(3) by simp
  have "loadKeys t pw i buf j num = Inr (putKeys t i ?ks pw)"
  proof (cases "?r * num = 0")
    case True
    then have "concat ?ks = []" using length_concat_keys [OF l] by (simp only: length_map length_upt length_0_conv [symmetric]) simp
    then have "putKeys t i ?ks pw = pw" using e by (simp only: putKeys_def overwrite_nil) simp
    with True show ?thesis by (simp add: loadKeys_def copyKeys_def memcpy_def)
  next
    case False
    have "i < getKeysNum pw" using False assms(3) v(3) by (cases num) auto
    then have g: "getKey t pw i = Some (int (KEYS_OFS + ?r * i))" using getKey_ok assms(1) v(8) by blast
    have "?r * j + ?r * num \<le> length buf" using b record_end [of j num m ?r] by (simp add: bufHas_def)
    then show ?thesis
      using False e bufHas_slice [OF b]
      by (simp add: loadKeys_def copyKeys_def memcpy_def g inBuffer_def mult.commute [of j] putKeys_def
          del: of_nat_add of_nat_mult)
  qed
  moreover have "pview t (putKeys t i ?ks pw) p n leaf (\<lambda>l. if i \<le> l \<and> l < i + num then B (l - i + j) else K l) C"
    by (rule pview_cong [OF view_putKeys [OF assms(1,2) l]]) (use assms(3) v(4) in \<open>auto simp: add.commute\<close>)
  ultimately show ?thesis by simp
qed

text \<open>A buffer of cursors.\<close>

definition curHas :: "byte list \<Rightarrow> nat \<Rightarrow> (nat \<Rightarrow> nat) \<Rightarrow> bool" where
  "curHas buf n D \<longleftrightarrow> bufHas CURSOR_SZ buf n (\<lambda>i. le_enc CURSOR_SZ (D i)) \<and> (\<forall>i < n. D i < 2 ^ 32)"

lemma curHas_fresh: "\<exists>D. curHas (replicate (n * CURSOR_SZ) 0) n D"
proof
  let ?b = "replicate (n * CURSOR_SZ) (0 :: byte)" and ?D = "\<lambda>i. le_dec (slice (CURSOR_SZ * i) CURSOR_SZ (replicate (n * CURSOR_SZ) 0))"
  have l: "length (slice (CURSOR_SZ * i) CURSOR_SZ ?b) = CURSOR_SZ" if "i < n" for i
    using that record_end [of i 1 n CURSOR_SZ] by (simp add: mult.commute)
  have "bufHas CURSOR_SZ ?b n (\<lambda>i. le_enc CURSOR_SZ (?D i))"
    by (rule bufHas_cong [OF bufHas_fresh]) (rule le_enc_dec [symmetric], simp only: l)
  moreover have "\<forall>i < n. ?D i < 2 ^ 32"
  proof (intro allI impI)
    fix i assume "i < n"
    show "?D i < 2 ^ 32"
      using le_dec_less [of "slice (CURSOR_SZ * i) CURSOR_SZ ?b"] l [OF \<open>i < n\<close>] by (simp only: CURSOR_SZ_def) simp
  qed
  ultimately show "curHas ?b n ?D" by (simp add: curHas_def)
qed

lemma view_saveCursors:
  assumes "geom t" "pview t pw p n leaf K C" "i + num \<le> Suc n" "0 < num"
    and b: "curHas buf m D" "j + num \<le> m"
  shows "runs (saveCursors t buf j pw i num)
    (\<lambda>buf. curHas buf m (\<lambda>l. if j \<le> l \<and> l < j + num then C (l - j + i) else D l))"
proof -
  note v = pviewD [OF assms(2)]
  let ?cs = "map (cslot t pw) [i..<i + num]"
  have bb: "bufHas CURSOR_SZ buf m (\<lambda>i. le_enc CURSOR_SZ (D i))" using b(1) by (simp add: curHas_def)
  have s: "t_cursorsOfs t + CURSOR_SZ * i + CURSOR_SZ * num \<le> length (pw_data pw)"
    using cursor_end [OF assms(1), of i num] v(2,4) assms(3) by simp
  have d: "CURSOR_SZ * j + CURSOR_SZ * num \<le> length buf" using bb b(2) record_end [of j num m CURSOR_SZ] by (simp add: bufHas_def)
  have "slice (t_cursorsOfs t + CURSOR_SZ * i) (CURSOR_SZ * num) (pw_data pw) = concat (map (le_enc CURSOR_SZ) ?cs)"
    using cursors_slice [OF assms(1) v(2)] assms(3) v(4) by simp
  moreover have "getCursorPtr t pw i = Inr (int (t_cursorsOfs t + CURSOR_SZ * i))"
    using getCursorPtr_ok [OF assms(1) v(8)] assms(3,4) v(3) by simp
  moreover have "num * CURSOR_SZ \<noteq> 0" using assms(4) by (simp add: layout)
  ultimately have "saveCursors t buf j pw i num = Inr (overwrite (CURSOR_SZ * j) (concat (map (le_enc CURSOR_SZ) ?cs)) buf)"
    using s d by (simp add: saveCursors_def copyCursors_def memcpy_def inBuffer_def mult.commute [of num]
        mult.commute [of j] del: of_nat_add of_nat_mult)
  moreover have "bufHas CURSOR_SZ (overwrite (CURSOR_SZ * j) (concat (map (le_enc CURSOR_SZ) ?cs)) buf) m
      (\<lambda>l. le_enc CURSOR_SZ (if j \<le> l \<and> l < j + num then C (l - j + i) else D l))"
    by (rule bufHas_cong [OF bufHas_write [OF bb]]) (use b(2) v(4,7) assms(3) in \<open>auto simp: add.commute\<close>)
  moreover have "\<forall>l < m. (if j \<le> l \<and> l < j + num then C (l - j + i) else D l) < 2 ^ 32"
    using b(1) pview_cursor [OF assms(1,2)] assms(3) v(4) by (auto simp: curHas_def)
  ultimately show ?thesis by (simp add: curHas_def)
qed

lemma view_loadCursors:
  assumes "geom t" "pview t pw p n leaf K C" "i + num \<le> Suc n" "0 < num"
    and b: "curHas buf m D" "j + num \<le> m"
  shows "runs (loadCursors t pw i buf j num)
    (\<lambda>pw. pview t pw p n leaf K (\<lambda>l. if i \<le> l \<and> l < i + num then D (l - i + j) else C l))"
proof -
  note v = pviewD [OF assms(2)]
  let ?cs = "map D [j..<j + num]"
  have bb: "bufHas CURSOR_SZ buf m (\<lambda>i. le_enc CURSOR_SZ (D i))" using b(1) by (simp add: curHas_def)
  have e: "t_cursorsOfs t + CURSOR_SZ * i + CURSOR_SZ * num \<le> length (pw_data pw)"
    using cursor_end [OF assms(1), of i num] v(2,4) assms(3) by simp
  have d: "CURSOR_SZ * j + CURSOR_SZ * num \<le> length buf" using bb b(2) record_end [of j num m CURSOR_SZ] by (simp add: bufHas_def)
  have "slice (CURSOR_SZ * j) (CURSOR_SZ * num) buf = concat (map (le_enc CURSOR_SZ) ?cs)"
    using bufHas_slice [OF bb b(2)] by (simp add: comp_def)
  moreover have "getCursorPtr t pw i = Inr (int (t_cursorsOfs t + CURSOR_SZ * i))"
    using getCursorPtr_ok [OF assms(1) v(8)] assms(3,4) v(3) by simp
  moreover have "num * CURSOR_SZ \<noteq> 0" using assms(4) by (simp add: layout)
  ultimately have "loadCursors t pw i buf j num = Inr (putCursors t i ?cs pw)"
    using e d by (simp add: loadCursors_def copyCursors_def memcpy_def inBuffer_def mult.commute [of num]
        mult.commute [of j] putCursors_def del: of_nat_add of_nat_mult)
  moreover have "pview t (putCursors t i ?cs pw) p n leaf K (\<lambda>l. if i \<le> l \<and> l < i + num then D (l - i + j) else C l)"
    by (rule pview_cong [OF view_putCursors [OF assms(1,2)]])
      (use b assms(3) v(4) in \<open>auto simp: curHas_def add.commute\<close>)
  ultimately show ?thesis by simp
qed

end
