(* ===== verification/Search_Tree.thy ===== *)
theory Search_Tree
  imports Key_Tree
begin

text \<open>
  Searching in an ordered tree, on the tree itself: which keys and which children of a node can
  hold the keys that a search looks for.  \<open>scan_order\<close> is the contract that \<open>searchAll\<close> relies on:
  from the first key that is not smaller than the probe on, the wanted keys come first.  Both
  byte comparators meet it.
\<close>

section \<open>The children and the keys of a node\<close>

lemma mset_rgt: "length ks = length ls \<Longrightarrow> mset (rgt ks ls) = mset ks + sum_list (map mset ls)"
  by (induction ks ls rule: list_induct2) (simp_all add: ac_simps)

lemma set_rgt: "length ks = length ls \<Longrightarrow> set (rgt ks ls) = set ks \<union> (\<Union>l \<in> set ls. set l)"
  by (induction ks ls rule: list_induct2) auto

lemma sorted_rgt: "length ks = length ls \<Longrightarrow> sorted_wrt P (rgt ks ls) \<Longrightarrow> sorted_wrt P ks"
  by (induction ks ls rule: list_induct2) (auto simp: sorted_wrt_append set_rgt)

lemma nth_in_drop: "l \<le> j \<Longrightarrow> j < length xs \<Longrightarrow> xs ! j \<in> set (drop l xs)"
  by (auto simp: in_set_conv_nth intro!: exI [of _ "j - l"])

lemma mset_contents:
  assumes "length Ts = Suc (length ks)"
  shows "mset (contents leafy (PNode p ks Ts)) =
    (if leafy then {#} else mset ks) + (\<Sum>l < length Ts. mset (contents leafy (Ts ! l)))"
proof -
  obtain U Us where U: "Ts = U # Us" "length ks = length Us" using assms by (cases Ts) auto
  have "mset (contents leafy (PNode p ks Ts)) =
      (if leafy then {#} else mset ks) + sum_list (map (\<lambda>T. mset (contents leafy T)) Ts)"
    using U by (simp add: contents_def mset_rgt mset_concat comp_def)
  also have "sum_list (map (\<lambda>T. mset (contents leafy T)) Ts) = (\<Sum>l < length Ts. mset (contents leafy (Ts ! l)))"
    by (simp add: sum_list_sum_nth atLeast0LessThan)
  finally show ?thesis .
qed

lemma filter_mset_sum: "filter_mset P (\<Sum>l \<in> A. f l) = (\<Sum>l \<in> A. filter_mset P (f l))"
  by (induction A rule: infinite_finite_induct) auto

lemma sum_range:
  fixes f :: "nat \<Rightarrow> 'a multiset"
  assumes "a \<le> b" "b \<le> n" "\<And>l. l < n \<Longrightarrow> l < a \<or> b \<le> l \<Longrightarrow> f l = {#}"
  shows "(\<Sum>l < n. f l) = (\<Sum>l \<in> {a..<b}. f l)"
proof (rule sum.mono_neutral_right)
  show "\<forall>l \<in> {..<n} - {a..<b}. f l = {#}" using assms(3) by auto
qed (use assms(2) in auto)

lemma mset_nth: "mset ks = (\<Sum>l < length ks. {#ks ! l#})"
  by (induction ks rule: rev_induct) (simp_all add: nth_append)

context key_order
begin

text \<open>The keys of a node separate the keys below its children.\<close>

lemma child_le_key:
  assumes T: "tinv less leafy mn mx (Suc h) (PNode p ks Ts)" and l: "l \<le> j" "j < length ks"
    and x: "x \<in> set (inorder (Ts ! l))"
  shows "le x (ks ! j)"
proof -
  have len: "length Ts = Suc (length ks)" and o: "ord (inorder (PNode p ks Ts))"
    using T by (simp_all add: tinv_def)
  have s: "inorder (PNode p ks Ts) = before False l ks Ts @ inorder (Ts ! l) @ after False l ks Ts"
    using inorder_split [OF len, of l p] l by simp
  have "ks ! j \<in> set (after False l ks Ts)"
    using set_rgt [of "drop l ks" "map inorder (drop (Suc l) Ts)"] nth_in_drop [of l j ks] l len
    by (simp add: after_def)
  then show ?thesis using o x unfolding s by (auto simp: sorted_wrt_append)
qed

lemma key_le_child:
  assumes T: "tinv less leafy mn mx (Suc h) (PNode p ks Ts)" and l: "j < l" "l \<le> length ks"
    and x: "x \<in> set (inorder (Ts ! l))"
  shows "le (ks ! j) x"
proof -
  have len: "length Ts = Suc (length ks)" and o: "ord (inorder (PNode p ks Ts))"
    using T by (simp_all add: tinv_def)
  have j: "j \<le> length ks" "j < length ks" using l by simp_all
  have s: "inorder (PNode p ks Ts) = before False j ks Ts @ inorder (Ts ! j) @ after False j ks Ts"
    using inorder_split [OF len j(1)] .
  have a: "after False j ks Ts = ks ! j # inorder (Ts ! Suc j) @ rgt (drop (Suc j) ks) (map inorder (drop (Suc (Suc j)) Ts))"
    using j len by (simp add: after_def Cons_nth_drop_Suc [symmetric])
  have "x \<in> set (inorder (Ts ! Suc j) @ rgt (drop (Suc j) ks) (map inorder (drop (Suc (Suc j)) Ts)))"
  proof (cases "l = Suc j")
    case False
    then have "Ts ! l \<in> set (drop (Suc (Suc j)) Ts)" using l len by (intro nth_in_drop) auto
    then show ?thesis using x len set_rgt [of "drop (Suc j) ks" "map inorder (drop (Suc (Suc j)) Ts)"] by auto
  qed (use x in simp)
  then show ?thesis using o unfolding s a by (auto simp: sorted_wrt_append)
qed

lemma keys_ord:
  assumes T: "tinv less leafy mn mx h (PNode p ks Ts)"
  shows "ord ks"
proof (cases Ts)
  case Nil
  then show ?thesis using T by (simp add: tinv_def)
next
  case (Cons U Us)
  then have "length ks = length Us" using T by (cases h) (auto simp: tinv_def)
  then show ?thesis
    using T Cons sorted_rgt [of ks "map inorder Us" le] by (simp add: tinv_def sorted_wrt_append)
qed

text \<open>A search that stops at key \<open>i\<close>: the keys on its left are smaller.\<close>

lemma left_smaller:
  assumes T: "tinv less leafy mn mx (Suc h) (PNode p ks Ts)" and i: "i \<le> length ks" "\<forall>j < i. less (ks ! j) k"
    and l: "l < i" and x: "x \<in> set (contents leafy (Ts ! l))"
  shows "less x k"
proof -
  have "Ts ! l \<in> set Ts" "bal h (Ts ! l)" using T l i(1) by (auto simp: tinv_def)
  then have "x \<in> set (inorder (Ts ! l))" using x leafKeys_subset by (auto simp: contents_def split: if_splits)
  then have "le x (ks ! l)" using child_le_key [OF T order.refl] l i(1) by simp
  then show ?thesis using i(2) l le_less_trans by blast
qed

lemma right_greater:
  assumes T: "tinv less leafy mn mx (Suc h) (PNode p ks Ts)" and l: "i < l" "l \<le> length ks"
    and x: "x \<in> set (contents leafy (Ts ! l))"
  shows "le (ks ! i) x"
proof -
  have "Ts ! l \<in> set Ts" "bal h (Ts ! l)" using T l by (auto simp: tinv_def)
  then have "x \<in> set (inorder (Ts ! l))" using x leafKeys_subset by (auto simp: contents_def split: if_splits)
  then show ?thesis using key_le_child [OF T l] by simp
qed

text \<open>Where a search in the keys of a node stops.\<close>

definition stops :: "'k list \<Rightarrow> 'k \<Rightarrow> nat \<Rightarrow> bool" where
  "stops ks k i \<longleftrightarrow> i \<le> length ks \<and> (\<forall>j < i. less (ks ! j) k) \<and> (i < length ks \<longrightarrow> le k (ks ! i))"

lemma stopsD:
  assumes "stops ks k i"
  shows "i \<le> length ks" "\<forall>j < i. less (ks ! j) k" "i < length ks \<Longrightarrow> le k (ks ! i)"
  using assms by (auto simp: stops_def)

lemma stops_above: "ord ks \<Longrightarrow> stops ks k i \<Longrightarrow> i \<le> j \<Longrightarrow> j < length ks \<Longrightarrow> le k (ks ! j)"
  by (rule le_trans [OF stopsD(3) ord_nth]) auto

end

section \<open>Searching for one key\<close>

context comparator
begin

lemma no_key:
  assumes o: "ord ks" and i: "stops ks k i" "\<not> (i < length ks \<and> eq k (ks ! i))" and x: "x \<in> set ks"
  shows "\<not> eq k x"
proof -
  obtain j where j: "j < length ks" "x = ks ! j" using x by (auto simp: in_set_conv_nth)
  show ?thesis
  proof (cases "j < i")
    case True
    then show ?thesis using stopsD(2) [OF i(1)] j(2) less_not_eq(2) by blast
  next
    case False
    then have "less k (ks ! i)" using i stopsD(3) [OF i(1)] j(1) eq_iff by auto
    then show ?thesis using less_le_trans [OF _ ord_nth [OF o, of i j]] False j less_not_eq(1) by simp
  qed
qed

text \<open>In a tree with keys in every node, a key that is not on the page is below child \<open>i\<close>.\<close>

lemma search_below:
  assumes T: "tinv less False mn mx (Suc h) (PNode p ks Ts)" and i: "stops ks k i"
    and n: "\<not> (i < length ks \<and> eq k (ks ! i))"
  shows "(\<exists>x \<in> set (contents False (PNode p ks Ts)). eq k x) \<longleftrightarrow> (\<exists>x \<in> set (contents False (Ts ! i)). eq k x)"
proof -
  have len: "length Ts = Suc (length ks)" using T by (simp add: tinv_def)
  have "set_mset (mset (contents False (PNode p ks Ts))) = set ks \<union> (\<Union>l < length Ts. set (contents False (Ts ! l)))"
    unfolding mset_contents [OF len] by (simp add: set_mset_sum)
  then have c: "set (contents False (PNode p ks Ts)) = set ks \<union> (\<Union>l < length Ts. set (contents False (Ts ! l)))"
    by simp
  have "\<not> eq k x" if "l < length Ts" "x \<in> set (contents False (Ts ! l))" "l \<noteq> i" for l x
  proof (cases "l < i")
    case True
    then show ?thesis using left_smaller [OF T stopsD(1,2) [OF i]] that less_not_eq(2) by blast
  next
    case False
    then have l: "i < l" "l \<le> length ks" using that len by simp_all
    then have "less k (ks ! i)" using n stopsD(3) [OF i] eq_iff by auto
    then show ?thesis using less_le_trans right_greater [OF T l that(2)] less_not_eq(1) by blast
  qed
  moreover have "i < length Ts" using len stopsD(1) [OF i] by simp
  ultimately show ?thesis unfolding c using no_key [OF keys_ord [OF T] i n] by blast
qed

text \<open>In a tree with keys in the leaves only, the router keys lead to child \<open>i\<close>.\<close>

lemma search_routed:
  assumes T: "tinv less True mn mx (Suc h) (PNode p ks Ts)" and i: "stops ks k i"
  shows "(\<exists>x \<in> set (contents True (PNode p ks Ts)). eq k x) \<longleftrightarrow> (\<exists>x \<in> set (contents True (Ts ! i)). eq k x)"
proof -
  have len: "length Ts = Suc (length ks)" using T by (simp add: tinv_def)
  then have c: "set (contents True (PNode p ks Ts)) = (\<Union>l < length Ts. set (contents True (Ts ! l)))"
    by (auto simp: contents_def set_conv_nth [of Ts])
  have r: "\<exists>y \<in> set (contents True (Ts ! i)). eq k y"
    if "l < length Ts" "x \<in> set (contents True (Ts ! l))" "l \<noteq> i" "eq k x" for l x
  proof (cases "l < i")
    case True
    then show ?thesis using left_smaller [OF T stopsD(1,2) [OF i]] that less_not_eq(2) by blast
  next
    case False
    then have l: "i < l" "l \<le> length ks" "i < length ks" using that len by simp_all
    then have "eq k (ks ! i)"
      using right_greater [OF T l(1,2) that(2)] stopsD(3) [OF i] that(4) le_trans by (meson eq_iff)
    moreover obtain y where y: "y \<in> set (leafKeys (Ts ! i))" "le (ks ! i) y"
      using T l(3) len by (auto simp: tinv_def)
    moreover have "le y (ks ! i)"
    proof -
      have "bal h (Ts ! i)" using T l(3) len by (auto simp: tinv_def)
      then show ?thesis using child_le_key [OF T order.refl l(3), of y] leafKeys_subset y(1) by blast
    qed
    ultimately show ?thesis using eq_trans [of k "ks ! i" y] eq_iff by (auto simp: contents_def)
  qed
  moreover have "i < length Ts" using len stopsD(1) [OF i] by simp
  ultimately show ?thesis unfolding c by blast
qed

end

section \<open>Searching for all keys\<close>

locale scan_order = key_order less for less :: "'k \<Rightarrow> 'k \<Rightarrow> bool" +
  fixes eq :: "'k \<Rightarrow> 'k \<Rightarrow> bool"
  assumes scan: "le k x \<Longrightarrow> le x y \<Longrightarrow> eq k y \<Longrightarrow> eq k x"
begin

abbreviation hit :: "'k \<Rightarrow> 'k \<Rightarrow> bool" where
  "hit k x \<equiv> le k x \<and> eq k x"

text \<open>A scan of the keys from \<open>i\<close> to \<open>j\<close>.\<close>

definition scanned :: "'k list \<Rightarrow> 'k \<Rightarrow> nat \<Rightarrow> nat \<Rightarrow> bool" where
  "scanned ks k i j \<longleftrightarrow> stops ks k i \<and> i \<le> j \<and> j \<le> length ks \<and> (j < length ks \<longrightarrow> \<not> eq k (ks ! j))"

definition picked :: "'k list \<Rightarrow> 'k \<Rightarrow> nat \<Rightarrow> 'k multiset" where
  "picked ks k l = (if eq k (ks ! l) then {#ks ! l#} else {#})"

lemma scan_keys:
  assumes o: "ord ks" and s: "scanned ks k i j"
  shows "filter_mset (hit k) (mset ks) = (\<Sum>l \<in> {i..<j}. picked ks k l)"
proof -
  have i: "stops ks k i" "i \<le> j" "j \<le> length ks" using s by (simp_all add: scanned_def)
  have "filter_mset (hit k) (mset ks) = (\<Sum>l < length ks. filter_mset (hit k) {#ks ! l#})"
    by (subst mset_nth) (simp only: filter_mset_sum)
  also have "\<dots> = (\<Sum>l \<in> {i..<j}. filter_mset (hit k) {#ks ! l#})"
  proof (rule sum_range [OF i(2,3)])
    fix l assume l: "l < length ks" "l < i \<or> j \<le> l"
    have "\<not> hit k (ks ! l)"
    proof (cases "l < i")
      case False
      then have j: "j \<le> l" "j < length ks" using l by simp_all
      then show ?thesis
        using scan [of "ks ! j" k "ks ! l"] stops_above [OF o i(1,2) j(2)] ord_nth [OF o j(1) l(1)] s
        by (auto simp: scanned_def)
    qed (use stopsD(2) [OF i(1)] in blast)
    then show "filter_mset (hit k) {#ks ! l#} = {#}" by auto
  qed
  also have "\<dots> = (\<Sum>l \<in> {i..<j}. picked ks k l)"
    using stops_above [OF o i(1)] i(3) by (intro sum.cong) (auto simp: picked_def)
  finally show ?thesis .
qed

lemma scan_node:
  assumes T: "tinv less leafy mn mx (Suc h) (PNode p ks Ts)" and s: "scanned ks k i j"
  shows "filter_mset (hit k) (mset (contents leafy (PNode p ks Ts))) =
    (if leafy then {#} else \<Sum>l \<in> {i..<j}. picked ks k l) +
    (\<Sum>l \<in> {i..<Suc j}. filter_mset (hit k) (mset (contents leafy (Ts ! l))))"
proof -
  have len: "length Ts = Suc (length ks)" using T by (simp add: tinv_def)
  have i: "stops ks k i" "i \<le> j" "j \<le> length ks" using s by (simp_all add: scanned_def)
  note o = keys_ord [OF T]
  have "(\<Sum>l < length Ts. filter_mset (hit k) (mset (contents leafy (Ts ! l)))) =
      (\<Sum>l \<in> {i..<Suc j}. filter_mset (hit k) (mset (contents leafy (Ts ! l))))"
  proof (rule sum_range)
    fix l assume l: "l < length Ts" "l < i \<or> Suc j \<le> l"
    have "\<not> hit k x" if x: "x \<in> set (contents leafy (Ts ! l))" for x
    proof (cases "l < i")
      case True
      then show ?thesis using left_smaller [OF T stopsD(1,2) [OF i(1)] _ x] by blast
    next
      case False
      then have j: "j < l" "l \<le> length ks" "j < length ks" using l len by simp_all
      then show ?thesis
        using scan [of "ks ! j" k x] stops_above [OF o i(1,2) j(3)] right_greater [OF T j(1,2) x] s
        by (auto simp: scanned_def)
    qed
    then show "filter_mset (hit k) (mset (contents leafy (Ts ! l))) = {#}"
      by (simp add: filter_empty_conv flip: mset_filter)
  qed (use i len in simp_all)
  then show ?thesis
    using scan_keys [OF o s] unfolding mset_contents [OF len] by (simp add: filter_mset_sum)
qed

end

sublocale comparator \<subseteq> scan_order
proof
  show "eq k x" if "le k x" "le x y" "eq k y" for k x y
    using that le_trans eq_iff by meson
qed

end
