(* ===== verification/Pair_Tree.thy ===== *)
theory Pair_Tree
  imports Search_Tree
begin

text \<open>
  Rearranging two neighbouring children, on the tree: join them into one large node and split
  that node anew, at one position (sharing keys between siblings) or at two (two children into
  three).  The node in between is larger than a page and never stored.
\<close>

definition joinedTree :: "nat \<Rightarrow> 'k list \<Rightarrow> 'k ptree list \<Rightarrow> nat \<Rightarrow> 'k list \<Rightarrow> 'k ptree list \<Rightarrow> 'k ptree" where
  "joinedTree p ks Ts i ms Us = PNode p (take i ks @ ms @ drop (Suc i) ks) (take i Ts @ Us @ drop (Suc (Suc i)) Ts)"

lemma weave_append:
  assumes "length ls = Suc (length ks)" "length ls' = Suc (length ks')"
  shows "weave (ls @ ls') (ks @ k # ks') = weave ls ks @ k # weave ls' ks'"
  using weave_cut [of "ls @ ls'" "ks @ k # ks'" "length ks"] assms by (simp add: nth_append)

lemma two_of_list: "Suc i < length xs \<Longrightarrow> xs = take i xs @ xs ! i # xs ! Suc i # drop (Suc (Suc i)) xs"
  by (metis Cons_nth_drop_Suc Suc_lessD append_take_drop_id)

lemma pair_inorder:
  assumes "length Ts = Suc (length ks)" "i < length ks"
  shows "inorder (PNode p ks Ts) = before False i ks Ts @ inorder (Ts ! i) @ ks ! i # inorder (Ts ! Suc i) @
    rgt (drop (Suc i) ks) (map inorder (drop (Suc (Suc i)) Ts))"
  using inorder_split [of Ts ks i p] assms by (simp add: after_def Cons_nth_drop_Suc [symmetric])

lemma joined_inorder:
  assumes "length Ts = Suc (length ks)" "i < length ks"
  shows "inorder (joinedTree p ks Ts i [] [P]) = before False i ks Ts @ inorder P @
    rgt (drop (Suc i) ks) (map inorder (drop (Suc (Suc i)) Ts))"
  using inorder_split [of "take i Ts @ [P] @ drop (Suc (Suc i)) Ts" "take i ks @ drop (Suc i) ks" i p] assms
  by (simp add: joinedTree_def before_def after_def nth_append)

lemma pair_leafKeys:
  assumes "length Ts = Suc (length ks)" "i < length ks"
  shows "leafKeys (PNode p ks Ts) = concat (map leafKeys (take i Ts)) @ leafKeys (Ts ! i) @ leafKeys (Ts ! Suc i) @
    concat (map leafKeys (drop (Suc (Suc i)) Ts))"
proof -
  have "leafKeys (PNode p ks Ts) = concat (map leafKeys Ts)" using assms by auto
  also have "\<dots> = concat (map leafKeys (take i Ts @ Ts ! i # Ts ! Suc i # drop (Suc (Suc i)) Ts))"
    using two_of_list [of i Ts] assms by simp
  finally show ?thesis by simp
qed

lemma joined_leafKeys:
  "leafKeys (joinedTree p ks Ts i [] [P]) = concat (map leafKeys (take i Ts)) @ leafKeys P @
    concat (map leafKeys (drop (Suc (Suc i)) Ts))"
  by (simp add: joinedTree_def)

context key_order
begin

text \<open>A tree in which children \<open>i\<close> and \<open>i + 1\<close> are replaced by the node \<open>P\<close> with their contents.\<close>

definition joined ::
  "bool \<Rightarrow> (bool \<Rightarrow> nat) \<Rightarrow> (bool \<Rightarrow> nat) \<Rightarrow> nat \<Rightarrow> nat \<Rightarrow> 'k list \<Rightarrow> 'k ptree list \<Rightarrow> nat \<Rightarrow> 'k ptree \<Rightarrow> bool" where
  "joined leafy mn mx h p ks Ts i P \<longleftrightarrow>
     tinv less leafy mn mx (Suc h) (joinedTree p ks Ts i [] [P]) \<and> tinv less leafy mn mx h P \<and>
     contents leafy (joinedTree p ks Ts i [] [P]) = contents leafy (PNode p ks Ts) \<and>
     set (inorder (joinedTree p ks Ts i [] [P])) \<subseteq> set (inorder (PNode p ks Ts))"

text \<open>Router keys of a tree with children joined.\<close>

lemma routed_joined:
  assumes r: "routed less (PNode p ks Ts)" and len: "length Ts = Suc (length ks)" and i: "i < length ks"
    and P: "routed less P" "set (leafKeys (Ts ! Suc i)) \<subseteq> set (leafKeys P)"
  shows "routed less (joinedTree p ks Ts i [] [P])"
proof -
  let ?ks = "take i ks @ drop (Suc i) ks" and ?Ts = "take i Ts @ P # drop (Suc (Suc i)) Ts"
  have old: "\<exists>y \<in> set (leafKeys (Ts ! l)). le (ks ! l) y" if "l < length ks" for l
    using r len that by auto
  have "\<exists>y \<in> set (leafKeys (?Ts ! j)). le (?ks ! j) y" if j: "j < length ?ks" for j
  proof -
    consider "j < i" | "j = i" | "i < j" by linarith
    then show ?thesis
    proof cases
      case 1
      then show ?thesis using old [of j] i len by (simp add: nth_append)
    next
      case 2
      then have "Suc i < length ks" using j i by simp
      then have "\<exists>y \<in> set (leafKeys P). le (ks ! Suc i) y" using old [of "Suc i"] P(2) by blast
      then show ?thesis using 2 i len by (simp add: nth_append)
    next
      case 3
      then show ?thesis using old [of "Suc j"] j i len by (auto simp: nth_append nth_Cons')
    qed
  qed
  moreover have "\<forall>V \<in> set ?Ts. routed less V"
    using r P(1) by (auto dest: in_set_takeD in_set_dropD)
  ultimately show ?thesis by (simp add: joinedTree_def)
qed

lemma joinedI:
  assumes T: "tinv less leafy mn mx (Suc h) (PNode p ks Ts)" and i: "i < length ks"
    and P: "tinv less leafy mn mx h P" "mx \<le> mx'" "mn (pkids P = []) \<le> length (pkeys P)" "length (pkeys P) \<le> mx' (pkids P = [])"
    and io: "inorder P = inorder (Ts ! i) @ ks ! i # inorder (Ts ! Suc i) \<or>
        leafy \<and> inorder P = inorder (Ts ! i) @ inorder (Ts ! Suc i)"
    and lk: "leafy \<Longrightarrow> leafKeys P = leafKeys (Ts ! i) @ leafKeys (Ts ! Suc i)"
  shows "joined leafy mn mx' h p ks Ts i P"
proof -
  let ?T = "joinedTree p ks Ts i [] [P]"
  have len: "length Ts = Suc (length ks)" and o: "ord (inorder (PNode p ks Ts))"
    and kids: "\<forall>U \<in> set Ts. bal h U" using T by (simp_all add: tinv_def)
  note e = pair_inorder [OF len i, of p] joined_inorder [OF len i, of p P]
  have "ord (inorder ?T)" using o io unfolding e by (auto simp: sorted_wrt_append)
  moreover have "bal (Suc h) ?T"
    using kids P(1) i len by (auto simp: joinedTree_def tinv_def dest: in_set_takeD in_set_dropD)
  moreover have "sized mn mx' ?T"
  proof -
    have "sized mn mx (PNode p ks Ts)" using T unfolding tinv_def by blast
    from sized_mono [OF this P(2)] have "sized mn mx' (PNode p ks Ts)" .
    moreover have "sized mn mx' P" using tinv_mono [OF P(1,2)] unfolding tinv_def by blast
    ultimately show ?thesis using P(3,4) by (auto simp: joinedTree_def dest: in_set_takeD in_set_dropD)
  qed
  moreover have "routed less ?T" if l: leafy
    using T P(1) l lk by (intro routed_joined [OF _ len i]) (auto simp: tinv_def simp del: routed.simps)
  ultimately have "tinv less leafy mn mx' (Suc h) ?T" unfolding tinv_def by blast
  moreover have "contents leafy ?T = contents leafy (PNode p ks Ts)"
    using io lk unfolding contents_def e pair_leafKeys [OF len i] joined_leafKeys by auto
  moreover have "set (inorder ?T) \<subseteq> set (inorder (PNode p ks Ts))" using io unfolding e by auto
  ultimately show ?thesis using tinv_mono [OF P(1,2)] by (simp add: joined_def)
qed

text \<open>Two leaves of a plus variant: the key between them is a copy and disappears.\<close>

lemma joined_leaves:
  assumes T: "tinv less True mn mx (Suc 0) (PNode p ks Ts)" and i: "i < length ks"
    and A: "Ts ! i = PNode a us []" and B: "Ts ! Suc i = PNode b ws []"
    and mx: "mx \<le> mx'" "length us + length ws \<le> mx' True"
  shows "joined True mn mx' 0 p ks Ts i (PNode a (us @ ws) [])"
proof (rule joinedI [OF T i _ mx(1)])
  have len: "length Ts = Suc (length ks)" and o: "ord (inorder (PNode p ks Ts))" using T by (simp_all add: tinv_def)
  have "ord (us @ ws)"
    using o unfolding pair_inorder [OF len i] by (auto simp: A B sorted_wrt_append)
  then show "tinv less True mn mx 0 (PNode a (us @ ws) [])" by (simp add: tinv_def)
  have "Ts ! i \<in> set Ts" using i len by simp
  then have "mn (pkids (Ts ! i) = []) \<le> length (pkeys (Ts ! i))" using T by (simp add: tinv_def)
  then show "mn (pkids (PNode a (us @ ws) []) = []) \<le> length (pkeys (PNode a (us @ ws) []))" by (simp add: A)
qed (use mx in \<open>simp_all add: A B\<close>)

text \<open>Two nodes around a key.\<close>

lemma inorder_join:
  assumes "bal h (PNode a us Vs)" "bal h (PNode b ws Ws)"
  shows "inorder (PNode a (us @ k # ws) (Vs @ Ws)) = inorder (PNode a us Vs) @ k # inorder (PNode b ws Ws)"
    "bal h (PNode a (us @ k # ws) (Vs @ Ws))"
proof -
  show "inorder (PNode a (us @ k # ws) (Vs @ Ws)) = inorder (PNode a us Vs) @ k # inorder (PNode b ws Ws)"
    using assms weave_append [of "map inorder Vs" us "map inorder Ws" ws k] by (cases h) auto
  show "bal h (PNode a (us @ k # ws) (Vs @ Ws))" using assms by (cases h) auto
qed

lemma routed_join:
  assumes A: "routed less (PNode a us Vs)" "length Vs = Suc (length us)"
    and B: "routed less (PNode b ws Ws)" "length Ws = Suc (length ws)"
    and k: "\<exists>y \<in> set (leafKeys (last Vs)). le k y"
  shows "routed less (PNode a (us @ k # ws) (Vs @ Ws))"
proof -
  have "\<exists>y \<in> set (leafKeys ((Vs @ Ws) ! j)). le ((us @ k # ws) ! j) y" if j: "j < length (us @ k # ws)" for j
  proof -
    consider "j < length us" | "j = length us" | "length us < j" by linarith
    then show ?thesis
    proof cases
      case 1
      then show ?thesis using A by (auto simp: nth_append)
    next
      case 2
      have "Vs \<noteq> []" using A(2) by auto
      then show ?thesis using 2 k A(2) by (simp add: nth_append last_conv_nth)
    next
      case 3
      define l where "l = j - Suc (length us)"
      have "j = Suc (length us) + l" "l < length ws" using 3 j by (simp_all add: l_def)
      then show ?thesis using B A(2) by (auto simp: nth_append)
    qed
  qed
  then show ?thesis using A B by auto
qed

text \<open>The last child of a node has keys that are not smaller than a key that some leaf bounds.\<close>

lemma router_last:
  assumes T: "tinv less True mn mx (Suc h) (PNode a us Vs)" and mn: "\<And>b. 0 < mn b"
    and y: "y \<in> set (leafKeys (PNode a us Vs))" "le k y"
  shows "\<exists>z \<in> set (leafKeys (last Vs)). le k z"
proof -
  have len: "length Vs = Suc (length us)" and ne: "Vs \<noteq> []" using T by (auto simp: tinv_def)
  have last: "last Vs = Vs ! length us" "last Vs \<in> set Vs" using len ne by (simp_all add: last_conv_nth)
  obtain l where l: "l < length Vs" "y \<in> set (leafKeys (Vs ! l))"
    using y(1) ne by (auto simp: set_conv_nth [of Vs])
  show ?thesis
  proof (cases "l = length us")
    case False
    have ba: "bal h (last Vs)" "sized mn mx (last Vs)" "0 < length (pkeys (last Vs))"
      using T last(2) mn [of "pkids (last Vs) = []"] by (auto simp: tinv_def)
    then obtain z where z: "z \<in> set (leafKeys (last Vs))"
      using leafKeys_nonempty [OF mn ba(1,2)] by (cases "leafKeys (last Vs)") auto
    have lu: "l < length us" using l(1) len False by simp
    have "bal h (Vs ! l)" using T l(1) by (auto simp: tinv_def)
    then have "le y (us ! l)" using child_le_key [OF T order.refl lu] leafKeys_subset l(2) by blast
    moreover have "le (us ! l) z"
      using key_le_child [OF T lu order.refl] leafKeys_subset [OF ba(1)] z last(1) by auto
    ultimately show ?thesis using z y(2) le_trans by blast
  qed (use l y last in auto)
qed

lemma joined_nodes:
  assumes T: "tinv less leafy mn mx (Suc h) (PNode p ks Ts)" and i: "i < length ks"
    and A: "Ts ! i = PNode a us Vs" and B: "Ts ! Suc i = PNode b ws Ws"
    and mx: "mx \<le> mx'" "length us + length ws + 1 \<le> mx' (Vs = [])"
    and l: "leafy \<longrightarrow> Vs \<noteq> []" and mn: "\<And>b. 0 < mn b"
  shows "joined leafy mn mx' h p ks Ts i (PNode a (us @ ks ! i # ws) (Vs @ Ws))" (is "joined _ _ _ _ _ _ _ _ ?P")
proof (rule joinedI [OF T i _ mx(1)])
  have len: "length Ts = Suc (length ks)" and o: "ord (inorder (PNode p ks Ts))" using T by (simp_all add: tinv_def)
  have m: "Ts ! i \<in> set Ts" "Ts ! Suc i \<in> set Ts" using i len by simp_all
  have tA: "tinv less leafy mn mx h (PNode a us Vs)" and tB: "tinv less leafy mn mx h (PNode b ws Ws)"
    using tinv_child [OF T m(1)] tinv_child [OF T m(2)] by (simp_all add: A B)
  then have bA: "bal h (PNode a us Vs)" and bB: "bal h (PNode b ws Ws)" by (simp_all add: tinv_def)
  have vw: "(Vs = []) = (Ws = [])" using bA bB by (cases h) auto
  note j = inorder_join [OF bA bB, of "ks ! i"]
  have "ord (inorder ?P)"
    using o unfolding pair_inorder [OF len i] A B j(1) by (auto simp: sorted_wrt_append simp del: inorder.simps)
  moreover have "sized mn mx ?P" using tA tB by (auto simp: tinv_def)
  moreover have "routed less ?P" if lf: leafy
  proof -
    obtain h' where h: "h = Suc h'" using l lf bA by (cases h) auto
    have "\<exists>y \<in> set (leafKeys (PNode a us Vs)). le (ks ! i) y"
      using T lf i len by (auto simp: tinv_def A [symmetric] simp del: leafKeys.simps)
    then obtain y where y: "y \<in> set (leafKeys (PNode a us Vs))" "le (ks ! i) y" by blast
    have "\<exists>z \<in> set (leafKeys (last Vs)). le (ks ! i) z"
      using router_last [OF _ mn y] tA lf h by simp
    then show ?thesis
      using tA tB bA bB lf h by (intro routed_join) (auto simp: tinv_def simp del: routed.simps)
  qed
  ultimately show "tinv less leafy mn mx h ?P" using j(2) unfolding tinv_def by blast
  have "mn (pkids (Ts ! i) = []) \<le> length (pkeys (Ts ! i))" using T m by (simp add: tinv_def)
  then show "mn (pkids ?P = []) \<le> length (pkeys ?P)" using vw by (simp add: A)
  show "length (pkeys ?P) \<le> mx' (pkids ?P = [])" using mx(2) vw by simp
  show "inorder ?P = inorder (Ts ! i) @ ks ! i # inorder (Ts ! Suc i) \<or>
      leafy \<and> inorder ?P = inorder (Ts ! i) @ inorder (Ts ! Suc i)"
    unfolding A B j(1) by blast
  show "leafKeys ?P = leafKeys (Ts ! i) @ leafKeys (Ts ! Suc i)" if leafy
    using that l vw by (simp add: A B)
qed

section \<open>Splitting the joined node\<close>

lemma sized_joined:
  assumes "sized mn mx (PNode p ks Ts)"
    "\<forall>U \<in> set Us. mn (pkids U = []) \<le> length (pkeys U) \<and> length (pkeys U) \<le> mx (pkids U = []) \<and> sized mn mx U"
  shows "sized mn mx (joinedTree p ks Ts i ms Us)"
  using assms by (auto simp: joinedTree_def dest: in_set_takeD in_set_dropD)

lemma tinv_resize: "tinv less leafy mn mx' h T \<Longrightarrow> sized mn mx T \<Longrightarrow> tinv less leafy mn mx h T"
  by (simp add: tinv_def)

text \<open>One split of a child of the joined tree.\<close>

lemma joined_split_child:
  assumes J: "tinv less leafy mn mx (Suc h) (joinedTree p ks Ts i ms Us)"
    and len: "length Ts = Suc (length ks)" "i < length ks" "length Us = Suc (length ms)" and j: "j \<le> length ms"
    and LR: "tinv less leafy mn mx h L" "tinv less leafy mn mx h R"
      "mn (pkids L = []) \<le> length (pkeys L)" "mn (pkids R = []) \<le> length (pkeys R)"
      "length (pkeys L) \<le> mx (pkids L = [])" "length (pkeys R) \<le> mx (pkids R = [])"
    and s: "splits leafy (Us ! j) L m R"
  defines "T' \<equiv> joinedTree p ks Ts i (insertAt j m ms) (splitKids j L R Us)"
  shows "tinv less leafy mn mx (Suc h) T'" "contents leafy T' = contents leafy (joinedTree p ks Ts i ms Us)"
    "set (inorder T') \<subseteq> set (inorder (joinedTree p ks Ts i ms Us))"
proof -
  let ?ks = "take i ks @ ms @ drop (Suc i) ks" and ?Ts = "take i Ts @ Us @ drop (Suc (Suc i)) Ts"
  have e: "PNode p (insertAt (i + j) m ?ks) (splitKids (i + j) L R ?Ts) = T'"
    using len j by (simp add: T'_def joinedTree_def insertAt_def splitKids_def)
  have "?Ts ! (i + j) = Us ! j" "i + j \<le> length ?ks" using len j by (simp_all add: nth_append)
  note sc = split_child [OF J [unfolded joinedTree_def] this(2) LR s [folded this(1)]]
  show "tinv less leafy mn mx (Suc h) T'" "contents leafy T' = contents leafy (joinedTree p ks Ts i ms Us)"
    "set (inorder T') \<subseteq> set (inorder (joinedTree p ks Ts i ms Us))"
    using sc unfolding e joinedTree_def [symmetric] by blast+
qed

text \<open>What a rearrangement of two neighbouring children keeps.\<close>

definition rearranged ::
  "bool \<Rightarrow> (bool \<Rightarrow> nat) \<Rightarrow> (bool \<Rightarrow> nat) \<Rightarrow> nat \<Rightarrow> nat \<Rightarrow> 'k list \<Rightarrow> 'k ptree list \<Rightarrow> 'k ptree \<Rightarrow> bool" where
  "rearranged leafy mn mx h p ks Ts T' \<longleftrightarrow>
     tinv less leafy mn mx (Suc h) T' \<and> contents leafy T' = contents leafy (PNode p ks Ts) \<and>
     set (inorder T') \<subseteq> set (inorder (PNode p ks Ts))"

lemma joined_split:
  assumes J: "joined leafy mn mx' h p ks Ts i P" and T: "tinv less leafy mn mx (Suc h) (PNode p ks Ts)"
    and i: "i < length ks" and mx: "mx \<le> mx'"
    and LR: "tinv less leafy mn mx h L" "tinv less leafy mn mx h R"
      "mn (pkids L = []) \<le> length (pkeys L)" "mn (pkids R = []) \<le> length (pkeys R)"
      "length (pkeys L) \<le> mx (pkids L = [])" "length (pkeys R) \<le> mx (pkids R = [])"
    and s: "splits leafy P L m R"
  shows "rearranged leafy mn mx h p ks Ts (joinedTree p ks Ts i [m] [L, R])"
proof -
  have len: "length Ts = Suc (length ks)" using T by (simp add: tinv_def)
  have m: "length (pkeys L) \<le> mx' (pkids L = [])" "length (pkeys R) \<le> mx' (pkids R = [])"
    using LR(5,6) le_funD [OF mx] order_trans by blast+
  have J0: "tinv less leafy mn mx' (Suc h) (joinedTree p ks Ts i [] [P])" using J by (simp add: joined_def)
  have e: "insertAt 0 m [] = [m]" "splitKids 0 L R [P] = [L, R]" by (simp_all add: insertAt_def splitKids_def)
  note sc = joined_split_child [OF J0 len i, of 0 L R m, unfolded e]
  have "sized mn mx (PNode p ks Ts)" "sized mn mx L" "sized mn mx R" using T LR(1,2) unfolding tinv_def by blast+
  then have sz: "sized mn mx (joinedTree p ks Ts i [m] [L, R])" using LR(3-6) by (intro sized_joined) auto
  show ?thesis
    using sc tinv_mono [OF LR(1) mx] tinv_mono [OF LR(2) mx] LR(3,4) m s tinv_resize [OF _ sz] J
    by (auto simp: rearranged_def joined_def)
qed

lemma joined_split3:
  assumes J: "joined leafy mn mx' h p ks Ts i P" and T: "tinv less leafy mn mx (Suc h) (PNode p ks Ts)"
    and i: "i < length ks" and mx: "mx \<le> mx'"
    and s: "splits leafy P L m Q" "splits leafy Q M m' R"
    and Q: "tinv less leafy mn mx h Q" "mn (pkids Q = []) \<le> length (pkeys Q)" "length (pkeys Q) \<le> mx' (pkids Q = [])"
    and LMR: "\<forall>U \<in> {L, M, R}. tinv less leafy mn mx h U \<and> mn (pkids U = []) \<le> length (pkeys U) \<and>
        length (pkeys U) \<le> mx (pkids U = [])"
  shows "rearranged leafy mn mx h p ks Ts (joinedTree p ks Ts i [m, m'] [L, M, R])"
proof -
  have len: "length Ts = Suc (length ks)" using T by (simp add: tinv_def)
  have big: "tinv less leafy mn mx' h U" "mn (pkids U = []) \<le> length (pkeys U)" "length (pkeys U) \<le> mx' (pkids U = [])"
    if "U \<in> {L, M, R}" for U
    using bspec [OF LMR that] tinv_mono [OF _ mx] le_funD [OF mx] order_trans by blast+
  have J0: "tinv less leafy mn mx' (Suc h) (joinedTree p ks Ts i [] [P])" using J by (simp add: joined_def)
  have e: "insertAt 0 m [] = [m]" "splitKids 0 L Q [P] = [L, Q]"
    "insertAt (Suc 0) m' [m] = [m, m']" "splitKids (Suc 0) M R [L, Q] = [L, M, R]"
    by (simp_all add: insertAt_def splitKids_def)
  note s1 = joined_split_child [OF J0 len i, of 0 L Q m, unfolded e(1,2)]
  have J1: "tinv less leafy mn mx' (Suc h) (joinedTree p ks Ts i [m] [L, Q])"
    "contents leafy (joinedTree p ks Ts i [m] [L, Q]) = contents leafy (joinedTree p ks Ts i [] [P])"
    "set (inorder (joinedTree p ks Ts i [m] [L, Q])) \<subseteq> set (inorder (joinedTree p ks Ts i [] [P]))"
    using s1 big [of L] tinv_mono [OF Q(1) mx] Q(2,3) s(1) by auto
  note s2 = joined_split_child [OF J1(1) len i, of "Suc 0" M R m', unfolded e(3,4)]
  have J2: "tinv less leafy mn mx' (Suc h) (joinedTree p ks Ts i [m, m'] [L, M, R])"
    "contents leafy (joinedTree p ks Ts i [m, m'] [L, M, R]) = contents leafy (joinedTree p ks Ts i [m] [L, Q])"
    "set (inorder (joinedTree p ks Ts i [m, m'] [L, M, R])) \<subseteq> set (inorder (joinedTree p ks Ts i [m] [L, Q]))"
    using s2 big [of M] big [of R] s(2) by auto
  have "sized mn mx (PNode p ks Ts)" "\<forall>U \<in> {L, M, R}. sized mn mx U" using T LMR unfolding tinv_def by blast+
  then have sz: "sized mn mx (joinedTree p ks Ts i [m, m'] [L, M, R])" using LMR by (intro sized_joined) auto
  show ?thesis
    using J1(2,3) J2(2,3) tinv_resize [OF J2(1) sz] J unfolding rearranged_def joined_def by auto
qed

end

end
