(* ===== verification/Pair_Pages.thy ===== *)
theory Pair_Pages
  imports Move_View Pair_Tree
begin

text \<open>
  The pages of two neighbouring children while the star variants share keys between them or
  split them into three: what each page holds at the end, in terms of the joined lists of keys
  and of cursors.
\<close>

lemma pview_has:
  "pageHas t pw p ks cs \<Longrightarrow> pview t pw p (length ks) (cs = []) (\<lambda>i. if i < length ks then ks ! i else kslot t pw i)
    (\<lambda>i. if cs \<noteq> [] \<and> i \<le> length ks then cs ! i else cslot t pw i)"
  by (rule pview_cong [OF pageHas_view]) (auto simp: pageHas_def)

lemma has_grown:
  assumes "geom t" "pageHas t pw p ks cs" "length ks \<le> n" "n \<le> pageKeys t"
  shows "\<exists>K C. pview t (setKeyNum n pw) p n (cs = []) K C \<and> (\<forall>i < length ks. K i = ks ! i) \<and>
    (cs \<noteq> [] \<longrightarrow> (\<forall>i \<le> length ks. C i = cs ! i))"
  using view_setKeyNum [OF assms(1) pageHas_view [OF assms(2)] assms(4)] pageHasD(7,9) [OF assms(2)] by blast

lemma has_setKey:
  assumes "geom t" "pageHas t node p ks cs" "i < length ks" "pageHas t src q us ds" "l < length us"
  shows "\<exists>pw. copyKeyAt t node i src l = Inr pw \<and> pageHas t pw p (ks[i := us ! l]) cs"
proof -
  obtain pw where pw: "copyKeyAt t node i src l = Inr pw"
    "pview t pw p (length ks) (cs = []) ((kslot t node)(i := kslot t src l)) (cslot t node)"
    using view_copyKeyAt [OF assms(1) pageHas_view [OF assms(2)] pageHas_view [OF assms(4)] assms(3,5)] by (rule runsE)
  have "pageHas t pw p (ks[i := us ! l]) cs"
    by (rule view_pageHas [OF pw(2)])
      (use pageHasD(7-9) [OF assms(2)] pageHasD(7) [OF assms(4)] assms(5) in \<open>auto simp: nth_list_update\<close>)
  then show ?thesis using pw(1) by blast
qed

section \<open>Sharing with the left sibling\<close>

text \<open>The left page takes the key between the pages and the first keys of the right page.\<close>

lemma share_left_fill:
  assumes g: "geom t" and left: "pageHas t left a us cs" and node: "pageHas t node p ks ds" "i < length ks"
    and child: "pageHas t child b ws es" and mv: "0 < mv" "mv \<le> length ws" "length us + mv \<le> pageKeys t"
    and leaf: "(cs = []) = (es = [])"
  shows "\<exists>l1 l2 l3. copyKeyAt t (setKeyNum (length us + mv) left) (length us) node i = Inr l1 \<and>
    copyKeysAt t l1 (length us + 1) child 0 (mv - 1) = Inr l2 \<and>
    (if es = [] then Inr l2 else copyCursorsAt t l2 (length us + 1) child 0 mv) = Inr l3 \<and>
    pageHas t l3 a (us @ ks ! i # take (mv - 1) ws) (cs @ take mv es)"
proof -
  let ?n = "length us + mv"
  obtain K C where v: "pview t (setKeyNum ?n left) a ?n (cs = []) K C" "\<forall>i < length us. K i = us ! i"
    "cs \<noteq> [] \<longrightarrow> (\<forall>i \<le> length us. C i = cs ! i)"
    using has_grown [OF g left _ mv(3)] by auto
  let ?kn = "kslot t node i" and ?kc = "kslot t child" and ?cc = "cslot t child"
  obtain l1 where l1: "copyKeyAt t (setKeyNum ?n left) (length us) node i = Inr l1"
    "pview t l1 a ?n (cs = []) (K(length us := ?kn)) C"
    using view_copyKeyAt [OF g v(1) pageHas_view [OF node(1)] _ node(2), of "length us"] mv(1) by (auto elim: runsE)
  have i1: "length us + 1 + (mv - 1) \<le> ?n" "0 + (mv - 1) \<le> length ws" using mv by simp_all
  obtain l2 where l2: "copyKeysAt t l1 (length us + 1) child 0 (mv - 1) = Inr l2"
    "pview t l2 a ?n (cs = []) (\<lambda>l. if length us + 1 \<le> l \<and> l < length us + 1 + (mv - 1)
      then ?kc (l - (length us + 1) + 0) else (K(length us := ?kn)) l) C" (is "pview _ _ _ _ _ ?K2 _")
    using view_copyKeysAt [OF g l1(2) pageHas_view [OF child] i1] by (rule runsE)
  have k: "?K2 l = (us @ ks ! i # take (mv - 1) ws) ! l" if "l < ?n" for l
  proof -
    consider "l < length us" | "l = length us" | "length us < l" by linarith
    then show ?thesis
    proof cases
      case 1
      then show ?thesis using v(2) by (simp add: nth_append)
    next
      case 2
      then show ?thesis using pageHasD(7) [OF node(1,2)] by (simp add: nth_append)
    next
      case 3
      define m where "m = l - (length us + 1)"
      have "l = length us + 1 + m" "m < mv - 1" using 3 that by (simp_all add: m_def)
      moreover from this have "Suc m < mv" "m < length ws" using mv by simp_all
      ultimately show ?thesis using pageHasD(7) [OF child, of m] by (simp add: nth_append)
    qed
  qed
  have len: "length (us @ ks ! i # take (mv - 1) ws) = ?n" using mv by simp
  show ?thesis
  proof (cases "es = []")
    case True
    have "pageHas t l2 a (us @ ks ! i # take (mv - 1) ws) (cs @ take mv es)"
      by (rule view_pageHas [OF l2(2) len]) (use True leaf k in auto)
    then show ?thesis using l1(1) l2(1) True by simp
  next
    case False
    have lc: "length cs = Suc (length us)" "length es = Suc (length ws)"
      using pageHasD(8) [OF left] pageHasD(8) [OF child] False leaf by simp_all
    have i2: "length us + 1 + mv \<le> Suc ?n" "0 + mv \<le> Suc (length ws)" using mv by simp_all
    obtain l3 where l3: "copyCursorsAt t l2 (length us + 1) child 0 mv = Inr l3"
      "pview t l3 a ?n (cs = []) ?K2
        (\<lambda>l. if length us + 1 \<le> l \<and> l < length us + 1 + mv then ?cc (l - (length us + 1) + 0) else C l)"
      using view_copyCursorsAt [OF g l2(2) pageHas_view [OF child] mv(1) i2] by (rule runsE)
    have "pageHas t l3 a (us @ ks ! i # take (mv - 1) ws) (cs @ take mv es)"
    proof (rule view_pageHas [OF l3(2) len])
      fix l assume "l \<le> ?n"
      then show "(if length us + 1 \<le> l \<and> l < length us + 1 + mv then ?cc (l - (length us + 1) + 0) else C l) =
          (cs @ take mv es) ! l"
        using v(3) lc mv False leaf pageHasD(9) [OF child False, of "l - Suc (length us)"] by (auto simp: nth_append)
    qed (use False leaf lc k mv in auto)
    then show ?thesis using l1(1) l2(1) l3(1) False by simp
  qed
qed

text \<open>The right page loses its first keys.\<close>

lemma share_left_drop:
  assumes g: "geom t" and child: "pageHas t child b ws es" and mv: "0 < mv" "mv \<le> length ws"
  shows "\<exists>c1 c2. moveKeysDown t child mv 0 (length ws - mv) = Inr c1 \<and>
    (if es = [] then Inr c1 else moveCursorsDown t c1 mv 0 (length ws - mv + 1)) = Inr c2 \<and>
    pageHas t (setKeyNum (length ws - mv) c2) b (drop mv ws) (drop mv es)"
proof -
  let ?n = "length ws" and ?m = "length ws - mv"
  have m: "0 + ?m + mv \<le> ?n" "?m \<le> pageKeys t" using mv pageHasD(6) [OF child] by simp_all
  obtain c1 where c1: "moveKeysDown t child mv 0 ?m = Inr c1" "pview t c1 b ?n (es = [])
      (\<lambda>l. if 0 \<le> l \<and> l < 0 + ?m then kslot t child (l + mv) else kslot t child l) (cslot t child)"
    (is "pview _ _ _ _ _ ?K _")
    using view_moveKeysDown [OF g pageHas_view [OF child] m(1) mv(1)] by (rule runsE)
  have k: "?K l = drop mv ws ! l" if "l < ?m" for l using that pageHasD(7) [OF child, of "l + mv"] mv by (simp add: add.commute)
  show ?thesis
  proof (cases "es = []")
    case True
    have "pageHas t (setKeyNum ?m c1) b (drop mv ws) (drop mv es)"
      by (rule view_pageHas [OF view_setKeyNum [OF g c1(2) m(2)]]) (use True k in auto)
    then show ?thesis using c1(1) True by simp
  next
    case False
    have lc: "length es = Suc ?n" using pageHasD(8) [OF child False] .
    have m1: "0 + (?m + 1) + mv \<le> Suc ?n" using mv by simp
    obtain c2 where c2: "moveCursorsDown t c1 mv 0 (?m + 1) = Inr c2" "pview t c2 b ?n (es = []) ?K
        (\<lambda>l. if 0 \<le> l \<and> l < 0 + (?m + 1) then cslot t child (l + mv) else cslot t child l)"
      using view_moveCursorsDown [OF g c1(2) m1 mv(1)] by (rule runsE)
    have "pageHas t (setKeyNum ?m c2) b (drop mv ws) (drop mv es)"
      by (rule view_pageHas [OF view_setKeyNum [OF g c2(2) m(2)]])
        (use False lc k mv pageHasD(9) [OF child False] in \<open>auto simp: add.commute\<close>)
    then show ?thesis using c1(1) c2(1) False by simp
  qed
qed

section \<open>Sharing with the right sibling\<close>

text \<open>The right page takes the last keys of the left page and the key between the pages.\<close>

lemma share_right_fill:
  assumes g: "geom t" and right: "pageHas t right b ws es" and node: "pageHas t node p ks ds" "i < length ks"
    and child: "pageHas t child a us cs" and mv: "0 < mv" "cl + mv = length us" "length ws + mv \<le> pageKeys t"
    and leaf: "(cs = []) = (es = [])"
  shows "\<exists>r1 r2 r3 r4 r5. moveKeysUp t (setKeyNum (length ws + mv) right) mv (length ws + mv) = Inr r1 \<and>
    (if cs = [] then Inr r1 else moveCursorsUp t r1 mv (length ws + mv + 1)) = Inr r2 \<and>
    copyKeyAt t r2 (mv - 1) node i = Inr r3 \<and> copyKeysAt t r3 0 child (cl + 1) (mv - 1) = Inr r4 \<and>
    (if cs = [] then Inr r4 else copyCursorsAt t r4 0 child (cl + 1) mv) = Inr r5 \<and>
    pageHas t r5 b (drop (Suc cl) us @ ks ! i # ws) (drop (Suc cl) cs @ es)"
proof -
  let ?n = "length ws + mv" and ?kn = "kslot t node i" and ?kc = "kslot t child" and ?cc = "cslot t child"
  obtain K C where v: "pview t (setKeyNum ?n right) b ?n (es = []) K C" "\<forall>i < length ws. K i = ws ! i"
    "es \<noteq> [] \<longrightarrow> (\<forall>i \<le> length ws. C i = es ! i)"
    using has_grown [OF g right _ mv(3)] by auto
  define K1 C1 where "K1 = (\<lambda>l. if mv \<le> l \<and> l < ?n then K (l - mv) else K l)"
    and "C1 = (if cs = [] then C else (\<lambda>l. if mv \<le> l \<and> l < ?n + 1 then C (l - mv) else C l))"
  obtain r1 where r1: "moveKeysUp t (setKeyNum ?n right) mv ?n = Inr r1" "pview t r1 b ?n (es = []) K1 C"
    using view_moveKeysUp [OF g v(1) order.refl mv(1)] unfolding K1_def by (rule runsE)
  obtain r2 where r2: "(if cs = [] then Inr r1 else moveCursorsUp t r1 mv (?n + 1)) = Inr r2"
    "pview t r2 b ?n (es = []) K1 C1"
    using r1(2) view_moveCursorsUp [OF g r1(2) _ mv(1), of "?n + 1"] by (cases "cs = []") (auto simp: C1_def elim: runsE)
  have i1: "mv - 1 < ?n" using mv(1) by simp
  obtain r3 where r3: "copyKeyAt t r2 (mv - 1) node i = Inr r3" "pview t r3 b ?n (es = []) (K1(mv - 1 := ?kn)) C1"
    using view_copyKeyAt [OF g r2(2) pageHas_view [OF node(1)] i1 node(2)] by (rule runsE)
  have i2: "0 + (mv - 1) \<le> ?n" "cl + 1 + (mv - 1) \<le> length us" using mv by simp_all
  obtain r4 where r4: "copyKeysAt t r3 0 child (cl + 1) (mv - 1) = Inr r4" "pview t r4 b ?n (es = [])
      (\<lambda>l. if 0 \<le> l \<and> l < 0 + (mv - 1) then ?kc (l - 0 + (cl + 1)) else (K1(mv - 1 := ?kn)) l) C1"
    (is "pview _ _ _ _ _ ?K4 _")
    using view_copyKeysAt [OF g r3(2) pageHas_view [OF child] i2] by (rule runsE)
  have len: "length (drop (Suc cl) us @ ks ! i # ws) = ?n" using mv by simp
  have k: "?K4 l = (drop (Suc cl) us @ ks ! i # ws) ! l" if "l < ?n" for l
  proof -
    consider "l < mv - 1" | "l = mv - 1" | "mv - 1 < l" by linarith
    then show ?thesis
    proof cases
      case 1
      then have "l < length us - Suc cl" "cl + 1 + l < length us" using mv by simp_all
      then show ?thesis using 1 pageHasD(7) [OF child, of "cl + 1 + l"] by (simp add: nth_append add.commute)
    next
      case 2
      then have "\<not> l < length us - Suc cl" "l - (length us - Suc cl) = 0" using mv by simp_all
      then show ?thesis using 2 pageHasD(7) [OF node(1,2)] by (simp add: nth_append)
    next
      case 3
      define m where "m = l - mv"
      have l: "l = mv + m" "m < length ws" using 3 that mv by (simp_all add: m_def)
      then have "\<not> l < length us - Suc cl" "l - (length us - Suc cl) = Suc m" using mv by simp_all
      then have "(drop (Suc cl) us @ ks ! i # ws) ! l = ws ! m" by (simp add: nth_append)
      moreover have "mv + m \<noteq> mv - 1" "\<not> mv + m < mv - 1" using mv(1) by simp_all
      ultimately show ?thesis using v(2) mv(1) l by (simp add: K1_def)
    qed
  qed
  show ?thesis
  proof (cases "cs = []")
    case True
    have "pageHas t r4 b (drop (Suc cl) us @ ks ! i # ws) (drop (Suc cl) cs @ es)"
      by (rule view_pageHas [OF r4(2) len]) (use True leaf k in auto)
    then show ?thesis using r1(1) r2(1) r3(1) r4(1) True by simp
  next
    case False
    have lc: "length cs = Suc (length us)" "length es = Suc (length ws)"
      using pageHasD(8) [OF child] pageHasD(8) [OF right] False leaf by simp_all
    have i3: "0 + mv \<le> Suc ?n" "cl + 1 + mv \<le> Suc (length us)" using mv by simp_all
    obtain r5 where r5: "copyCursorsAt t r4 0 child (cl + 1) mv = Inr r5" "pview t r5 b ?n (es = []) ?K4
        (\<lambda>l. if 0 \<le> l \<and> l < 0 + mv then ?cc (l - 0 + (cl + 1)) else C1 l)"
      using view_copyCursorsAt [OF g r4(2) pageHas_view [OF child] mv(1) i3] by (rule runsE)
    have "pageHas t r5 b (drop (Suc cl) us @ ks ! i # ws) (drop (Suc cl) cs @ es)"
    proof (rule view_pageHas [OF r5(2) len])
      fix l assume "l \<le> ?n"
      moreover have "cl + l - length us = l - mv" using mv(2) by simp
      ultimately show "(if 0 \<le> l \<and> l < 0 + mv then ?cc (l - 0 + (cl + 1)) else C1 l) = (drop (Suc cl) cs @ es) ! l"
        using v(3) lc mv False leaf pageHasD(9) [OF child False, of "cl + 1 + l"]
        by (auto simp: nth_append C1_def add.commute)
    qed (use False leaf lc k mv in auto)
    then show ?thesis using r1(1) r2(1) r3(1) r4(1) r5(1) False by simp
  qed
qed

section \<open>Sharing between the leaves of a plus variant\<close>

lemma share_leaf_left:
  assumes g: "geom t" and left: "pageHas t left a us []" and child: "pageHas t child b ws []"
    and mv: "mv \<le> length ws" "length us + mv \<le> pageKeys t"
  shows "\<exists>l1. copyKeysAt t (setKeyNum (length us + mv) left) (length us) child 0 mv = Inr l1 \<and>
    pageHas t l1 a (us @ take mv ws) []"
proof -
  let ?n = "length us + mv"
  obtain K C where v: "pview t (setKeyNum ?n left) a ?n True K C" "\<forall>i < length us. K i = us ! i"
    using has_grown [OF g left _ mv(2)] by auto
  have i: "length us + mv \<le> ?n" "0 + mv \<le> length ws" using mv by simp_all
  obtain l1 where l1: "copyKeysAt t (setKeyNum ?n left) (length us) child 0 mv = Inr l1" "pview t l1 a ?n True
      (\<lambda>l. if length us \<le> l \<and> l < length us + mv then kslot t child (l - length us + 0) else K l) C"
    using view_copyKeysAt [OF g v(1) pageHas_view [OF child] i] by (rule runsE)
  have "pageHas t l1 a (us @ take mv ws) []"
    by (rule view_pageHas [OF l1(2)]) (use v(2) mv pageHasD(7) [OF child] in \<open>auto simp: nth_append\<close>)
  then show ?thesis using l1(1) by blast
qed

lemma share_leaf_right:
  assumes g: "geom t" and right: "pageHas t right b ws []" and child: "pageHas t child a us []"
    and mv: "0 < mv" "cl + mv = length us" "length ws + mv \<le> pageKeys t"
  shows "\<exists>r1 r2. moveKeysUp t (setKeyNum (length ws + mv) right) mv (length ws + mv) = Inr r1 \<and>
    copyKeysAt t r1 0 child cl mv = Inr r2 \<and> pageHas t r2 b (drop cl us @ ws) []"
proof -
  let ?n = "length ws + mv"
  obtain K C where v: "pview t (setKeyNum ?n right) b ?n True K C" "\<forall>i < length ws. K i = ws ! i"
    using has_grown [OF g right _ mv(3)] by auto
  obtain r1 where r1: "moveKeysUp t (setKeyNum ?n right) mv ?n = Inr r1"
    "pview t r1 b ?n True (\<lambda>l. if mv \<le> l \<and> l < ?n then K (l - mv) else K l) C"
    using view_moveKeysUp [OF g v(1) order.refl mv(1)] by (rule runsE)
  have i: "0 + mv \<le> ?n" "cl + mv \<le> length us" using mv by simp_all
  obtain r2 where r2: "copyKeysAt t r1 0 child cl mv = Inr r2" "pview t r2 b ?n True
      (\<lambda>l. if 0 \<le> l \<and> l < 0 + mv then kslot t child (l - 0 + cl) else if mv \<le> l \<and> l < ?n then K (l - mv) else K l) C"
    using view_copyKeysAt [OF g r1(2) pageHas_view [OF child] i] by (rule runsE)
  have d: "length us - cl = mv" using mv(2) by simp
  have "pageHas t r2 b (drop cl us @ ws) []"
    by (rule view_pageHas [OF r2(2)])
      (use v(2) mv d pageHasD(7) [OF child] in \<open>auto simp: nth_append add.commute\<close>)
  then show ?thesis using r1(1) r2(1) by blast
qed

section \<open>Splitting two pages into three\<close>

lemma collectPair_ok:
  assumes g: "geom t" and left: "pageHas t left a us cs" and node: "pageHas t node p ks ds" "i < length ks"
    and right: "pageHas t right b ws es" and leaf: "(cs = []) = (es = [])"
  defines "P \<equiv> us @ ks ! i # ws" and "Q \<equiv> cs @ es"
  shows "\<exists>keys cursors. collectPair t node i left right = Inr (keys, cursors) \<and>
    bufHas (t_recSize t) keys (length P) ((!) P) \<and> (cs \<noteq> [] \<longrightarrow> curHas cursors (Suc (length P)) ((!) Q))"
proof -
  let ?n = "length us" and ?m = "length ws" and ?r = "t_recSize t"
  let ?N = "?n + ?m + 1"
  have num: "getKeysNum left = ?n" "getKeysNum right = ?m" "isLeaf left = (cs = [])"
    using pageHasD(3,4) [OF left] pageHasD(3) [OF right] by simp_all
  have lP: "length P = ?N" by (simp add: P_def)
  define b0 where "b0 = replicate (?N * ?r) (0 :: byte)"
  have B0: "bufHas ?r b0 ?N (\<lambda>l. slice (?r * l) ?r b0)" unfolding b0_def by (rule bufHas_fresh)
  have i: "0 + ?n \<le> ?n" "0 + ?n \<le> ?N" "i + 1 \<le> length ks" "?n + 1 \<le> ?N" "0 + ?m \<le> ?m" "?n + 1 + ?m \<le> ?N"
    using node(2) by simp_all
  obtain b1 where b1: "saveKeys t b0 0 left 0 ?n = Inr b1" "bufHas ?r b1 ?N
      (\<lambda>l. if 0 \<le> l \<and> l < 0 + ?n then kslot t left (l - 0 + 0) else slice (?r * l) ?r b0)"
    using view_saveKeys [OF g pageHas_view [OF left] i(1) B0 i(2)] by (rule runsE)
  obtain b2 where b2: "saveKeys t b1 ?n node i 1 = Inr b2" "bufHas ?r b2 ?N
      (\<lambda>l. if ?n \<le> l \<and> l < ?n + 1 then kslot t node (l - ?n + i)
           else if 0 \<le> l \<and> l < 0 + ?n then kslot t left (l - 0 + 0) else slice (?r * l) ?r b0)"
    using view_saveKeys [OF g pageHas_view [OF node(1)] i(3) b1(2) i(4)] by (rule runsE)
  obtain b3 where b3: "saveKeys t b2 (?n + 1) right 0 ?m = Inr b3" "bufHas ?r b3 ?N
      (\<lambda>l. if ?n + 1 \<le> l \<and> l < ?n + 1 + ?m then kslot t right (l - (?n + 1) + 0)
           else if ?n \<le> l \<and> l < ?n + 1 then kslot t node (l - ?n + i)
           else if 0 \<le> l \<and> l < 0 + ?n then kslot t left (l - 0 + 0) else slice (?r * l) ?r b0)"
    using view_saveKeys [OF g pageHas_view [OF right] i(5) b2(2) i(6)] by (rule runsE)
  have B: "bufHas ?r b3 (length P) ((!) P)"
    unfolding lP by (rule bufHas_cong [OF b3(2)])
      (use pageHasD(7) [OF left] pageHasD(7) [OF right] pageHasD(7) [OF node] in
        \<open>auto simp: P_def nth_append nth_Cons' not_less le_Suc_eq\<close>)
  show ?thesis
  proof (cases "cs = []")
    case True
    have "collectPair t node i left right = Inr (b3, [])"
      by (simp only: collectPair_def Let_def num b0_def [symmetric] b1(1) b2(1) b3(1) bindR_simps True if_True simp_thms)
    then show ?thesis using B True by blast
  next
    case False
    have lc: "length cs = Suc ?n" "length es = Suc ?m"
      using pageHasD(8) [OF left False] pageHasD(8) [OF right] False leaf by simp_all
    define c0 where "c0 = replicate ((?N + 1) * CURSOR_SZ) (0 :: byte)"
    obtain D where D: "curHas c0 (?N + 1) D" using curHas_fresh [of "?N + 1"] unfolding c0_def by blast
    have j: "0 + (?n + 1) \<le> Suc ?n" "0 < ?n + 1" "0 + (?n + 1) \<le> ?N + 1"
      "0 + (?m + 1) \<le> Suc ?m" "0 < ?m + 1" "?n + 1 + (?m + 1) \<le> ?N + 1" by simp_all
    obtain c1 where c1: "saveCursors t c0 0 left 0 (?n + 1) = Inr c1" "curHas c1 (?N + 1)
        (\<lambda>l. if 0 \<le> l \<and> l < 0 + (?n + 1) then cslot t left (l - 0 + 0) else D l)"
      using view_saveCursors [OF g pageHas_view [OF left] j(1,2) D j(3)] by (rule runsE)
    obtain c2 where c2: "saveCursors t c1 (?n + 1) right 0 (?m + 1) = Inr c2" "curHas c2 (?N + 1)
        (\<lambda>l. if ?n + 1 \<le> l \<and> l < ?n + 1 + (?m + 1) then cslot t right (l - (?n + 1) + 0)
             else if 0 \<le> l \<and> l < 0 + (?n + 1) then cslot t left (l - 0 + 0) else D l)"
      using view_saveCursors [OF g pageHas_view [OF right] j(4,5) c1(2) j(6)] by (rule runsE)
    have "curHas c2 (Suc (length P)) ((!) Q)"
    proof -
      have e: "(if ?n + 1 \<le> l \<and> l < ?n + 1 + (?m + 1) then cslot t right (l - (?n + 1) + 0)
          else if 0 \<le> l \<and> l < 0 + (?n + 1) then cslot t left (l - 0 + 0) else D l) = Q ! l" if "l < ?N + 1" for l
        using that lc pageHasD(9) [OF left False] pageHasD(9) [OF right] False leaf
        by (auto simp: Q_def nth_append)
      have "Suc (length P) = ?N + 1" using lP by simp
      then show ?thesis using c2(2) e unfolding curHas_def bufHas_def by simp
    qed
    moreover have "collectPair t node i left right = Inr (b3, c2)"
      by (simp only: collectPair_def Let_def num b0_def [symmetric] c0_def [symmetric] b1(1) b2(1) b3(1) c1(1) c2(1)
          bindR_simps False if_False simp_thms)
    ultimately show ?thesis using B by blast
  qed
qed

lemma fillPage_ok:
  assumes g: "geom t" and v: "pview t pw p num leaf K C" and b: "bufHas (t_recSize t) keys (length P) ((!) P)"
    and c: "\<not> leaf \<Longrightarrow> curHas cursors (Suc (length P)) ((!) Q)" "\<not> leaf \<Longrightarrow> length Q = Suc (length P)"
    and n: "ofs + num \<le> length P"
  shows "\<exists>pw'. fillPage t leaf keys cursors ofs num pw = Inr pw' \<and>
    pageHas t pw' p (take num (drop ofs P)) (if leaf then [] else take (Suc num) (drop ofs Q))"
proof -
  have i: "0 + num \<le> num" by simp
  obtain p1 where p1: "loadKeys t pw 0 keys ofs num = Inr p1" "pview t p1 p num leaf
      (\<lambda>l. if 0 \<le> l \<and> l < 0 + num then P ! (l - 0 + ofs) else K l) C"
    using view_loadKeys [OF g v i b n] by (rule runsE)
  show ?thesis
  proof (cases leaf)
    case True
    have "pageHas t p1 p (take num (drop ofs P)) []"
      by (rule view_pageHas [OF p1(2)]) (use n True in \<open>auto simp: add.commute\<close>)
    then show ?thesis using p1(1) True by (simp add: fillPage_def)
  next
    case False
    have j: "0 + (num + 1) \<le> Suc num" "0 < num + 1" "ofs + (num + 1) \<le> Suc (length P)" using n by simp_all
    obtain p2 where p2: "loadCursors t p1 0 cursors ofs (num + 1) = Inr p2" "pview t p2 p num leaf
        (\<lambda>l. if 0 \<le> l \<and> l < 0 + num then P ! (l - 0 + ofs) else K l)
        (\<lambda>l. if 0 \<le> l \<and> l < 0 + (num + 1) then Q ! (l - 0 + ofs) else C l)"
      using view_loadCursors [OF g p1(2) j(1,2) c(1) [OF False] j(3)] by (rule runsE)
    have "pageHas t p2 p (take num (drop ofs P)) (take (Suc num) (drop ofs Q))"
      by (rule view_pageHas [OF p2(2)]) (use n False c(2) [OF False] in \<open>auto simp: add.commute\<close>)
    then show ?thesis using p1(1) p2(1) False by (simp add: fillPage_def)
  qed
qed

text \<open>The node above: two keys in the place of one, and a new cursor.\<close>

lemma split3_node:
  assumes g: "geom t" and node: "pageHas t node p ks cs" "cs \<noteq> []" "i < length ks" "length ks < pageKeys t"
    and b: "bufHas (t_recSize t) keys (length P) ((!) P)" "l < length P" "l' < length P" and q: "q < 2 ^ 32"
  shows "\<exists>n1 n2 n3 n4 n5. loadKeys t node i keys l 1 = Inr n1 \<and> getKeysNum n1 = length ks \<and>
    shiftKeys t (setKeyNum (length ks + 1) n1) i (length ks) = Inr n2 \<and> loadKeys t n2 (i + 1) keys l' 1 = Inr n3 \<and>
    shiftCursors t n3 (i + 1) (length ks + 1) = Inr n4 \<and> setCursor t n4 (i + 1) q = Inr n5 \<and>
    pageHas t n5 p (take i ks @ [P ! l, P ! l'] @ drop (Suc i) ks) (insertAt (Suc i) q cs)"
proof -
  note h = pageHasD [OF node(1)]
  let ?n = "length ks" and ?K = "kslot t node" and ?C = "cslot t node"
  have j: "i + 1 \<le> ?n" "l + 1 \<le> length P" "l' + 1 \<le> length P" "i + 1 + 1 \<le> ?n + 1" using node(3) b(2,3) by simp_all
  obtain n1 where n1: "loadKeys t node i keys l 1 = Inr n1" "pview t n1 p ?n (cs = [])
      (\<lambda>m. if i \<le> m \<and> m < i + 1 then P ! (m - i + l) else ?K m) ?C" (is "pview _ _ _ _ _ ?K1 _")
    using view_loadKeys [OF g pageHas_view [OF node(1)] j(1) b(1) j(2)] by (rule runsE)
  have v: "pview t (setKeyNum (?n + 1) n1) p (?n + 1) (cs = []) ?K1 ?C"
    using node(4) by (intro view_setKeyNum [OF g n1(2)]) simp
  have hi: "?n < ?n + 1" "?n + 1 \<le> ?n + 1" "i + 1 \<le> ?n + 1" using node(3) by simp_all
  obtain n2 where n2: "shiftKeys t (setKeyNum (?n + 1) n1) i ?n = Inr n2" "pview t n2 p (?n + 1) (cs = [])
      (\<lambda>m. if i < m \<and> m \<le> ?n then ?K1 (m - 1) else ?K1 m) ?C" (is "pview _ _ _ _ _ ?K2 _")
    using view_shiftKeys [OF g v hi(1)] by (rule runsE)
  obtain n3 where n3: "loadKeys t n2 (i + 1) keys l' 1 = Inr n3" "pview t n3 p (?n + 1) (cs = [])
      (\<lambda>m. if i + 1 \<le> m \<and> m < i + 1 + 1 then P ! (m - (i + 1) + l') else ?K2 m) ?C" (is "pview _ _ _ _ _ ?K3 _")
    using view_loadKeys [OF g n2(2) j(4) b(1) j(3)] by (rule runsE)
  obtain n4 where n4: "shiftCursors t n3 (i + 1) (?n + 1) = Inr n4" "pview t n4 p (?n + 1) (cs = []) ?K3
      (\<lambda>m. if i + 1 < m \<and> m \<le> ?n + 1 then ?C (m - 1) else ?C m)" (is "pview _ _ _ _ _ _ ?C4")
    using view_shiftCursors [OF g n3(2) hi(2)] by (rule runsE)
  obtain n5 where n5: "setCursor t n4 (i + 1) q = Inr n5" "pview t n5 p (?n + 1) (cs = []) ?K3 (?C4(i + 1 := q))"
    using view_setCursor [OF g n4(2) hi(3) q] by (rule runsE)
  have "pageHas t n5 p (take i ks @ [P ! l, P ! l'] @ drop (Suc i) ks) (insertAt (Suc i) q cs)"
  proof (rule view_pageHas [OF n5(2)])
    fix m assume m: "m < ?n + 1"
    consider "m < i" | "m = i" | "m = Suc i" | "Suc i < m" by linarith
    then show "?K3 m = (take i ks @ [P ! l, P ! l'] @ drop (Suc i) ks) ! m"
    proof cases
      case 4
      define r where "r = m - Suc (Suc i)"
      have "m = Suc (Suc i) + r" "Suc i + r < ?n" using 4 m by (simp_all add: r_def)
      then show ?thesis using h(7) node(3) by (simp add: nth_append)
    qed (use h(7) node(3) in \<open>simp_all add: nth_append\<close>)
  next
    fix m assume "m \<le> ?n + 1"
    then show "(?C4(i + 1 := q)) m = insertAt (Suc i) q cs ! m"
      using h(8,9) [OF node(2)] node(3) by (auto simp: nth_insertAt)
  qed (use node(2,3) h(8) in simp_all)
  moreover have "getKeysNum n1 = ?n" using n1(2) by (simp add: pview_def)
  ultimately show ?thesis using n1(1) n2(1) n3(1) n4(1) n5(1) by blast
qed

end
