(* ===== verification/Pair_Store.thy ===== *)
theory Pair_Store
  imports Insert_Proofs Pair_Pages
begin

text \<open>
  Rearranged children in the page store: writing the pages of a node and of its new children,
  and what has to be known about them for the new tree to be stored.
\<close>

lemma write_all:
  assumes ok: "storeOk t" "ps_ok (absStore t)" and d: "distinct (map pw_pageNum pws)"
    and l: "\<forall>pw \<in> set pws. ps_live (absStore t) (pw_pageNum pw) \<and> length (pw_data pw) = t_nodePageSize t"
  shows "\<exists>t'. writePages pws t = Inr t' \<and> keeps t t' \<and> evolves (pw_pageNum ` set pws) (absStore t) (absStore t') \<and>
    (\<forall>pw \<in> set pws. pageImg (absStore t') (pw_pageNum pw) = pw) \<and> roomy t (absStore t') = roomy t (absStore t) \<and>
    ps_live (absStore t') = ps_live (absStore t) \<and> ps_avail (absStore t') = ps_avail (absStore t)"
proof -
  obtain t' where t': "writePages pws t = Inr t'" "keeps t t'" "absStore t' = ps_writes pws (absStore t)"
    using write_pages [OF ok(1) l] by blast
  have "evolves (pw_pageNum ` set pws) (absStore t) (absStore t')"
    unfolding t'(3) by (rule evolves_writes [OF ok(2)]) blast
  then show ?thesis
    using t' ps_writes_page [OF d] by (intro exI [of _ t']) (simp add: roomy_def fun_eq_iff)
qed

text \<open>The state and the tree after a rearrangement.\<close>

definition reshaped ::
  "BaseBTree \<Rightarrow> nat \<Rightarrow> nat \<Rightarrow> byte list list \<Rightarrow> byte list ptree list \<Rightarrow> BaseBTree \<Rightarrow> byte list ptree \<Rightarrow> bool" where
  "reshaped t n p ks Ts t' T1 \<longleftrightarrow>
     keeps t t' \<and> evolves (set (pages (PNode p ks Ts))) (absStore t) (absStore t') \<and> roomy t (absStore t') n \<and>
     stored t (absStore t') T1 \<and> distinct (pages T1) \<and>
     set (pages T1) \<subseteq> set (pages (PNode p ks Ts)) \<union> ps_avail (absStore t)"

lemma pair_kids:
  assumes "Suc i < length Ts" "Ts ! i = A" "Ts ! Suc i = B"
  shows "Ts = take i Ts @ A # B # drop (Suc (Suc i)) Ts"
  using two_of_list [OF assms(1)] assms(2,3) by simp

lemma joined_pages:
  assumes "Suc i < length Ts" "Ts ! i = A" "Ts ! Suc i = B"
    and "mset (concat (map pages Us)) = mset (pages A) + mset (pages B) + N"
  shows "mset (pages (joinedTree p ks Ts i ms Us)) = mset (pages (PNode p ks Ts)) + N"
proof -
  have "mset (pages (PNode p ks Ts)) = mset (pages (PNode p ks (take i Ts @ A # B # drop (Suc (Suc i)) Ts)))"
    using pair_kids [OF assms(1-3)] by simp
  then show ?thesis using assms(4) by (simp add: joinedTree_def)
qed

text \<open>The new children are written, the other ones are untouched.\<close>

lemma joined_stored:
  assumes fr: "\<And>W. stored t \<sigma> W \<Longrightarrow> set (pages W) \<inter> {p, a, b} = {} \<Longrightarrow> stored t \<sigma>' W" and kids: "\<forall>T \<in> set Ts. stored t \<sigma> T"
    and d: "distinct (pages (PNode p ks Ts))"
    and i: "Suc i < length Ts" "Ts ! i = PNode a us Vs" "Ts ! Suc i = PNode b ws Ws"
    and U: "\<forall>U \<in> set Us. pageHas t (pageImg \<sigma>' (pno U)) (pno U) (pkeys U) (map pno (pkids U)) \<and>
        ps_live \<sigma>' (pno U) \<and> pno U \<notin> ps_avail \<sigma>' \<and> set (pkids U) \<subseteq> set Vs \<union> set Ws"
    and p: "pageHas t (pageImg \<sigma>' p) p (take i ks @ ms @ drop (Suc i) ks) (map pno (take i Ts @ Us @ drop (Suc (Suc i)) Ts))"
      "ps_live \<sigma>' p" "p \<notin> ps_avail \<sigma>'"
  shows "stored t \<sigma>' (joinedTree p ks Ts i ms Us)"
proof -
  let ?X = "take i Ts" and ?Y = "drop (Suc (Suc i)) Ts"
  have T: "Ts = ?X @ PNode a us Vs # PNode b ws Ws # ?Y" by (rule pair_kids [OF i])
  have dk: "set (pages W) \<inter> {p, a, b} = {}" if W: "W \<in> set ?X \<union> set ?Y \<union> set Vs \<union> set Ws" for W
  proof -
    have "distinct (pages (PNode p ks (?X @ PNode a us Vs # PNode b ws Ws # ?Y)))" using d T by simp
    then show ?thesis using W by auto
  qed
  have old: "stored t \<sigma> W" if W: "W \<in> set ?X \<union> set ?Y \<union> set Vs \<union> set Ws" for W
  proof -
    have "\<forall>W \<in> set (?X @ PNode a us Vs # PNode b ws Ws # ?Y). stored t \<sigma> W" using kids T by simp
    then show ?thesis using W by auto
  qed
  have new: "stored t \<sigma>' W" if "W \<in> set ?X \<union> set ?Y \<union> set Vs \<union> set Ws" for W
    using fr [OF old [OF that] dk [OF that]] .
  have "stored t \<sigma>' U" if "U \<in> set Us" for U
    using U that new by (cases U) (auto dest!: bspec)
  then have "\<forall>W \<in> set (?X @ Us @ ?Y). stored t \<sigma>' W" using new by auto
  then show ?thesis using p by (simp add: joinedTree_def)
qed

lemma joined_reshaped:
  assumes t': "keeps t t'" "evolves {p, a, b} (absStore t) (absStore t')" "roomy t (absStore t') n"
    and T: "stored t (absStore t) (PNode p ks Ts)" "distinct (pages (PNode p ks Ts))"
    and i: "Suc i < length Ts" "Ts ! i = PNode a us Vs" "Ts ! Suc i = PNode b ws Ws"
    and U: "\<forall>U \<in> set Us. pageHas t (pageImg (absStore t') (pno U)) (pno U) (pkeys U) (map pno (pkids U)) \<and>
        ps_live (absStore t') (pno U) \<and> pno U \<notin> ps_avail (absStore t')"
      "set (concat (map pkids Us)) \<subseteq> set Vs \<union> set Ws"
    and p: "pageHas t (pageImg (absStore t') p) p (take i ks @ ms @ drop (Suc i) ks)
        (map pno (take i Ts @ Us @ drop (Suc (Suc i)) Ts))"
    and N: "mset (concat (map pages Us)) = mset (pages (PNode a us Vs)) + mset (pages (PNode b ws Ws)) + mset N"
      "distinct N" "set N \<subseteq> ps_avail (absStore t)"
  shows "reshaped t n p ks Ts t' (joinedTree p ks Ts i ms Us)"
proof -
  let ?T1 = "joinedTree p ks Ts i ms Us"
  have l: "ps_live (absStore t) p" "p \<notin> ps_avail (absStore t)" using T(1) by simp_all
  have l': "ps_live (absStore t') p" "p \<notin> ps_avail (absStore t')"
    using l evolves_live [OF t'(2)] t'(2) by (auto simp: evolves_def)
  have "stored t (absStore t') ?T1"
    using U by (intro joined_stored [OF stored_frame [OF t'(2)] _ T(2) i _ p l']) (use T(1) in auto)
  moreover have m: "mset (pages ?T1) = mset (pages (PNode p ks Ts) @ N)"
    using joined_pages [OF i N(1)] by simp
  have "set (pages (PNode p ks Ts)) \<inter> set N = {}" using stored_pages [OF T(1)] N(3) by blast
  then have "distinct (pages (PNode p ks Ts) @ N)" using T(2) N(2) by (simp del: pages.simps)
  then have "distinct (pages ?T1)" using mset_eq_imp_distinct_iff [OF m] by blast
  moreover have "set (pages ?T1) = set (pages (PNode p ks Ts)) \<union> set N"
    using arg_cong [OF m, of set_mset] by (simp del: pages.simps)
  moreover have "a \<in> set (pages (PNode p ks Ts))" "b \<in> set (pages (PNode p ks Ts))"
    using nth_mem [of i Ts] nth_mem [of "Suc i" Ts] i by force+
  then have "evolves (set (pages (PNode p ks Ts))) (absStore t) (absStore t')"
    by (intro evolves_mono [OF t'(2)]) auto
  ultimately show ?thesis using t' N(3) unfolding reshaped_def by blast
qed

end
