(* ===== verification/Share_Keys.thy ===== *)
theory Share_Keys
  imports Pair_Store
begin

text \<open>
  Sharing keys between a full page and a sibling that is not full, and splitting two siblings
  into three: what the methods of \<open>BaseBStarTree\<close> and \<open>BaseBStarPlusTree\<close> do to the stored
  tree.  The recursive insertion that the methods end with is left open here.
\<close>

lemma SSub_le: "b \<le> a \<Longrightarrow> a < 2 ^ 16 \<Longrightarrow> SSub a b = a - b"
  by (simp add: SSub_def mod_if)

lemma half_up: "s div 2 + (if s mod 2 = 1 then 1 else 0) = (s + 1) div (2 :: nat)"
  by (cases "even s") (auto elim!: evenE oddE)

text \<open>Two neighbouring children of a stored node.\<close>

definition pairAt ::
  "BaseBTree \<Rightarrow> nat \<Rightarrow> byte list list \<Rightarrow> byte list ptree list \<Rightarrow> nat \<Rightarrow> nat \<Rightarrow> byte list list \<Rightarrow> byte list ptree list \<Rightarrow>
   nat \<Rightarrow> byte list list \<Rightarrow> byte list ptree list \<Rightarrow> bool" where
  "pairAt t p ks Ts i a us Vs b ws Ws \<longleftrightarrow>
     storeOk t \<and> ps_ok (absStore t) \<and> stored t (absStore t) (PNode p ks Ts) \<and> distinct (pages (PNode p ks Ts)) \<and>
     i < length ks \<and> length Ts = Suc (length ks) \<and> Ts ! i = PNode a us Vs \<and> Ts ! Suc i = PNode b ws Ws \<and>
     (Vs = []) = (Ws = [])"

lemma pairAtD:
  assumes "pairAt t p ks Ts i a us Vs b ws Ws"
  shows "storeOk t" "ps_ok (absStore t)" "stored t (absStore t) (PNode p ks Ts)" "distinct (pages (PNode p ks Ts))"
    "i < length ks" "length Ts = Suc (length ks)" "Suc i < length Ts" "Ts ! i = PNode a us Vs" "Ts ! Suc i = PNode b ws Ws"
    "(Vs = []) = (Ws = [])" "geom t"
    "pageHas t (pageImg (absStore t) p) p ks (map pno Ts)"
    "pageHas t (pageImg (absStore t) a) a us (map pno Vs)" "pageHas t (pageImg (absStore t) b) b ws (map pno Ws)"
    "\<forall>n \<in> {p, a, b}. ps_live (absStore t) n \<and> n \<notin> ps_avail (absStore t)" "distinct [p, a, b]"
    "Vs \<noteq> [] \<Longrightarrow> length Vs = Suc (length us)" "Ws \<noteq> [] \<Longrightarrow> length Ws = Suc (length ws)"
proof -
  show *: "storeOk t" "ps_ok (absStore t)" "stored t (absStore t) (PNode p ks Ts)" "distinct (pages (PNode p ks Ts))"
    "i < length ks" "length Ts = Suc (length ks)" "Suc i < length Ts" "Ts ! i = PNode a us Vs" "Ts ! Suc i = PNode b ws Ws"
    "(Vs = []) = (Ws = [])"
    using assms by (simp_all add: pairAt_def)
  show "geom t" by (rule storeOkD(1) [OF *(1)])
  have "Ts ! i \<in> set Ts" "Ts ! Suc i \<in> set Ts" using *(7) by simp_all
  then have AB: "stored t (absStore t) (PNode a us Vs)" "stored t (absStore t) (PNode b ws Ws)"
    using *(3) unfolding *(8,9) stored.simps(1) [of t "absStore t" p] by blast+
  show "pageHas t (pageImg (absStore t) p) p ks (map pno Ts)"
    "pageHas t (pageImg (absStore t) a) a us (map pno Vs)" "pageHas t (pageImg (absStore t) b) b ws (map pno Ws)"
    "\<forall>n \<in> {p, a, b}. ps_live (absStore t) n \<and> n \<notin> ps_avail (absStore t)"
    using *(3) AB by simp_all
  then show "Vs \<noteq> [] \<Longrightarrow> length Vs = Suc (length us)" "Ws \<noteq> [] \<Longrightarrow> length Ws = Suc (length ws)"
    using pageHasD(8) by fastforce+
  have "distinct (pages (PNode p ks (take i Ts @ PNode a us Vs # PNode b ws Ws # drop (Suc (Suc i)) Ts)))"
    using *(4) pair_kids [OF *(7-9)] by simp
  then show "distinct [p, a, b]" by auto
qed

text \<open>The joined keys and children of the pair.\<close>

lemma pair_lists:
  assumes "pairAt t p ks Ts i a us Vs b ws Ws"
  shows "length (us @ ks ! i # ws) = Suc (length us + length ws)"
    "Vs \<noteq> [] \<Longrightarrow> length (Vs @ Ws) = Suc (Suc (length us + length ws))"
  using pairAtD(17,18) [OF assms] pairAtD(10) [OF assms] by auto

lemma keyAt_after:
  "frame t' = frame t \<Longrightarrow> geom t \<Longrightarrow> pageHas t pw p ks cs \<Longrightarrow> i < length ks \<Longrightarrow> keyAt t' pw i = Inr (ks ! i)"
  using has_keyAt [of t' pw p ks cs i] pageHas_frame [of t' t] frame_eqF(2) [of t' t] by simp

text \<open>What has to be written to rearrange a pair into two pages again.\<close>

lemma pair_written:
  assumes P: "pairAt t p ks Ts i a us Vs b ws Ws" and r: "roomy t (absStore t) n"
    and pws: "set pws = {node, left, right}" "distinct (map pw_pageNum pws)"
    and img: "pageHas t node p (take i ks @ [m] @ drop (Suc i) ks) (map pno Ts)"
      "pageHas t left a us' (map pno Vs')" "pageHas t right b ws' (map pno Ws')"
    and kids: "Vs' @ Ws' = Vs @ Ws"
  shows "\<exists>t'. writePages pws t = Inr t' \<and> node = pageImg (absStore t') p \<and> left = pageImg (absStore t') a \<and>
    right = pageImg (absStore t') b \<and>
    reshaped t n p ks Ts t' (joinedTree p ks Ts i [m] [PNode a us' Vs', PNode b ws' Ws'])"
proof -
  note D = pairAtD [OF P]
  have num: "pw_pageNum node = p" "pw_pageNum left = a" "pw_pageNum right = b"
    using pageHasD(1) [OF img(1)] pageHasD(1) [OF img(2)] pageHasD(1) [OF img(3)] by simp_all
  have "\<forall>pw \<in> set pws. ps_live (absStore t) (pw_pageNum pw) \<and> length (pw_data pw) = t_nodePageSize t"
    using D(15) num pageHasD(5) [OF img(1)] pageHasD(5) [OF img(2)] pageHasD(5) [OF img(3)] by (simp add: pws(1))
  from write_all [OF D(1,2) pws(2) this]
  obtain t' where t': "writePages pws t = Inr t'" "keeps t t'" "evolves {p, a, b} (absStore t) (absStore t')"
    "\<forall>pw \<in> {node, left, right}. pageImg (absStore t') (pw_pageNum pw) = pw" "roomy t (absStore t') n"
    "ps_live (absStore t') = ps_live (absStore t)" "ps_avail (absStore t') = ps_avail (absStore t)"
    using r by (auto simp: pws(1) num)
  have i: "node = pageImg (absStore t') p" "left = pageImg (absStore t') a" "right = pageImg (absStore t') b"
    using t'(4) by (simp_all add: num)
  let ?Us = "[PNode a us' Vs', PNode b ws' Ws']"
  have "map pno Ts = map pno (take i Ts @ ?Us @ drop (Suc (Suc i)) Ts)"
    using arg_cong [OF pair_kids [OF D(7-9)], of "map pno"] by simp
  then have "pageHas t (pageImg (absStore t') p) p (take i ks @ [m] @ drop (Suc i) ks)
      (map pno (take i Ts @ ?Us @ drop (Suc (Suc i)) Ts))"
    using img(1) i(1) by simp
  moreover have "mset (concat (map pages ?Us)) = mset (pages (PNode a us Vs)) + mset (pages (PNode b ws Ws)) + mset []"
    using arg_cong [OF kids, of "\<lambda>Us. mset (concat (map pages Us))"] by simp
  ultimately have "reshaped t n p ks Ts t' (joinedTree p ks Ts i [m] ?Us)"
    using img(2,3) i D(15) arg_cong [OF kids, of set] t'(6,7)
    by (intro joined_reshaped [OF t'(2,3,5) D(3,4,7-9)]) auto
  then show ?thesis using t'(1) i by blast
qed

section \<open>Sharing around the key between the pages\<close>

abbreviation pairTree ::
  "nat \<Rightarrow> byte list list \<Rightarrow> byte list ptree list \<Rightarrow> nat \<Rightarrow> nat \<Rightarrow> nat \<Rightarrow> byte list list \<Rightarrow> byte list ptree list \<Rightarrow> nat \<Rightarrow>
   byte list ptree" where
  "pairTree p ks Ts i a b P Q j \<equiv> joinedTree p ks Ts i [P ! j]
     [PNode a (take j P) (take (Suc j) Q), PNode b (drop (Suc j) P) (drop (Suc j) Q)]"

lemma BaseBStarTree_shareLeft_ok:
  assumes P: "pairAt t p ks Ts i a us Vs b ws Ws" and r: "roomy t (absStore t) n"
    and full: "isFull t (pageImg (absStore t) b)" "\<not> isFull t (pageImg (absStore t) a)"
    and c: "t_comparator t = Some c" and m: "length us < length ws"
  defines "j \<equiv> (length ws + length us + 1) div 2" and "PP \<equiv> us @ ks ! i # ws"
  shows "\<exists>t'. reshaped t n p ks Ts t' (pairTree p ks Ts i a b PP (Vs @ Ws) j) \<and>
    BaseBStarTree_shareKeysWithLeftChildAndInsert call k (pageImg (absStore t) p) (Suc i) (pageImg (absStore t) b)
      (pageImg (absStore t) a) t =
    (if j = t_maxKeys t \<and> j - length us = 1 \<and> cmp_compare c k (ws ! 0) (t_recSize t)
     then Inr (False, pageImg (absStore t) p, t)
     else bindR (call (if cmp_compare c k (PP ! j) (t_recSize t) then pageImg (absStore t') a else pageImg (absStore t') b) t')
       (\<lambda>(_, t). Inr (True, pageImg (absStore t') p, t)))"
proof -
  note D = pairAtD [OF P]
  let ?s = "absStore t" and ?mv = "j - length us" and ?cl = "length ws - (j - length us)"
  have cap: "length ws \<le> pageKeys t" "pageKeys t < 2 ^ 16" "length ks \<le> pageKeys t"
    using pageHasD(6) [OF D(14)] pageHasD(6) [OF D(12)] geomD(3) [OF D(11)] by (simp_all add: layout)
  have mv: "0 < ?mv" "?mv \<le> length ws" "length us + ?mv = j" "j \<le> length ws" "length us \<le> j"
    using m unfolding j_def by linarith+
  have ss: "SSub j (length us) = ?mv" "SSub (length ws) ?mv = ?cl" "SSub (Suc i) 1 = i" "SSub ?mv 1 = ?mv - 1"
    using mv cap D(5) by (simp_all add: SSub_le)
  have num: "getKeysNum (pageImg ?s b) = length ws" "getKeysNum (pageImg ?s a) = length us"
    "getKeysNum (pageImg ?s p) = length ks" "isLeaf (pageImg ?s b) = (Ws = [])"
    using pageHasD(3,4) [OF D(14)] pageHasD(3) [OF D(13)] pageHasD(3) [OF D(12)] by simp_all
  have k0: "keyAt t (pageImg ?s b) 0 = Inr (ws ! 0)" by (rule has_keyAt [OF D(11,14)]) (use m in linarith)
  have "length us + ?mv \<le> pageKeys t" "(map pno Vs = []) = (map pno Ws = [])" using mv cap D(10) by simp_all
  from share_left_fill [OF D(11,13,12,5,14) mv(1,2) this]
  obtain l1 l2 l3 where l: "copyKeyAt t (setKeyNum j (pageImg ?s a)) (length us) (pageImg ?s p) i = Inr l1"
    "copyKeysAt t l1 (length us + 1) (pageImg ?s b) 0 (?mv - 1) = Inr l2"
    "(if Ws = [] then Inr l2 else copyCursorsAt t l2 (length us + 1) (pageImg ?s b) 0 ?mv) = Inr l3"
    "pageHas t l3 a (us @ ks ! i # take (?mv - 1) ws) (map pno (Vs @ take ?mv Ws))"
    unfolding mv(3) by (auto simp: take_map)
  have lt: "?mv - 1 < length ws" using mv by linarith
  obtain n1 where n1: "copyKeyAt t (pageImg ?s p) i (pageImg ?s b) (?mv - 1) = Inr n1"
    "pageHas t n1 p (ks[i := ws ! (?mv - 1)]) (map pno Ts)"
    using has_setKey [OF D(11,12,5,14) lt] by blast
  obtain c1 c2 where cc: "moveKeysDown t (pageImg ?s b) ?mv 0 ?cl = Inr c1"
    "(if Ws = [] then Inr c1 else moveCursorsDown t c1 ?mv 0 (?cl + 1)) = Inr c2"
    "pageHas t (setKeyNum ?cl c2) b (drop ?mv ws) (map pno (drop ?mv Ws))"
    using share_left_drop [OF D(11,14) mv(1,2)] by (auto simp: drop_map)
  have num2: "pw_pageNum l3 = a" "pw_pageNum (setKeyNum ?cl c2) = b" "pw_pageNum n1 = p"
    using pageHasD(1) [OF l(4)] pageHasD(1) [OF cc(3)] pageHasD(1) [OF n1(2)] by simp_all
  have kj: "PP ! j = ws ! (?mv - 1)" "take j PP = us @ ks ! i # take (?mv - 1) ws" "drop (Suc j) PP = drop ?mv ws"
    using mv by (simp_all add: PP_def nth_append take_Cons' drop_Cons' Suc_diff_le)
  have kq: "take (Suc j) (Vs @ Ws) = Vs @ take ?mv Ws" "drop (Suc j) (Vs @ Ws) = drop ?mv Ws"
    using D(10,17) mv(5) by (cases "Vs = []"; simp add: Suc_diff_le)+
  have "set [l3, setKeyNum ?cl c2, n1] = {n1, l3, setKeyNum ?cl c2}" "distinct (map pw_pageNum [l3, setKeyNum ?cl c2, n1])"
    using D(16) num2 by auto
  moreover have "ks[i := ws ! (?mv - 1)] = take i ks @ [ws ! (?mv - 1)] @ drop (Suc i) ks"
    using D(5) by (simp add: upd_conv_take_nth_drop)
  ultimately obtain t' where t': "writePages [l3, setKeyNum ?cl c2, n1] t = Inr t'" "n1 = pageImg (absStore t') p"
    "l3 = pageImg (absStore t') a" "setKeyNum ?cl c2 = pageImg (absStore t') b"
    "reshaped t n p ks Ts t' (pairTree p ks Ts i a b PP (Vs @ Ws) j)"
    using pair_written [OF P r _ _ _ l(4) cc(3), of "[l3, setKeyNum ?cl c2, n1]" n1 "ws ! (?mv - 1)"] n1(2) unfolding kj kq by auto
  have f: "frame t' = frame t" using t'(5) by (simp add: reshaped_def keeps_def)
  have "keyAt t' n1 i = Inr (PP ! j)"
    using keyAt_after [OF f D(11) n1(2), of i] D(5) kj(1) by simp
  then have kn: "keyAt t' n1 i = Inr (PP ! j)" "t_recSize t' = t_recSize t"
    using frame_eqD [OF f] by simp_all
  define q where "q \<longleftrightarrow> j = t_maxKeys t \<and> ?mv = 1 \<and> cmp_compare c k (ws ! 0) (t_recSize t)"
  have refuse: "(if j = t_maxKeys t \<and> ?mv = 1 then bindR (keyAt t (pageImg ?s b) 0) (\<lambda>x. Inr (cmp_compare c k x (t_recSize t)))
      else Inr False) = Inr q"
    unfolding k0 q_def by auto
  have i: "\<not> length ks < Suc i" using D(5) by simp
  have "BaseBStarTree_shareKeysWithLeftChildAndInsert call k (pageImg ?s p) (Suc i) (pageImg ?s b) (pageImg ?s a) t =
    (if q then Inr (False, pageImg ?s p, t)
     else bindR (call (if cmp_compare c k (PP ! j) (t_recSize t) then l3 else setKeyNum ?cl c2) t') (\<lambda>(_, t). Inr (True, n1, t)))"
    unfolding BaseBStarTree_shareKeysWithLeftChildAndInsert_def Let_def num half_up j_def [symmetric] ss c option.case refuse
    by (simp only: full i if_False simp_thms bindR_simps l(1-3) n1(1) cc(1,2) t'(1) kn)
  then show ?thesis using t' unfolding q_def by auto
qed

lemma BaseBStarTree_shareRight_ok:
  assumes P: "pairAt t p ks Ts i a us Vs b ws Ws" and r: "roomy t (absStore t) n"
    and full: "isFull t (pageImg (absStore t) a)" "\<not> isFull t (pageImg (absStore t) b)"
    and c: "t_comparator t = Some c" and m: "length ws < length us"
  defines "nr \<equiv> (length us + length ws + 1) div 2" and "PP \<equiv> us @ ks ! i # ws"
  defines "j \<equiv> length us - (nr - length ws)"
  shows "\<exists>t'. reshaped t n p ks Ts t' (pairTree p ks Ts i a b PP (Vs @ Ws) j) \<and>
    BaseBStarTree_shareKeysWithRightChildAndInsert call k (pageImg (absStore t) p) i (pageImg (absStore t) a)
      (pageImg (absStore t) b) t =
    (if nr = t_maxKeys t \<and> nr - length ws = 1 \<and> cmp_compare c (us ! (length us - 1)) k (t_recSize t)
     then Inr (False, pageImg (absStore t) p, t)
     else bindR (call (if cmp_compare c (PP ! j) k (t_recSize t) then pageImg (absStore t') b else pageImg (absStore t') a) t')
       (\<lambda>(_, t). Inr (True, pageImg (absStore t') p, t)))"
proof -
  note D = pairAtD [OF P]
  let ?s = "absStore t" and ?mv = "nr - length ws"
  have cap: "length us \<le> pageKeys t" "pageKeys t < 2 ^ 16" "length ks \<le> pageKeys t"
    using pageHasD(6) [OF D(13)] pageHasD(6) [OF D(12)] geomD(3) [OF D(11)] by (simp_all add: layout)
  have mv: "0 < ?mv" "?mv \<le> length us" "length ws + ?mv = nr" "nr \<le> length us" "length ws \<le> nr" "j + ?mv = length us"
    "j < length us"
    using m unfolding j_def nr_def by linarith+
  have ss: "SSub nr (length ws) = ?mv" "SSub (length us) ?mv = j" "SSub ?mv 1 = ?mv - 1" "SSub (length us) 1 = length us - 1"
    using mv cap by (simp_all add: SSub_le j_def)
  have num: "getKeysNum (pageImg ?s b) = length ws" "getKeysNum (pageImg ?s a) = length us"
    "getKeysNum (pageImg ?s p) = length ks" "isLeaf (pageImg ?s a) = (Vs = [])"
    using pageHasD(3) [OF D(14)] pageHasD(3,4) [OF D(13)] pageHasD(3) [OF D(12)] by simp_all
  have k0: "keyAt t (pageImg ?s a) (length us - 1) = Inr (us ! (length us - 1))"
    by (rule has_keyAt [OF D(11,13)]) (use m in linarith)
  have "length ws + ?mv \<le> pageKeys t" "(map pno Vs = []) = (map pno Ws = [])" using mv cap D(10) by simp_all
  from share_right_fill [OF D(11,14,12,5,13) mv(1,6) this]
  obtain r1 r2 r3 r4 r5 where l: "moveKeysUp t (setKeyNum nr (pageImg ?s b)) ?mv nr = Inr r1"
    "(if Vs = [] then Inr r1 else moveCursorsUp t r1 ?mv (nr + 1)) = Inr r2"
    "copyKeyAt t r2 (?mv - 1) (pageImg ?s p) i = Inr r3" "copyKeysAt t r3 0 (pageImg ?s a) (j + 1) (?mv - 1) = Inr r4"
    "(if Vs = [] then Inr r4 else copyCursorsAt t r4 0 (pageImg ?s a) (j + 1) ?mv) = Inr r5"
    "pageHas t r5 b (drop (Suc j) us @ ks ! i # ws) (map pno (drop (Suc j) Vs @ Ws))"
    unfolding mv(3) by (auto simp: drop_map)
  obtain n1 where n1: "copyKeyAt t (pageImg ?s p) i (pageImg ?s a) j = Inr n1"
    "pageHas t n1 p (ks[i := us ! j]) (map pno Ts)"
    using has_setKey [OF D(11,12,5,13) mv(7)] by blast
  let ?c = "setKeyNum j (pageImg ?s a)"
  have cc: "pageHas t ?c a (take j us) (map pno (take (Suc j) Vs))"
    using has_setKeyNum [OF D(11,13), of j] mv(7) by (simp add: take_map)
  have num2: "pw_pageNum r5 = b" "pw_pageNum ?c = a" "pw_pageNum n1 = p"
    using pageHasD(1) [OF l(6)] pageHasD(1) [OF cc] pageHasD(1) [OF n1(2)] by simp_all
  have kj: "PP ! j = us ! j" "take j PP = take j us" "drop (Suc j) PP = drop (Suc j) us @ ks ! i # ws"
    using mv by (simp_all add: PP_def nth_append)
  have kq: "take (Suc j) (Vs @ Ws) = take (Suc j) Vs" "drop (Suc j) (Vs @ Ws) = drop (Suc j) Vs @ Ws"
    using D(10,17) mv(7) by (cases "Vs = []"; simp)+
  have "set [?c, r5, n1] = {n1, ?c, r5}" "distinct (map pw_pageNum [?c, r5, n1])"
    using D(16) num2 by auto
  moreover have "ks[i := us ! j] = take i ks @ [us ! j] @ drop (Suc i) ks"
    using D(5) by (simp add: upd_conv_take_nth_drop)
  ultimately obtain t' where t': "writePages [?c, r5, n1] t = Inr t'" "n1 = pageImg (absStore t') p"
    "?c = pageImg (absStore t') a" "r5 = pageImg (absStore t') b"
    "reshaped t n p ks Ts t' (pairTree p ks Ts i a b PP (Vs @ Ws) j)"
    using pair_written [OF P r _ _ _ cc l(6), of "[?c, r5, n1]" n1 "us ! j"] n1(2) unfolding kj kq by auto
  have f: "frame t' = frame t" using t'(5) by (simp add: reshaped_def keeps_def)
  have "keyAt t' n1 i = Inr (PP ! j)"
    using keyAt_after [OF f D(11) n1(2), of i] D(5) kj(1) by simp
  then have kn: "keyAt t' n1 i = Inr (PP ! j)" "t_recSize t' = t_recSize t"
    using frame_eqD [OF f] by simp_all
  define q where "q \<longleftrightarrow> nr = t_maxKeys t \<and> ?mv = 1 \<and> cmp_compare c (us ! (length us - 1)) k (t_recSize t)"
  have refuse: "(if nr = t_maxKeys t \<and> ?mv = 1
      then bindR (keyAt t (pageImg ?s a) (length us - 1)) (\<lambda>x. Inr (cmp_compare c x k (t_recSize t)))
      else Inr False) = Inr q"
    unfolding k0 q_def by auto
  have i: "\<not> length ks \<le> i" using D(5) by simp
  have "BaseBStarTree_shareKeysWithRightChildAndInsert call k (pageImg ?s p) i (pageImg ?s a) (pageImg ?s b) t =
    (if q then Inr (False, pageImg ?s p, t)
     else bindR (call (if cmp_compare c (PP ! j) k (t_recSize t) then r5 else ?c) t') (\<lambda>(_, t). Inr (True, n1, t)))"
    unfolding BaseBStarTree_shareKeysWithRightChildAndInsert_def Let_def num half_up nr_def [symmetric] ss c option.case refuse
    by (simp only: full i if_False simp_thms bindR_simps l(1-5) n1(1) t'(1) kn)
  then show ?thesis using t' unfolding q_def by auto
qed

section \<open>Two children into three\<close>

text \<open>The tree after the split, at positions \<open>l\<close> and \<open>l + m + 1\<close> of the joined lists.\<close>

abbreviation threeTree ::
  "nat \<Rightarrow> byte list list \<Rightarrow> byte list ptree list \<Rightarrow> nat \<Rightarrow> nat \<Rightarrow> nat \<Rightarrow> nat \<Rightarrow> byte list list \<Rightarrow> byte list ptree list \<Rightarrow>
   nat \<Rightarrow> nat \<Rightarrow> byte list ptree" where
  "threeTree p ks Ts i a q b P Q l m \<equiv> joinedTree p ks Ts i [P ! l, P ! (l + m + 1)]
     [PNode a (take l P) (take (Suc l) Q), PNode q (take m (drop (Suc l) P)) (take (Suc m) (drop (Suc l) Q)),
      PNode b (drop (l + m + 2) P) (drop (l + m + 2) Q)]"

text \<open>The pages of the node and of the three children are written.\<close>

lemma three_written:
  assumes P: "pairAt t p ks Ts i a us Vs b ws Ws"
    and t1: "keeps t t1" "evolves {} (absStore t) (absStore t1)" "roomy t (absStore t1) n" "q \<in> ps_avail (absStore t)"
      "q \<notin> ps_avail (absStore t1)" "ps_live (absStore t1) q"
    and img: "pageHas t node p (take i ks @ ms @ drop (Suc i) ks) (insertAt (Suc i) q (map pno Ts))"
      "pageHas t left a us' (map pno Vs')" "pageHas t middle q xs (map pno Xs)" "pageHas t right b ws' (map pno Ws')"
    and kids: "Vs' @ Xs @ Ws' = Vs @ Ws"
  shows "\<exists>t'. writePages [left, middle, right, node] t1 = Inr t' \<and> node = pageImg (absStore t') p \<and>
    left = pageImg (absStore t') a \<and> middle = pageImg (absStore t') q \<and> right = pageImg (absStore t') b \<and>
    q \<notin> ps_avail (absStore t') \<and>
    reshaped t n p ks Ts t' (joinedTree p ks Ts i ms [PNode a us' Vs', PNode q xs Xs, PNode b ws' Ws'])"
proof -
  note D = pairAtD [OF P]
  let ?pws = "[left, middle, right, node]"
  have num: "pw_pageNum node = p" "pw_pageNum left = a" "pw_pageNum middle = q" "pw_pageNum right = b"
    using pageHasD(1) [OF img(1)] pageHasD(1) [OF img(2)] pageHasD(1) [OF img(3)] pageHasD(1) [OF img(4)] by simp_all
  have ne: "q \<notin> {p, a, b}" using D(15) t1(4) by blast
  have "ps_live (absStore t1) x \<and> x \<notin> ps_avail (absStore t1)" if "x \<in> {p, a, b, q}" for x
    using that D(15) t1(5,6) evolves_live [OF t1(2)] t1(2) by (auto simp: evolves_def)
  note live = this
  have "t_nodePageSize t1 = t_nodePageSize t" by (rule frame_eqD(8) [OF keepsD(2) [OF t1(1)]])
  then have l: "\<forall>pw \<in> set ?pws. ps_live (absStore t1) (pw_pageNum pw) \<and> length (pw_data pw) = t_nodePageSize t1"
    using live num pageHasD(5) [OF img(1)] pageHasD(5) [OF img(2)] pageHasD(5) [OF img(3)] pageHasD(5) [OF img(4)] by simp
  have ok1: "ps_ok (absStore t1)" using t1(2) by (simp add: evolves_def)
  have dn: "distinct (map pw_pageNum ?pws)" using D(16) ne num by auto
  from write_all [OF keepsD(1) [OF t1(1)] ok1 dn l]
  obtain t' where t': "writePages ?pws t1 = Inr t'" "keeps t1 t'" "evolves {p, a, q, b} (absStore t1) (absStore t')"
    "\<forall>pw \<in> set ?pws. pageImg (absStore t') (pw_pageNum pw) = pw" "roomy t1 (absStore t') = roomy t1 (absStore t1)"
    "ps_live (absStore t') = ps_live (absStore t1)" "ps_avail (absStore t') = ps_avail (absStore t1)"
    by (auto simp: num insert_commute)
  have i: "node = pageImg (absStore t') p" "left = pageImg (absStore t') a" "middle = pageImg (absStore t') q"
    "right = pageImg (absStore t') b"
    using t'(4) by (simp_all add: num)
  have k: "keeps t t'" by (rule keeps_trans [OF t1(1) t'(2)])
  have ev: "evolves {p, a, b} (absStore t) (absStore t')"
    using evolves_trans [OF evolves_mono [OF t1(2), of "{p, a, b}"] t'(3)] t1(4) by blast
  have ro: "roomy t (absStore t') n" using t1(3) t'(5) roomy_keeps [OF t1(1)] by simp
  let ?Us = "[PNode a us' Vs', PNode q xs Xs, PNode b ws' Ws']"
  have "insertAt (Suc i) q (map pno Ts) = map pno (take i Ts @ ?Us @ drop (Suc (Suc i)) Ts)"
  proof -
    have "map pno Ts = map pno (take i Ts) @ a # b # map pno (drop (Suc (Suc i)) Ts)"
      using arg_cong [OF pair_kids [OF D(7-9)], of "map pno"] by simp
    then show ?thesis using D(5,6) by (simp add: insertAt_def)
  qed
  then have im: "pageHas t (pageImg (absStore t') p) p (take i ks @ ms @ drop (Suc i) ks)
      (map pno (take i Ts @ ?Us @ drop (Suc (Suc i)) Ts))"
    using img(1) i(1) by simp
  have N: "mset (concat (map pages ?Us)) = mset (pages (PNode a us Vs)) + mset (pages (PNode b ws Ws)) + mset [q]"
    using arg_cong [OF kids, of "\<lambda>Us. mset (concat (map pages Us))"] by simp
  have "reshaped t n p ks Ts t' (joinedTree p ks Ts i ms ?Us)"
    using img(2,3,4) i live arg_cong [OF kids, of set] t'(6,7) t1(4)
    by (intro joined_reshaped [OF k ev ro D(3,4,7-9) _ _ im N]) auto
  then show ?thesis using t'(1,7) i t1(5) by blast
qed

lemma BaseBStarTree_splitChildren_ok:
  assumes P: "pairAt t p ks Ts i a us Vs b ws Ws" and r: "roomy t (absStore t) (Suc n)"
    and nf: "\<not> isFull t (pageImg (absStore t) p)" "length ks < pageKeys t"
    and mid: "length (pw_data middle) = t_nodePageSize t"
    and l: "l = t_leftSplitProductKeys t" "m = t_middleSplitProductKeys t" "r = getRightSplitProductKeys short t"
    and num: "l + m + r + 1 = length us + length ws" "l \<le> pageKeys t" "m \<le> pageKeys t" "r \<le> pageKeys t"
  defines "PP \<equiv> us @ ks ! i # ws"
  shows "\<exists>t' q. BaseBStarTree_splitChildren (pageImg (absStore t) p) i (pageImg (absStore t) a) middle
      (pageImg (absStore t) b) short t =
      Inr (pageImg (absStore t') p, pageImg (absStore t') a, pageImg (absStore t') q, pageImg (absStore t') b, t') \<and>
    reshaped t n p ks Ts t' (threeTree p ks Ts i a q b PP (Vs @ Ws) l m)"
proof -
  note D = pairAtD [OF P]
  let ?s = "absStore t" and ?Q = "Vs @ Ws" and ?leaf = "Vs = []"
  have lP: "length PP = l + m + 2 + r" using num(1) pair_lists(1) [OF P] by (simp add: PP_def)
  have lQ: "\<not> ?leaf \<Longrightarrow> length ?Q = Suc (length PP)" using pair_lists [OF P] by (simp add: PP_def)
  have nm: "getKeysNum (pageImg ?s p) = length ks" "isLeaf (pageImg ?s a) = ?leaf"
    using pageHasD(3) [OF D(12)] pageHasD(4) [OF D(13)] by simp_all
  have ne: "pw_data middle \<noteq> []" using mid pageSize_pos [OF D(11)] by auto
  obtain q m1 t1 K C where a: "allocPage middle m ?leaf t = Inr (m1, t1)" "keeps t t1" "evolves {} ?s (absStore t1)"
    "roomy t (absStore t1) n" "q \<in> ps_avail ?s" "q \<notin> ps_avail (absStore t1)" "ps_live (absStore t1) q" "q < 2 ^ 32"
    "pview t m1 q m ?leaf K C"
    using alloc_page [OF D(1,2) r ne num(3), of ?leaf] by blast
  note f = keepsD(2) [OF a(2)]
  note F = frame_eqD [OF f] frame_eqS [OF f] frame_eqF [OF f] pageHas_frame [OF f] pview_frame [OF f]
  note g1 = storeOkD(1) [OF keepsD(1) [OF a(2)]]
  have pages: "pageHas t1 (pageImg ?s a) a us (map pno Vs)" "pageHas t1 (pageImg ?s p) p ks (map pno Ts)"
    "pageHas t1 (pageImg ?s b) b ws (map pno Ws)" "(map pno Vs = []) = (map pno Ws = [])"
    using D(10,12-14) by (simp_all add: F)
  obtain keys cursors where cp: "collectPair t1 (pageImg ?s p) i (pageImg ?s a) (pageImg ?s b) = Inr (keys, cursors)"
    "bufHas (t_recSize t) keys (length PP) ((!) PP)" "\<not> ?leaf \<longrightarrow> curHas cursors (Suc (length PP)) ((!) (map pno ?Q))"
    using collectPair_ok [OF g1 pages(1,2) D(5) pages(3,4)] by (auto simp: PP_def F)
  have cur: "\<not> ?leaf \<Longrightarrow> curHas cursors (Suc (length PP)) ((!) (map pno ?Q))"
    "\<not> ?leaf \<Longrightarrow> length (map pno ?Q) = Suc (length PP)" using cp(3) lQ by simp_all
  have b1: "bufHas (t_recSize t1) keys (length PP) ((!) PP)" using cp(2) by (simp add: F)
  have ofs: "0 + l \<le> length PP" "l + 1 + m \<le> length PP" "l + m + 2 + r \<le> length PP" using lP by simp_all
  have vl: "pview t1 (setKeyNum l (pageImg ?s a)) a l ?leaf (kslot t (pageImg ?s a)) (cslot t (pageImg ?s a))"
    using view_setKeyNum [OF D(11) pageHas_view [OF D(13)] num(2)] by (simp add: F)
  have vr: "pview t1 (setKeyNum r (pageImg ?s b)) b r ?leaf (kslot t (pageImg ?s b)) (cslot t (pageImg ?s b))"
    using view_setKeyNum [OF D(11) pageHas_view [OF D(14)] num(4)] D(10) by (simp add: F)
  have vm: "pview t1 m1 q m ?leaf K C" using a(9) by (simp add: F)
  obtain left where left: "fillPage t1 ?leaf keys cursors 0 l (setKeyNum l (pageImg ?s a)) = Inr left"
    "pageHas t1 left a (take l (drop 0 PP)) (if ?leaf then [] else take (Suc l) (drop 0 (map pno ?Q)))"
    using fillPage_ok [OF g1 vl b1 cur ofs(1)] by blast
  obtain mi where mi: "fillPage t1 ?leaf keys cursors (l + 1) m m1 = Inr mi"
    "pageHas t1 mi q (take m (drop (l + 1) PP)) (if ?leaf then [] else take (Suc m) (drop (l + 1) (map pno ?Q)))"
    using fillPage_ok [OF g1 vm b1 cur ofs(2)] by blast
  obtain right where right: "fillPage t1 ?leaf keys cursors (l + m + 2) r (setKeyNum r (pageImg ?s b)) = Inr right"
    "pageHas t1 right b (take r (drop (l + m + 2) PP)) (if ?leaf then [] else take (Suc r) (drop (l + m + 2) (map pno ?Q)))"
    using fillPage_ok [OF g1 vr b1 cur ofs(3)] by blast
  have nz: "map pno Ts \<noteq> []" using D(6) by auto
  have lk: "length ks < pageKeys t1" "l < length PP" "l + m + 1 < length PP" using nf(2) lP by (simp_all add: F)
  obtain n1 n2 n3 n4 n5 where no: "loadKeys t1 (pageImg ?s p) i keys l 1 = Inr n1" "getKeysNum n1 = length ks"
    "shiftKeys t1 (setKeyNum (length ks + 1) n1) i (length ks) = Inr n2" "loadKeys t1 n2 (i + 1) keys (l + m + 1) 1 = Inr n3"
    "shiftCursors t1 n3 (i + 1) (length ks + 1) = Inr n4" "setCursor t1 n4 (i + 1) q = Inr n5"
    "pageHas t1 n5 p (take i ks @ [PP ! l, PP ! (l + m + 1)] @ drop (Suc i) ks) (insertAt (Suc i) q (map pno Ts))"
    using split3_node [OF g1 pages(2) nz D(5) lk(1) b1 lk(2,3) a(8)] by blast
  have leafQ: "?leaf \<Longrightarrow> ?Q = []" using D(10) by simp
  have h: "pageHas t left a (take l PP) (map pno (take (Suc l) ?Q))"
    "pageHas t mi q (take m (drop (Suc l) PP)) (map pno (take (Suc m) (drop (Suc l) ?Q)))"
    "pageHas t right b (drop (l + m + 2) PP) (map pno (drop (l + m + 2) ?Q))"
    using left(2) mi(2) right(2) leafQ lQ lP by (cases ?leaf; simp add: F take_map drop_map)+
  have kids: "take (Suc l) ?Q @ take (Suc m) (drop (Suc l) ?Q) @ drop (l + m + 2) ?Q = Vs @ Ws"
    using append_take_drop_id [of "Suc m" "drop (Suc l) ?Q"] append_take_drop_id [of "Suc l" ?Q]
    by (simp only: drop_drop) (simp add: add.commute)
  have hn: "pageHas t n5 p (take i ks @ [PP ! l, PP ! (l + m + 1)] @ drop (Suc i) ks) (insertAt (Suc i) q (map pno Ts))"
    using no(7) by (simp only: F)
  obtain t' where t': "writePages [left, mi, right, n5] t1 = Inr t'" "n5 = pageImg (absStore t') p"
    "left = pageImg (absStore t') a" "mi = pageImg (absStore t') q" "right = pageImg (absStore t') b"
    "reshaped t n p ks Ts t' (threeTree p ks Ts i a q b PP ?Q l m)"
    using three_written [OF P a(2-7) hn h kids] by blast
  have pq: "pw_pageNum mi = q" using pageHasD(1) [OF mi(2)] .
  have live: "a \<noteq> 0" "b \<noteq> 0" using D(15) by (auto simp: ps_live_def)
  have l1: "l = t_leftSplitProductKeys t1" "m = t_middleSplitProductKeys t1" "r = getRightSplitProductKeys short t1"
    using l by (simp_all add: F getRightSplitProductKeys_def)
  have i: "\<not> length ks \<le> i" using D(5) by simp
  have "BaseBStarTree_splitChildren (pageImg ?s p) i (pageImg ?s a) middle (pageImg ?s b) short t = Inr (n5, left, mi, right, t')"
    unfolding BaseBStarTree_splitChildren_def ensureChild_def Let_def nm l [symmetric]
    by (simp only: nf i live if_False simp_thms bindR_simps split a(1) cp(1) left(1) mi(1) right(1) no t'(1) pq
        PageWrapper.select_convs PageWrapper.simps nm l [symmetric] add_diff_cancel_right')
  then show ?thesis using t' by auto
qed

end
