(* ===== verification/Plus_Leaves.thy ===== *)
theory Plus_Leaves
  imports Share_Keys
begin

text \<open>
  The methods of \<open>BaseBStarPlusTree\<close> on a pair of leaves: keys move from leaf to leaf without
  passing through the node, whose router keys are set afterwards from the last keys of the leaves.
\<close>

section \<open>Setting a router key\<close>

lemma reshaped_node:
  "reshaped t n p ks Ts t' (PNode p ks1 Ts1) \<Longrightarrow> pageHas t (pageImg (absStore t') p) p ks1 (map pno Ts1)"
  by (simp add: reshaped_def)

lemma set_router:
  assumes R: "reshaped t n p ks Ts t' (PNode p ks1 Ts1)" and g: "geom t"
    and i: "i < length ks1" "length Ts1 = Suc (length ks1)" and A: "Ts1 ! i = PNode a us Vs" "us \<noteq> []"
  shows "\<exists>t''. setRouterKey (pageImg (absStore t') p) i t' = Inr (pageImg (absStore t'') p, t'') \<and>
    reshaped t n p ks Ts t'' (PNode p (ks1[i := last us]) Ts1) \<and>
    (\<forall>U \<in> set Ts1. pageImg (absStore t'') (pno U) = pageImg (absStore t') (pno U)) \<and>
    evolves {p} (absStore t') (absStore t'')"
proof -
  have k: "keeps t t'" and ev: "evolves (set (pages (PNode p ks Ts))) (absStore t) (absStore t')"
    and ro: "roomy t (absStore t') n" and s: "stored t (absStore t') (PNode p ks1 Ts1)"
    and d: "distinct (pages (PNode p ks1 Ts1))"
    and sub: "set (pages (PNode p ks1 Ts1)) \<subseteq> set (pages (PNode p ks Ts)) \<union> ps_avail (absStore t)"
    using R unfolding reshaped_def by blast+
  note ok' = keepsD(1) [OF k] and f = keepsD(2) [OF k]
  note F = stored_keeps [OF k] roomy_keeps [OF k] pageHas_frame [OF f] frame_eqD [OF f]
  note g' = storeOkD(1) [OF ok']
  have s': "stored t' (absStore t') (PNode p ks1 Ts1)" using s by (simp only: F)
  have hp: "pageHas t' (pageImg (absStore t') p) p ks1 (map pno Ts1)" using s' by simp
  have il: "i < length Ts1" using i by simp
  have sa: "stored t' (absStore t') (PNode a us Vs)" using s' nth_mem [OF il] A(1) by (metis stored.simps)
  have ha: "pageHas t' (pageImg (absStore t') a) a us (map pno Vs)" using sa by simp
  have lu: "length us - 1 < length us" using A(2) by simp
  obtain u where u: "readPageFromChild (new_PageWrapper t') (pageImg (absStore t') p) i t' = Inr (pageImg (absStore t') a, u)"
    "keeps t' u" "absStore u = absStore t'"
    using read_child [OF ok' s' hp il length_new_page [OF storeOkD(3) [OF ok']]] A(1) by auto
  note fu = keepsD(2) [OF u(2)]
  note U = pageHas_frame [OF fu] frame_eqD [OF fu]
  obtain pw where pw: "copyKeyAt u (pageImg (absStore t') p) i (pageImg (absStore t') a) (length us - 1) = Inr pw"
    "pageHas u pw p (ks1[i := us ! (length us - 1)]) (map pno Ts1)"
    using has_setKey [OF storeOkD(1) [OF keepsD(1) [OF u(2)]] _ i(1) _ lu] hp ha unfolding U by blast
  have live: "ps_live (absStore t') p" "p \<notin> ps_avail (absStore t')" using s by simp_all
  have num: "pw_pageNum pw = p" "length (pw_data pw) = t_nodePageSize u" using pageHasD(1,5) [OF pw(2)] by simp_all
  have "ps_ok (absStore u)" using ev by (simp add: evolves_def u(3))
  from write_all [OF keepsD(1) [OF u(2)] this, of "[pw]"]
  obtain v where v0: "writePages [pw] u = Inr v" and v: "keeps u v" "keeps u v" "evolves {p} (absStore t') (absStore v)"
    "pageImg (absStore v) p = pw" "roomy u (absStore v) = roomy u (absStore t')"
    "ps_live (absStore v) = ps_live (absStore t')" "ps_avail (absStore v) = ps_avail (absStore t')"
    using live num by (auto simp: u(3) simp del: writePages.simps)
  have wr: "PageWrapper_writePage pw u = Inr v" using v0 by (cases "PageWrapper_writePage pw u") simp_all
  have kv: "keeps t v" by (rule keeps_trans [OF k keeps_trans [OF u(2) v(2)]])
  have "p \<in> set (pages (PNode p ks Ts))" by simp
  then have evv: "evolves (set (pages (PNode p ks Ts))) (absStore t) (absStore v)"
    by (intro evolves_trans [OF ev v(3)]) simp
  have kids: "\<forall>W \<in> set Ts1. stored t (absStore v) W"
    by (rule stored_kids_frame [OF v(3)]) (use s d in auto)
  have "pageHas t pw p (ks1[i := last us]) (map pno Ts1)"
    using pw(2) A(2) by (simp add: U F last_conv_nth)
  then have sv: "stored t (absStore v) (PNode p (ks1[i := last us]) Ts1)"
    using kids live v(4,6,7) by simp
  have rv: "roomy t (absStore v) n" using v(5) ro roomy_keeps [OF k] roomy_keeps [OF u(2)] by simp
  have "pageImg (absStore v) (pno W) = pageImg (absStore t') (pno W)" if "W \<in> set Ts1" for W
  proof -
    have "stored t (absStore t') W" using s that by simp
    then have "pno W \<notin> ps_avail (absStore t')" by (cases W) simp
    moreover have "pno W \<noteq> p" using d that pno_in_pages [of W] by auto
    ultimately show ?thesis using v(3) by (simp add: evolves_def)
  qed
  moreover have "setRouterKey (pageImg (absStore t') p) i t' = Inr (pw, v)"
    using pageHasD(3,4) [OF hp] pageHasD(3) [OF ha] i A(2) u(1) pw(1) wr by (auto simp: setRouterKey_def)
  ultimately show ?thesis
    unfolding reshaped_def using kv evv rv sv d sub v(3,4) by (intro exI [of _ v]) simp
qed

section \<open>Sharing between leaves\<close>

abbreviation leafPair ::
  "nat \<Rightarrow> byte list list \<Rightarrow> byte list ptree list \<Rightarrow> nat \<Rightarrow> nat \<Rightarrow> nat \<Rightarrow> byte list list \<Rightarrow> nat \<Rightarrow> byte list ptree" where
  "leafPair p ks Ts i a b P j \<equiv>
     joinedTree p ks Ts i [P ! (j - 1)] [PNode a (take j P) [], PNode b (drop j P) []]"

text \<open>The written pages, and the router key after them.\<close>

lemma leaf_pair_written:
  assumes P: "pairAt t p ks Ts i a us [] b ws []" and r: "roomy t (absStore t) n"
    and pws: "set pws = {pageImg (absStore t) p, left, right}" "distinct (map pw_pageNum pws)"
    and j: "0 < j" "j \<le> length us + length ws"
    and img: "pageHas t left a (take j (us @ ws)) []" "pageHas t right b (drop j (us @ ws)) []"
  shows "\<exists>t1 t'. writePages pws t = Inr t1 \<and> setRouterKey (pageImg (absStore t) p) i t1 = Inr (pageImg (absStore t') p, t') \<and>
    left = pageImg (absStore t') a \<and> right = pageImg (absStore t') b \<and>
    keyAt t' (pageImg (absStore t') p) i = Inr ((us @ ws) ! (j - 1)) \<and> t_recSize t' = t_recSize t \<and>
    reshaped t n p ks Ts t' (leafPair p ks Ts i a b (us @ ws) j)"
proof -
  note D = pairAtD [OF P]
  let ?Us = "[PNode a (take j (us @ ws)) [], PNode b (drop j (us @ ws)) []]"
  have same: "take i ks @ [ks ! i] @ drop (Suc i) ks = ks" using D(5) by (simp add: id_take_nth_drop [symmetric])
  have n: "pageHas t (pageImg (absStore t) p) p (take i ks @ [ks ! i] @ drop (Suc i) ks) (map pno Ts)"
    using D(12) by (simp only: same)
  have im: "pageHas t left a (take j (us @ ws)) (map pno [])" "pageHas t right b (drop j (us @ ws)) (map pno [])"
    using img by simp_all
  from pair_written [OF P r pws n im]
  obtain t1 where t1: "writePages pws t = Inr t1" "pageImg (absStore t) p = pageImg (absStore t1) p"
    "left = pageImg (absStore t1) a" "right = pageImg (absStore t1) b"
    "reshaped t n p ks Ts t1 (joinedTree p ks Ts i [ks ! i] ?Us)"
    by blast
  let ?Ts = "take i Ts @ ?Us @ drop (Suc (Suc i)) Ts"
  have r1: "reshaped t n p ks Ts t1 (PNode p ks ?Ts)" using t1(5) unfolding joinedTree_def same .
  have l: "length ?Ts = Suc (length ks)" "?Ts ! i = PNode a (take j (us @ ws)) []" "take j (us @ ws) \<noteq> []"
    using D(5,6) j by (auto simp: nth_append)
  obtain t' where t': "setRouterKey (pageImg (absStore t1) p) i t1 = Inr (pageImg (absStore t') p, t')"
    "reshaped t n p ks Ts t' (PNode p (ks[i := last (take j (us @ ws))]) ?Ts)"
    "\<forall>U \<in> set ?Ts. pageImg (absStore t') (pno U) = pageImg (absStore t1) (pno U)"
    using set_router [OF r1 D(11) D(5) l] by blast
  have la: "last (take j (us @ ws)) = (us @ ws) ! (j - 1)"
    using j l(3) by (simp add: last_conv_nth min_def del: take_append)
  have up: "ks[i := x] = take i ks @ [x] @ drop (Suc i) ks" for x using D(5) by (simp add: upd_conv_take_nth_drop)
  have f: "frame t' = frame t" using t'(2) by (simp add: reshaped_def keepsD(2))
  from keyAt_after [OF f D(11) reshaped_node [OF t'(2)], of i, unfolded la]
  have key: "keyAt t' (pageImg (absStore t') p) i = Inr ((us @ ws) ! (j - 1))" using D(5) by simp
  have "left = pageImg (absStore t') a" "right = pageImg (absStore t') b" using t1(3,4) t'(3) by simp_all
  then show ?thesis
    using t1(1) t'(1,2) key frame_eqD [OF f] unfolding t1(2) joinedTree_def up la by blast
qed

lemma BaseBStarPlusTree_shareLeft_ok:
  assumes P: "pairAt t p ks Ts i a us [] b ws []" and r: "roomy t (absStore t) n"
    and full: "isFull t (pageImg (absStore t) b)" "\<not> isFull t (pageImg (absStore t) a)"
    and c: "t_comparator t = Some c" and m: "length us < length ws"
  defines "j \<equiv> (length ws + length us + 1) div 2"
  shows "\<exists>t'. reshaped t n p ks Ts t' (leafPair p ks Ts i a b (us @ ws) j) \<and>
    BaseBStarPlusTree_shareKeysWithLeftChildAndInsert call k (pageImg (absStore t) p) (Suc i) (pageImg (absStore t) b)
      (pageImg (absStore t) a) t =
    (if j = t_maxKeys t \<and> j - length us = 1 \<and> cmp_compare c k (ws ! 0) (t_recSize t)
     then Inr (False, pageImg (absStore t) p, t)
     else bindR (call (if cmp_compare c k ((us @ ws) ! (j - 1)) (t_recSize t) then pageImg (absStore t') a
                       else pageImg (absStore t') b) t')
       (\<lambda>(_, t). Inr (True, pageImg (absStore t') p, t)))"
proof -
  note D = pairAtD [OF P]
  let ?s = "absStore t" and ?mv = "j - length us" and ?cl = "length ws - (j - length us)"
  have cap: "length ws \<le> pageKeys t" "pageKeys t < 2 ^ 16" "length ks \<le> pageKeys t"
    using pageHasD(6) [OF D(14)] pageHasD(6) [OF D(12)] geomD(3) [OF D(11)] by (simp_all add: layout)
  have mv: "0 < ?mv" "?mv \<le> length ws" "length us + ?mv = j" "j \<le> length ws" "0 < j" "j \<le> length us + length ws"
    using m unfolding j_def by linarith+
  have ss: "SSub j (length us) = ?mv" "SSub (length ws) ?mv = ?cl" "SSub (Suc i) 1 = i"
    using mv cap D(5) by (simp_all add: SSub_le)
  have num: "getKeysNum (pageImg ?s b) = length ws" "getKeysNum (pageImg ?s a) = length us"
    "getKeysNum (pageImg ?s p) = length ks" "isLeaf (pageImg ?s b)"
    using pageHasD(3,4) [OF D(14)] pageHasD(3) [OF D(13)] pageHasD(3) [OF D(12)] by simp_all
  have k0: "keyAt t (pageImg ?s b) 0 = Inr (ws ! 0)" by (rule has_keyAt [OF D(11,14)]) (use m in linarith)
  have hl: "pageHas t (pageImg ?s a) a us []" "pageHas t (pageImg ?s b) b ws []" using D(13,14) by simp_all
  have "length us + ?mv \<le> pageKeys t" using mv cap by simp
  from share_leaf_left [OF D(11) hl mv(2) this]
  obtain l1 where l: "copyKeysAt t (setKeyNum j (pageImg ?s a)) (length us) (pageImg ?s b) 0 ?mv = Inr l1"
    "pageHas t l1 a (us @ take ?mv ws) []"
    unfolding mv(3) by blast
  obtain c1 where cc: "moveKeysDown t (pageImg ?s b) ?mv 0 ?cl = Inr c1" "pageHas t (setKeyNum ?cl c1) b (drop ?mv ws) []"
    using share_left_drop [OF D(11) hl(2) mv(1,2)] by auto
  have e: "us @ take ?mv ws = take j (us @ ws)" "drop ?mv ws = drop j (us @ ws)" using mv(3) by simp_all
  have "set [l1, setKeyNum ?cl c1, pageImg ?s p] = {pageImg ?s p, l1, setKeyNum ?cl c1}"
    "distinct (map pw_pageNum [l1, setKeyNum ?cl c1, pageImg ?s p])"
    using D(16) pageHasD(1) [OF l(2)] pageHasD(1) [OF cc(2)] by auto
  from leaf_pair_written [OF P r this mv(5,6) l(2) [unfolded e] cc(2) [unfolded e]]
  obtain t1 t' where t': "writePages [l1, setKeyNum ?cl c1, pageImg ?s p] t = Inr t1"
    "setRouterKey (pageImg ?s p) i t1 = Inr (pageImg (absStore t') p, t')" "l1 = pageImg (absStore t') a"
    "setKeyNum ?cl c1 = pageImg (absStore t') b" "keyAt t' (pageImg (absStore t') p) i = Inr ((us @ ws) ! (j - 1))"
    "t_recSize t' = t_recSize t" "reshaped t n p ks Ts t' (leafPair p ks Ts i a b (us @ ws) j)"
    by blast
  define q where "q \<longleftrightarrow> j = t_maxKeys t \<and> ?mv = 1 \<and> cmp_compare c k (ws ! 0) (t_recSize t)"
  have refuse: "(if j = t_maxKeys t \<and> ?mv = 1 then bindR (keyAt t (pageImg ?s b) 0) (\<lambda>x. Inr (cmp_compare c k x (t_recSize t)))
      else Inr False) = Inr q"
    unfolding k0 q_def by auto
  have i: "\<not> length ks < Suc i" using D(5) by simp
  have "BaseBStarPlusTree_shareKeysWithLeftChildAndInsert call k (pageImg ?s p) (Suc i) (pageImg ?s b) (pageImg ?s a) t =
    (if q then Inr (False, pageImg ?s p, t)
     else bindR (call (if cmp_compare c k ((us @ ws) ! (j - 1)) (t_recSize t) then l1 else setKeyNum ?cl c1) t')
       (\<lambda>(_, t). Inr (True, pageImg (absStore t') p, t)))"
    unfolding BaseBStarPlusTree_shareKeysWithLeftChildAndInsert_def Let_def num half_up j_def [symmetric] ss c option.case refuse
    by (simp only: full num i if_False simp_thms bindR_simps l(1) cc(1) t'(1,2,5,6) prod.case)
  then show ?thesis using t'(3,4,7) unfolding q_def by auto
qed

lemma BaseBStarPlusTree_shareRight_ok:
  assumes P: "pairAt t p ks Ts i a us [] b ws []" and r: "roomy t (absStore t) n"
    and full: "isFull t (pageImg (absStore t) a)" "\<not> isFull t (pageImg (absStore t) b)"
    and c: "t_comparator t = Some c" and m: "length ws < length us" "1 < length us"
  defines "nr \<equiv> (length us + length ws + 1) div 2"
  defines "j \<equiv> length us - (nr - length ws)"
  shows "\<exists>t'. reshaped t n p ks Ts t' (leafPair p ks Ts i a b (us @ ws) j) \<and>
    BaseBStarPlusTree_shareKeysWithRightChildAndInsert call k (pageImg (absStore t) p) i (pageImg (absStore t) a)
      (pageImg (absStore t) b) t =
    (if nr = t_maxKeys t \<and> nr - length ws = 1 \<and> cmp_compare c (us ! (length us - 2)) k (t_recSize t)
     then Inr (False, pageImg (absStore t) p, t)
     else bindR (call (if cmp_compare c ((us @ ws) ! (j - 1)) k (t_recSize t) then pageImg (absStore t') b
                       else pageImg (absStore t') a) t')
       (\<lambda>(_, t). Inr (True, pageImg (absStore t') p, t)))"
proof -
  note D = pairAtD [OF P]
  let ?s = "absStore t" and ?mv = "nr - length ws"
  have cap: "length us \<le> pageKeys t" "pageKeys t < 2 ^ 16" "length ks \<le> pageKeys t"
    using pageHasD(6) [OF D(13)] pageHasD(6) [OF D(12)] geomD(3) [OF D(11)] by (simp_all add: layout)
  have mv: "0 < ?mv" "j + ?mv = length us" "length ws + ?mv = nr" "nr \<le> length us" "length ws \<le> nr" "0 < j"
    "j \<le> length us + length ws" "j \<le> length us"
    using m unfolding j_def nr_def by linarith+
  have ss: "SSub nr (length ws) = ?mv" "SSub (length us) ?mv = j" "SSub (length us) 2 = length us - 2"
    using mv cap m(2) by (simp_all add: SSub_le j_def)
  have num: "getKeysNum (pageImg ?s b) = length ws" "getKeysNum (pageImg ?s a) = length us"
    "getKeysNum (pageImg ?s p) = length ks" "isLeaf (pageImg ?s a)"
    using pageHasD(3) [OF D(14)] pageHasD(3,4) [OF D(13)] pageHasD(3) [OF D(12)] by simp_all
  have k0: "keyAt t (pageImg ?s a) (length us - 2) = Inr (us ! (length us - 2))"
    by (rule has_keyAt [OF D(11,13)]) (use m in linarith)
  have hl: "pageHas t (pageImg ?s b) b ws []" "pageHas t (pageImg ?s a) a us []" using D(13,14) by simp_all
  have "length ws + ?mv \<le> pageKeys t" using mv cap by simp
  from share_leaf_right [OF D(11) hl mv(1,2) this]
  obtain r1 r2 where l: "moveKeysUp t (setKeyNum nr (pageImg ?s b)) ?mv nr = Inr r1"
    "copyKeysAt t r1 0 (pageImg ?s a) j ?mv = Inr r2" "pageHas t r2 b (drop j us @ ws) []"
    unfolding mv(3) by blast
  have jp: "j \<le> length us" by (rule mv(8))
  have cc: "pageHas t (setKeyNum j (pageImg ?s a)) a (take j us) []"
    using has_setKeyNum [OF D(11) hl(2), of j] jp by simp
  have e: "drop j us @ ws = drop j (us @ ws)" "take j us = take j (us @ ws)" using mv(8) by simp_all
  have "set [setKeyNum j (pageImg ?s a), r2, pageImg ?s p] = {pageImg ?s p, setKeyNum j (pageImg ?s a), r2}"
    "distinct (map pw_pageNum [setKeyNum j (pageImg ?s a), r2, pageImg ?s p])"
    using D(16) pageHasD(1) [OF l(3)] pageHasD(1) [OF cc] by auto
  from leaf_pair_written [OF P r this mv(6,7) cc [unfolded e] l(3) [unfolded e]]
  obtain t1 t' where t': "writePages [setKeyNum j (pageImg ?s a), r2, pageImg ?s p] t = Inr t1"
    "setRouterKey (pageImg ?s p) i t1 = Inr (pageImg (absStore t') p, t')" "setKeyNum j (pageImg ?s a) = pageImg (absStore t') a"
    "r2 = pageImg (absStore t') b" "keyAt t' (pageImg (absStore t') p) i = Inr ((us @ ws) ! (j - 1))"
    "t_recSize t' = t_recSize t" "reshaped t n p ks Ts t' (leafPair p ks Ts i a b (us @ ws) j)"
    by blast
  define q where "q \<longleftrightarrow> nr = t_maxKeys t \<and> ?mv = 1 \<and> cmp_compare c (us ! (length us - 2)) k (t_recSize t)"
  have refuse: "(if nr = t_maxKeys t \<and> ?mv = 1
      then bindR (keyAt t (pageImg ?s a) (length us - 2)) (\<lambda>x. Inr (cmp_compare c x k (t_recSize t)))
      else Inr False) = Inr q"
    unfolding k0 q_def by auto
  have i: "\<not> length ks \<le> i" using D(5) by simp
  have "BaseBStarPlusTree_shareKeysWithRightChildAndInsert call k (pageImg ?s p) i (pageImg ?s a) (pageImg ?s b) t =
    (if q then Inr (False, pageImg ?s p, t)
     else bindR (call (if cmp_compare c ((us @ ws) ! (j - 1)) k (t_recSize t) then r2 else setKeyNum j (pageImg ?s a)) t')
       (\<lambda>(_, t). Inr (True, pageImg (absStore t') p, t)))"
    unfolding BaseBStarPlusTree_shareKeysWithRightChildAndInsert_def Let_def num half_up nr_def [symmetric] ss c option.case refuse
    by (simp only: full num i if_False simp_thms bindR_simps l(1,2) t'(1,2,5,6) prod.case)
  then show ?thesis using t'(3,4,7) unfolding q_def by auto
qed

section \<open>Two leaves into three\<close>

lemma leaf3_node:
  assumes g: "geom t" and node: "pageHas t node p ks cs" "cs \<noteq> []" "i < length ks" "length ks < pageKeys t" and q: "q < 2 ^ 32"
  shows "\<exists>n1 n2 n3. shiftKeys t (setKeyNum (length ks + 1) node) i (length ks) = Inr n1 \<and>
    shiftCursors t n1 (i + 1) (length ks + 1) = Inr n2 \<and> setCursor t n2 (i + 1) q = Inr n3 \<and>
    pageHas t n3 p (take i ks @ [ks ! i, ks ! i] @ drop (Suc i) ks) (insertAt (Suc i) q cs)"
proof -
  note h = pageHasD [OF node(1)]
  let ?n = "length ks" and ?K = "kslot t node" and ?C = "cslot t node"
  have v: "pview t (setKeyNum (?n + 1) node) p (?n + 1) (cs = []) ?K ?C"
    using node(4) by (intro view_setKeyNum [OF g pageHas_view [OF node(1)]]) simp
  have hi: "?n < ?n + 1" "?n + 1 \<le> ?n + 1" "i + 1 \<le> ?n + 1" using node(3) by simp_all
  obtain n1 where n1: "shiftKeys t (setKeyNum (?n + 1) node) i ?n = Inr n1" "pview t n1 p (?n + 1) (cs = [])
      (\<lambda>m. if i < m \<and> m \<le> ?n then ?K (m - 1) else ?K m) ?C" (is "pview _ _ _ _ _ ?K1 _")
    using view_shiftKeys [OF g v hi(1)] by (rule runsE)
  obtain n2 where n2: "shiftCursors t n1 (i + 1) (?n + 1) = Inr n2" "pview t n2 p (?n + 1) (cs = []) ?K1
      (\<lambda>m. if i + 1 < m \<and> m \<le> ?n + 1 then ?C (m - 1) else ?C m)" (is "pview _ _ _ _ _ _ ?C2")
    using view_shiftCursors [OF g n1(2) hi(2)] by (rule runsE)
  obtain n3 where n3: "setCursor t n2 (i + 1) q = Inr n3" "pview t n3 p (?n + 1) (cs = []) ?K1 (?C2(i + 1 := q))"
    using view_setCursor [OF g n2(2) hi(3) q] by (rule runsE)
  have "pageHas t n3 p (take i ks @ [ks ! i, ks ! i] @ drop (Suc i) ks) (insertAt (Suc i) q cs)"
  proof (rule view_pageHas [OF n3(2)])
    fix m assume m: "m < ?n + 1"
    consider "m < i" | "m = i" | "m = Suc i" | "Suc i < m" by linarith
    then show "?K1 m = (take i ks @ [ks ! i, ks ! i] @ drop (Suc i) ks) ! m"
    proof cases
      case 4
      define r where "r = m - Suc (Suc i)"
      have "m = Suc (Suc i) + r" "Suc i + r < ?n" using 4 m by (simp_all add: r_def)
      then show ?thesis using h(7) node(3) by (simp add: nth_append)
    qed (use h(7) node(3) in \<open>simp_all add: nth_append\<close>)
  next
    fix m assume "m \<le> ?n + 1"
    then show "(?C2(i + 1 := q)) m = insertAt (Suc i) q cs ! m"
      using h(8,9) [OF node(2)] node(3) by (auto simp: nth_insertAt)
  qed (use node(2,3) h(8) in simp_all)
  then show ?thesis using n1(1) n2(1) n3(1) by blast
qed

text \<open>The keys of both leaves in the buffer.\<close>

lemma saveLeaves_ok:
  assumes g: "geom t" and left: "pageHas t left a us []" and right: "pageHas t right b ws []"
  shows "\<exists>k1 keys. saveKeys t (replicate ((length us + length ws) * t_recSize t) 0) 0 left 0 (length us) = Inr k1 \<and>
    saveKeys t k1 (length us) right 0 (length ws) = Inr keys \<and>
    bufHas (t_recSize t) keys (length (us @ ws)) ((!) (us @ ws))"
proof -
  let ?n = "length us" and ?m = "length ws" and ?r = "t_recSize t"
  let ?N = "?n + ?m"
  define b0 where "b0 = replicate (?N * ?r) (0 :: byte)"
  have B0: "bufHas ?r b0 ?N (\<lambda>l. slice (?r * l) ?r b0)" unfolding b0_def by (rule bufHas_fresh)
  have i: "0 + ?n \<le> ?n" "0 + ?n \<le> ?N" "0 + ?m \<le> ?m" "?n + ?m \<le> ?N" by simp_all
  obtain b1 where b1: "saveKeys t b0 0 left 0 ?n = Inr b1" "bufHas ?r b1 ?N
      (\<lambda>l. if 0 \<le> l \<and> l < 0 + ?n then kslot t left (l - 0 + 0) else slice (?r * l) ?r b0)"
    using view_saveKeys [OF g pageHas_view [OF left] i(1) B0 i(2)] by (rule runsE)
  obtain b2 where b2: "saveKeys t b1 ?n right 0 ?m = Inr b2" "bufHas ?r b2 ?N
      (\<lambda>l. if ?n \<le> l \<and> l < ?n + ?m then kslot t right (l - ?n + 0)
           else if 0 \<le> l \<and> l < 0 + ?n then kslot t left (l - 0 + 0) else slice (?r * l) ?r b0)"
    using view_saveKeys [OF g pageHas_view [OF right] i(3) b1(2) i(4)] by (rule runsE)
  have "bufHas ?r b2 (length (us @ ws)) ((!) (us @ ws))"
    unfolding length_append by (rule bufHas_cong [OF b2(2)])
      (use pageHasD(7) [OF left] pageHasD(7) [OF right] in \<open>auto simp: nth_append\<close>)
  then show ?thesis using b1(1) b2(1) unfolding b0_def by blast
qed

text \<open>A leaf filled from the buffer.\<close>

lemma fillLeaf_ok:
  assumes g: "geom t" and v: "pview t pw p num True K C" and b: "bufHas (t_recSize t) keys (length P) ((!) P)"
    and n: "ofs + num \<le> length P"
  shows "\<exists>pw'. loadKeys t pw 0 keys ofs num = Inr pw' \<and> pageHas t pw' p (take num (drop ofs P)) []"
proof -
  have "\<exists>pw'. fillPage t True keys [] ofs num pw = Inr pw' \<and> pageHas t pw' p (take num (drop ofs P)) (if True then [] else [])"
    using fillPage_ok [OF g v b _ _ n] by fastforce
  then show ?thesis by (cases "loadKeys t pw 0 keys ofs num") (simp_all add: fillPage_def)
qed

abbreviation leafThree ::
  "nat \<Rightarrow> byte list list \<Rightarrow> byte list ptree list \<Rightarrow> nat \<Rightarrow> nat \<Rightarrow> nat \<Rightarrow> nat \<Rightarrow> byte list list \<Rightarrow> nat \<Rightarrow> nat \<Rightarrow>
   byte list ptree" where
  "leafThree p ks Ts i a q b P l m \<equiv> joinedTree p ks Ts i [P ! (l - 1), P ! (l + m - 1)]
     [PNode a (take l P) [], PNode q (take m (drop l P)) [], PNode b (drop (l + m) P) []]"

text \<open>Both router keys, one after the other.\<close>

lemma set_two_routers:
  assumes R: "reshaped t n p ks Ts t1 (joinedTree p ks Ts i [x, y] [PNode a us [], PNode q ws [], Z])" and g: "geom t"
    and i: "i < length ks" "length Ts = Suc (length ks)" and ne: "us \<noteq> []" "ws \<noteq> []"
  shows "\<exists>t2 t3. setRouterKey (pageImg (absStore t1) p) i t1 = Inr (pageImg (absStore t2) p, t2) \<and>
    setRouterKey (pageImg (absStore t2) p) (i + 1) t2 = Inr (pageImg (absStore t3) p, t3) \<and>
    reshaped t n p ks Ts t3 (joinedTree p ks Ts i [last us, last ws] [PNode a us [], PNode q ws [], Z]) \<and>
    (\<forall>r \<in> {a, q, pno Z}. pageImg (absStore t3) r = pageImg (absStore t1) r)"
proof -
  let ?ks = "\<lambda>x y. take i ks @ [x, y] @ drop (Suc i) ks"
  let ?Ts = "take i Ts @ [PNode a us [], PNode q ws [], Z] @ drop (Suc (Suc i)) Ts"
  have r1: "reshaped t n p ks Ts t1 (PNode p (?ks x y) ?Ts)" using R by (simp add: joinedTree_def)
  have l: "i < length (?ks u v)" "Suc i < length (?ks u v)" "length ?Ts = Suc (length (?ks u v))" for u v using i by simp_all
  have A: "?Ts ! i = PNode a us []" "?Ts ! Suc i = PNode q ws []" using i by (simp_all add: nth_append)
  have up: "(?ks x y)[i := u] = ?ks u y" "(?ks u y)[Suc i := v] = ?ks u v" for u v
    using i by (simp_all add: list_update_append)
  obtain t2 where t2: "setRouterKey (pageImg (absStore t1) p) i t1 = Inr (pageImg (absStore t2) p, t2)"
    "reshaped t n p ks Ts t2 (PNode p (?ks (last us) y) ?Ts)"
    "\<forall>U \<in> set ?Ts. pageImg (absStore t2) (pno U) = pageImg (absStore t1) (pno U)"
    using set_router [OF r1 g l(1,3) A(1) ne(1)] unfolding up by blast
  obtain t3 where t3: "setRouterKey (pageImg (absStore t2) p) (Suc i) t2 = Inr (pageImg (absStore t3) p, t3)"
    "reshaped t n p ks Ts t3 (PNode p (?ks (last us) (last ws)) ?Ts)"
    "\<forall>U \<in> set ?Ts. pageImg (absStore t3) (pno U) = pageImg (absStore t2) (pno U)"
    using set_router [OF t2(2) g l(2,3) A(2) ne(2)] unfolding up by blast
  have "\<forall>r \<in> {a, q, pno Z}. pageImg (absStore t3) r = pageImg (absStore t1) r" using t2(3) t3(3) by simp
  then show ?thesis using t2(1) t3(1,2) by (auto simp: joinedTree_def)
qed

lemma BaseBStarPlusTree_splitChildren_ok:
  assumes P: "pairAt t p ks Ts i a us [] b ws []" and r: "roomy t (absStore t) (Suc n)"
    and nf: "\<not> isFull t (pageImg (absStore t) p)" "length ks < pageKeys t"
    and mid: "length (pw_data middle) = t_nodePageSize t"
    and l: "l = t_leftSplitProductKeys t" "m = t_middleLeafSplitProductKeys t" "r = getRightSplitProductKeys short t"
    and num: "l + m + r = length us + length ws" "l \<le> pageKeys t" "m \<le> pageKeys t" "r \<le> pageKeys t" "0 < l" "0 < m"
  defines "PP \<equiv> us @ ws"
  shows "\<exists>t' q. BaseBStarPlusTree_splitChildren (pageImg (absStore t) p) i (pageImg (absStore t) a) middle
      (pageImg (absStore t) b) short t =
      Inr (pageImg (absStore t') p, pageImg (absStore t') a, pageImg (absStore t') q, pageImg (absStore t') b, t') \<and>
    reshaped t n p ks Ts t' (leafThree p ks Ts i a q b PP l m)"
proof -
  note D = pairAtD [OF P]
  let ?s = "absStore t"
  have lP: "length PP = l + m + r" using num(1) by (simp add: PP_def)
  have nm: "getKeysNum (pageImg ?s p) = length ks" "isLeaf (pageImg ?s a)" "getKeysNum (pageImg ?s a) = length us"
    "getKeysNum (pageImg ?s b) = length ws"
    using pageHasD(3) [OF D(12)] pageHasD(3,4) [OF D(13)] pageHasD(3) [OF D(14)] by simp_all
  have ne: "pw_data middle \<noteq> []" using mid pageSize_pos [OF D(11)] by auto
  obtain q m1 t1 K C where a: "allocPage middle m True t = Inr (m1, t1)" "keeps t t1" "evolves {} ?s (absStore t1)"
    "roomy t (absStore t1) n" "q \<in> ps_avail ?s" "q \<notin> ps_avail (absStore t1)" "ps_live (absStore t1) q" "q < 2 ^ 32"
    "pview t m1 q m True K C"
    using alloc_page [OF D(1,2) r ne num(3), of True] by blast
  note f = keepsD(2) [OF a(2)]
  note F = frame_eqD [OF f] frame_eqS [OF f] frame_eqF [OF f] pageHas_frame [OF f] pview_frame [OF f]
  note g1 = storeOkD(1) [OF keepsD(1) [OF a(2)]]
  have pages: "pageHas t1 (pageImg ?s a) a us []" "pageHas t1 (pageImg ?s p) p ks (map pno Ts)" "pageHas t1 (pageImg ?s b) b ws []"
    using D(12-14) by (simp_all add: F)
  obtain k1 keys where cp: "saveKeys t1 (replicate ((length us + length ws) * t_recSize t1) 0) 0 (pageImg ?s a) 0 (length us) = Inr k1"
    "saveKeys t1 k1 (length us) (pageImg ?s b) 0 (length ws) = Inr keys" "bufHas (t_recSize t1) keys (length PP) ((!) PP)"
    using saveLeaves_ok [OF g1 pages(1,3)] by (auto simp: PP_def)
  have ofs: "0 + l \<le> length PP" "l + m \<le> length PP" "l + m + r \<le> length PP" using lP by simp_all
  have vl: "pview t1 (setKeyNum l (pageImg ?s a)) a l True (kslot t (pageImg ?s a)) (cslot t (pageImg ?s a))"
    using view_setKeyNum [OF D(11) pageHas_view [OF D(13)] num(2)] by (simp add: F)
  have vr: "pview t1 (setKeyNum r (pageImg ?s b)) b r True (kslot t (pageImg ?s b)) (cslot t (pageImg ?s b))"
    using view_setKeyNum [OF D(11) pageHas_view [OF D(14)] num(4)] by (simp add: F)
  have vm: "pview t1 m1 q m True K C" using a(9) by (simp add: F)
  obtain left where left: "loadKeys t1 (setKeyNum l (pageImg ?s a)) 0 keys 0 l = Inr left"
    "pageHas t1 left a (take l (drop 0 PP)) []"
    using fillLeaf_ok [OF g1 vl cp(3) ofs(1)] by blast
  obtain mi where mi: "loadKeys t1 m1 0 keys l m = Inr mi" "pageHas t1 mi q (take m (drop l PP)) []"
    using fillLeaf_ok [OF g1 vm cp(3) ofs(2)] by blast
  obtain right where right: "loadKeys t1 (setKeyNum r (pageImg ?s b)) 0 keys (l + m) r = Inr right"
    "pageHas t1 right b (take r (drop (l + m) PP)) []"
    using fillLeaf_ok [OF g1 vr cp(3) ofs(3)] by blast
  have nz: "map pno Ts \<noteq> []" and lk: "length ks < pageKeys t1" using D(6) nf(2) by (auto simp: F)
  obtain n1 n2 n3 where no: "shiftKeys t1 (setKeyNum (length ks + 1) (pageImg ?s p)) i (length ks) = Inr n1"
    "shiftCursors t1 n1 (i + 1) (length ks + 1) = Inr n2" "setCursor t1 n2 (i + 1) q = Inr n3"
    "pageHas t1 n3 p (take i ks @ [ks ! i, ks ! i] @ drop (Suc i) ks) (insertAt (Suc i) q (map pno Ts))"
    using leaf3_node [OF g1 pages(2) nz D(5) lk a(8)] by blast
  have h: "pageHas t left a (take l PP) (map pno [])" "pageHas t mi q (take m (drop l PP)) (map pno [])"
    "pageHas t right b (drop (l + m) PP) (map pno [])"
    using left(2) mi(2) right(2) lP by (simp_all add: F)
  have hn: "pageHas t n3 p (take i ks @ [ks ! i, ks ! i] @ drop (Suc i) ks) (insertAt (Suc i) q (map pno Ts))"
    using no(4) by (simp only: F)
  obtain t2 where t2: "writePages [left, mi, right, n3] t1 = Inr t2" "n3 = pageImg (absStore t2) p"
    "left = pageImg (absStore t2) a" "mi = pageImg (absStore t2) q" "right = pageImg (absStore t2) b"
    "reshaped t n p ks Ts t2 (joinedTree p ks Ts i [ks ! i, ks ! i]
       [PNode a (take l PP) [], PNode q (take m (drop l PP)) [], PNode b (drop (l + m) PP) []])"
    using three_written [OF P a(2-7) hn h] by auto
  have nel: "take l PP \<noteq> []" "take m (drop l PP) \<noteq> []" using num(5,6) lP by auto
  have la: "last (take l PP) = PP ! (l - 1)" "last (take m (drop l PP)) = PP ! (l + m - 1)"
    using nel num(5,6) lP by (simp_all add: last_conv_nth min_def)
  obtain t3 t' where t': "setRouterKey (pageImg (absStore t2) p) i t2 = Inr (pageImg (absStore t3) p, t3)"
    "setRouterKey (pageImg (absStore t3) p) (i + 1) t3 = Inr (pageImg (absStore t') p, t')"
    "reshaped t n p ks Ts t' (leafThree p ks Ts i a q b PP l m)"
    "\<forall>r \<in> {a, q, b}. pageImg (absStore t') r = pageImg (absStore t2) r"
    using set_two_routers [OF t2(6) D(11,5,6) nel] unfolding la ptree.sel by blast
  have im: "left = pageImg (absStore t') a" "mi = pageImg (absStore t') q" "right = pageImg (absStore t') b"
    using t2(3-5) t'(4) by simp_all
  have pq: "pw_pageNum mi = q" using pageHasD(1) [OF mi(2)] .
  have live: "a \<noteq> 0" "b \<noteq> 0" using D(15) by (auto simp: ps_live_def)
  have i: "\<not> length ks \<le> i" using D(5) by simp
  have "BaseBStarPlusTree_splitChildren (pageImg ?s p) i (pageImg ?s a) middle (pageImg ?s b) short t =
    Inr (pageImg (absStore t') p, left, mi, right, t')"
    unfolding BaseBStarPlusTree_splitChildren_def ensureChild_def Let_def nm l [symmetric]
    by (simp only: nf i live if_False simp_thms bindR_simps split a(1) cp(1,2) left(1) mi(1) right(1) no(1-3) t2(1) [unfolded t2(2)] pq
        PageWrapper.select_convs PageWrapper.simps nm l [symmetric] add_diff_cancel_right' t2(2) t'(1,2) if_True)
  then show ?thesis using t'(3) im by auto
qed

end
