(* ===== verification/Star_Pairs.thy ===== *)
theory Star_Pairs
  imports Plus_Leaves Search_Tree
begin

text \<open>
  Two neighbouring children of a node of a B*-tree or of a B*+-tree, rearranged: the sizes that
  \<open>setOrder\<close> computes for the products of a split fit the bounds of the nodes, and a pair of
  children that shares its keys, or becomes three, leaves a tree with the invariant and the same keys.
\<close>

lemma starNode:
  assumes "starTree t"
  shows "nodeMax t b = t_maxKeys t" "nodeMin t b = t_minKeys t"
  using assms by (auto simp: starTree_def nodeMax_def nodeMin_def)

text \<open>The three shares of a split of two full nodes of \<open>x\<close> keys.\<close>

lemma thirds_sum:
  fixes x :: nat
  assumes "4 \<le> x"
  shows "(2 * x - 1) div 3 + 2 * x div 3 + (2 * x + 1) div 3 + 1 = 2 * x"
proof -
  consider a where "x = 3 * a + 3" | a where "x = 3 * a + 4" | a where "x = 3 * a + 5"
  proof -
    have "x = 3 * ((x - 3) div 3) + (x - 3) mod 3 + 3" using assms by simp
    moreover have "(x - 3) mod 3 = 0 \<or> (x - 3) mod 3 = 1 \<or> (x - 3) mod 3 = 2"
      using mod_less_divisor [of 3 "x - 3"] by linarith
    ultimately show thesis using that [of "(x - 3) div 3"] by force
  qed
  then show ?thesis
  proof cases
    case 1
    then have "2 * x - 1 = 2 + (2 * a + 1) * 3" "2 * x = (2 * a + 2) * 3" "2 * x + 1 = 1 + (2 * a + 2) * 3" by simp_all
    then show ?thesis by (simp only: div_mult_self1) simp
  next
    case 2
    then have "2 * x - 1 = 1 + (2 * a + 2) * 3" "2 * x = 2 + (2 * a + 2) * 3" "2 * x + 1 = (2 * a + 3) * 3" by simp_all
    then show ?thesis by (simp only: div_mult_self1) simp
  next
    case 3
    then have "2 * x - 1 = (2 * a + 3) * 3" "2 * x = 1 + (2 * a + 3) * 3" "2 * x + 1 = 2 + (2 * a + 3) * 3" by simp_all
    then show ?thesis by (simp only: div_mult_self1) simp
  qed
qed

lemma thirds:
  fixes x :: nat
  assumes "4 \<le> x"
  shows "(2 * x - 2) div 3 \<le> (2 * x - 1) div 3" "(2 * x - 1) div 3 \<le> 2 * x div 3"
    "(2 * x - 2) div 3 + 1 = (2 * x + 1) div 3" "2 * x div 3 + 1 < x" "(2 * x + 1) div 3 < x"
proof -
  show "(2 * x - 2) div 3 \<le> (2 * x - 1) div 3" "(2 * x - 1) div 3 \<le> 2 * x div 3" by (rule div_le_mono; simp)+
  have "(2 * x - 2 + 3) div 3 = (2 * x - 2) div 3 + 1" "2 * x - 2 + 3 = 2 * x + 1" using assms by simp_all
  then show "(2 * x - 2) div 3 + 1 = (2 * x + 1) div 3" by metis
  have "2 * x div 3 < x - 1" by (rule less_mult_imp_div_less) (use assms in simp)
  then show "2 * x div 3 + 1 < x" by linarith
  show "(2 * x + 1) div 3 < x" by (rule less_mult_imp_div_less) (use assms in simp)
qed

lemma star_products:
  assumes "starOrder t"
  defines "l \<equiv> t_leftSplitProductKeys t" and "m \<equiv> t_middleSplitProductKeys t"
  shows "t_minKeys t \<le> l" "l < t_maxKeys t" "t_minKeys t \<le> m" "m + 1 < t_maxKeys t"
    "t_minKeys t \<le> getRightSplitProductKeys short t" "getRightSplitProductKeys short t < t_maxKeys t"
    "l + m + getRightSplitProductKeys short t + 1 + (if short then 1 else 0) = 2 * t_maxKeys t"
proof -
  let ?n = "t_maxKeys t" and ?r = "getRightSplitProductKeys short t" and ?s = "if short then 1 else 0 :: nat"
  have o: "4 \<le> ?n" "t_minKeys t = (2 * ?n - 2) div 3" "l = (2 * ?n - 1) div 3" "m = 2 * ?n div 3"
    "?r = (2 * ?n + 1) div 3 - ?s"
    using assms(1) by (simp_all add: starOrder_def l_def m_def getRightSplitProductKeys_def)
  note th = thirds_sum [OF o(1), folded o(2-4)] thirds [OF o(1), folded o(2-4)]
  show "t_minKeys t \<le> l" "l < ?n" "t_minKeys t \<le> m" "m + 1 < ?n" using th by linarith+
  show "t_minKeys t \<le> ?r" "?r < ?n" "l + m + ?r + 1 + ?s = 2 * ?n" using th o(5) by (cases short; simp)+
qed

context tree_order
begin

text \<open>A rearranged pair of children on the pages and in the tree.\<close>

definition pair_done ::
  "BaseBTree \<Rightarrow> nat \<Rightarrow> nat \<Rightarrow> nat \<Rightarrow> byte list list \<Rightarrow> byte list ptree list \<Rightarrow> nat \<Rightarrow> BaseBTree \<Rightarrow> byte list list \<Rightarrow>
   byte list ptree list \<Rightarrow> bool" where
  "pair_done t n h p ks Ts i t' ms Us \<longleftrightarrow>
     reshaped t n p ks Ts t' (joinedTree p ks Ts i ms Us) \<and>
     rearranged (leafyOf t) (nodeMin t) (nodeMax t) h p ks Ts (joinedTree p ks Ts i ms Us)"

text \<open>Going on below child \<open>d\<close> of the new ones.\<close>

lemma pair_insert:
  assumes ok: "storeOk t" "t_recSize t = sz"
    and T: "distinct (pages (PNode p ks Ts))" "tree_inv t (Suc h) (PNode p ks Ts)" "rootAside t (PNode p ks Ts)"
    and i: "i < length ks" and U: "length Us = Suc (length ms)" "length ks + length ms \<le> Suc (pageMax t p False)" "ms \<noteq> []"
    and P: "pair_done t (h + n) h p ks Ts i t' ms Us"
    and d: "d \<le> length ms" "length (pkeys (Us ! d)) < nodeMax t (pkids (Us ! d) = [])"
      "0 < d \<longrightarrow> \<not> lt k (ms ! (d - 1))" "d < length ms \<longrightarrow> \<not> lt (ms ! d) k"
    and b: "0 < i \<longrightarrow> \<not> lt k (ks ! (i - 1))" "Suc i < length ks \<longrightarrow> \<not> lt (ks ! Suc i) k"
    and IH: "\<And>t' V. keeps t t' \<Longrightarrow> ps_ok (absStore t') \<Longrightarrow> roomy t (absStore t') (h + n) \<Longrightarrow>
      stored t (absStore t') V \<Longrightarrow> distinct (pages V) \<Longrightarrow> tree_inv t h V \<Longrightarrow> rootAside t' V \<Longrightarrow>
      pno V \<noteq> t_rootPageNum t' \<Longrightarrow> nodeMin t (pkids V = []) \<le> length (pkeys V) \<Longrightarrow>
      length (pkeys V) < nodeMax t (pkids V = []) \<Longrightarrow> ins_done t' n h V k (call (pageImg (absStore t') (pno V)) t')"
  shows "ins_done t n (Suc h) (PNode p ks Ts) k
    (bindR (call (pageImg (absStore t') (pno (Us ! d))) t') (\<lambda>(_, t). Inr (pageImg (absStore t') p, t)))"
proof -
  let ?ks = "take i ks @ ms @ drop (Suc i) ks" and ?Ts = "take i Ts @ Us @ drop (Suc (Suc i)) Ts" and ?\<sigma> = "absStore t'"
  have J: "joinedTree p ks Ts i ms Us = PNode p ?ks ?Ts" by (simp add: joinedTree_def)
  have len: "length Ts = Suc (length ks)" using T(2) by (simp add: tinv_def)
  have R: "keeps t t'" "evolves (set (pages (PNode p ks Ts))) (absStore t) ?\<sigma>" "roomy t ?\<sigma> (h + n)"
    "stored t ?\<sigma> (PNode p ?ks ?Ts)" "distinct (pages (PNode p ?ks ?Ts))"
    "set (pages (PNode p ?ks ?Ts)) \<subseteq> set (pages (PNode p ks Ts)) \<union> ps_avail (absStore t)"
    and A: "tree_inv t (Suc h) (PNode p ?ks ?Ts)"
    "contents (leafyOf t) (PNode p ?ks ?Ts) = contents (leafyOf t) (PNode p ks Ts)"
    "set (inorder (PNode p ?ks ?Ts)) \<subseteq> set (inorder (PNode p ks Ts))"
    using P unfolding pair_done_def reshaped_def rearranged_def J by blast+
  have V: "?Ts ! (i + d) = Us ! d" "i + d < length ?Ts" "i + d \<le> length ?ks" using i len U(1) d(1) by (simp_all add: nth_append)
  have key: "?ks ! (i + e) = ms ! e" if "e < length ms" for e using i that by (simp add: nth_append)
  have lo: "0 < i + d \<longrightarrow> \<not> lt k (?ks ! (i + d - 1))"
    using b(1) d(1,3) key [of "d - 1"] i by (cases "d = 0") (auto simp: nth_append)
  have hi: "i + d < length ?ks \<longrightarrow> \<not> lt (?ks ! (i + d)) k"
  proof (cases "d < length ms")
    case True
    then show ?thesis using d(4) key by simp
  next
    case False
    then have "d = length ms" using d(1) by simp
    then show ?thesis using b(2) i by (auto simp: nth_append)
  qed
  have mem: "Us ! d \<in> set ?Ts" using nth_mem [OF V(2)] V(1) by simp
  have sep: "distinct (pages V)" if "distinct (pages (PNode p us Vs))" "V \<in> set Vs" for us V and Vs :: "byte list ptree list"
    using that by (auto simp: distinct_concat_iff)
  have W: "stored t ?\<sigma> (Us ! d)" "distinct (pages (Us ! d))" "tree_inv t h (Us ! d)"
    using R(4) mem sep [OF R(5) mem] tinv_child [OF A(1) mem] by simp_all
  have "rootAside t' (PNode p ?ks ?Ts)" by (rule rootAside_step [OF T(3) R(2) _ R(5,6)]) simp
  then have ra: "rootAside t' (Us ! d) \<and> pno (Us ! d) \<noteq> t_rootPageNum t'" by (rule rootAside_kid) (use mem in simp)
  have occ: "nodeMin t (pkids (Us ! d) = []) \<le> length (pkeys (Us ! d))"
    using A(1) mem unfolding tinv_def sized.simps by blast
  have "ps_ok ?\<sigma>" using R(2) by (simp add: evolves_def)
  then have r: "ins_done t' n h (?Ts ! (i + d)) k (call (pageImg ?\<sigma> (pno (Us ! d))) t')"
    unfolding V(1) using ra d(2) occ by (intro IH R(1,3) W) auto
  have ne: "Ts \<noteq> []" "length ks \<le> length ?ks" "length ?ks \<le> pageMax t p False"
    using len i U(2,3) by (cases ms; auto)+
  show ?thesis by (rule reshaped_done [OF ok T(3) R(1,2,4-6) A ne(2,1,3) V(3) lo hi r])
qed

text \<open>Splitting the joined nodes, once and twice.\<close>

lemma pair_joined:
  assumes T: "tree_inv t (Suc h) (PNode p ks Ts)" and i: "i < length ks" and bt: "orderOk t"
    and A: "Ts ! i = PNode a us Vs" "Ts ! Suc i = PNode b ws Ws" and l: "leafyOf t \<longrightarrow> Vs \<noteq> []"
  obtains mx where "nodeMax t \<le> mx" "\<And>x. length us + length ws + 1 \<le> mx x"
    "joined (leafyOf t) (nodeMin t) mx h p ks Ts i (PNode a (us @ ks ! i # ws) (Vs @ Ws))"
    "tree_inv t h (PNode a (us @ ks ! i # ws) (Vs @ Ws))"
    "(Vs @ Ws = []) = (Vs = [])" "Vs \<noteq> [] \<Longrightarrow> length (Vs @ Ws) = length us + length ws + 2"
proof -
  let ?mx = "\<lambda>x. nodeMax t x + length us + length ws + 1"
  have mx: "nodeMax t \<le> ?mx" by (simp add: le_fun_def)
  have J: "joined (leafyOf t) (nodeMin t) ?mx h p ks Ts i (PNode a (us @ ks ! i # ws) (Vs @ Ws))"
    by (rule joined_nodes [OF T i A mx _ l orderOkD(1) [OF bt]]) simp
  have len: "length Ts = Suc (length ks)" using T by (simp add: tinv_def)
  have "Ts ! i \<in> set Ts" "Ts ! Suc i \<in> set Ts" using i len by simp_all
  then have "tree_inv t h (PNode a us Vs)" "tree_inv t h (PNode b ws Ws)" using tinv_child [OF T] A by fastforce+
  then have bal: "bal h (PNode a us Vs)" "bal h (PNode b ws Ws)" "sized (nodeMin t) (nodeMax t) (PNode a us Vs)"
    "sized (nodeMin t) (nodeMax t) (PNode b ws Ws)" unfolding tinv_def by blast+
  have sz: "sized (nodeMin t) (nodeMax t) (PNode a (us @ ks ! i # ws) (Vs @ Ws))" using bal(3,4) by auto
  have "tinv lt (leafyOf t) (nodeMin t) ?mx h (PNode a (us @ ks ! i # ws) (Vs @ Ws))" using J by (simp add: joined_def)
  then have tP: "tree_inv t h (PNode a (us @ ks ! i # ws) (Vs @ Ws))" using sz by (rule tinv_resize)
  have lQ: "(Vs @ Ws = []) = (Vs = [])" "Vs \<noteq> [] \<Longrightarrow> length (Vs @ Ws) = length us + length ws + 2"
    using bal(1,2) by (cases h; auto)+
  show thesis by (rule that [OF mx _ J tP lQ]) simp_all
qed

lemma pair_rearranged:
  assumes T: "tree_inv t (Suc h) (PNode p ks Ts)" and i: "i < length ks" and bt: "orderOk t"
    and A: "Ts ! i = PNode a us Vs" "Ts ! Suc i = PNode b ws Ws" and l: "leafyOf t \<longrightarrow> Vs \<noteq> []"
    and j: "j + j' = length us + length ws"
    and occ: "nodeMin t (Vs = []) \<le> j" "j \<le> nodeMax t (Vs = [])" "nodeMin t (Vs = []) \<le> j'" "j' \<le> nodeMax t (Vs = [])"
  shows "rearranged (leafyOf t) (nodeMin t) (nodeMax t) h p ks Ts (pairTree p ks Ts i a b (us @ ks ! i # ws) (Vs @ Ws) j)"
proof -
  define PP where "PP = us @ ks ! i # ws"
  define Q where "Q = Vs @ Ws"
  have lP: "length PP = Suc (j + j')" using j by (simp add: PP_def)
  obtain mx where J: "nodeMax t \<le> mx" "joined (leafyOf t) (nodeMin t) mx h p ks Ts i (PNode a PP Q)"
    "tree_inv t h (PNode a PP Q)" "(Q = []) = (Vs = [])" "Vs \<noteq> [] \<Longrightarrow> length Q = Suc (length PP)"
    by (rule pair_joined [OF T i bt A l], rule that) (simp_all add: PP_def Q_def)
  have jl: "j < length PP" "leafyOf t \<longrightarrow> Q \<noteq> []" using lP l J(4) by auto
  have nl: "(take (Suc j) Q = []) = (Vs = [])" "(drop (Suc j) Q = []) = (Vs = [])" using J(4,5) lP by auto
  note s = splits_around(1) [where q' = b, OF J(3) jl orderOkD(1) [OF bt]]
    splits_around(2) [OF J(3) jl orderOkD(1) [OF bt]]
    splits_around(3) [where q' = b, OF J(3) jl orderOkD(1) [OF bt]]
  have "rearranged (leafyOf t) (nodeMin t) (nodeMax t) h p ks Ts (pairTree p ks Ts i a b PP Q j)"
    by (rule joined_split [OF J(2) T i J(1) s(2,3) _ _ _ _ s(1)]) (use occ lP nl in \<open>simp_all add: min_def\<close>)
  then show ?thesis by (simp only: PP_def Q_def)
qed

lemma three_rearranged:
  assumes T: "tree_inv t (Suc h) (PNode p ks Ts)" and i: "i < length ks" and bt: "orderOk t"
    and A: "Ts ! i = PNode a us Vs" "Ts ! Suc i = PNode b ws Ws" and l: "leafyOf t \<longrightarrow> Vs \<noteq> []"
    and j: "x + y + z + 1 = length us + length ws"
    and occ: "nodeMin t (Vs = []) \<le> x" "x \<le> nodeMax t (Vs = [])" "nodeMin t (Vs = []) \<le> y" "y \<le> nodeMax t (Vs = [])"
      "nodeMin t (Vs = []) \<le> z" "z \<le> nodeMax t (Vs = [])"
  shows "rearranged (leafyOf t) (nodeMin t) (nodeMax t) h p ks Ts
    (threeTree p ks Ts i a q b (us @ ks ! i # ws) (Vs @ Ws) x y)"
proof -
  define PP where "PP = us @ ks ! i # ws"
  define Q where "Q = Vs @ Ws"
  have lP: "length PP = x + y + z + 2" using j by (simp add: PP_def)
  obtain mx where J: "nodeMax t \<le> mx" "\<And>b. length us + length ws + 1 \<le> mx b"
    "joined (leafyOf t) (nodeMin t) mx h p ks Ts i (PNode a PP Q)"
    "tree_inv t h (PNode a PP Q)" "(Q = []) = (Vs = [])" "Vs \<noteq> [] \<Longrightarrow> length Q = Suc (length PP)"
    by (rule pair_joined [OF T i bt A l], rule that) (simp_all add: PP_def Q_def)
  have jl: "x < length PP" "leafyOf t \<longrightarrow> Q \<noteq> []" using lP l J(5) by auto
  have nl: "(take (Suc x) Q = []) = (Vs = [])" "(drop (Suc x) Q = []) = (Vs = [])"
    "(take (Suc y) (drop (Suc x) Q) = []) = (Vs = [])" "(drop (x + y + 2) Q = []) = (Vs = [])"
    using J(5,6) lP by auto
  note s1 = splits_around(1) [where q' = q, OF J(4) jl orderOkD(1) [OF bt]]
    splits_around(2) [OF J(4) jl orderOkD(1) [OF bt]]
    splits_around(3) [where q' = q, OF J(4) jl orderOkD(1) [OF bt]]
  have jl2: "y < length (drop (Suc x) PP)" "leafyOf t \<longrightarrow> drop (Suc x) Q \<noteq> []" using lP jl(2) nl(2) J(5) by auto
  note s2 = splits_around(1) [where q' = b, OF s1(3) jl2 orderOkD(1) [OF bt]]
    splits_around(2) [OF s1(3) jl2 orderOkD(1) [OF bt]]
    splits_around(3) [where q' = b, OF s1(3) jl2 orderOkD(1) [OF bt]]
  have e: "drop (Suc x) PP ! y = PP ! (x + y + 1)" "drop (Suc y) (drop (Suc x) PP) = drop (x + y + 2) PP"
    "drop (Suc y) (drop (Suc x) Q) = drop (x + y + 2) Q"
    using lP by (simp_all add: add.commute add.left_commute)
  have q: "nodeMin t (drop (Suc x) Q = []) \<le> length (drop (Suc x) PP)"
    "length (drop (Suc x) PP) \<le> mx (drop (Suc x) Q = [])"
    using occ(3) nl(2) lP j J(2) [of "drop (Suc x) Q = []"] by simp_all
  have "rearranged (leafyOf t) (nodeMin t) (nodeMax t) h p ks Ts (threeTree p ks Ts i a q b PP Q x y)"
    by (rule joined_split3 [OF J(3) T i J(1) s1(1) s2(1) [unfolded e] s1(3)])
      (use q s1(2) s2(2,3) [unfolded e] occ nl lP in \<open>simp_all add: min_def\<close>)
  then show ?thesis by (simp only: PP_def Q_def)
qed

text \<open>The same for leaves of a B*+-tree.\<close>

lemma leaves_joined:
  assumes T: "tree_inv t (Suc 0) (PNode p ks Ts)" and i: "i < length ks" and le: "leafyOf t"
    and A: "Ts ! i = PNode a us []" "Ts ! Suc i = PNode b ws []"
  obtains mx where "nodeMax t \<le> mx" "\<And>x. length us + length ws + 1 \<le> mx x"
    "joined (leafyOf t) (nodeMin t) mx 0 p ks Ts i (PNode a (us @ ws) [])" "tinv lt True (nodeMin t) (nodeMax t) 0 (PNode a (us @ ws) [])"
proof -
  let ?mx = "\<lambda>x. nodeMax t x + length us + length ws + 1"
  have mx: "nodeMax t \<le> ?mx" by (simp add: le_fun_def)
  have J: "joined True (nodeMin t) ?mx 0 p ks Ts i (PNode a (us @ ws) [])"
    by (rule joined_leaves [OF T [unfolded le [THEN eqTrueI]] i A mx]) simp
  then have u: "tinv lt True (nodeMin t) (nodeMax t) 0 (PNode a (us @ ws) [])" by (simp add: joined_def tinv_def)
  have "joined (leafyOf t) (nodeMin t) ?mx 0 p ks Ts i (PNode a (us @ ws) [])" using J le by simp
  from that [OF mx _ this u] show thesis by simp
qed

lemma leaf_pair_rearranged:
  assumes T: "tree_inv t (Suc 0) (PNode p ks Ts)" and i: "i < length ks" and le: "leafyOf t"
    and A: "Ts ! i = PNode a us []" "Ts ! Suc i = PNode b ws []"
    and j: "0 < j" "0 < j'" "j + j' = length us + length ws"
    and occ: "nodeMin t True \<le> j" "j \<le> nodeMax t True" "nodeMin t True \<le> j'" "j' \<le> nodeMax t True"
  shows "rearranged (leafyOf t) (nodeMin t) (nodeMax t) 0 p ks Ts (leafPair p ks Ts i a b (us @ ws) j)"
proof -
  define PP where "PP = us @ ws"
  have lP: "length PP = j + j'" using j by (simp add: PP_def)
  obtain mx where J: "nodeMax t \<le> mx" "joined (leafyOf t) (nodeMin t) mx 0 p ks Ts i (PNode a PP [])"
    "tinv lt True (nodeMin t) (nodeMax t) 0 (PNode a PP [])"
    by (rule leaves_joined [OF T i le A], rule that) (simp_all add: PP_def)
  have jl: "j < length PP" using lP j by simp
  note s = splits_leaf(1) [where q' = b, OF J(3) j(1) jl] splits_leaf(2) [OF J(3) j(1) jl]
    splits_leaf(3) [where q' = b, OF J(3) j(1) jl]
  note e = le [THEN eqTrueI]
  have "rearranged (leafyOf t) (nodeMin t) (nodeMax t) 0 p ks Ts (leafPair p ks Ts i a b PP j)"
    unfolding e by (rule joined_split [OF J(2) [unfolded e] T [unfolded e] i J(1) s(2,3) _ _ _ _ s(1)])
      (use occ lP in \<open>simp_all add: min_def\<close>)
  then show ?thesis by (simp only: PP_def)
qed

lemma leaf_three_rearranged:
  assumes T: "tree_inv t (Suc 0) (PNode p ks Ts)" and i: "i < length ks" and le: "leafyOf t"
    and A: "Ts ! i = PNode a us []" "Ts ! Suc i = PNode b ws []"
    and j: "0 < x" "0 < y" "0 < z" "x + y + z = length us + length ws"
    and occ: "nodeMin t True \<le> x" "x \<le> nodeMax t True" "nodeMin t True \<le> y" "y \<le> nodeMax t True"
      "nodeMin t True \<le> z" "z \<le> nodeMax t True"
  shows "rearranged (leafyOf t) (nodeMin t) (nodeMax t) 0 p ks Ts (leafThree p ks Ts i a q b (us @ ws) x y)"
proof -
  define PP where "PP = us @ ws"
  have lP: "length PP = x + y + z" using j by (simp add: PP_def)
  obtain mx where J: "nodeMax t \<le> mx" "\<And>x. length us + length ws + 1 \<le> mx x"
    "joined (leafyOf t) (nodeMin t) mx 0 p ks Ts i (PNode a PP [])"
    "tinv lt True (nodeMin t) (nodeMax t) 0 (PNode a PP [])"
    by (rule leaves_joined [OF T i le A], rule that) (simp_all add: PP_def)
  have jl: "x < length PP" "y < length (drop x PP)" using lP j by simp_all
  note s1 = splits_leaf(1) [where q' = q, OF J(4) j(1) jl(1)] splits_leaf(2) [OF J(4) j(1) jl(1)]
    splits_leaf(3) [where q' = q, OF J(4) j(1) jl(1)]
  note s2 = splits_leaf(1) [where q' = b, OF s1(3) j(2) jl(2)] splits_leaf(2) [OF s1(3) j(2) jl(2)]
    splits_leaf(3) [where q' = b, OF s1(3) j(2) jl(2)]
  have e: "drop x PP ! (y - 1) = PP ! (x + y - 1)" "drop y (drop x PP) = drop (x + y) PP"
    using lP j(2) by (simp_all add: add.commute)
  have q: "nodeMin t True \<le> length (drop x PP)" "length (drop x PP) \<le> mx True"
    using occ(3) lP j J(2) [of True] by simp_all
  note E = le [THEN eqTrueI]
  have "rearranged (leafyOf t) (nodeMin t) (nodeMax t) 0 p ks Ts (leafThree p ks Ts i a q b PP x y)"
    unfolding E by (rule joined_split3 [OF J(3) [unfolded E] T [unfolded E] i J(1) s1(1) s2(1) [unfolded e] s1(3)])
      (use q s1(2) s2(2,3) [unfolded e] occ lP in \<open>simp_all add: min_def\<close>)
  then show ?thesis by (simp only: PP_def)
qed

end

end
