(* ===== verification/Star_Share.thy ===== *)
theory Star_Share
  imports Star_Pairs
begin

text \<open>
  The branch of a full child in a B*-tree or a B*+-tree: moving keys to the left or to the right
  sibling, or splitting two children into three, and going on below the child that the key
  belongs to.
\<close>

context tree_order
begin

section \<open>The branch of a full child\<close>

text \<open>The keys of a node are in order.\<close>

lemma node_keys_ord:
  assumes "tree_inv t (Suc h) (PNode p ks Ts)" "Suc i < length ks"
  shows "\<not> lt (ks ! Suc i) (ks ! i)"
  using sorted_wrt_nth_less [OF keys_ord [OF assms(1)] _ assms(2), of i] by simp

text \<open>Where the branch stands: at a node with room, above children the insertion can go on in.\<close>

definition branch ::
  "BaseBTree \<Rightarrow> nat \<Rightarrow> nat \<Rightarrow> nat \<Rightarrow> byte list list \<Rightarrow> byte list ptree list \<Rightarrow> byte list \<Rightarrow> insert_call \<Rightarrow> bool" where
  "branch t n h p ks Ts k call \<longleftrightarrow>
     storeOk t \<and> ps_ok (absStore t) \<and> roomy t (absStore t) (Suc (h + n)) \<and> t_comparator t = Some c \<and>
     t_recSize t = sz \<and> orderOk t \<and> starTree t \<and> stored t (absStore t) (PNode p ks Ts) \<and>
     distinct (pages (PNode p ks Ts)) \<and> tree_inv t (Suc h) (PNode p ks Ts) \<and> rootAside t (PNode p ks Ts) \<and>
     length ks < pageMax t p False \<and>
     (\<forall>t' V. keeps t t' \<longrightarrow> ps_ok (absStore t') \<longrightarrow> roomy t (absStore t') (h + n) \<longrightarrow>
       stored t (absStore t') V \<longrightarrow> distinct (pages V) \<longrightarrow> tree_inv t h V \<longrightarrow> rootAside t' V \<longrightarrow>
       pno V \<noteq> t_rootPageNum t' \<longrightarrow> nodeMin t (pkids V = []) \<le> length (pkeys V) \<longrightarrow>
       length (pkeys V) < nodeMax t (pkids V = []) \<longrightarrow> ins_done t' n h V k (call (pageImg (absStore t') (pno V)) t'))"

lemma branchD:
  assumes "branch t n h p ks Ts k call"
  shows "storeOk t" "ps_ok (absStore t)" "roomy t (absStore t) (Suc (h + n))" "t_comparator t = Some c"
    "t_recSize t = sz" "orderOk t" "starTree t" "stored t (absStore t) (PNode p ks Ts)"
    "distinct (pages (PNode p ks Ts))" "tree_inv t (Suc h) (PNode p ks Ts)" "rootAside t (PNode p ks Ts)"
    "length ks < pageMax t p False" "length Ts = Suc (length ks)" "starOrder t"
  using assms by (simp_all add: branch_def tinv_def orderOk_def)

text \<open>The sizes of the children.\<close>

lemma branch_kid:
  assumes B: "branch t n h p ks Ts k call" and i: "i < length Ts"
  shows "t_minKeys t \<le> length (pkeys (Ts ! i))" "length (pkeys (Ts ! i)) \<le> t_maxKeys t" "(pkids (Ts ! i) = []) = (h = 0)"
    "isFull t (pageImg (absStore t) (pno (Ts ! i))) \<longleftrightarrow> length (pkeys (Ts ! i)) = t_maxKeys t"
proof -
  note D = branchD [OF B] and V = nth_mem [OF i]
  show "t_minKeys t \<le> length (pkeys (Ts ! i))" "length (pkeys (Ts ! i)) \<le> t_maxKeys t"
    using D(10) V starNode [OF D(7)] by (simp_all add: tinv_def)
  have "bal h (Ts ! i)" using tinv_child [OF D(10) V] by (simp add: tinv_def)
  then show "(pkids (Ts ! i) = []) = (h = 0)" by (cases "Ts ! i"; cases h) auto
  have "stored t (absStore t) (Ts ! i)" using D(8) V by simp
  note h = stored_node [OF this]
  have "pno (Ts ! i) \<noteq> t_rootPageNum t" using rootAside_kid [OF D(11)] V by simp
  then show "isFull t (pageImg (absStore t) (pno (Ts ! i))) \<longleftrightarrow> length (pkeys (Ts ! i)) = t_maxKeys t"
    using pageHasD(1,3) [OF h] by (simp add: isFull_pageMax pageMax_node starNode [OF D(7)])
qed

text \<open>A pair of neighbouring children.\<close>

lemma branch_pair:
  assumes B: "branch t n h p ks Ts k call" and i: "i < length ks"
  obtains a us Vs b ws Ws where "pairAt t p ks Ts i a us Vs b ws Ws" "Ts ! i = PNode a us Vs" "Ts ! Suc i = PNode b ws Ws"
    "(Vs = []) = (h = 0)" "(Ws = []) = (h = 0)"
proof -
  note D = branchD [OF B]
  obtain a us Vs b ws Ws where A: "Ts ! i = PNode a us Vs" "Ts ! Suc i = PNode b ws Ws" by (metis ptree.exhaust)
  have "(Vs = []) = (h = 0)" "(Ws = []) = (h = 0)"
    using branch_kid(3) [OF B, of i] branch_kid(3) [OF B, of "Suc i"] i D(13) A by simp_all
  then show thesis using that [of a us Vs b ws Ws] D A i by (simp add: pairAt_def del: stored.simps pages.simps)
qed

text \<open>Going on below a child of the rearranged ones.\<close>

lemma branch_insert:
  assumes B: "branch t n h p ks Ts k call" and i: "i < length ks"
    and U: "length Us = Suc (length ms)" "ms \<noteq> []" "length ms \<le> 2"
    and P: "pair_done t (h + n) h p ks Ts i t' ms Us"
    and d: "d \<le> length ms" "length (pkeys (Us ! d)) < t_maxKeys t"
      "0 < d \<longrightarrow> \<not> lt k (ms ! (d - 1))" "d < length ms \<longrightarrow> \<not> lt (ms ! d) k"
    and b: "0 < i \<longrightarrow> \<not> lt k (ks ! (i - 1))" "Suc i < length ks \<longrightarrow> \<not> lt (ks ! Suc i) k"
  shows "ins_done t n (Suc h) (PNode p ks Ts) k
    (bindR (call (pageImg (absStore t') (pno (Us ! d))) t') (\<lambda>(_, t). Inr (pageImg (absStore t') p, t)))"
proof -
  note D = branchD [OF B]
  have "length ks + length ms \<le> Suc (pageMax t p False)" using D(12) U(3) by linarith
  then show ?thesis
    using B by (intro pair_insert [OF D(1,5,9-11) i U(1) _ U(2) P d(1) _ d(3,4) b]) (simp_all add: branch_def starNode d(2))
qed

section \<open>Sharing, and going on below\<close>

text \<open>Either nothing was done, which takes a sibling one key short of full, or the key is inserted.\<close>

definition share_done ::
  "BaseBTree \<Rightarrow> nat \<Rightarrow> nat \<Rightarrow> nat \<Rightarrow> byte list list \<Rightarrow> byte list ptree list \<Rightarrow> byte list \<Rightarrow> byte list ptree \<Rightarrow> share_result \<Rightarrow>
   bool" where
  "share_done t n h p ks Ts k sibling r \<longleftrightarrow>
     r = Inr (False, pageImg (absStore t) p, t) \<and> Suc (length (pkeys sibling)) = t_maxKeys t \<or>
     (\<exists>e. r = bindR e (\<lambda>(node, t). Inr (True, node, t)) \<and> ins_done t n (Suc h) (PNode p ks Ts) k e)"

lemma share_doneI:
  assumes "ins_done t n (Suc h) (PNode p ks Ts) k (bindR (call pw t') (\<lambda>(_, t). Inr (node, t)))"
    "r = bindR (call pw t') (\<lambda>(_, t). Inr (True, node, t))"
  shows "share_done t n h p ks Ts k sibling r"
proof -
  have "r = bindR (bindR (call pw t') (\<lambda>(_, t). Inr (node, t))) (\<lambda>(node, t). Inr (True, node, t))"
    unfolding assms(2) by (cases "call pw t'") auto
  then show ?thesis using assms(1) unfolding share_done_def by blast
qed

text \<open>The common end: two children around \<open>x\<close>, and the key goes on below one of them.\<close>

lemma share_left_go:
  assumes B: "branch t n h p ks Ts k call" and i: "i < length ks"
    and P: "pair_done t (h + n) h p ks Ts i t' [x] [PNode a us Vs, PNode b ws Ws]"
    and r: "r = (if q then Inr (False, pageImg (absStore t) p, t)
      else bindR (call (if cmp_compare c k x (t_recSize t) then pageImg (absStore t') a else pageImg (absStore t') b) t')
        (\<lambda>(_, t). Inr (True, pageImg (absStore t') p, t)))"
    and q: "q \<Longrightarrow> Suc (length (pkeys sibling)) = t_maxKeys t"
    and room: "\<not> q \<Longrightarrow> lt k x \<Longrightarrow> length us < t_maxKeys t" "length ws < t_maxKeys t"
    and b: "\<not> lt k (ks ! i)" "Suc i < length ks \<longrightarrow> \<not> lt (ks ! Suc i) k"
  shows "share_done t n h p ks Ts k sibling r"
proof (cases q)
  case True
  then show ?thesis using r q by (simp add: share_done_def)
next
  case False
  note D = branchD [OF B]
  let ?d = "if lt k x then 0 else Suc 0" and ?Us = "[PNode a us Vs, PNode b ws Ws]"
  have "ins_done t n (Suc h) (PNode p ks Ts) k
    (bindR (call (pageImg (absStore t') (pno (?Us ! ?d))) t') (\<lambda>(_, t). Inr (pageImg (absStore t') p, t)))"
  proof (rule branch_insert [OF B i _ _ _ P])
    show "length (pkeys (?Us ! ?d)) < t_maxKeys t" using room False by simp
    show "0 < i \<longrightarrow> \<not> lt k (ks ! (i - 1))"
      using node_keys_ord [OF D(10), of "i - 1"] b(1) i le_trans [of "ks ! i" "ks ! (i - 1)" k] by auto
  qed (use b(2) less_le in auto)
  then show ?thesis by (rule share_doneI) (use r False D(5) in auto)
qed

lemma share_right_go:
  assumes B: "branch t n h p ks Ts k call" and i: "i < length ks"
    and P: "pair_done t (h + n) h p ks Ts i t' [x] [PNode a us Vs, PNode b ws Ws]"
    and r: "r = (if q then Inr (False, pageImg (absStore t) p, t)
      else bindR (call (if cmp_compare c x k (t_recSize t) then pageImg (absStore t') b else pageImg (absStore t') a) t')
        (\<lambda>(_, t). Inr (True, pageImg (absStore t') p, t)))"
    and q: "q \<Longrightarrow> Suc (length (pkeys sibling)) = t_maxKeys t"
    and room: "\<not> q \<Longrightarrow> lt x k \<Longrightarrow> length ws < t_maxKeys t" "length us < t_maxKeys t"
    and b: "0 < i \<longrightarrow> \<not> lt k (ks ! (i - 1))" "\<not> lt (ks ! i) k"
  shows "share_done t n h p ks Ts k sibling r"
proof (cases q)
  case True
  then show ?thesis using r q by (simp add: share_done_def)
next
  case False
  note D = branchD [OF B]
  let ?d = "if lt x k then Suc 0 else 0" and ?Us = "[PNode a us Vs, PNode b ws Ws]"
  have "ins_done t n (Suc h) (PNode p ks Ts) k
    (bindR (call (pageImg (absStore t') (pno (?Us ! ?d))) t') (\<lambda>(_, t). Inr (pageImg (absStore t') p, t)))"
  proof (rule branch_insert [OF B i _ _ _ P])
    show "length (pkeys (?Us ! ?d)) < t_maxKeys t" using room False by simp
    show "Suc i < length ks \<longrightarrow> \<not> lt (ks ! Suc i) k"
      using node_keys_ord [OF D(10), of i] b(2) le_trans [of "ks ! i" k "ks ! Suc i"] by auto
  qed (use b(1) less_le in auto)
  then show ?thesis by (rule share_doneI) (use r False D(5) in auto)
qed

lemma BaseBStarTree_shareLeft_done:
  assumes B: "branch t n h p ks Ts k call" and i: "i < length ks" and l: "leafyOf t \<longrightarrow> 0 < h"
    and full: "length (pkeys (Ts ! Suc i)) = t_maxKeys t" "length (pkeys (Ts ! i)) < t_maxKeys t"
    and b: "\<not> lt k (ks ! i)" "Suc i < length ks \<longrightarrow> \<not> lt (ks ! Suc i) k"
  shows "share_done t n h p ks Ts k (Ts ! i)
    (BaseBStarTree_shareKeysWithLeftChildAndInsert call k (pageImg (absStore t) p) (Suc i)
      (pageImg (absStore t) (pno (Ts ! Suc i))) (pageImg (absStore t) (pno (Ts ! i))) t)"
proof -
  note D = branchD [OF B]
  obtain a us Vs b' ws Ws where A: "pairAt t p ks Ts i a us Vs b' ws Ws" "Ts ! i = PNode a us Vs" "Ts ! Suc i = PNode b' ws Ws"
    "(Vs = []) = (h = 0)" "(Ws = []) = (h = 0)"
    by (rule branch_pair [OF B i])
  define j where "j = (length ws + length us + 1) div 2"
  let ?PP = "us @ ks ! i # ws"
  have il: "i < length Ts" "Suc i < length Ts" using i D(13) by simp_all
  have n: "length us < length ws" "length ws = t_maxKeys t" "t_minKeys t \<le> length us" using full A(2,3) branch_kid(1) [OF B il(1)] by simp_all
  have f: "isFull t (pageImg (absStore t) b')" "\<not> isFull t (pageImg (absStore t) a)"
    using branch_kid(4) [OF B il(1)] branch_kid(4) [OF B il(2)] full A(2,3) by simp_all
  obtain t' where t': "reshaped t (h + n) p ks Ts t' (pairTree p ks Ts i a b' ?PP (Vs @ Ws) j)"
    and r: "BaseBStarTree_shareKeysWithLeftChildAndInsert call k (pageImg (absStore t) p) (Suc i) (pageImg (absStore t) b')
      (pageImg (absStore t) a) t =
    (if j = t_maxKeys t \<and> j - length us = 1 \<and> cmp_compare c k (ws ! 0) (t_recSize t)
     then Inr (False, pageImg (absStore t) p, t)
     else bindR (call (if cmp_compare c k (?PP ! j) (t_recSize t) then pageImg (absStore t') a else pageImg (absStore t') b') t')
       (\<lambda>(_, t). Inr (True, pageImg (absStore t') p, t)))"
    using BaseBStarTree_shareLeft_ok [OF A(1) roomy_mono [OF D(3)] f D(4) n(1), of "h + n" call k, folded j_def] by auto
  have jn: "j \<le> t_maxKeys t" "length us + length ws - j < t_maxKeys t" "t_minKeys t \<le> j"
    "t_minKeys t \<le> length us + length ws - j" "j \<le> length us + length ws"
    "j = t_maxKeys t \<Longrightarrow> Suc (length us) = t_maxKeys t"
    using n unfolding j_def by linarith+
  have R: "rearranged (leafyOf t) (nodeMin t) (nodeMax t) h p ks Ts (pairTree p ks Ts i a b' ?PP (Vs @ Ws) j)"
    by (rule pair_rearranged [OF D(10) i D(6) A(2,3), of j "length us + length ws - j"])
      (use l A(4) jn starNode [OF D(7)] in auto)
  have go: "j < t_maxKeys t" if "\<not> (j = t_maxKeys t \<and> j - length us = 1 \<and> cmp_compare c k (ws ! 0) (t_recSize t))" "lt k (?PP ! j)"
  proof (rule ccontr)
    assume "\<not> j < t_maxKeys t"
    then have j: "j = t_maxKeys t" "Suc (length us) = t_maxKeys t" using jn(1,6) by simp_all
    then have "?PP ! j = ws ! 0" by (simp add: nth_append)
    then show False using that j D(5) by simp
  qed
  have P: "pair_done t (h + n) h p ks Ts i t' [?PP ! j]
      [PNode a (take j ?PP) (take (Suc j) (Vs @ Ws)), PNode b' (drop (Suc j) ?PP) (drop (Suc j) (Vs @ Ws))]"
    using t' R by (simp add: pair_done_def)
  have "length (take j ?PP) < t_maxKeys t"
    if "\<not> (j = t_maxKeys t \<and> j - length us = 1 \<and> cmp_compare c k (ws ! 0) (t_recSize t))" "lt k (?PP ! j)"
    using go [OF that] min.cobounded2 [of "length ?PP" j] unfolding length_take by linarith
  from share_left_go [OF B i P r _ this _ b, of "Ts ! i"] show ?thesis using jn A(2,3) by auto
qed

lemma BaseBStarTree_shareRight_done:
  assumes B: "branch t n h p ks Ts k call" and i: "i < length ks" and l: "leafyOf t \<longrightarrow> 0 < h"
    and full: "length (pkeys (Ts ! i)) = t_maxKeys t" "length (pkeys (Ts ! Suc i)) < t_maxKeys t"
    and b: "0 < i \<longrightarrow> \<not> lt k (ks ! (i - 1))" "\<not> lt (ks ! i) k"
  shows "share_done t n h p ks Ts k (Ts ! Suc i)
    (BaseBStarTree_shareKeysWithRightChildAndInsert call k (pageImg (absStore t) p) i
      (pageImg (absStore t) (pno (Ts ! i))) (pageImg (absStore t) (pno (Ts ! Suc i))) t)"
proof -
  note D = branchD [OF B]
  obtain a us Vs b' ws Ws where A: "pairAt t p ks Ts i a us Vs b' ws Ws" "Ts ! i = PNode a us Vs" "Ts ! Suc i = PNode b' ws Ws"
    "(Vs = []) = (h = 0)" "(Ws = []) = (h = 0)"
    by (rule branch_pair [OF B i])
  define nr where "nr = (length us + length ws + 1) div 2"
  define j where "j = length us - (nr - length ws)"
  let ?PP = "us @ ks ! i # ws"
  have il: "i < length Ts" "Suc i < length Ts" using i D(13) by simp_all
  have n: "length ws < length us" "length us = t_maxKeys t" "t_minKeys t \<le> length ws" using full A(2,3) branch_kid(1) [OF B il(2)] by simp_all
  have f: "isFull t (pageImg (absStore t) a)" "\<not> isFull t (pageImg (absStore t) b')"
    using branch_kid(4) [OF B il(1)] branch_kid(4) [OF B il(2)] full A(2,3) by simp_all
  obtain t' where t': "reshaped t (h + n) p ks Ts t' (pairTree p ks Ts i a b' ?PP (Vs @ Ws) j)"
    and r: "BaseBStarTree_shareKeysWithRightChildAndInsert call k (pageImg (absStore t) p) i (pageImg (absStore t) a)
      (pageImg (absStore t) b') t =
    (if nr = t_maxKeys t \<and> nr - length ws = 1 \<and> cmp_compare c (us ! (length us - 1)) k (t_recSize t)
     then Inr (False, pageImg (absStore t) p, t)
     else bindR (call (if cmp_compare c (?PP ! j) k (t_recSize t) then pageImg (absStore t') b' else pageImg (absStore t') a) t')
       (\<lambda>(_, t). Inr (True, pageImg (absStore t') p, t)))"
    using BaseBStarTree_shareRight_ok [OF A(1) roomy_mono [OF D(3)] f D(4) n(1), of "h + n" call k, folded nr_def, folded j_def]
    by auto
  have jn: "j \<le> length us + length ws" "length us + length ws - j = nr" "nr \<le> t_maxKeys t" "j < t_maxKeys t"
    "t_minKeys t \<le> j" "t_minKeys t \<le> nr" "nr = t_maxKeys t \<Longrightarrow> Suc (length ws) = t_maxKeys t"
    "nr = t_maxKeys t \<Longrightarrow> j = length us - 1"
    using n unfolding j_def nr_def by linarith+
  have R: "rearranged (leafyOf t) (nodeMin t) (nodeMax t) h p ks Ts (pairTree p ks Ts i a b' ?PP (Vs @ Ws) j)"
    by (rule pair_rearranged [OF D(10) i D(6) A(2,3), of j "length us + length ws - j"])
      (use l A(4) jn starNode [OF D(7)] in auto)
  have go: "nr < t_maxKeys t"
    if "\<not> (nr = t_maxKeys t \<and> nr - length ws = 1 \<and> cmp_compare c (us ! (length us - 1)) k (t_recSize t))" "lt (?PP ! j) k"
  proof (rule ccontr)
    assume "\<not> nr < t_maxKeys t"
    then have mx: "nr = t_maxKeys t" "Suc (length ws) = t_maxKeys t" "j = length us - 1" using jn(3,7,8) by simp_all
    moreover have "length us - 1 < length us" using n(1) by simp
    ultimately have "?PP ! j = us ! (length us - 1)" by (simp add: nth_append)
    then show False using that mx D(5) by simp
  qed
  have P: "pair_done t (h + n) h p ks Ts i t' [?PP ! j]
      [PNode a (take j ?PP) (take (Suc j) (Vs @ Ws)), PNode b' (drop (Suc j) ?PP) (drop (Suc j) (Vs @ Ws))]"
    using t' R by (simp add: pair_done_def)
  have "length (drop (Suc j) ?PP) = nr" using jn(1,2) by simp
  then have "length (drop (Suc j) ?PP) < t_maxKeys t"
    if "\<not> (nr = t_maxKeys t \<and> nr - length ws = 1 \<and> cmp_compare c (us ! (length us - 1)) k (t_recSize t))" "lt (?PP ! j) k"
    using go [OF that] by simp
  from share_right_go [OF B i P r _ this _ b, of "Ts ! Suc i"] show ?thesis using jn A(2,3) by auto
qed

text \<open>The leaves of a B*+-tree.\<close>

lemma leaf_pair:
  assumes B: "branch t n h p ks Ts k call" and i: "i < length ks" and h: "h = 0"
  obtains a us b ws where "pairAt t p ks Ts i a us [] b ws []" "Ts ! i = PNode a us []" "Ts ! Suc i = PNode b ws []"
proof -
  obtain a us Vs b ws Ws where A: "pairAt t p ks Ts i a us Vs b ws Ws" "Ts ! i = PNode a us Vs" "Ts ! Suc i = PNode b ws Ws"
    "(Vs = []) = (h = 0)" "(Ws = []) = (h = 0)"
    by (rule branch_pair [OF B i])
  then show thesis using that h by simp
qed

lemma BaseBStarPlusTree_shareLeft_done:
  assumes B: "branch t n h p ks Ts k call" and i: "i < length ks" and le: "leafyOf t" and h: "h = 0"
    and full: "length (pkeys (Ts ! Suc i)) = t_maxKeys t" "length (pkeys (Ts ! i)) < t_maxKeys t"
    and b: "\<not> lt k (ks ! i)" "Suc i < length ks \<longrightarrow> \<not> lt (ks ! Suc i) k"
  shows "share_done t n h p ks Ts k (Ts ! i)
    (BaseBStarPlusTree_shareKeysWithLeftChildAndInsert call k (pageImg (absStore t) p) (Suc i)
      (pageImg (absStore t) (pno (Ts ! Suc i))) (pageImg (absStore t) (pno (Ts ! i))) t)"
proof -
  note D = branchD [OF B]
  obtain a us b' ws where A: "pairAt t p ks Ts i a us [] b' ws []" "Ts ! i = PNode a us []" "Ts ! Suc i = PNode b' ws []"
    by (rule leaf_pair [OF B i h])
  define j where "j = (length ws + length us + 1) div 2"
  let ?PP = "us @ ws"
  have il: "i < length Ts" "Suc i < length Ts" using i D(13) by simp_all
  have n: "length us < length ws" "length ws = t_maxKeys t" "t_minKeys t \<le> length us"
    using full A(2,3) branch_kid(1) [OF B il(1)] by simp_all
  have f: "isFull t (pageImg (absStore t) b')" "\<not> isFull t (pageImg (absStore t) a)"
    using branch_kid(4) [OF B il(1)] branch_kid(4) [OF B il(2)] full A(2,3) by simp_all
  obtain t' where t': "reshaped t (h + n) p ks Ts t' (leafPair p ks Ts i a b' ?PP j)"
    and r: "BaseBStarPlusTree_shareKeysWithLeftChildAndInsert call k (pageImg (absStore t) p) (Suc i) (pageImg (absStore t) b')
      (pageImg (absStore t) a) t =
    (if j = t_maxKeys t \<and> j - length us = 1 \<and> cmp_compare c k (ws ! 0) (t_recSize t)
     then Inr (False, pageImg (absStore t) p, t)
     else bindR (call (if cmp_compare c k (?PP ! (j - 1)) (t_recSize t) then pageImg (absStore t') a else pageImg (absStore t') b') t')
       (\<lambda>(_, t). Inr (True, pageImg (absStore t') p, t)))"
    using BaseBStarPlusTree_shareLeft_ok [OF A(1) roomy_mono [OF D(3)] f D(4) n(1), of "h + n" call k, folded j_def] by auto
  have jn: "j \<le> t_maxKeys t" "length us + length ws - j < t_maxKeys t" "t_minKeys t \<le> j"
    "t_minKeys t \<le> length us + length ws - j" "j \<le> length us + length ws" "0 < j" "0 < length us + length ws - j"
    "j = t_maxKeys t \<Longrightarrow> Suc (length us) = t_maxKeys t"
    using n starOrderD(1) [OF D(14)] unfolding j_def by linarith+
  have R: "rearranged (leafyOf t) (nodeMin t) (nodeMax t) h p ks Ts (leafPair p ks Ts i a b' ?PP j)"
    unfolding h by (rule leaf_pair_rearranged [OF D(10) [unfolded h] i le A(2,3) jn(6,7)])
      (use jn starNode [OF D(7)] in auto)
  have go: "j < t_maxKeys t"
    if "\<not> (j = t_maxKeys t \<and> j - length us = 1 \<and> cmp_compare c k (ws ! 0) (t_recSize t))" "lt k (?PP ! (j - 1))"
  proof (rule ccontr)
    assume "\<not> j < t_maxKeys t"
    then have j: "j = t_maxKeys t" "Suc (length us) = t_maxKeys t" using jn(1,8) by simp_all
    then have "j - 1 = length us" by simp
    then have "?PP ! (j - 1) = ws ! 0" by (simp only: nth_append) simp
    then show False using that j D(5) by simp
  qed
  have P: "pair_done t (h + n) h p ks Ts i t' [?PP ! (j - 1)] [PNode a (take j ?PP) [], PNode b' (drop j ?PP) []]"
    using t' R by (simp add: pair_done_def)
  have "length (take j ?PP) < t_maxKeys t"
    if "\<not> (j = t_maxKeys t \<and> j - length us = 1 \<and> cmp_compare c k (ws ! 0) (t_recSize t))" "lt k (?PP ! (j - 1))"
    using go [OF that] min.cobounded2 [of "length ?PP" j] unfolding length_take by linarith
  from share_left_go [OF B i P r _ this _ b, of "Ts ! i"] show ?thesis using jn A(2,3) by auto
qed

lemma BaseBStarPlusTree_shareRight_done:
  assumes B: "branch t n h p ks Ts k call" and i: "i < length ks" and le: "leafyOf t" and h: "h = 0"
    and full: "length (pkeys (Ts ! i)) = t_maxKeys t" "length (pkeys (Ts ! Suc i)) < t_maxKeys t"
    and b: "0 < i \<longrightarrow> \<not> lt k (ks ! (i - 1))" "\<not> lt (ks ! i) k"
  shows "share_done t n h p ks Ts k (Ts ! Suc i)
    (BaseBStarPlusTree_shareKeysWithRightChildAndInsert call k (pageImg (absStore t) p) i
      (pageImg (absStore t) (pno (Ts ! i))) (pageImg (absStore t) (pno (Ts ! Suc i))) t)"
proof -
  note D = branchD [OF B]
  obtain a us b' ws where A: "pairAt t p ks Ts i a us [] b' ws []" "Ts ! i = PNode a us []" "Ts ! Suc i = PNode b' ws []"
    by (rule leaf_pair [OF B i h])
  define nr where "nr = (length us + length ws + 1) div 2"
  define j where "j = length us - (nr - length ws)"
  let ?PP = "us @ ws"
  have il: "i < length Ts" "Suc i < length Ts" using i D(13) by simp_all
  have n: "length ws < length us" "length us = t_maxKeys t" "t_minKeys t \<le> length ws"
    using full A(2,3) branch_kid(1) [OF B il(2)] by simp_all
  have n1: "1 < length us" using n(2) starOrderD(4) [OF D(14)] by simp
  have f: "isFull t (pageImg (absStore t) a)" "\<not> isFull t (pageImg (absStore t) b')"
    using branch_kid(4) [OF B il(1)] branch_kid(4) [OF B il(2)] full A(2,3) by simp_all
  obtain t' where t': "reshaped t (h + n) p ks Ts t' (leafPair p ks Ts i a b' ?PP j)"
    and r: "BaseBStarPlusTree_shareKeysWithRightChildAndInsert call k (pageImg (absStore t) p) i (pageImg (absStore t) a)
      (pageImg (absStore t) b') t =
    (if nr = t_maxKeys t \<and> nr - length ws = 1 \<and> cmp_compare c (us ! (length us - 2)) k (t_recSize t)
     then Inr (False, pageImg (absStore t) p, t)
     else bindR (call (if cmp_compare c (?PP ! (j - 1)) k (t_recSize t) then pageImg (absStore t') b' else pageImg (absStore t') a) t')
       (\<lambda>(_, t). Inr (True, pageImg (absStore t') p, t)))"
    using BaseBStarPlusTree_shareRight_ok [OF A(1) roomy_mono [OF D(3)] f D(4) n(1) n1, of "h + n" call k, folded nr_def,
        folded j_def]
    by auto
  have jn: "j \<le> length us + length ws" "length us + length ws - j = nr" "nr \<le> t_maxKeys t" "j < t_maxKeys t"
    "t_minKeys t \<le> j" "t_minKeys t \<le> nr" "0 < j" "0 < nr" "nr = t_maxKeys t \<Longrightarrow> Suc (length ws) = t_maxKeys t"
    "nr = t_maxKeys t \<Longrightarrow> j = length us - 1" "j + nr = length us + length ws"
    using n n1 starOrderD(1) [OF D(14)] unfolding j_def nr_def by linarith+
  have R: "rearranged (leafyOf t) (nodeMin t) (nodeMax t) h p ks Ts (leafPair p ks Ts i a b' ?PP j)"
    unfolding h by (rule leaf_pair_rearranged [OF D(10) [unfolded h] i le A(2,3) jn(7,8,11)])
      (use jn starNode [OF D(7)] in auto)
  have go: "nr < t_maxKeys t"
    if "\<not> (nr = t_maxKeys t \<and> nr - length ws = 1 \<and> cmp_compare c (us ! (length us - 2)) k (t_recSize t))"
      "lt (?PP ! (j - 1)) k"
  proof (rule ccontr)
    assume "\<not> nr < t_maxKeys t"
    then have mx: "nr = t_maxKeys t" "Suc (length ws) = t_maxKeys t" "j - 1 = length us - 2" using jn(3,9,10) by simp_all
    moreover have "length us - 2 < length us" using n(1) by simp
    ultimately have "?PP ! (j - 1) = us ! (length us - 2)" by (simp add: nth_append)
    then show False using that mx D(5) by simp
  qed
  have P: "pair_done t (h + n) h p ks Ts i t' [?PP ! (j - 1)] [PNode a (take j ?PP) [], PNode b' (drop j ?PP) []]"
    using t' R by (simp add: pair_done_def)
  have "length (drop j ?PP) = nr" using jn(2) by simp
  then have "length (drop j ?PP) < t_maxKeys t"
    if "\<not> (nr = t_maxKeys t \<and> nr - length ws = 1 \<and> cmp_compare c (us ! (length us - 2)) k (t_recSize t))"
      "lt (?PP ! (j - 1)) k"
    using go [OF that] by simp
  from share_right_go [OF B i P r _ this _ b, of "Ts ! Suc i"] show ?thesis using jn A(2,3) by auto
qed

section \<open>Splitting two children, and going on below\<close>

lemma three_keys:
  assumes R: "reshaped t n p ks Ts t' (joinedTree p ks Ts i [x, y] Us)" and i: "i < length ks"
  shows "keyAt t' (pageImg (absStore t') p) i = Inr x" "keyAt t' (pageImg (absStore t') p) (Suc i) = Inr y"
proof -
  have k: "keeps t t'" and s: "stored t (absStore t') (joinedTree p ks Ts i [x, y] Us)" using R by (simp_all add: reshaped_def)
  have "pageHas t' (pageImg (absStore t') p) p (take i ks @ [x, y] @ drop (Suc i) ks)
      (map pno (take i Ts @ Us @ drop (Suc (Suc i)) Ts))"
    using s by (simp add: joinedTree_def pageHas_frame [OF keepsD(2) [OF k]])
  note h = has_keyAt [OF storeOkD(1) [OF keepsD(1) [OF k]] this]
  show "keyAt t' (pageImg (absStore t') p) i = Inr x" "keyAt t' (pageImg (absStore t') p) (Suc i) = Inr y"
    using h [of i] h [of "Suc i"] i by (simp_all add: nth_append)
qed

text \<open>What follows a split into \<open>Us\<close> around \<open>x\<close> and \<open>y\<close>.\<close>

lemma three_insert:
  assumes B: "branch t n h p ks Ts k call" and i: "i < length ks"
    and P: "pair_done t (h + n) h p ks Ts i t' [x, y] [L, M, R]"
    and room: "length (pkeys L) < t_maxKeys t" "length (pkeys M) < t_maxKeys t" "length (pkeys R) < t_maxKeys t"
    and b: "0 < i \<longrightarrow> \<not> lt k (ks ! (i - 1))" "Suc i < length ks \<longrightarrow> \<not> lt (ks ! Suc i) k"
  shows "ins_done t n (Suc h) (PNode p ks Ts) k
    (bindR (keyAt t' (pageImg (absStore t') p) (i + 1)) (\<lambda>x. bindR (keyAt t' (pageImg (absStore t') p) i) (\<lambda>y.
     bindR (call (if cmp_compare c x k (t_recSize t') then pageImg (absStore t') (pno R)
                  else if cmp_compare c y k (t_recSize t') then pageImg (absStore t') (pno M)
                  else pageImg (absStore t') (pno L)) t') (\<lambda>(_, t). Inr (pageImg (absStore t') p, t)))))"
proof -
  have re: "reshaped t (h + n) p ks Ts t' (joinedTree p ks Ts i [x, y] [L, M, R])" using P by (simp add: pair_done_def)
  have "frame t' = frame t" using re by (simp add: reshaped_def keepsD(2))
  then have sz: "t_recSize t' = sz" using frame_eqD [of t' t] branchD(5) [OF B] by simp
  define d where "d = (if lt y k then 2 else if lt x k then 1 else 0 :: nat)"
  have d: "d \<le> length [x, y]" "0 < d \<longrightarrow> \<not> lt k ([x, y] ! (d - 1))" "d < length [x, y] \<longrightarrow> \<not> lt ([x, y] ! d) k"
    using less_le [of x k] less_le [of y k] by (cases "lt y k"; cases "lt x k"; simp add: d_def numeral_2_eq_2)+
  have V: "[L, M, R] ! d = (if lt y k then R else if lt x k then M else L)" by (simp add: d_def numeral_2_eq_2)
  have r: "length (pkeys ([L, M, R] ! d)) < t_maxKeys t" using room by (simp add: V)
  have u: "length [L, M, R] = Suc (length [x, y])" "[x, y] \<noteq> []" "length [x, y] \<le> 2" by simp_all
  have "(if cmp_compare c y k sz then pageImg (absStore t') (pno R) else if cmp_compare c x k sz
      then pageImg (absStore t') (pno M) else pageImg (absStore t') (pno L)) = pageImg (absStore t') (pno ([L, M, R] ! d))"
    by (simp add: V)
  then show ?thesis
    using branch_insert [OF B i u P d(1) r d(2,3) b] three_keys [OF re i] by (simp only: sz add_0_right Suc_eq_plus1 [symmetric] bindR_simps)
qed

lemma BaseBStarTree_split3_done:
  assumes B: "branch t n h p ks Ts k call" and i: "i < length ks" and l: "leafyOf t \<longrightarrow> 0 < h"
    and num: "length (pkeys (Ts ! i)) + length (pkeys (Ts ! Suc i)) + (if short then 1 else 0) = 2 * t_maxKeys t"
    and mid: "length (pw_data middle) = t_nodePageSize t"
    and b: "0 < i \<longrightarrow> \<not> lt k (ks ! (i - 1))" "Suc i < length ks \<longrightarrow> \<not> lt (ks ! Suc i) k"
  shows "ins_done t n (Suc h) (PNode p ks Ts) k
    (bindR (BaseBStarTree_splitChildren (pageImg (absStore t) p) i (pageImg (absStore t) (pno (Ts ! i))) middle
        (pageImg (absStore t) (pno (Ts ! Suc i))) short t) (\<lambda>(node, left, middle, right, t).
     bindR (keyAt t node (i + 1)) (\<lambda>x. bindR (keyAt t node i) (\<lambda>y.
     bindR (call (if cmp_compare c x k (t_recSize t) then right
                  else if cmp_compare c y k (t_recSize t) then middle else left) t) (\<lambda>(_, t). Inr (node, t))))))"
proof -
  note D = branchD [OF B]
  obtain a us Vs b' ws Ws where A: "pairAt t p ks Ts i a us Vs b' ws Ws" "Ts ! i = PNode a us Vs" "Ts ! Suc i = PNode b' ws Ws"
    "(Vs = []) = (h = 0)" "(Ws = []) = (h = 0)"
    by (rule branch_pair [OF B i])
  let ?l = "t_leftSplitProductKeys t" and ?m = "t_middleSplitProductKeys t" and ?r = "getRightSplitProductKeys short t"
  let ?PP = "us @ ks ! i # ws"
  note pr = star_products(1-4) [OF D(14)] star_products(5-7) [where short = short, OF D(14)]
  have sum: "?l + ?m + ?r + 1 = length us + length ws" using num A(2,3) pr(7) by (cases short) simp_all
  have ro: "t_maxKeys t \<le> pageKeys t" "pageMax t p False \<le> pageKeys t"
    using pageMax_room [OF D(6) storeOkD(1) [OF D(1)]] starNode [OF D(7)] by metis+
  have pi: "pageHas t (pageImg (absStore t) p) p ks (map pno Ts)" by (rule pairAtD(12) [OF A(1)])
  have nf: "\<not> isFull t (pageImg (absStore t) p)" "length ks < pageKeys t"
    using D(12,13) ro pageHasD(1,3,4) [OF pi] by (auto simp: isFull_pageMax)
  have cap: "?l \<le> pageKeys t" "?m \<le> pageKeys t" "?r \<le> pageKeys t" using pr ro(1) by simp_all
  obtain t' q where s: "BaseBStarTree_splitChildren (pageImg (absStore t) p) i (pageImg (absStore t) a) middle
      (pageImg (absStore t) b') short t =
      Inr (pageImg (absStore t') p, pageImg (absStore t') a, pageImg (absStore t') q, pageImg (absStore t') b', t')"
    and re: "reshaped t (h + n) p ks Ts t' (threeTree p ks Ts i a q b' ?PP (Vs @ Ws) ?l ?m)"
    using BaseBStarTree_splitChildren_ok [OF A(1) D(3) nf mid refl refl refl sum cap] by blast
  have "rearranged (leafyOf t) (nodeMin t) (nodeMax t) h p ks Ts (threeTree p ks Ts i a q b' ?PP (Vs @ Ws) ?l ?m)"
    by (rule three_rearranged [OF D(10) i D(6) A(2,3), of ?l ?m ?r]) (use l A(4) sum pr starNode [OF D(7)] in auto)
  then have "pair_done t (h + n) h p ks Ts i t' [?PP ! ?l, ?PP ! (?l + ?m + 1)]
     [PNode a (take ?l ?PP) (take (Suc ?l) (Vs @ Ws)), PNode q (take ?m (drop (Suc ?l) ?PP)) (take (Suc ?m) (drop (Suc ?l) (Vs @ Ws))),
      PNode b' (drop (?l + ?m + 2) ?PP) (drop (?l + ?m + 2) (Vs @ Ws))]"
    using re by (simp add: pair_done_def)
  note ins = three_insert [OF B i this, unfolded ptree.sel, OF _ _ _ b]
  have "length (take ?l ?PP) < t_maxKeys t" "length (take ?m (drop (Suc ?l) ?PP)) < t_maxKeys t"
    "length (drop (?l + ?m + 2) ?PP) < t_maxKeys t"
    using sum pr(2,4,6) min.cobounded2 [of "length ?PP" ?l] min.cobounded2 [of "length (drop (Suc ?l) ?PP)" ?m]
    unfolding length_take by (linarith, linarith, simp)
  from ins [OF this] show ?thesis using A(2,3) by (simp add: s)
qed

lemma BaseBStarPlusTree_split3_done:
  assumes B: "branch t n h p ks Ts k call" and i: "i < length ks" and le: "leafyOf t" "t_treeType t = B_STAR_PLUS_TREE"
    and h: "h = 0"
    and num: "length (pkeys (Ts ! i)) + length (pkeys (Ts ! Suc i)) + (if short then 1 else 0) = 2 * t_maxKeys t"
    and mid: "length (pw_data middle) = t_nodePageSize t"
    and b: "0 < i \<longrightarrow> \<not> lt k (ks ! (i - 1))" "Suc i < length ks \<longrightarrow> \<not> lt (ks ! Suc i) k"
  shows "ins_done t n (Suc h) (PNode p ks Ts) k
    (bindR (BaseBStarPlusTree_splitChildren (pageImg (absStore t) p) i (pageImg (absStore t) (pno (Ts ! i))) middle
        (pageImg (absStore t) (pno (Ts ! Suc i))) short t) (\<lambda>(node, left, middle, right, t).
     bindR (keyAt t node (i + 1)) (\<lambda>x. bindR (keyAt t node i) (\<lambda>y.
     bindR (call (if cmp_compare c x k (t_recSize t) then right
                  else if cmp_compare c y k (t_recSize t) then middle else left) t) (\<lambda>(_, t). Inr (node, t))))))"
proof -
  note D = branchD [OF B]
  obtain a us b' ws where A: "pairAt t p ks Ts i a us [] b' ws []" "Ts ! i = PNode a us []" "Ts ! Suc i = PNode b' ws []"
    by (rule leaf_pair [OF B i h])
  let ?l = "t_leftSplitProductKeys t" and ?m = "t_middleLeafSplitProductKeys t" and ?r = "getRightSplitProductKeys short t"
  let ?PP = "us @ ws"
  note pr = star_products(1-4) [OF D(14)] star_products(5-7) [where short = short, OF D(14)]
  have m: "?m = t_middleSplitProductKeys t + 1" using D(14) le(2) by (simp add: starOrder_def)
  have sum: "?l + ?m + ?r = length us + length ws" using num A(2,3) pr(7) by (cases short) (simp_all add: m)
  have pos: "0 < ?l" "0 < ?m" "0 < ?r" using pr starOrderD(1) [OF D(14)] by (simp_all add: m)
  have lt: "?l < t_maxKeys t" "?m < t_maxKeys t" "?r < t_maxKeys t" using pr by (simp_all add: m)
  have ro: "t_maxKeys t \<le> pageKeys t" "pageMax t p False \<le> pageKeys t"
    using pageMax_room [OF D(6) storeOkD(1) [OF D(1)]] starNode [OF D(7)] by metis+
  have pi: "pageHas t (pageImg (absStore t) p) p ks (map pno Ts)" by (rule pairAtD(12) [OF A(1)])
  have nf: "\<not> isFull t (pageImg (absStore t) p)" "length ks < pageKeys t"
    using D(12,13) ro pageHasD(1,3,4) [OF pi] by (auto simp: isFull_pageMax)
  have cap: "?l \<le> pageKeys t" "?m \<le> pageKeys t" "?r \<le> pageKeys t" using lt ro(1) by simp_all
  obtain t' q where s: "BaseBStarPlusTree_splitChildren (pageImg (absStore t) p) i (pageImg (absStore t) a) middle
      (pageImg (absStore t) b') short t =
      Inr (pageImg (absStore t') p, pageImg (absStore t') a, pageImg (absStore t') q, pageImg (absStore t') b', t')"
    and re: "reshaped t (h + n) p ks Ts t' (leafThree p ks Ts i a q b' ?PP ?l ?m)"
    using BaseBStarPlusTree_splitChildren_ok [OF A(1) D(3) nf mid refl refl refl sum cap pos(1,2)] by blast
  have "rearranged (leafyOf t) (nodeMin t) (nodeMax t) h p ks Ts (leafThree p ks Ts i a q b' ?PP ?l ?m)"
    unfolding h by (rule leaf_three_rearranged [OF D(10) [unfolded h] i le(1) A(2,3) pos sum])
      (use pr lt starNode [OF D(7)] m in auto)
  then have "pair_done t (h + n) h p ks Ts i t' [?PP ! (?l - 1), ?PP ! (?l + ?m - 1)]
     [PNode a (take ?l ?PP) [], PNode q (take ?m (drop ?l ?PP)) [], PNode b' (drop (?l + ?m) ?PP) []]"
    using re by (simp add: pair_done_def)
  note ins = three_insert [OF B i this, unfolded ptree.sel, OF _ _ _ b]
  have "length (take ?l ?PP) < t_maxKeys t" "length (take ?m (drop ?l ?PP)) < t_maxKeys t"
    "length (drop (?l + ?m) ?PP) < t_maxKeys t"
    using sum lt min.cobounded2 [of "length ?PP" ?l] min.cobounded2 [of "length (drop ?l ?PP)" ?m]
    unfolding length_take by (linarith, linarith, simp)
  from ins [OF this] show ?thesis using A(2,3) by (simp add: s)
qed

end

end
