(* ===== verification/Star_Insert.thy ===== *)
theory Star_Insert
  imports Star_Share
begin

text \<open>
  Inserting below a node of a B*-tree or of a B*+-tree: the branch of a full child tries to share keys
  with the left sibling, then with the right one, else splits two children into three; the
  insertion keeps the invariant and adds its key.
\<close>

context tree_order
begin

section \<open>Making room\<close>

text \<open>The virtual calls.\<close>

lemma star_kinds: "starTree t \<Longrightarrow> t_treeType t \<noteq> B_STAR_PLUS_TREE \<Longrightarrow> t_treeType t = B_STAR_TREE \<and> \<not> leafyOf t"
  by (auto simp: starTree_def leafyOf_def)

lemma kid_isLeaf:
  assumes B: "branch t n h p ks Ts k call" and i: "i < length Ts"
  shows "isLeaf (pageImg (absStore t) (pno (Ts ! i))) \<longleftrightarrow> h = 0" "pno (Ts ! i) \<noteq> 0"
proof -
  have "stored t (absStore t) (Ts ! i)" using branchD(8) [OF B] nth_mem [OF i] by simp
  then show "isLeaf (pageImg (absStore t) (pno (Ts ! i))) \<longleftrightarrow> h = 0" "pno (Ts ! i) \<noteq> 0"
    using pageHasD(4) [OF stored_node] branch_kid(3) [OF B i] by (auto simp: ps_live_def dest: stored_pages [OF _ pno_in_pages])
qed

lemma shareLeft_done:
  assumes B: "branch t n h p ks Ts k call" and i: "i < length ks"
    and full: "length (pkeys (Ts ! Suc i)) = t_maxKeys t" "length (pkeys (Ts ! i)) < t_maxKeys t"
    and b: "\<not> lt k (ks ! i)" "Suc i < length ks \<longrightarrow> \<not> lt (ks ! Suc i) k"
  shows "share_done t n h p ks Ts k (Ts ! i)
    (shareKeysWithLeftChildAndInsert call k (pageImg (absStore t) p) (Suc i)
      (pageImg (absStore t) (pno (Ts ! Suc i))) (pageImg (absStore t) (pno (Ts ! i))) t)"
proof -
  note D = branchD [OF B]
  have il: "i < length Ts" "Suc i < length Ts" using i D(13) by simp_all
  have f: "isFull t (pageImg (absStore t) (pno (Ts ! Suc i)))" "\<not> isFull t (pageImg (absStore t) (pno (Ts ! i)))"
    using branch_kid(4) [OF B il(1)] branch_kid(4) [OF B il(2)] full by simp_all
  have "pageHas t (pageImg (absStore t) p) p ks (map pno Ts)" using D(8) by simp
  note kn = pageHasD(3) [OF this]
  show ?thesis
  proof (cases "t_treeType t = B_STAR_PLUS_TREE \<and> h = 0")
    case True
    then have "leafyOf t" by (simp add: leafyOf_def)
    from BaseBStarPlusTree_shareLeft_done [OF B i this _ full b] True show ?thesis
      by (simp add: shareKeysWithLeftChildAndInsert_def)
  next
    case False
    then have "leafyOf t \<longrightarrow> 0 < h" using star_kinds [OF D(7)] by auto
    from BaseBStarTree_shareLeft_done [OF B i this full b] show ?thesis
      using False f kn i D(4) kid_isLeaf [OF B il(2)]
      by (auto simp: shareKeysWithLeftChildAndInsert_def BaseBStarPlusTree_shareKeysWithLeftChildAndInsert_def)
  qed
qed

lemma shareRight_done:
  assumes B: "branch t n h p ks Ts k call" and i: "i < length ks"
    and full: "length (pkeys (Ts ! i)) = t_maxKeys t" "length (pkeys (Ts ! Suc i)) < t_maxKeys t"
    and b: "0 < i \<longrightarrow> \<not> lt k (ks ! (i - 1))" "\<not> lt (ks ! i) k"
  shows "share_done t n h p ks Ts k (Ts ! Suc i)
    (shareKeysWithRightChildAndInsert call k (pageImg (absStore t) p) i
      (pageImg (absStore t) (pno (Ts ! i))) (pageImg (absStore t) (pno (Ts ! Suc i))) t)"
proof -
  note D = branchD [OF B]
  have il: "i < length Ts" "Suc i < length Ts" using i D(13) by simp_all
  have f: "isFull t (pageImg (absStore t) (pno (Ts ! i)))" "\<not> isFull t (pageImg (absStore t) (pno (Ts ! Suc i)))"
    using branch_kid(4) [OF B il(1)] branch_kid(4) [OF B il(2)] full by simp_all
  have "pageHas t (pageImg (absStore t) p) p ks (map pno Ts)" using D(8) by simp
  note kn = pageHasD(3) [OF this]
  show ?thesis
  proof (cases "t_treeType t = B_STAR_PLUS_TREE \<and> h = 0")
    case True
    then have "leafyOf t" by (simp add: leafyOf_def)
    from BaseBStarPlusTree_shareRight_done [OF B i this _ full b] True show ?thesis
      by (simp add: shareKeysWithRightChildAndInsert_def)
  next
    case False
    then have "leafyOf t \<longrightarrow> 0 < h" using star_kinds [OF D(7)] by auto
    from BaseBStarTree_shareRight_done [OF B i this full b] show ?thesis
      using False f kn i D(4) kid_isLeaf [OF B il(1)]
      by (auto simp: shareKeysWithRightChildAndInsert_def BaseBStarPlusTree_shareKeysWithRightChildAndInsert_def)
  qed
qed

lemma split3_done:
  assumes B: "branch t n h p ks Ts k call" and i: "i < length ks"
    and num: "length (pkeys (Ts ! i)) + length (pkeys (Ts ! Suc i)) + (if short then 1 else 0) = 2 * t_maxKeys t"
    and b: "0 < i \<longrightarrow> \<not> lt k (ks ! (i - 1))" "Suc i < length ks \<longrightarrow> \<not> lt (ks ! Suc i) k"
  shows "ins_done t n (Suc h) (PNode p ks Ts) k
    (bindR (splitChildren (pageImg (absStore t) p) i (pageImg (absStore t) (pno (Ts ! i))) (new_PageWrapper t)
        (pageImg (absStore t) (pno (Ts ! Suc i))) short t) (\<lambda>(node, left, middle, right, t).
     bindR (keyAt t node (i + 1)) (\<lambda>x. bindR (keyAt t node i) (\<lambda>y.
     bindR (call (if cmp_compare c x k (t_recSize t) then right
                  else if cmp_compare c y k (t_recSize t) then middle else left) t) (\<lambda>(_, t). Inr (node, t))))))"
proof -
  note D = branchD [OF B]
  have il: "i < length Ts" "Suc i < length Ts" using i D(13) by simp_all
  have pi: "pageHas t (pageImg (absStore t) p) p ks (map pno Ts)" using D(8) by simp
  have nf: "\<not> isFull t (pageImg (absStore t) p)" using D(12,13) pageHasD(1,3,4) [OF pi] by (auto simp: isFull_pageMax)
  have w: "length (pw_data (new_PageWrapper t)) = t_nodePageSize t" by (rule length_new_page) (rule storeOkD(3) [OF D(1)])
  show ?thesis
  proof (cases "t_treeType t = B_STAR_PLUS_TREE \<and> h = 0")
    case True
    then have "leafyOf t" by (simp add: leafyOf_def)
    from BaseBStarPlusTree_split3_done [OF B i this _ _ num w b] True show ?thesis by (simp add: splitChildren_def)
  next
    case False
    then have "leafyOf t \<longrightarrow> 0 < h" using star_kinds [OF D(7)] by auto
    from BaseBStarTree_split3_done [OF B i this num w b] show ?thesis
      using False nf pageHasD(3) [OF pi] i kid_isLeaf [OF B il(1)] kid_isLeaf [OF B il(2)]
      by (auto simp: splitChildren_def BaseBStarPlusTree_splitChildren_def ensureChild_def)
  qed
qed

text \<open>Reading another page changes neither where the branch stands nor what is to be shown.\<close>

lemma branch_step:
  assumes B: "branch t n h p ks Ts k call" and t1: "keeps t t1" "absStore t1 = absStore t"
  shows "branch t1 n h p ks Ts k call"
proof -
  note F = order_frame [OF keepsD(2) [OF t1(1)]] stored_keeps [OF t1(1)] frame_eqD [OF keepsD(2) [OF t1(1)]]
    roomy_keeps [OF t1(1)]
  have r: "t_rootPageNum t1 = t_rootPageNum t" using t1(2) by (simp add: absStore_def)
  note P = pageMax_frame [OF keepsD(2) [OF t1(1)] r]
  have "keeps t t'" if "keeps t1 t'" for t' using keeps_trans [OF t1(1) that] .
  then show ?thesis
    using B keepsD(1) [OF t1(1)] unfolding branch_def F P t1(2) rootAside_def r by blast
qed

lemma ins_done_step:
  assumes "branch t n h p ks Ts k call" "keeps t t1" "absStore t1 = absStore t" "ins_done t1 n (Suc h) (PNode p ks Ts) k r"
  shows "ins_done t n (Suc h) (PNode p ks Ts) k r"
  by (rule after_split_done [OF assms(2) _ _ _ _ _ _ _ assms(4)])
    (use branchD(2) [OF assms(1)] in \<open>auto simp: assms(3) evolves_refl\<close>)

text \<open>An attempt to share: nothing done but a page read, or the key inserted.\<close>

definition tried ::
  "BaseBTree \<Rightarrow> nat \<Rightarrow> nat \<Rightarrow> nat \<Rightarrow> byte list list \<Rightarrow> byte list ptree list \<Rightarrow> byte list \<Rightarrow> bool \<Rightarrow> nat \<Rightarrow>
   (bool \<times> PageWrapper \<times> PageWrapper \<times> BaseBTree) res \<Rightarrow> bool" where
  "tried t n h p ks Ts k there s r \<longleftrightarrow>
     (\<exists>pw t1. r = Inr (False, pageImg (absStore t) p, pw, t1) \<and> keeps t t1 \<and> absStore t1 = absStore t \<and>
        (there \<longrightarrow> pw = pageImg (absStore t) (pno (Ts ! s)) \<and>
          (length (pkeys (Ts ! s)) = t_maxKeys t \<or> Suc (length (pkeys (Ts ! s))) = t_maxKeys t))) \<or>
     (\<exists>pw e. r = bindR e (\<lambda>(node, t). Inr (True, node, pw, t)) \<and> ins_done t n (Suc h) (PNode p ks Ts) k e)"

lemma tried_sibling:
  assumes B: "branch t n h p ks Ts k call" and s: "s < length Ts" and w: "length (pw_data sibling) = t_nodePageSize t"
    and sh: "\<And>t1. keeps t t1 \<Longrightarrow> absStore t1 = absStore t \<Longrightarrow> length (pkeys (Ts ! s)) < t_maxKeys t \<Longrightarrow>
      share_done t1 n h p ks Ts k (Ts ! s) (share (pageImg (absStore t1) (pno (Ts ! s))) t1)"
  shows "tried t n h p ks Ts k True s
    (bindR (readPageFromChild sibling (pageImg (absStore t) p) s t) (\<lambda>(sibling, u).
       if \<not> isFull u sibling
       then bindR (share sibling u) (\<lambda>(done, node, u). Inr (done, node, sibling, u))
       else Inr (False, pageImg (absStore t) p, sibling, u)))"
proof -
  note D = branchD [OF B]
  have "pageHas t (pageImg (absStore t) p) p ks (map pno Ts)" using D(8) by simp
  from read_child [OF D(1,8) this s w]
  obtain t1 where t1: "readPageFromChild sibling (pageImg (absStore t) p) s t = Inr (pageImg (absStore t) (pno (Ts ! s)), t1)"
    "keeps t t1" "absStore t1 = absStore t" by blast
  note B1 = branch_step [OF B t1(2,3)]
  have mx: "t_maxKeys t1 = t_maxKeys t" using frame_eqD [OF keepsD(2) [OF t1(2)]] by simp
  note full = branch_kid(4) [OF B1 s, unfolded mx]
  show ?thesis
  proof (cases "length (pkeys (Ts ! s)) = t_maxKeys t")
    case True
    then show ?thesis using t1 full by (auto simp: tried_def)
  next
    case False
    then have "length (pkeys (Ts ! s)) < t_maxKeys t" using branch_kid(2) [OF B s] by simp
    note d = sh [OF t1(2,3) this]
    let ?r = "share (pageImg (absStore t1) (pno (Ts ! s))) t1"
    show ?thesis
    proof (cases "?r = Inr (False, pageImg (absStore t) p, t1) \<and> Suc (length (pkeys (Ts ! s))) = t_maxKeys t")
      case True
      then show ?thesis using t1 full False by (auto simp: tried_def)
    next
      case n: False
      then obtain e where e: "?r = bindR e (\<lambda>(node, t). Inr (True, node, t))" "ins_done t1 n (Suc h) (PNode p ks Ts) k e"
        using d by (auto simp: share_done_def t1(3) mx)
      have "bindR ?r (\<lambda>(done, node, u). Inr (done, node, pageImg (absStore t) (pno (Ts ! s)), u)) =
        bindR e (\<lambda>(node, u). Inr (True, node, pageImg (absStore t) (pno (Ts ! s)), u))"
        unfolding e(1) by (cases e) auto
      then show ?thesis using t1 full False ins_done_step [OF B t1(2,3) e(2)] unfolding tried_def by (auto simp: t1(3))
    qed
  qed
qed

lemma tried_none:
  "branch t n h p ks Ts k call \<Longrightarrow> tried t n h p ks Ts k False s (Inr (False, pageImg (absStore t) p, pw, t))"
  using branchD(1) [of t n h p ks Ts k call] by (auto simp: tried_def keeps_def)

text \<open>What follows an attempt that did nothing, in a tree that reads the same pages.\<close>

lemma tried_then:
  assumes B: "branch t n h p ks Ts k call" and r: "tried t n h p ks Ts k there s r"
    and nxt: "\<And>pw t1. keeps t t1 \<Longrightarrow> absStore t1 = absStore t \<Longrightarrow>
      there \<longrightarrow> pw = pageImg (absStore t1) (pno (Ts ! s)) \<and>
        (length (pkeys (Ts ! s)) = t_maxKeys t1 \<or> Suc (length (pkeys (Ts ! s))) = t_maxKeys t1) \<Longrightarrow>
      ins_done t1 n (Suc h) (PNode p ks Ts) k (f (pageImg (absStore t1) p) pw t1)"
  shows "ins_done t n (Suc h) (PNode p ks Ts) k
    (bindR r (\<lambda>(done, node, pw, t). if done then Inr (node, t) else f node pw t))"
proof -
  consider pw t1 where "r = Inr (False, pageImg (absStore t) p, pw, t1)" "keeps t t1" "absStore t1 = absStore t"
      "there \<longrightarrow> pw = pageImg (absStore t) (pno (Ts ! s)) \<and>
          (length (pkeys (Ts ! s)) = t_maxKeys t \<or> Suc (length (pkeys (Ts ! s))) = t_maxKeys t)"
    | pw e where "r = bindR e (\<lambda>(node, t). Inr (True, node, pw, t))" "ins_done t n (Suc h) (PNode p ks Ts) k e"
    using r unfolding tried_def by blast
  then show ?thesis
  proof cases
    case 1
    then show ?thesis
      using ins_done_step [OF B 1(2,3) nxt [OF 1(2,3), of pw]] frame_eqD [OF keepsD(2) [OF 1(2)]] by simp
  next
    case 2
    have "bindR r (\<lambda>(done, node, pw, t). if done then Inr (node, t) else f node pw t) = e"
      unfolding 2(1) by (cases e) auto
    then show ?thesis using 2(2) by simp
  qed
qed

lemma left_tried:
  assumes B: "branch t n h p ks Ts k call" and i: "i \<le> length ks"
    and w: "length (pw_data sibling) = t_nodePageSize t" and full: "length (pkeys (Ts ! i)) = t_maxKeys t"
    and b: "0 < i \<longrightarrow> \<not> lt k (ks ! (i - 1))" "i < length ks \<longrightarrow> \<not> lt (ks ! i) k"
  shows "tried t n h p ks Ts k (0 < i) (i - 1)
    (if i > 0
     then bindR (readPageFromChild sibling (pageImg (absStore t) p) (i - 1) t) (\<lambda>(leftSibling, u).
          if \<not> isFull u leftSibling
          then bindR (shareKeysWithLeftChildAndInsert call k (pageImg (absStore t) p) i (pageImg (absStore t) (pno (Ts ! i)))
                 leftSibling u) (\<lambda>(done, node, u). Inr (done, node, leftSibling, u))
          else Inr (False, pageImg (absStore t) p, leftSibling, u))
     else Inr (False, pageImg (absStore t) p, sibling, t))"
proof (cases i)
  case 0
  then show ?thesis using tried_none [OF B] by simp
next
  case (Suc j)
  have j: "j < length Ts" "j < length ks" using i Suc branchD(13) [OF B] by simp_all
  have "share_done t1 n h p ks Ts k (Ts ! j) (shareKeysWithLeftChildAndInsert call k (pageImg (absStore t) p) (Suc j)
      (pageImg (absStore t) (pno (Ts ! Suc j))) (pageImg (absStore t1) (pno (Ts ! j))) t1)"
    if t1: "keeps t t1" "absStore t1 = absStore t" "length (pkeys (Ts ! j)) < t_maxKeys t" for t1
    using shareLeft_done [OF branch_step [OF B t1(1,2)] j(2)] frame_eqD [OF keepsD(2) [OF t1(1)]] full b t1(3) Suc
    by (simp add: t1(2))
  note this [folded Suc]
  from tried_sibling [where share = "shareKeysWithLeftChildAndInsert call k (pageImg (absStore t) p) i (pageImg (absStore t) (pno (Ts ! i)))",
      OF B j(1) w this]
  show ?thesis by (simp add: Suc)
qed

lemma right_tried:
  assumes B: "branch t n h p ks Ts k call" and i: "i \<le> length ks"
    and w: "length (pw_data sibling) = t_nodePageSize t" and full: "length (pkeys (Ts ! i)) = t_maxKeys t"
    and b: "0 < i \<longrightarrow> \<not> lt k (ks ! (i - 1))" "i < length ks \<longrightarrow> \<not> lt (ks ! i) k"
  shows "tried t n h p ks Ts k (i < length ks) (i + 1)
    (if i < length ks
     then bindR (readPageFromChild sibling (pageImg (absStore t) p) (i + 1) t) (\<lambda>(rightSibling, u).
          if \<not> isFull u rightSibling
          then bindR (shareKeysWithRightChildAndInsert call k (pageImg (absStore t) p) i (pageImg (absStore t) (pno (Ts ! i)))
                 rightSibling u) (\<lambda>(done, node, u). Inr (done, node, rightSibling, u))
          else Inr (False, pageImg (absStore t) p, rightSibling, u))
     else Inr (False, pageImg (absStore t) p, sibling, t))"
proof (cases "i < length ks")
  case False
  then show ?thesis using tried_none [OF B] by simp
next
  case True
  have j: "Suc i < length Ts" using True branchD(13) [OF B] by simp
  have "share_done t1 n h p ks Ts k (Ts ! Suc i) (shareKeysWithRightChildAndInsert call k (pageImg (absStore t) p) i
      (pageImg (absStore t) (pno (Ts ! i))) (pageImg (absStore t1) (pno (Ts ! Suc i))) t1)"
    if t1: "keeps t t1" "absStore t1 = absStore t" "length (pkeys (Ts ! Suc i)) < t_maxKeys t" for t1
    using shareRight_done [OF branch_step [OF B t1(1,2)] True] frame_eqD [OF keepsD(2) [OF t1(1)]] full b t1(3) True
    by (simp add: t1(2))
  from tried_sibling [where share = "shareKeysWithRightChildAndInsert call k (pageImg (absStore t) p) i (pageImg (absStore t) (pno (Ts ! i)))",
      OF B j w this]
  show ?thesis by (simp add: True)
qed

text \<open>What is left when neither sibling could take a key.\<close>

abbreviation splitBranch ::
  "insert_call \<Rightarrow> byte list \<Rightarrow> PageWrapper \<Rightarrow> nat \<Rightarrow> PageWrapper \<Rightarrow> PageWrapper \<Rightarrow> PageWrapper \<Rightarrow> BaseBTree \<Rightarrow>
   (PageWrapper \<times> BaseBTree) res" where
  "splitBranch call k node i left child right t \<equiv>
    (if i > 0
     then bindR (splitChildren node (i - 1) left (new_PageWrapper t) child (\<not> isFull t left) t)
            (\<lambda>(node, leftSibling, middle, child, u).
          bindR (keyAt u node i) (\<lambda>x. bindR (keyAt u node (i - 1)) (\<lambda>y.
          bindR (call (if cmp_compare c x k (t_recSize u) then child
                       else if cmp_compare c y k (t_recSize u) then middle else leftSibling) u)
            (\<lambda>(_, u). Inr (node, u)))))
     else bindR (splitChildren node i child (new_PageWrapper t) right (\<not> isFull t right) t)
            (\<lambda>(node, child, middle, rightSibling, u).
          bindR (keyAt u node (i + 1)) (\<lambda>x. bindR (keyAt u node i) (\<lambda>y.
          bindR (call (if cmp_compare c x k (t_recSize u) then rightSibling
                       else if cmp_compare c y k (t_recSize u) then middle else child) u)
            (\<lambda>(_, u). Inr (node, u))))))"

lemma make_split:
  assumes B: "branch t n h p ks Ts k call" and i: "i \<le> length ks" "ks \<noteq> []"
    and full: "length (pkeys (Ts ! i)) = t_maxKeys t"
    and b: "0 < i \<longrightarrow> \<not> lt k (ks ! (i - 1))" "i < length ks \<longrightarrow> \<not> lt (ks ! i) k"
    and l: "0 < i \<longrightarrow> left = pageImg (absStore t) (pno (Ts ! (i - 1))) \<and>
      (length (pkeys (Ts ! (i - 1))) = t_maxKeys t \<or> Suc (length (pkeys (Ts ! (i - 1)))) = t_maxKeys t)"
    and r: "i < length ks \<longrightarrow> right = pageImg (absStore t) (pno (Ts ! (i + 1))) \<and>
      (length (pkeys (Ts ! (i + 1))) = t_maxKeys t \<or> Suc (length (pkeys (Ts ! (i + 1)))) = t_maxKeys t)"
  shows "ins_done t n (Suc h) (PNode p ks Ts) k
    (splitBranch call k (pageImg (absStore t) p) i left (pageImg (absStore t) (pno (Ts ! i))) right t)"
proof (cases i)
  case (Suc j)
  have j: "j < length ks" "j < length Ts" using i Suc branchD(13) [OF B] by simp_all
  have "Suc (length (pkeys (Ts ! j))) = t_maxKeys t \<Longrightarrow> length (pkeys (Ts ! j)) \<noteq> t_maxKeys t" by linarith
  then have num: "length (pkeys (Ts ! j)) + length (pkeys (Ts ! Suc j)) + (if \<not> isFull t left then 1 else 0) = 2 * t_maxKeys t"
    using l full Suc branch_kid(4) [OF B j(2)] by auto
  have b0: "0 < j \<longrightarrow> \<not> lt k (ks ! (j - 1))"
    using node_keys_ord [OF branchD(10) [OF B], of "j - 1"] b(1) j(1) Suc le_trans [of "ks ! j" "ks ! (j - 1)" k] by auto
  show ?thesis using split3_done [OF B j(1) num b0] l b(2) Suc by simp
next
  case 0
  have j: "0 < length ks" "Suc 0 < length Ts" using i(2) branchD(13) [OF B] by simp_all
  have "Suc (length (pkeys (Ts ! Suc 0))) = t_maxKeys t \<Longrightarrow> length (pkeys (Ts ! Suc 0)) \<noteq> t_maxKeys t" by linarith
  then have num: "length (pkeys (Ts ! 0)) + length (pkeys (Ts ! Suc 0)) + (if \<not> isFull t right then 1 else 0) = 2 * t_maxKeys t"
    using r full 0 j branch_kid(4) [OF B j(2)] by auto
  have b0: "Suc 0 < length ks \<longrightarrow> \<not> lt (ks ! Suc 0) k"
    using node_keys_ord [OF branchD(10) [OF B], of 0] b(2) j(1) 0 le_trans [of "ks ! 0" k "ks ! Suc 0"] by auto
  show ?thesis using split3_done [OF B j(1) num _ b0] r 0 j by simp
qed

lemma makeRoomAndInsert_done:
  assumes B: "branch t n h p ks Ts k call" and i: "i \<le> length ks" "ks \<noteq> []"
    and full: "length (pkeys (Ts ! i)) = t_maxKeys t"
    and b: "0 < i \<longrightarrow> \<not> lt k (ks ! (i - 1))" "i < length ks \<longrightarrow> \<not> lt (ks ! i) k"
  shows "ins_done t n (Suc h) (PNode p ks Ts) k
    (makeRoomAndInsert call c k (pageImg (absStore t) p) i (pageImg (absStore t) (pno (Ts ! i))) t)"
proof -
  note D = branchD [OF B]
  have "pageHas t (pageImg (absStore t) p) p ks (map pno Ts)" using D(8) by simp
  note kn = pageHasD(3) [OF this]
  have w: "length (pw_data (new_PageWrapper t)) = t_nodePageSize t" by (rule length_new_page) (rule storeOkD(3) [OF D(1)])
  define child where "child = pageImg (absStore t) (pno (Ts ! i))"
  have "ins_done t1 n (Suc h) (PNode p ks Ts) k
    (bindR (if i < length ks
      then bindR (readPageFromChild (new_PageWrapper t) (pageImg (absStore t1) p) (i + 1) t1) (\<lambda>(rightSibling, u).
          if \<not> isFull u rightSibling
          then bindR (shareKeysWithRightChildAndInsert call k (pageImg (absStore t1) p) i child
                 rightSibling u) (\<lambda>(done, node, u). Inr (done, node, rightSibling, u))
          else Inr (False, pageImg (absStore t1) p, rightSibling, u))
      else Inr (False, pageImg (absStore t1) p, new_PageWrapper t, t1)) (\<lambda>(done, node, right, t).
     if done then Inr (node, t) else
     splitBranch call k node i left child right t))"
    if t1: "keeps t t1" "absStore t1 = absStore t" and l: "0 < i \<longrightarrow> left = pageImg (absStore t1) (pno (Ts ! (i - 1))) \<and>
      (length (pkeys (Ts ! (i - 1))) = t_maxKeys t1 \<or> Suc (length (pkeys (Ts ! (i - 1)))) = t_maxKeys t1)" for left t1
  proof -
    note B1 = branch_step [OF B t1] and F = frame_eqD [OF keepsD(2) [OF t1(1)]]
    have p1: "length (pw_data (new_PageWrapper t)) = t_nodePageSize t1"
      "length (pkeys (Ts ! i)) = t_maxKeys t1"
      using w full by (simp_all add: F)
    have ch: "pageImg (absStore t1) (pno (Ts ! i)) = child" by (simp add: child_def t1(2))
    show ?thesis
    proof (rule tried_then [OF B1 right_tried [OF B1 i(1) p1 b, unfolded ch]])
      fix right t2
      assume t2: "keeps t1 t2" "absStore t2 = absStore t1" and r: "i < length ks \<longrightarrow> right = pageImg (absStore t2) (pno (Ts ! (i + 1))) \<and>
        (length (pkeys (Ts ! (i + 1))) = t_maxKeys t2 \<or> Suc (length (pkeys (Ts ! (i + 1)))) = t_maxKeys t2)"
      note B2 = branch_step [OF B1 t2] and F2 = frame_eqD [OF keepsD(2) [OF t2(1)]]
      have p2: "length (pkeys (Ts ! i)) = t_maxKeys t2" using p1 by (simp_all add: F2)
      have l2: "0 < i \<longrightarrow> left = pageImg (absStore t2) (pno (Ts ! (i - 1))) \<and>
        (length (pkeys (Ts ! (i - 1))) = t_maxKeys t2 \<or> Suc (length (pkeys (Ts ! (i - 1)))) = t_maxKeys t2)"
        using l by (simp add: F2 t2(2))
      have ch2: "pageImg (absStore t2) (pno (Ts ! i)) = child" by (simp add: ch t2(2))
      show "ins_done t2 n (Suc h) (PNode p ks Ts) k
        (splitBranch call k (pageImg (absStore t2) p) i left child right t2)"
        by (rule make_split [OF B2 i p2 b l2 r, unfolded ch2])
    qed
  qed
  then show ?thesis
    unfolding makeRoomAndInsert_def Let_def kn child_def
    by (rule tried_then [OF B left_tried [OF B i(1) w full b]])
qed

section \<open>Inserting below a node\<close>

lemma BaseBStarTree_insertNonFull_ok:
  assumes "storeOk t" "ps_ok (absStore t)" "roomy t (absStore t) (h + n)" "t_comparator t = Some c"
    "t_recSize t = sz" "length k = sz" "orderOk t" "stored t (absStore t) T" "distinct (pages T)"
    "tree_inv t h T" "length (pkeys T) < pageMax t (pno T) (pkids T = [])" "h < fuel" "starTree t"
    "rootAside t T" "0 < h \<longrightarrow> pkeys T \<noteq> []"
  shows "ins_done t n h T k (BaseBStarTree_insertNonFull fuel k (pageImg (absStore t) (pno T)) t)"
  using assms
proof (induction h arbitrary: t T fuel)
  case 0
  obtain p ks Ts where T: "T = PNode p ks Ts" by (cases T)
  have Ts: "Ts = []" using 0(10) T by (simp add: tinv_def)
  obtain f where f: "fuel = Suc f" using 0(12) by (cases fuel) auto
  have h: "pageHas t (pageImg (absStore t) p) p ks []" using 0(8) T Ts by simp
  have "\<not> isFull t (pageImg (absStore t) p)"
    using pageHasD(1,3,4) [OF h] 0(11) T Ts by (simp add: isFull_pageMax)
  then show ?case using leaf_done [of t n k p ks] 0 T Ts f pageHasD(4) [OF h] by simp
next
  case (Suc h)
  let ?\<sigma> = "absStore t"
  obtain p ks Ts where T: "T = PNode p ks Ts" by (cases T)
  obtain f where f: "fuel = Suc f" "h < f" using Suc.prems(12) by (cases fuel) auto
  have len: "length Ts = Suc (length ks)" using Suc.prems(10) T by (simp add: tinv_def)
  note st = Suc.prems(13)
  have h: "pageHas t (pageImg ?\<sigma> p) p ks (map pno Ts)" using Suc.prems(8) T by simp
  have lf: "\<not> isLeaf (pageImg ?\<sigma> p)" using pageHasD(4) [OF h] len by auto
  have nl: "length ks < pageMax t p False" using Suc.prems(11) T len by (cases Ts) auto
  have nf: "\<not> isFull t (pageImg ?\<sigma> p)" using pageHasD(1,3) [OF h] lf nl by (simp add: isFull_pageMax)
  obtain i where i: "scanDown c t (pageImg ?\<sigma> p) k (length ks) = Inr i" "i \<le> length ks"
    "i < length ks \<longrightarrow> lt k (ks ! i)" "0 < i \<longrightarrow> \<not> lt k (ks ! (i - 1))"
    using has_scanDown [OF storeOkD(1) [OF Suc.prems(1)] h, of c k] Suc.prems(5) by auto
  have b: "0 < i \<longrightarrow> \<not> lt k (ks ! (i - 1))" "i < length ks \<longrightarrow> \<not> lt (ks ! i) k"
    using i(3,4) less_le by blast+
  have il: "i < length Ts" using i(2) len by simp
  let ?V = "Ts ! i"
  have step: "ins_done t' n h W k (BaseBStarTree_insertNonFull f k (pageImg (absStore t') (pno W)) t')"
    if "keeps t t'" "ps_ok (absStore t')" "roomy t (absStore t') (h + n)" "stored t (absStore t') W"
      "distinct (pages W)" "tree_inv t h W" "rootAside t' W" "pno W \<noteq> t_rootPageNum t'"
      "nodeMin t (pkids W = []) \<le> length (pkeys W)" "length (pkeys W) < nodeMax t (pkids W = [])" for t' W
  proof -
    have "pkeys W \<noteq> []" using that(9) orderOkD(1) [OF Suc.prems(7), of "pkids W = []"] by auto
    then show ?thesis
      using Suc.IH [OF keepsD(1) [OF that(1)], of W f] that Suc.prems(4-7,13) f(2)
        order_frame [OF keepsD(2) [OF that(1)]] stored_keeps [OF that(1)] roomy_keeps [OF that(1)]
        frame_eqD [OF keepsD(2) [OF that(1)]]
      by (simp add: pageMax_node)
  qed
  have B: "branch t n h p ks Ts k (\<lambda>pw t. BaseBStarTree_insertNonFull f k pw t)"
    unfolding branch_def using Suc.prems T st nl step by simp
  obtain t1 where t1: "readPageFromChild (new_PageWrapper t) (pageImg ?\<sigma> p) i t = Inr (pageImg ?\<sigma> (pno ?V), t1)"
    "keeps t t1" "absStore t1 = ?\<sigma>"
    using read_child [OF Suc.prems(1) Suc.prems(8) [unfolded T] h il length_new_page] storeOkD(3) [OF Suc.prems(1)]
    by blast
  note B1 = branch_step [OF B t1(2,3)]
  note F = order_frame [OF keepsD(2) [OF t1(2)]] frame_eqD [OF keepsD(2) [OF t1(2)]]
  note full = branch_kid(4) [OF B1 il, unfolded t1(3)]
  have unf: "BaseBStarTree_insertNonFull fuel k (pageImg ?\<sigma> p) t =
    (if isFull t1 (pageImg ?\<sigma> (pno ?V))
     then makeRoomAndInsert (\<lambda>pw t. BaseBStarTree_insertNonFull f k pw t) c k (pageImg ?\<sigma> p) i (pageImg ?\<sigma> (pno ?V)) t1
     else bindR (BaseBStarTree_insertNonFull f k (pageImg ?\<sigma> (pno ?V)) t1) (\<lambda>(_, t). Inr (pageImg ?\<sigma> p, t)))"
    using f(1) nf lf i(1) t1(1) pageHasD(3) [OF h] Suc.prems(4) by simp
  show ?case
  proof (cases "length (pkeys ?V) = t_maxKeys t")
    case True
    have "ks \<noteq> []" using Suc.prems(15) T by simp
    from makeRoomAndInsert_done [OF B1 i(2) this _ b]
    have "ins_done t1 n (Suc h) (PNode p ks Ts) k (makeRoomAndInsert
        (\<lambda>pw t. BaseBStarTree_insertNonFull f k pw t) c k (pageImg ?\<sigma> p) i (pageImg ?\<sigma> (pno ?V)) t1)"
      using True by (simp add: F t1(3))
    from ins_done_step [OF B t1(2,3) this] show ?thesis using True full by (simp add: T unf F)
  next
    case False
    have V: "stored t ?\<sigma> ?V" "distinct (pages ?V)" "tree_inv t h ?V" "rootAside t ?V" "pno ?V \<noteq> t_rootPageNum t"
      using Suc.prems(8,9) T nth_mem [OF il] tinv_child [OF Suc.prems(10) [unfolded T] nth_mem [OF il]]
        rootAside_kid [OF Suc.prems(14)]
      by (auto simp: distinct_concat_iff)
    have "t_rootPageNum t1 = t_rootPageNum t" using t1(3) by (simp add: absStore_def)
    moreover have "nodeMin t (pkids ?V = []) \<le> length (pkeys ?V)" using branch_kid(1) [OF B il] starNode [OF st] by simp
    moreover have "length (pkeys ?V) < nodeMax t (pkids ?V = [])"
      using branch_kid(2) [OF B il] False starNode [OF st] by simp
    ultimately have "ins_done t1 n h ?V k (BaseBStarTree_insertNonFull f k (pageImg (absStore t1) (pno ?V)) t1)"
      using V Suc.prems(2) roomy_mono [OF Suc.prems(3), of "h + n"]
      by (intro step t1(2)) (simp_all add: t1(3) rootAside_def)
    from below_done [OF Suc.prems(8-10,14) [unfolded T] _ i(2) b t1(2,3) this]
    show ?thesis using False full nl by (simp add: T unf F t1(3))
  qed
qed

end

end
