(* ===== verification/Star_Split.thy ===== *)
theory Star_Split
  imports Star_Insert
begin

text \<open>
  Splitting the full root of a B*-tree and of a B*+-tree, whose bound is its own: the two halves
  are neither too small nor full.
\<close>

lemma BaseBStarTree_split_core:
  "\<not> isFull t node \<Longrightarrow> i \<le> getKeysNum node \<Longrightarrow>
   BaseBStarTree_splitChild node i left right t =
     bindR (ensureChild left node i t) (\<lambda>(left, t).
       let kn = getKeysNum left div 2; j = SSub (getKeysNum left) (kn + 1) in
       splitCore kn (j + 1) j j node i left right t)"
  unfolding BaseBStarTree_splitChild_def splitWith_def Let_def by (simp add: bindR_assoc)

lemma BaseBStarPlusTree_split_core:
  "\<not> isFull t node \<Longrightarrow> i \<le> getKeysNum node \<Longrightarrow>
   BaseBStarPlusTree_splitChild node i left right t =
     bindR (ensureChild left node i t) (\<lambda>(left, t).
       if \<not> isLeaf left then BaseBStarTree_splitChild node i left right t
       else let kn = getKeysNum left div 2; j = getKeysNum left - kn in
         bindR (splitWith kn j j (\<lambda>t. Inr) node i left right t) (\<lambda>(node, left, right, t).
         bindR (setRouterKey node i t) (\<lambda>(node, t). Inr (node, left, right, t))))"
  unfolding BaseBStarPlusTree_splitChild_def splitWith_def Let_def
  by (cases "ensureChild left node i t") (simp_all add: bindR_assoc case_prod_unfold)

context tree_order
begin

lemma star_half: "SSub (2 * m + 1) (m + 1) = m" if "2 * m + 1 < 2 ^ 16"
  using that by (simp add: SSub_le)

text \<open>A full root leaf of a B*+-tree.\<close>

lemma split_root_leaf_done:
  assumes ok: "storeOk t" "ps_ok (absStore t)" "roomy t (absStore t) (Suc n)" "pw_data right \<noteq> []"
    and kids: "\<forall>T \<in> set Ts. stored t (absStore t) T" and d: "distinct (pages (PNode p ks Ts))"
    and p: "ps_live (absStore t) p" "p \<notin> ps_avail (absStore t)"
    and node: "pageHas t node p ks (map pno Ts)" "length ks < pageKeys t" and i: "i < length Ts"
    and bt: "orderOk t" "t_treeType t = B_STAR_PLUS_TREE"
    and U: "Ts ! i = PNode q us []" "tree_inv t 0 (Ts ! i)" "length us = j + kn"
    and occ: "nodeMin t True \<le> j" "j < nodeMax t True" "nodeMin t True \<le> kn" "kn < nodeMax t True"
  shows "split_done t n 0 p i ks Ts (bindR (splitWith kn j j (\<lambda>t. Inr) node i (pageImg (absStore t) q) right t)
    (\<lambda>(node, left, right, t). bindR (setRouterKey node i t) (\<lambda>(node, t). Inr (node, left, right, t))))"
proof -
  note g = storeOkD(1) [OF ok(1)]
  have num: "j + kn = length us" "j \<le> length us" using U(3) by simp_all
  have pos: "0 < j" "0 < kn" using occ orderOkD(1) [OF bt(1), of True] by simp_all
  have nz: "map pno Ts \<noteq> []" and ik: "i \<le> length ks" "length Ts = Suc (length ks)"
    using i pageHasD(8) [OF node(1)] by (cases Ts; auto)+
  have slot: "runs (bindR (openSlot t1 node i q') Inr)
      (\<lambda>pw. pageHas t pw p (insertAt i (kslot t node i) ks) (insertAt (Suc i) q' (map pno Ts)))"
    if t1: "keeps t t1" and q': "q' < 2 ^ 32" for t1 q'
  proof -
    note F = pageHas_frame [OF keepsD(2) [OF t1]] frame_eqF [OF keepsD(2) [OF t1]]
    have "pageHas t1 node p ks (map pno Ts)" "length ks < pageKeys t1" using node by (simp_all add: F)
    from has_openSlot_key [OF storeOkD(1) [OF keepsD(1) [OF t1]] this(1) nz ik(1) this(2) q']
    show ?thesis by (simp add: F)
  qed
  obtain q' t1 where s: "splitWith kn j j (\<lambda>t. Inr) node i (pageImg (absStore t) q) right t =
      Inr (pageImg (absStore t1) p, pageImg (absStore t1) q, pageImg (absStore t1) q', t1)"
    "keeps t t1" "evolves {p, q} (absStore t) (absStore t1)" "roomy t (absStore t1) n" "q' \<in> ps_avail (absStore t)"
    "stored t (absStore t1) (PNode p (insertAt i (kslot t node i) ks)
      (splitKids i (PNode q (take j us) []) (PNode q' (drop j us) []) Ts))"
    using splitWith_ok [OF ok kids d p i U(1) num slot] by auto
  let ?L = "PNode q (take j us) []" and ?R = "PNode q' (drop j us) []"
  have lf: "leafyOf t = True" using bt(2) by (simp add: leafyOf_def)
  have m: "0 < j" "j < length us" using pos num by simp_all
  have sp: "splits (leafyOf t) (Ts ! i) ?L (us ! (j - 1)) ?R" "tree_inv t 0 ?L" "tree_inv t 0 ?R"
    using splits_leaf [OF U(2) [unfolded U(1) lf] m] unfolding U(1) lf by blast+
  have pg: "mset (pages ?L) + mset (pages ?R) = add_mset (pno ?R) (mset (pages (Ts ! i)))" by (simp add: U(1))
  let ?Ts = "splitKids i ?L ?R Ts"
  have pm: "mset (pages (PNode p ks' ?Ts)) = add_mset q' (mset (pages (PNode p ks Ts)))" for ks' :: "byte list list"
    using splitKids_pages [OF i pg] by simp
  have "q' \<notin> set (pages (PNode p ks Ts))"
  proof -
    have "set (pages W) \<inter> ps_avail (absStore t) = {}" if "W \<in> set Ts" for W
      using stored_pages [of t "absStore t" W] kids that by blast
    then show ?thesis using p s(5) by auto
  qed
  then have dist: "distinct (pages (PNode p ks' ?Ts))" for ks' :: "byte list list"
    using mset_eq_imp_distinct_iff [of "pages (PNode p ks' ?Ts)" "q' # pages (PNode p ks Ts)"] pm d by simp
  have "set (pages (PNode p ks' ?Ts)) = insert q' (set (pages (PNode p ks Ts)))" for ks' :: "byte list list"
    using arg_cong [OF pm, of set_mset] by (simp del: pages.simps)
  then have sub: "set (pages (PNode p ks' ?Ts)) \<subseteq> set (pages (PNode p ks Ts)) \<union> ps_avail (absStore t)" for ks' :: "byte list list"
    using s(5) by (metis Un_iff insert_iff subsetI)
  have qp: "q \<in> set (pages (PNode p ks Ts))" using nth_mem [OF i] U(1) by force
  have ev: "evolves (set (pages (PNode p ks Ts))) (absStore t) (absStore t1)"
    by (rule evolves_mono [OF s(3)]) (use qp in auto)
  have r1: "reshaped t n p ks Ts t1 (PNode p (insertAt i (kslot t node i) ks) ?Ts)"
    unfolding reshaped_def using s(2,4,6) ev dist sub by blast
  have l: "i < length (insertAt i (kslot t node i) ks)" "length ?Ts = Suc (length (insertAt i (kslot t node i) ks))"
    "?Ts ! i = PNode q (take j us) []" "take j us \<noteq> []"
    using ik i m by (auto simp: nth_splitKids)
  have la: "last (take j us) = us ! (j - 1)" using l(4) m by (simp add: last_conv_nth min_def)
  have up: "(insertAt i x ks)[i := y] = insertAt i y ks" for x y using ik(1) by (simp add: insertAt_def list_update_append)
  obtain t' where t': "setRouterKey (pageImg (absStore t1) p) i t1 = Inr (pageImg (absStore t') p, t')"
    "reshaped t n p ks Ts t' (PNode p (insertAt i (us ! (j - 1)) ks) ?Ts)"
    "\<forall>U \<in> set ?Ts. pageImg (absStore t') (pno U) = pageImg (absStore t1) (pno U)" "evolves {p} (absStore t1) (absStore t')"
    using set_router [OF r1 g l] unfolding la up by blast
  have im: "pageImg (absStore t') q = pageImg (absStore t1) q" "pageImg (absStore t') q' = pageImg (absStore t1) q'"
    using t'(3) by (simp_all add: splitKids_def)
  have "evolves {p, q} (absStore t) (absStore t')" by (rule evolves_trans [OF s(3) t'(4)]) simp
  then show ?thesis
    unfolding split_done_def using s(1,5) t'(1,2) im sp pg occ num(1) [symmetric]
    by (intro exI [of _ t'] exI [of _ ?L] exI [of _ "us ! (j - 1)"] exI [of _ ?R])
      (simp add: U(1) reshaped_def del: stored.simps pages.simps)
qed

text \<open>The virtual \<open>splitChild\<close> on a child with as many keys as a full root.\<close>

lemma star_halves:
  assumes "starOrder t"
  shows "t_maxRootKeys t div 2 = t_minKeys t" "t_minKeys t + 1 < t_maxKeys t" "0 < t_minKeys t"
    "t_maxRootKeys t = 2 * t_minKeys t + 1"
proof -
  have n: "4 \<le> t_maxKeys t" "t_minKeys t = (2 * t_maxKeys t - 2) div 3" "t_maxRootKeys t = 2 * t_minKeys t + 1"
    using assms by (simp_all add: starOrder_def)
  have "t_minKeys t + 1 < t_maxKeys t" using thirds(3,5) [OF n(1), folded n(2)] by linarith
  then show "t_maxRootKeys t div 2 = t_minKeys t" "t_minKeys t + 1 < t_maxKeys t" "0 < t_minKeys t"
    "t_maxRootKeys t = 2 * t_minKeys t + 1"
    using n starOrderD(1) [OF assms] by simp_all
qed

lemma star_splitChild_ok:
  assumes ok: "storeOk t" "ps_ok (absStore t)" "roomy t (absStore t) (Suc n)"
    "length (pw_data right) = t_nodePageSize t"
    and kids: "\<forall>T \<in> set Ts. stored t (absStore t) T" and d: "distinct (pages (PNode p ks Ts))"
    and p: "ps_live (absStore t) p" "p \<notin> ps_avail (absStore t)"
    and node: "pageHas t node p ks (map pno Ts)" "length ks < pageMax t p False" and i: "i < length Ts"
    and bt: "orderOk t" "starTree t" and U: "tree_inv t h (Ts ! i)" "length (pkeys (Ts ! i)) = t_maxRootKeys t"
    and left: "left = pageImg (absStore t) (pno (Ts ! i)) \<or>
      pw_pageNum left = 0 \<and> length (pw_data left) = t_nodePageSize t"
  shows "split_done t n h p i ks Ts (splitChild node i left right t)"
proof -
  have so: "starOrder t" using bt by (simp add: orderOk_def)
  note m = star_halves [OF so] and nd = starNode [OF bt(2)]
  obtain q us Vs where V: "Ts ! i = PNode q us Vs" by (cases "Ts ! i")
  obtain t1 where t1: "ensureChild left node i t = Inr (pageImg (absStore t) q, t1)" "keeps t t1" "absStore t1 = absStore t"
    using ensure_child [OF ok(1) kids node(1) i left] V by auto
  note F = frame_eqD [OF keepsD(2) [OF t1(2)]] frame_eqF [OF keepsD(2) [OF t1(2)]]
    order_frame [OF keepsD(2) [OF t1(2)]] stored_keeps [OF t1(2)] roomy_keeps [OF t1(2)]
    pageHas_frame [OF keepsD(2) [OF t1(2)]]
  have g: "geom t" by (rule storeOkD(1) [OF ok(1)])
  have lk: "length ks < pageKeys t" using node(2) pageMax_room(2) [OF bt(1) g, of p False] by simp
  have nl: "\<not> isLeaf node" "getKeysNum node = length ks" "i \<le> length ks" "pw_pageNum node = p"
    using pageHasD(1,3,4,8) [OF node(1)] i by (cases Ts; auto)+
  have "t_rootPageNum t1 = t_rootPageNum t" using t1(3) by (simp add: absStore_def)
  note P = pageMax_frame [OF keepsD(2) [OF t1(2)] this]
  have nf: "\<not> isFull t node" "\<not> isFull t1 node" using node(2) nl by (simp_all add: isFull_pageMax P)
  have ic: "i \<le> getKeysNum node" using nl by simp
  have sq: "stored t (absStore t) (PNode q us Vs)" using kids nth_mem [OF i] V by metis
  then have hq: "pageHas t (pageImg (absStore t) q) q us (map pno Vs)" and live: "ps_live (absStore t) q" by simp_all
  have lf: "isLeaf (pageImg (absStore t) q) = (Vs = [])" "getKeysNum (pageImg (absStore t) q) = t_maxRootKeys t"
    using pageHasD(3,4) [OF hq] U(2) V by simp_all
  have R: "pw_data right \<noteq> []" using ok(4) pageSize_pos [OF g] by auto
  have same: "split_done t1 n h p i ks Ts r = split_done t n h p i ks Ts r" for r
    unfolding split_done_def F t1(3) using t1(2) by (auto simp: keeps_def)
  have ok1: "storeOk t1" "ps_ok (absStore t1)" "roomy t1 (absStore t1) (Suc n)"
    using keepsD(1) [OF t1(2)] ok by (simp_all add: F t1(3))
  have small: "2 * t_minKeys t + 1 < 2 ^ 16"
    using pageHasD(6) [OF hq] geomD(3) [OF g] U(2) V m(4) by (simp add: layout)
  have us: "length us = t_minKeys t + 1 + t_minKeys t" using U(2) V m(4) by simp
  have around: "split_done t n h p i ks Ts (splitCore (t_minKeys t) (t_minKeys t + 1) (t_minKeys t) (t_minKeys t) node i
      (pageImg (absStore t) q) right t1)" if "leafyOf t \<longrightarrow> Vs \<noteq> []"
    using split_around_done [OF ok1 R, of Ts p ks node i q us Vs h "t_minKeys t" "t_minKeys t"] kids d p node(1) lk i bt(1) V U(1) us
      that m nd
    unfolding same F t1(3) by auto
  have e1: "ensureChild (pageImg (absStore t) q) node i u = Inr (pageImg (absStore t) q, u)" for u
    using live by (simp add: ensureChild_def ps_live_def)
  have star: "BaseBStarTree_splitChild node i (pageImg (absStore t) q) right t1 =
    splitCore (t_minKeys t) (t_minKeys t + 1) (t_minKeys t) (t_minKeys t) node i (pageImg (absStore t) q) right t1"
    using BaseBStarTree_split_core [OF nf(2) ic] e1 lf(2) m(1,4) star_half [OF small] by (simp add: Let_def)
  show ?thesis
  proof (cases "t_treeType t = B_STAR_PLUS_TREE")
    case False
    then have k: "t_treeType t = B_STAR_TREE" "\<not> leafyOf t" using star_kinds [OF bt(2)] by simp_all
    then have "splitChild node i left right t =
      splitCore (t_minKeys t) (t_minKeys t + 1) (t_minKeys t) (t_minKeys t) node i (pageImg (absStore t) q) right t1"
      using BaseBStarTree_split_core [OF nf(1) ic] t1(1) lf(2) m(1,4) star_half [OF small] by (simp add: splitChild_def Let_def)
    then show ?thesis using around k(2) by simp
  next
    case True
    show ?thesis
    proof (cases "Vs = []")
      case False
      then show ?thesis
        using around star True BaseBStarPlusTree_split_core [OF nf(1) ic] t1(1) lf(1) by (simp add: splitChild_def)
    next
      case leaf: True
      have h0: "h = 0" using U(1) leaf V by (cases h) (auto simp: tinv_def)
      have us2: "length us = (t_minKeys t + 1) + t_minKeys t" using us by simp
      have occ: "nodeMin t1 True \<le> t_minKeys t + 1" "t_minKeys t + 1 < nodeMax t1 True" "nodeMin t1 True \<le> t_minKeys t"
        "t_minKeys t < nodeMax t1 True"
        using m nd by (simp_all add: F)
      have "split_done t n 0 p i ks Ts (bindR (splitWith (t_minKeys t) (t_minKeys t + 1) (t_minKeys t + 1) (\<lambda>t. Inr) node i
          (pageImg (absStore t1) q) right t1)
        (\<lambda>(node, left, right, t). bindR (setRouterKey node i t) (\<lambda>(node, t). Inr (node, left, right, t))))"
        unfolding same [unfolded h0, symmetric]
        by (rule split_root_leaf_done [OF ok1 R _ d _ _ _ _ i _ _ _ _ us2 occ])
          (use kids p node(1) lk bt(1) V leaf U(1) h0 True in \<open>simp_all add: F t1(3)\<close>)
      moreover have "t_maxRootKeys t - t_maxRootKeys t div 2 = t_minKeys t + 1" using m(1,4) by simp
      ultimately show ?thesis
        using True BaseBStarPlusTree_split_core [OF nf(1) ic] t1(1,3) lf leaf h0 m(1) by (simp add: splitChild_def Let_def)
    qed
  qed
qed

end

end
