(* ===== verification/Tree_Insert.thy ===== *)
theory Tree_Insert
  imports Star_Split
begin

text \<open>
  The public \<open>insert\<close> of all four kinds of tree: growing a new root above a full one and
  inserting from the root.  The state of an open tree object, \<open>treeState\<close>, is kept; the keys
  of the tree are the old ones and the inserted one.
\<close>

lemma treeStateD:
  assumes "treeState t c h T"
  shows "storeOk t" "ps_ok (absStore t)" "t_comparator t = Some c" "orderOk t" "pno T = t_rootPageNum t"
    "t_rootPage t = pageImg (absStore t) (pno T)" "stored t (absStore t) T" "distinct (pages T)"
    "tinv (\<lambda>x y. cmp_compare c x y (t_recSize t)) (leafyOf t) (nodeMin t) (nodeMax t) h T"
    "length (pkeys T) \<le> rootMax t (pkids T = [])" "0 < h \<Longrightarrow> pkeys T \<noteq> []"
  using assms unfolding treeState_def by blast+

lemma orderOk_rootMax: "orderOk t \<Longrightarrow> 1 < rootMax t b"
  using orderOkD(4) [of t "t_rootPageNum t" b] by (simp add: pageMax_root)

text \<open>The root page is not below the root.\<close>

lemma treeState_rootAside:
  assumes "treeState t c h T"
  shows "rootAside t T"
proof -
  note s = treeStateD [OF assms]
  have "t_rootPageNum t \<notin> ps_avail (absStore t)" using stored_pages [OF s(7) pno_in_pages] s(5) by simp
  moreover have "t_rootPageNum t \<notin> set (pages U)" if "U \<in> set (pkids T)" for U
    using s(8) that unfolding s(5) [symmetric] by (cases T) auto
  ultimately show ?thesis by (simp add: rootAside_def)
qed

text \<open>From the pages back to the object: what is stored below the root is the tree of the object.\<close>

lemma treeState_root:
  assumes "storeOk t1" "ps_ok (absStore t1)" "sameTree t t1" "t_comparator t = Some c" "orderOk t"
    "pno T = ps_root (absStore t1)" "stored t (absStore t1) T" "distinct (pages T)"
    "tinv (\<lambda>x y. cmp_compare c x y (t_recSize t)) (leafyOf t) (nodeMin t) (nodeMax t) h T"
    "length (pkeys T) \<le> rootMax t (pkids T = [])" "0 < h \<Longrightarrow> pkeys T \<noteq> []"
  shows "treeState (t1\<lparr>t_rootPage := pageImg (absStore t1) (pno T)\<rparr>) c h T"
proof -
  have r: "t_rootPageNum t1 = pno T" using assms(6) by (simp add: absStore_def)
  show ?thesis
    using assms(1,2,4-5,7-11) sameTreeD(1-15,18) [OF assms(3)] r
    by (simp add: treeState_def)
qed

context tree_order
begin

lemma growRoot_ok:
  assumes st: "treeState t c h T" "roomy t (absStore t) (Suc (Suc n))" "t_recSize t = sz"
    and full: "length (pkeys T) = rootMax t (pkids T = [])"
  shows "\<exists>t' T'. growRoot t = Inr t' \<and> treeState t' c (Suc h) T' \<and> sameTree t t' \<and>
    roomy t (absStore t') n \<and> contents (leafyOf t) T' = contents (leafyOf t) T \<and>
    length (pkeys T') < rootMax t (pkids T' = [])"
proof -
  note s = treeStateD [OF st(1)]
  have inv: "tree_inv t h T" using s(9) st(3) by simp
  obtain q pw t1 where r: "bindR (allocNewRootPage (t_rootPage t) t) (\<lambda>(rootPage, t1).
      bindR (setCursor t1 rootPage 0 (t_rootPageNum t)) (\<lambda>rootPage.
        setAsRoot rootPage True (t1\<lparr>t_rootPage := rootPage\<rparr>))) = Inr t1"
    "t_rootPage t1 = pw" "storeOk t1" "sameTree t t1" "ps_ok (absStore t1)" "roomy t (absStore t1) (Suc n)"
    "q \<in> ps_avail (absStore t)" "q \<notin> ps_avail (absStore t1)" "ps_live (absStore t1) q" "ps_root (absStore t1) = q"
    "pageHas t pw q [] [pno T]" "stored t (absStore t1) T"
    using new_root [OF st(1,2)] by (elim exE conjE) (rule that)
  note F = sameTreeD [OF r(4)]
  have bt: "orderOk t1" using s(4) by (simp add: F)
  have q: "q \<notin> set (pages T)" using stored_pages [OF s(7)] r(7) by blast
  have rq: "t_rootPageNum t1 = q" using r(10) by (simp add: absStore_def)
  have big: "nodeMin t (pkids T = []) \<le> length (pkeys T)"
  proof (cases "starTree t")
    case True
    then have "starOrder t" using s(4) by (simp add: orderOk_def)
    then show ?thesis using full star_halves(4) [of t] True by (simp add: rootMax_def starNode)
  next
    case False
    then show ?thesis using full orderOkD(2) [OF s(4), of "pkids T = []"] by (simp add: rootMax_def)
  qed
  let ?mx = "\<lambda>b. nodeMax t b + length (pkeys T)"
  have mx: "nodeMax t \<le> ?mx" by (simp add: le_fun_def)
  have single: "tinv lt (leafyOf t) (nodeMin t) ?mx (Suc h) (PNode q [] [T])"
    by (rule tinv_single [OF inv big mx]) simp
  have w: "length (pw_data (new_PageWrapper t1)) = t_nodePageSize t1" by (rule length_new_page) (rule storeOkD(3) [OF r(3)])
  have pg: "\<forall>U \<in> set [T]. stored t1 (absStore t1) U" "distinct (pages (PNode q ([] :: byte list list) [T]))"
    "pageHas t1 pw q [] (map pno [T])" "tree_inv t1 h ([T] ! 0)"
    using r(11,12) q s(8) inv by (simp_all add: F)
  have r1: "roomy t1 (absStore t1) (Suc n)" using r(6) by (simp add: F)
  have nl: "new_PageWrapper t1 = pageImg (absStore t1) (pno ([T] ! 0)) \<or>
      pw_pageNum (new_PageWrapper t1) = 0 \<and> length (pw_data (new_PageWrapper t1)) = t_nodePageSize t1"
    using w by (simp add: new_PageWrapper_def)
  have "split_done t1 n h q 0 [] [T] (splitChild pw 0 (new_PageWrapper t1) (new_PageWrapper t1) t1)"
  proof (cases "starTree t")
    case True
    have "length ([] :: byte list list) < pageMax t1 q False" using orderOkD(4) [OF bt, of q False] by simp
    then show ?thesis
      using True full by (intro star_splitChild_ok [OF r(3,5) r1 w pg(1,2) r(9,8) pg(3) _ _ bt _ pg(4) _ nl]) (simp_all add: F rootMax_def)
  next
    case False
    have "length ([] :: byte list list) < t_maxKeys t1" using orderOkD(3) [OF bt, of False] orderOkD(6) [OF bt] by simp
    then show ?thesis
      using False full by (intro splitChild_ok [OF r(3,5) r1 w pg(1,2) r(9,8) pg(3) _ _ bt _ pg(4) _ nl]) (simp_all add: F rootMax_def)
  qed
  then obtain t2 L m R where d:
    "splitChild pw 0 (new_PageWrapper t1) (new_PageWrapper t1) t1 =
       Inr (pageImg (absStore t2) q, pageImg (absStore t2) (pno L), pageImg (absStore t2) (pno R), t2)"
    "keeps t1 t2" "evolves {q, pno T} (absStore t1) (absStore t2)" "roomy t (absStore t2) n"
    "pno R \<in> ps_avail (absStore t1)" "stored t (absStore t2) (PNode q [m] [L, R])"
    "mset (pages L) + mset (pages R) = add_mset (pno R) (mset (pages T))" "splits (leafyOf t) T L m R"
    "tree_inv t h L" "tree_inv t h R" "nodeMin t (pkids L = []) \<le> length (pkeys L)"
    "nodeMin t (pkids R = []) \<le> length (pkeys R)" "length (pkeys L) < nodeMax t (pkids L = [])"
    "length (pkeys R) < nodeMax t (pkids R = [])"
    unfolding split_done_def by (auto simp: F splitKids_def insertAt_def)
  let ?T = "PNode q [m] [L, R]" and ?t = "t2\<lparr>t_rootPage := pageImg (absStore t2) q\<rparr>"
  have i0: "0 \<le> length ([] :: byte list list)" by simp
  have LR: "tinv lt (leafyOf t) (nodeMin t) ?mx h L" "tinv lt (leafyOf t) (nodeMin t) ?mx h R"
    "length (pkeys L) \<le> ?mx (pkids L = [])" "length (pkeys R) \<le> ?mx (pkids R = [])"
    using tinv_mono [OF d(9) mx] tinv_mono [OF d(10) mx] d(13,14) by simp_all
  have c: "tinv lt (leafyOf t) (nodeMin t) ?mx (Suc h) ?T" "contents (leafyOf t) ?T = contents (leafyOf t) (PNode q [] [T])"
    using split_child [OF single i0 LR(1,2) d(11,12) LR(3,4), of m] d(8) by (simp_all add: splitKids_def insertAt_def)
  have "sized (nodeMin t) (nodeMax t) ?T" using d(9-14) by (simp add: tinv_def)
  with c(1) have T: "tree_inv t (Suc h) ?T" by (rule tinv_resize)
  have m1: "length (pkeys ?T) < rootMax t (pkids ?T = [])" using orderOk_rootMax [OF s(4), of False] by simp
  have "mset (pages ?T) = add_mset q (add_mset (pno R) (mset (pages T)))" using d(7) by simp
  moreover have "pno R \<notin> set (pages T)" "q \<noteq> pno R"
    using d(5) r(8) stored_pages [OF r(12)] by blast+
  ultimately have "distinct (pages ?T)"
    using q s(8) by (metis distinct.simps(2) insert_iff list.set(2) mset.simps(2) mset_eq_imp_distinct_iff)
  moreover have sm: "sameTree t t2" using sameTree_trans [OF r(4) sameTree_keeps [OF d(2)]] .
  moreover have "ps_root (absStore t2) = q" using d(3) r(10) by (simp add: evolves_def)
  ultimately have "treeState ?t c (Suc h) ?T"
    using treeState_root [OF keepsD(1) [OF d(2)], of t c ?T "Suc h"] d(3,6) T s(3,4) st(3) m1 by (simp add: evolves_def)
  moreover have "growRoot t = Inr ?t"
  proof -
    have "growRoot t = bindR (bindR (allocNewRootPage (t_rootPage t) t) (\<lambda>(rootPage, t1).
      bindR (setCursor t1 rootPage 0 (t_rootPageNum t)) (\<lambda>rootPage.
        setAsRoot rootPage True (t1\<lparr>t_rootPage := rootPage\<rparr>))))
      (\<lambda>t. bindR (PageWrapper_splitChild (t_rootPage t) 0 t) (\<lambda>(rootPage, t). Inr (t\<lparr>t_rootPage := rootPage\<rparr>)))"
      by (simp add: growRoot_def Let_def bindR_assoc case_prod_unfold)
    then show ?thesis by (simp add: r(1) r(2) PageWrapper_splitChild_def d(1))
  qed
  moreover have "sameTree t ?t" by (rule sameTree_trans [OF sm sameTree_rootPage])
  moreover have "contents (leafyOf t) (PNode q [] [T]) = contents (leafyOf t) T"
    by (simp add: contents_def rgt_def)
  ultimately show ?thesis using c(2) d(4) m1 by (intro exI [of _ ?t] exI [of _ ?T]) simp
qed

text \<open>The virtual \<open>insertNonFull\<close> from the root.\<close>

lemma insertNonFull_done:
  assumes st: "treeState t c h T" "roomy t (absStore t) (h + n)" "t_recSize t = sz" "length k = sz"
    and nf: "length (pkeys T) < rootMax t (pkids T = [])"
  shows "ins_done t n h T k (insertNonFull (fuelOf t) k (t_rootPage t) t)"
proof -
  note s = treeStateD [OF st(1)]
  have inv: "tree_inv t h T" using s(9) st(3) by simp
  have h: "h < fuelOf t" using stored_height [OF s(1,7,8)] inv by (simp add: tinv_def)
  note ra = treeState_rootAside [OF st(1)]
  show ?thesis
  proof (cases "starTree t")
    case True
    have "length (pkeys T) < pageMax t (pno T) (pkids T = [])" using nf pageMax_root [of t] by (simp add: s(5))
    from BaseBStarTree_insertNonFull_ok [OF s(1,2) st(2) s(3) st(3,4) s(4,7,8) inv this h True ra] s(11)
    have "ins_done t n h T k (BaseBStarTree_insertNonFull (fuelOf t) k (t_rootPage t) t)" by (simp add: s(6))
    moreover have "insertNonFull (fuelOf t) k (t_rootPage t) t = BaseBStarTree_insertNonFull (fuelOf t) k (t_rootPage t) t"
      using True by (auto simp: insertNonFull_def starTree_def)
    ultimately show ?thesis by simp
  next
    case False
    then have "length (pkeys T) < nodeMax t (pkids T = [])" using nf by (simp add: rootMax_def)
    from BaseBTree_insertNonFull_ok [OF s(1,2) st(2) s(3) st(3,4) s(4,7,8) inv this h False ra]
    have "ins_done t n h T k (BaseBTree_insertNonFull (fuelOf t) k (t_rootPage t) t)" by (simp add: s(6))
    moreover have "insertNonFull (fuelOf t) k (t_rootPage t) t = BaseBTree_insertNonFull (fuelOf t) k (t_rootPage t) t"
      using False by (cases "t_treeType t") (simp_all add: insertNonFull_def starTree_def)
    ultimately show ?thesis by simp
  qed
qed

lemma insert_root:
  assumes st: "treeState t c h T" "roomy t (absStore t) (h + n)" "t_recSize t = sz" "length k = sz"
    and nf: "length (pkeys T) < rootMax t (pkids T = [])"
  shows "\<exists>t' T'. bindR (insertNonFull (fuelOf t) k (t_rootPage t) t)
      (\<lambda>(rootPage, t). Inr (t\<lparr>t_rootPage := rootPage\<rparr>)) = Inr t' \<and>
    treeState t' c h T' \<and> sameTree t t' \<and> roomy t (absStore t') n \<and>
    mset (contents (leafyOf t) T') = add_mset k (mset (contents (leafyOf t) T))"
proof -
  note s = treeStateD [OF st(1)]
  obtain t' T' where d: "insertNonFull (fuelOf t) k (t_rootPage t) t = Inr (pageImg (absStore t') (pno T), t')"
    "keeps t t'" "evolves (set (pages T)) (absStore t) (absStore t')" "roomy t (absStore t') n"
    "stored t (absStore t') T'" "distinct (pages T')" "tree_inv t h T'" "inserted (leafyOf t) k T T'"
    "length (pkeys T') \<le> pageMax t (pno T) (pkids T = [])"
    using insertNonFull_done [OF assms] unfolding ins_done_def by auto
  let ?t = "t'\<lparr>t_rootPage := pageImg (absStore t') (pno T)\<rparr>"
  have p: "pno T' = pno T" "ps_root (absStore t') = pno T"
    using d(3,8) s(5) by (simp_all add: inserted_def evolves_def absStore_def)
  have m: "length (pkeys T') \<le> rootMax t (pkids T' = [])"
    using d(8,9) pageMax_root [of t] by (simp add: inserted_def s(5))
  have ne: "pkeys T' \<noteq> []" if "0 < h" using s(11) [OF that] d(8) by (auto simp: inserted_def)
  have "treeState ?t c h T'"
    using treeState_root [OF keepsD(1) [OF d(2)] _ sameTree_keeps [OF d(2)] s(3,4) _ d(5,6) _ m ne, of h] d(3,7) p st(3)
    by (simp add: evolves_def)
  moreover have "sameTree t ?t" by (rule sameTree_trans [OF sameTree_keeps [OF d(2)] sameTree_rootPage])
  ultimately show ?thesis
    using d(1,4,8) by (intro exI [of _ ?t] exI [of _ T']) (auto simp: inserted_def)
qed

theorem insert_ok:
  assumes st: "treeState t c h T" "roomy t (absStore t) (h + 3 + n)" "t_recSize t = sz" "length k = sz"
  shows "\<exists>t' h' T'. BaseBTree_insert k t = Inr t' \<and> treeState t' c h' T' \<and> h' \<le> Suc h \<and> sameTree t t' \<and>
    roomy t (absStore t') n \<and> mset (contents (leafyOf t) T') = add_mset k (mset (contents (leafyOf t) T))"
proof -
  note s = treeStateD [OF st(1)]
  have h: "pageHas t (t_rootPage t) (pno T) (pkeys T) (map pno (pkids T))" using stored_node [OF s(7)] s(6) by simp
  have full: "isFull t (t_rootPage t) \<longleftrightarrow> length (pkeys T) = rootMax t (pkids T = [])"
    using pageHasD(1,3,4) [OF h] pageMax_root [of t] by (simp add: isFull_pageMax s(5))
  show ?thesis
  proof (cases "isFull t (t_rootPage t)")
    case True
    obtain t1 T1 where g: "growRoot t = Inr t1" "treeState t1 c (Suc h) T1" "sameTree t t1"
      "roomy t (absStore t1) (Suc h + n)" "contents (leafyOf t) T1 = contents (leafyOf t) T"
      "length (pkeys T1) < rootMax t (pkids T1 = [])"
      using growRoot_ok [OF st(1) roomy_mono [OF st(2), of "Suc (Suc (Suc h + n))"] st(3)] True full by auto
    note F = sameTreeD [OF g(3)]
    obtain t' T' where r: "bindR (insertNonFull (fuelOf t1) k (t_rootPage t1) t1)
        (\<lambda>(rootPage, t). Inr (t\<lparr>t_rootPage := rootPage\<rparr>)) = Inr t'" "treeState t' c (Suc h) T'" "sameTree t1 t'"
      "roomy t (absStore t') n" "mset (contents (leafyOf t) T') = add_mset k (mset (contents (leafyOf t) T1))"
      using insert_root [OF g(2), of n k] g(4,6) st(3,4) by (auto simp: F)
    have "BaseBTree_insert k t = Inr t'" using True g(1) r(1) by (simp add: BaseBTree_insert_def)
    then show ?thesis using r g(5) sameTree_trans [OF g(3) r(3)] by auto
  next
    case False
    then have "length (pkeys T) < rootMax t (pkids T = [])" using full treeStateD(10) [OF st(1)] by simp
    from insert_root [OF st(1) roomy_mono [OF st(2)] st(3,4) this, of n]
    obtain t' T' where r: "bindR (insertNonFull (fuelOf t) k (t_rootPage t) t)
        (\<lambda>(rootPage, t). Inr (t\<lparr>t_rootPage := rootPage\<rparr>)) = Inr t'" "treeState t' c h T'" "sameTree t t'"
      "roomy t (absStore t') n" "mset (contents (leafyOf t) T') = add_mset k (mset (contents (leafyOf t) T))" by auto
    have "BaseBTree_insert k t = Inr t'" using False r(1) by (simp add: BaseBTree_insert_def)
    then show ?thesis using r by (intro exI [of _ t'] exI [of _ h] exI [of _ T']) auto
  qed
qed

end

end
