(* ===== verification/Tree_Search.thy ===== *)
theory Tree_Search
  imports Tree_Insert Search_Tree
begin

text \<open>
  The searches on the pages: \<open>search\<close> returns a key of the tree that is equal to the probe and
  nothing exactly when there is none; \<open>searchAll\<close> returns every equal key as often as it is
  in the tree.  Neither changes the store.
\<close>

section \<open>States that differ in the search statistics\<close>

definition looked :: "nat \<Rightarrow> BaseBTree \<Rightarrow> BaseBTree \<Rightarrow> bool" where
  "looked d t t' \<longleftrightarrow>
     storeOk t' \<and> absStore t' = absStore t \<and>
     frame t' = frame (t\<lparr>t_maxSearchDepth := max (t_maxSearchDepth t) d\<rparr>)"

lemma order_searchDepth [simp]:
  "leafyOf (t\<lparr>t_maxSearchDepth := d\<rparr>) = leafyOf t" "nodeMax (t\<lparr>t_maxSearchDepth := d\<rparr>) = nodeMax t"
  "nodeMin (t\<lparr>t_maxSearchDepth := d\<rparr>) = nodeMin t" "orderOk (t\<lparr>t_maxSearchDepth := d\<rparr>) = orderOk t"
  "roomy (t\<lparr>t_maxSearchDepth := d\<rparr>) = roomy t" "starTree (t\<lparr>t_maxSearchDepth := d\<rparr>) = starTree t"
  "pageMax (t\<lparr>t_maxSearchDepth := d\<rparr>) = pageMax t" "rootMax (t\<lparr>t_maxSearchDepth := d\<rparr>) = rootMax t"
  by (simp_all add: rootMax_def leafyOf_def nodeMax_def nodeMin_def orderOk_def starOrder_def starTree_def pageMax_def roomy_def fun_eq_iff)

lemma lookedD:
  assumes "looked d t t'"
  shows "storeOk t'" "absStore t' = absStore t" "stored t' = stored t" "pageHas t' = pageHas t"
    "t_recSize t' = t_recSize t" "t_comparator t' = t_comparator t" "t_treeType t' = t_treeType t"
    "t_rootPage t' = t_rootPage t" "t_maxSearchDepth t' = max (t_maxSearchDepth t) d"
    "leafyOf t' = leafyOf t" "nodeMax t' = nodeMax t" "nodeMin t' = nodeMin t" "orderOk t' = orderOk t"
    "roomy t' = roomy t" "t_nodePageSize t' = t_nodePageSize t" "pageMax t' = pageMax t" "starTree t' = starTree t"
    "rootMax t' = rootMax t"
proof -
  have f: "frame t' = frame (t\<lparr>t_maxSearchDepth := max (t_maxSearchDepth t) d\<rparr>)"
    using assms by (simp add: looked_def)
  show "storeOk t'" "absStore t' = absStore t" using assms by (simp_all add: looked_def)
  show p: "pageHas t' = pageHas t" using pageHas_frame [OF f] by simp
  show "stored t' = stored t" using stored_cong [OF p] by (simp add: fun_eq_iff)
  show "t_recSize t' = t_recSize t" "t_comparator t' = t_comparator t" "t_treeType t' = t_treeType t"
    "t_rootPage t' = t_rootPage t" "t_maxSearchDepth t' = max (t_maxSearchDepth t) d"
    "t_nodePageSize t' = t_nodePageSize t"
    using frame_eqD [OF f] by simp_all
  show "leafyOf t' = leafyOf t" "nodeMax t' = nodeMax t" "nodeMin t' = nodeMin t" "orderOk t' = orderOk t"
    using order_frame [OF f] by simp_all
  show "roomy t' = roomy t" using frame_eqF(8) [OF f] by (simp add: roomy_def fun_eq_iff)
  have "t_rootPageNum t' = t_rootPageNum t" using assms by (simp add: looked_def absStore_def)
  then show "pageMax t' = pageMax t" using pageMax_frame [OF f] by simp
  show "starTree t' = starTree t" using order_frame [OF f] by simp
  show "rootMax t' = rootMax t" using order_frame [OF f] frame_eqD [OF f] by (simp add: rootMax_def fun_eq_iff)
qed

lemma frame_searchDepth: "frame (t\<lparr>t_maxSearchDepth := d\<rparr>) = (frame t)\<lparr>t_maxSearchDepth := d\<rparr>"
  by (simp add: frame_def)

lemma frame_depth_self: "(frame t)\<lparr>t_maxSearchDepth := t_maxSearchDepth t\<rparr> = frame t"
  by (cases t) (simp add: frame_def)

lemma looked_note: "storeOk t \<Longrightarrow> looked d t (noteDepth d t)"
  by (simp add: looked_def noteDepth_def max_def frame_searchDepth frame_depth_self)

lemma looked_keeps: "looked d t t1 \<Longrightarrow> keeps t1 t2 \<Longrightarrow> absStore t2 = absStore t1 \<Longrightarrow> looked d t t2"
  by (simp add: looked_def keeps_def)

lemma looked_trans: "looked d t t1 \<Longrightarrow> looked e t1 t2 \<Longrightarrow> looked (max d e) t t2"
  using lookedD(9) [of d t t1] by (auto simp: looked_def frame_searchDepth max.assoc)

lemma looked_treeState:
  assumes "treeState t c h T" "looked d t t'"
  shows "treeState t' c h T"
proof -
  have "t_rootPageNum t' = t_rootPageNum t" using lookedD(2) [OF assms(2)] by (simp add: absStore_def)
  then show ?thesis using assms(1) lookedD [OF assms(2)] by (simp add: treeState_def)
qed

text \<open>A B*+-tree is searched as a B+-tree: on a leaf it scans the keys a second time.\<close>

lemma noteDepth_twice [simp]: "noteDepth d (noteDepth d t) = noteDepth d t"
  by (simp add: noteDepth_def)

lemma noteDepth_comparator [simp]: "t_comparator (noteDepth d t) = t_comparator t"
  by (simp add: noteDepth_def)

lemma BaseBStarPlusTree_search_eq: "BaseBStarPlusTree_search fuel k = BaseBPlusTree_search fuel k"
proof (induction fuel)
  case (Suc fuel)
  show ?case
  proof (intro ext)
    fix pw d t
    show "BaseBStarPlusTree_search (Suc fuel) k pw d t = BaseBPlusTree_search (Suc fuel) k pw d t"
      by (cases "t_comparator t"; cases "scanUp (the (t_comparator t)) (noteDepth d t) pw k 0 (getKeysNum pw)")
        (simp_all add: Let_def Suc.IH)
  qed
qed (simp add: fun_eq_iff)

lemma BaseBStarPlusTree_searchAll_eq: "BaseBStarPlusTree_searchAll fuel k = BaseBPlusTree_searchAll fuel k"
proof (induction fuel)
  case (Suc fuel)
  show ?case by (intro ext) (simp add: Suc.IH)
qed (simp add: fun_eq_iff)

lemma searchFrom_kinds:
  "searchFrom fuel k pw d t =
     (if leafyOf t then BaseBPlusTree_search fuel k pw d t else BaseBTree_search fuel k pw d t)"
  by (cases "t_treeType t") (simp_all add: searchFrom_def leafyOf_def BaseBStarPlusTree_search_eq)

lemma searchAllFrom_kinds:
  "searchAllFrom fuel k pw d t =
     (if leafyOf t then BaseBPlusTree_searchAll fuel k pw d t else BaseBTree_searchAll fuel k pw d t)"
  by (cases "t_treeType t") (simp_all add: searchAllFrom_def leafyOf_def BaseBStarPlusTree_searchAll_eq)

text \<open>The object after a search: only the recorded depth and the stream may differ.\<close>

definition onlySearched :: "BaseBTree \<Rightarrow> BaseBTree \<Rightarrow> bool" where
  "onlySearched t t' \<longleftrightarrow> (\<exists>d. frame t' = frame (t\<lparr>t_maxSearchDepth := d\<rparr>))"

lemma looked_onlySearched: "looked d (t\<lparr>t_maxSearchDepth := e\<rparr>) t' \<Longrightarrow> onlySearched t t'"
  by (auto simp: looked_def onlySearched_def)

section \<open>Searching for one key\<close>

locale tree_compare = tree_order +
  assumes compare: "comparator (\<lambda>x y. cmp_compare c x y sz) (\<lambda>x y. cmp_isEqual c x y sz)"

sublocale tree_compare \<subseteq> comparator "\<lambda>x y. cmp_compare c x y sz" "\<lambda>x y. cmp_isEqual c x y sz"
  by (rule compare)

interpretation byte_compare: tree_compare "ByteComparator f" sz for f sz
  by unfold_locales (use bytes.comparator_axioms in \<open>auto simp: ByteComparator_def comparator_def comparator_axioms_def\<close>)

context tree_order
begin

lemma page_stop:
  assumes "geom t" "pageHas t pw p ks cs" "t_recSize t = sz"
  shows "\<exists>i. scanUp c t pw k 0 (getKeysNum pw) = Inr i \<and> stops ks k i \<and>
    equalAt c t pw k i = Inr (i < length ks \<and> cmp_isEqual c k (ks ! i) sz)"
proof -
  obtain i where "scanUp c t pw k 0 (length ks) = Inr i" "stops ks k i"
    using has_scanUp [OF assms(1,2), of c k] assms(3) by (auto simp: stops_def)
  then show ?thesis
    using pageHasD(3) [OF assms(2)] has_keyAt [OF assms(1,2), of i] assms(3) by (auto simp: equalAt_def)
qed

end

context tree_compare
begin

definition found :: "bool \<Rightarrow> byte list \<Rightarrow> byte list ptree \<Rightarrow> byte list option \<Rightarrow> bool" where
  "found leafy k T r \<longleftrightarrow>
     (case r of None \<Rightarrow> \<not> (\<exists>x \<in> set (contents leafy T). cmp_isEqual c k x sz)
      | Some x \<Rightarrow> x \<in> set (contents leafy T) \<and> cmp_isEqual c k x sz)"

definition search_done ::
  "bool \<Rightarrow> nat \<Rightarrow> nat \<Rightarrow> byte list \<Rightarrow> byte list ptree \<Rightarrow> BaseBTree \<Rightarrow> (byte list option \<times> BaseBTree) res \<Rightarrow> bool" where
  "search_done leafy dep h k T t result \<longleftrightarrow>
     (\<exists>r d t'. result = Inr (r, t') \<and> looked d t t' \<and> dep \<le> d \<and> d \<le> dep + h \<and> found leafy k T r)"

lemma found_leaf:
  assumes "tinv lt leafy mn mx 0 (PNode p ks [])" "stops ks k i"
  shows "found leafy k (PNode p ks []) (if i < length ks \<and> cmp_isEqual c k (ks ! i) sz then Some (ks ! i) else None)"
  using no_key [OF keys_ord [OF assms(1)] assms(2)] by (auto simp: found_def contents_def)

lemma found_child:
  assumes T: "tinv lt leafy mn mx (Suc h) (PNode p ks Ts)" and i: "stops ks k i"
    and n: "leafy \<or> \<not> (i < length ks \<and> cmp_isEqual c k (ks ! i) sz)" and f: "found leafy k (Ts ! i) r"
  shows "found leafy k (PNode p ks Ts) r"
proof -
  have len: "length Ts = Suc (length ks)" "i \<le> length ks" using T stopsD(1) [OF i] by (simp_all add: tinv_def)
  have "set (contents leafy (Ts ! i)) \<subseteq> set (contents leafy (PNode p ks Ts))"
    using contents_split [OF len] by auto
  moreover have "(\<exists>x \<in> set (contents leafy (PNode p ks Ts)). cmp_isEqual c k x sz) \<longleftrightarrow>
      (\<exists>x \<in> set (contents leafy (Ts ! i)). cmp_isEqual c k x sz)"
  proof (cases leafy)
    case True
    then show ?thesis using search_routed [OF _ i] T by simp
  next
    case False
    then show ?thesis using search_below [OF _ i] n T by simp
  qed
  ultimately show ?thesis using f by (auto simp: found_def split: option.splits)
qed

text \<open>The descent that all three search methods share.\<close>

lemma search_descent:
  assumes ok: "storeOk t" "stored t (absStore t) (PNode p ks Ts)" "tinv lt leafy mn mx (Suc h) (PNode p ks Ts)"
    and i: "stops ks k i" "leafy \<or> \<not> (i < length ks \<and> cmp_isEqual c k (ks ! i) sz)"
    and rec: "\<And>t'. storeOk t' \<Longrightarrow> t_comparator t' = t_comparator t \<Longrightarrow> t_recSize t' = t_recSize t \<Longrightarrow>
      stored t' (absStore t') (Ts ! i) \<Longrightarrow> tinv lt leafy mn mx h (Ts ! i) \<Longrightarrow>
      search_done leafy (dep + 1) h k (Ts ! i) t' (descend (pageImg (absStore t') (pno (Ts ! i))) t')"
  shows "search_done leafy dep (Suc h) k (PNode p ks Ts) t
    (bindR (readPageFromChild (new_PageWrapper (noteDepth dep t)) (pageImg (absStore t) p) i (noteDepth dep t))
      (\<lambda>(nextPage, t). descend nextPage t))"
proof -
  let ?t = "noteDepth dep t"
  have l: "looked dep t ?t" by (rule looked_note [OF ok(1)])
  note F = lookedD [OF l]
  have len: "length Ts = Suc (length ks)" "i < length Ts"
    using ok(3) stopsD(1) [OF i(1)] by (simp_all add: tinv_def)
  have h: "pageHas ?t (pageImg (absStore ?t) p) p ks (map pno Ts)" using ok(2) by (simp add: F)
  obtain t1 where t1: "readPageFromChild (new_PageWrapper ?t) (pageImg (absStore t) p) i ?t =
      Inr (pageImg (absStore t) (pno (Ts ! i)), t1)" "keeps ?t t1" "absStore t1 = absStore t"
    using read_child [OF F(1) _ h len(2) length_new_page [OF storeOkD(3) [OF F(1)]]] ok(2) unfolding F by blast
  have l1: "looked dep t t1" by (rule looked_keeps [OF l t1(2)]) (simp add: t1(3) F)
  note G = lookedD [OF l1]
  have "search_done leafy (dep + 1) h k (Ts ! i) t1 (descend (pageImg (absStore t1) (pno (Ts ! i))) t1)"
    using rec [OF G(1)] ok(2) tinv_child [OF ok(3)] nth_mem [OF len(2)] by (simp add: G)
  then obtain r d t' where r: "descend (pageImg (absStore t) (pno (Ts ! i))) t1 = Inr (r, t')" "looked d t1 t'"
    "dep + 1 \<le> d" "d \<le> dep + 1 + h" "found leafy k (Ts ! i) r"
    by (auto simp: search_done_def G)
  have "looked d t t'" using looked_trans [OF l1 r(2)] r(3) by (simp add: max_def)
  then show ?thesis
    using t1(1) r found_child [OF ok(3) i r(5)] by (auto simp: search_done_def)
qed

text \<open>What a search method learns from the page it is on.\<close>

lemma probe_page:
  assumes "storeOk t" "t_recSize t = sz" "stored t (absStore t) (PNode p ks Ts)"
  shows "\<exists>i. scanUp c (noteDepth dep t) (pageImg (absStore t) p) k 0 (getKeysNum (pageImg (absStore t) p)) = Inr i \<and>
    stops ks k i \<and>
    equalAt c (noteDepth dep t) (pageImg (absStore t) p) k i = Inr (i < length ks \<and> cmp_isEqual c k (ks ! i) sz) \<and>
    (i < length ks \<longrightarrow> keyAt (noteDepth dep t) (pageImg (absStore t) p) i = Inr (ks ! i)) \<and>
    (isLeaf (pageImg (absStore t) p) \<longleftrightarrow> Ts = []) \<and> looked dep t (noteDepth dep t)"
proof -
  let ?t = "noteDepth dep t"
  have l: "looked dep t ?t" by (rule looked_note [OF assms(1)])
  note F = lookedD [OF l] and g = storeOkD(1) [OF lookedD(1) [OF l]]
  have h: "pageHas ?t (pageImg (absStore t) p) p ks (map pno Ts)" using assms(3) by (simp add: F)
  show ?thesis
    using page_stop [OF g h, of k] has_keyAt [OF g h] pageHasD(4) [OF h] assms(2) l by (auto simp: F)
qed

lemma search_done_leaf:
  assumes "looked dep t t'" "tinv lt leafy mn mx 0 (PNode p ks [])" "stops ks k i"
  shows "search_done leafy dep h k (PNode p ks []) t
    (Inr (if i < length ks \<and> cmp_isEqual c k (ks ! i) sz then Some (ks ! i) else None, t'))"
  using found_leaf [OF assms(2,3)] assms(1) by (auto simp: search_done_def)

lemma BaseBTree_search_ok:
  assumes "storeOk t" "t_comparator t = Some c" "t_recSize t = sz" "stored t (absStore t) T"
    "tinv lt False mn mx h T" "h < fuel"
  shows "search_done False dep h k T t (BaseBTree_search fuel k (pageImg (absStore t) (pno T)) dep t)"
  using assms
proof (induction h arbitrary: t T fuel dep)
  case 0
  obtain p ks where T: "T = PNode p ks []" using 0(5) by (cases T) (auto simp: tinv_def)
  obtain f where f: "fuel = Suc f" using 0(6) by (cases fuel) auto
  from probe_page [OF 0(1,3) 0(4) [unfolded T], of dep k]
  show ?case using search_done_leaf [OF _ 0(5) [unfolded T], of dep t] 0(2) by (fastforce simp: f T Let_def)
next
  case (Suc h)
  obtain p ks Ts where T: "T = PNode p ks Ts" by (cases T)
  obtain f where f: "fuel = Suc f" "h < f" using Suc.prems(6) by (cases fuel) auto
  let ?t = "noteDepth dep t" and ?pw = "pageImg (absStore t) p"
  have len: "length Ts = Suc (length ks)" "Ts \<noteq> []" using Suc.prems(5) T by (auto simp: tinv_def)
  obtain i where i: "scanUp c ?t ?pw k 0 (getKeysNum ?pw) = Inr i" "stops ks k i"
    "equalAt c ?t ?pw k i = Inr (i < length ks \<and> cmp_isEqual c k (ks ! i) sz)"
    "i < length ks \<longrightarrow> keyAt ?t ?pw i = Inr (ks ! i)" "\<not> isLeaf ?pw" "looked dep t ?t"
    using probe_page [OF Suc.prems(1,3) Suc.prems(4) [unfolded T], of dep k] len(2) by blast
  show ?case
  proof (cases "i < length ks \<and> cmp_isEqual c k (ks ! i) sz")
    case True
    have "ks ! i \<in> set (contents False T)"
      using mset_contents [OF len(1), of False p] True T by (metis nth_mem set_mset_mset set_mset_union UnCI)
    then show ?thesis
      using True i Suc.prems(2) f T by (auto simp: search_done_def found_def Let_def intro!: exI [of _ dep])
  next
    case False
    have "search_done False dep (Suc h) k (PNode p ks Ts) t
      (bindR (readPageFromChild (new_PageWrapper ?t) ?pw i ?t)
        (\<lambda>(nextPage, t). BaseBTree_search f k nextPage (dep + 1) t))"
      using Suc.prems(2,3) f(2) False Suc.prems(4,5) T
      by (intro search_descent [OF Suc.prems(1) _ _ i(2)] Suc.IH) auto
    then show ?thesis
      using i(1,3,5) Suc.prems(2) f(1) T unfolding if_not_P [OF False] by (simp add: Let_def False)
  qed
qed

lemma BaseBPlusTree_search_ok:
  assumes "storeOk t" "t_comparator t = Some c" "t_recSize t = sz" "stored t (absStore t) T"
    "tinv lt True mn mx h T" "h < fuel"
  shows "search_done True dep h k T t (BaseBPlusTree_search fuel k (pageImg (absStore t) (pno T)) dep t)"
  using assms
proof (induction h arbitrary: t T fuel dep)
  case 0
  obtain p ks where T: "T = PNode p ks []" using 0(5) by (cases T) (auto simp: tinv_def)
  obtain f where f: "fuel = Suc f" using 0(6) by (cases fuel) auto
  from probe_page [OF 0(1,3) 0(4) [unfolded T], of dep k]
  show ?case using search_done_leaf [OF _ 0(5) [unfolded T], of dep t] 0(2) by (fastforce simp: f T Let_def)
next
  case (Suc h)
  obtain p ks Ts where T: "T = PNode p ks Ts" by (cases T)
  obtain f where f: "fuel = Suc f" "h < f" using Suc.prems(6) by (cases fuel) auto
  let ?t = "noteDepth dep t" and ?pw = "pageImg (absStore t) p"
  have "Ts \<noteq> []" using Suc.prems(5) T by (auto simp: tinv_def)
  then obtain i where i: "scanUp c ?t ?pw k 0 (getKeysNum ?pw) = Inr i" "stops ks k i" "\<not> isLeaf ?pw"
    using probe_page [OF Suc.prems(1,3) Suc.prems(4) [unfolded T], of dep k] by blast
  have "search_done True dep (Suc h) k (PNode p ks Ts) t
    (bindR (readPageFromChild (new_PageWrapper ?t) ?pw i ?t)
      (\<lambda>(nextPage, t). BaseBPlusTree_search f k nextPage (dep + 1) t))"
    using Suc.prems(2,3) f(2) Suc.prems(4,5) T
    by (intro search_descent [OF Suc.prems(1) _ _ i(2)] Suc.IH) auto
  then show ?case using i Suc.prems(2) f(1) T by (simp add: Let_def)
qed

text \<open>The public method.\<close>

theorem search_ok:
  assumes st: "treeState t c h T" "t_recSize t = sz"
  shows "\<exists>r t'. search k t = Inr (r, t') \<and> treeState t' c h T \<and> found (leafyOf t) k T r \<and>
    absStore t' = absStore t \<and> 1 \<le> t_maxSearchDepth t' \<and> t_maxSearchDepth t' \<le> h + 1 \<and> leafyOf t' = leafyOf t \<and>
    onlySearched t t'"
proof -
  let ?t = "t\<lparr>t_maxSearchDepth := 0\<rparr>"
  note s = treeStateD [OF st(1)]
  have fuel: "h < fuelOf ?t"
    using stored_height [OF s(1,7,8)] s(9) by (simp add: tinv_def fuelOf_def)
  have "search_done (leafyOf t) 1 h k T ?t (searchFrom (fuelOf ?t) k (t_rootPage ?t) 1 ?t)"
  proof (cases "leafyOf t")
    case False
    then show ?thesis
      using BaseBTree_search_ok [of ?t T "nodeMin t" "nodeMax t" h "fuelOf ?t"] s(1-9) st(2) fuel
      by (simp add: searchFrom_kinds)
  next
    case True
    then show ?thesis
      using BaseBPlusTree_search_ok [of ?t T "nodeMin t" "nodeMax t" h "fuelOf ?t"] s(1-9) st(2) fuel
      by (simp add: searchFrom_kinds)
  qed
  then obtain r d t' where r: "searchFrom (fuelOf ?t) k (t_rootPage ?t) 1 ?t = Inr (r, t')" "looked d ?t t'"
    "1 \<le> d" "d \<le> 1 + h" "found (leafyOf t) k T r"
    by (auto simp: search_done_def)
  have "treeState ?t c h T" using st(1) by (simp add: treeState_def)
  then show ?thesis
    using looked_treeState [OF _ r(2)] lookedD(2,9,10) [OF r(2)] looked_onlySearched [OF r(2)] r s(3) by (simp add: search_def)
qed

end

section \<open>Searching for all keys\<close>

locale tree_scan = tree_order +
  assumes scans: "scan_order (\<lambda>x y. cmp_compare c x y sz) (\<lambda>x y. cmp_isEqual c x y sz)"

sublocale tree_scan \<subseteq> scan_order "\<lambda>x y. cmp_compare c x y sz" "\<lambda>x y. cmp_isEqual c x y sz"
  by (rule scans)

sublocale tree_compare \<subseteq> tree_scan
  by unfold_locales

interpretation full_scan: tree_scan "SearchAllByteComparator f" sz for f sz
  by unfold_locales
    (simp_all add: SearchAllByteComparator_def scan.irrefl, blast intro: scan.trans, blast dest: scan.weak)

context tree_scan
begin

text \<open>The keys that \<open>searchAll\<close> returns below a node, and how deep it went.\<close>

definition all_done ::
  "bool \<Rightarrow> nat \<Rightarrow> byte list \<Rightarrow> byte list ptree \<Rightarrow> BaseBTree \<Rightarrow> (nat \<times> byte list list \<times> BaseBTree) res \<Rightarrow> bool" where
  "all_done leafy d k T t result \<longleftrightarrow>
     (\<exists>ks t'. result = Inr (length ks, ks, t') \<and> looked d t t' \<and>
        mset ks = filter_mset (hit k) (mset (contents leafy T)))"

lemma looked_idem: "looked d t t1 \<Longrightarrow> looked d t1 t2 \<Longrightarrow> looked d t t2"
  using looked_trans [of d t t1 d t2] by simp

lemma looked_refl: "storeOk t \<Longrightarrow> d \<le> t_maxSearchDepth t \<Longrightarrow> looked d t t"
  by (simp add: looked_def max_absorb1 frame_searchDepth frame_depth_self)

text \<open>The loop over the keys, with the depth \<open>d\<close> of the leaves already noted or not.\<close>

definition descends ::
  "(PageWrapper \<Rightarrow> BaseBTree \<Rightarrow> (nat \<times> byte list list \<times> BaseBTree) res) \<Rightarrow> bool \<Rightarrow> nat \<Rightarrow> byte list \<Rightarrow>
   byte list ptree list \<Rightarrow> BaseBTree \<Rightarrow> bool" where
  "descends descend leafy d k Ts t \<longleftrightarrow>
     (\<forall>e t' T. looked e t t' \<longrightarrow> T \<in> set Ts \<longrightarrow>
        all_done leafy d k T t' (descend (pageImg (absStore t) (pno T)) t'))"

lemma descend_child:
  assumes ok: "storeOk t" "stored t (absStore t) (PNode p ks Ts)" "descends descend leafy d k Ts t"
    and l: "looked e t t1" "i < length Ts" "length (pw_data next) = t_nodePageSize t"
  shows "\<exists>rs t2. bindR (readPageFromChild next (pageImg (absStore t) p) i t1) (\<lambda>(nextPage, t).
      bindR (descend nextPage t) (\<lambda>(a, ks, t). Inr (a, ks, nextPage, t))) =
        Inr (length rs, rs, pageImg (absStore t) (pno (Ts ! i)), t2) \<and> looked (max e d) t t2 \<and>
    mset rs = filter_mset (hit k) (mset (contents leafy (Ts ! i)))"
proof -
  note F = lookedD [OF l(1)]
  have h: "pageHas t1 (pageImg (absStore t) p) p ks (map pno Ts)" using ok(2) by (simp add: F)
  obtain t2 where t2: "readPageFromChild next (pageImg (absStore t) p) i t1 = Inr (pageImg (absStore t) (pno (Ts ! i)), t2)"
    "keeps t1 t2" "absStore t2 = absStore t"
    using read_child [OF F(1) _ h l(2)] ok(2) l(3) unfolding F by blast
  have l2: "looked e t t2" by (rule looked_keeps [OF l(1) t2(2)]) (simp add: t2(3) F)
  then obtain rs t3 where "descend (pageImg (absStore t) (pno (Ts ! i))) t2 = Inr (length rs, rs, t3)" "looked d t2 t3"
    "mset rs = filter_mset (hit k) (mset (contents leafy (Ts ! i)))"
    using ok(3) nth_mem [OF l(2)] unfolding descends_def all_done_def by blast
  then show ?thesis using t2(1) looked_trans [OF l2] by auto
qed

lemma loop_done:
  assumes ok: "storeOk t" "stored t (absStore t) (PNode p ks Ts)" "t_recSize t = sz"
    and d: "Ts \<noteq> [] \<Longrightarrow> descends descend leafy d k Ts t" and len: "Ts \<noteq> [] \<Longrightarrow> length Ts = Suc (length ks)"
    and l: "looked e t t1" "length (pw_data next) = t_nodePageSize t" and i: "first \<le> i" "i + m = length ks"
  shows "\<exists>j rs next' e' t2. searchAllLoop descend c k collect (pageImg (absStore t) p) first i m next t1 =
      Inr (j, length rs, rs, next', t2) \<and> looked e' t t2 \<and> (e' = e \<or> e' = max e d \<and> Ts \<noteq> []) \<and>
    length (pw_data next') = t_nodePageSize t \<and>
    i \<le> j \<and> j \<le> length ks \<and> (j < length ks \<longrightarrow> \<not> cmp_isEqual c k (ks ! j) sz \<and> j \<noteq> first) \<and>
    mset rs = (if collect then \<Sum>l \<in> {i..<j}. picked ks k l else {#}) +
      (if Ts = [] then {#} else \<Sum>l \<in> {i..<j}. filter_mset (hit k) (mset (contents leafy (Ts ! l))))"
  using l i
proof (induction m arbitrary: i e t1 "next")
  case 0
  then show ?case by auto
next
  case (Suc m)
  let ?pw = "pageImg (absStore t) p"
  note F = lookedD [OF Suc.prems(1)]
  have il: "i < length ks" using Suc.prems(4) by simp
  have h: "pageHas t1 ?pw p ks (map pno Ts)" using ok(2) by (simp add: F)
  have key: "keyAt t1 ?pw i = Inr (ks ! i)" by (rule has_keyAt [OF storeOkD(1) [OF F(1)] h il])
  have lf: "isLeaf ?pw \<longleftrightarrow> Ts = []" using pageHasD(4) [OF h] by simp
  let ?e = "cmp_isEqual c k (ks ! i) sz"
  show ?case
  proof (cases "i = first \<or> ?e")
    case False
    then show ?thesis using Suc.prems il key ok(3) by (auto simp: F)
  next
    case True
    let ?here = "if collect \<and> ?e then [ks ! i] else []"
    obtain rs next1 e1 t2 where r: "(if isLeaf ?pw then Inr (0, [], next, t1)
        else bindR (readPageFromChild next ?pw i t1) (\<lambda>(nextPage, t).
          bindR (descend nextPage t) (\<lambda>(a, ks, t). Inr (a, ks, nextPage, t)))) = Inr (length rs, rs, next1, t2)"
      "looked e1 t t2" "e1 = (if Ts = [] then e else max e d)" "length (pw_data next1) = t_nodePageSize t"
      "mset rs = (if Ts = [] then {#} else filter_mset (hit k) (mset (contents leafy (Ts ! i))))"
    proof (cases "Ts = []")
      case True
      then show ?thesis using lf Suc.prems(1,2) by (intro that [of "[]" "next" t1 e]) auto
    next
      case False
      have it: "i < length Ts" using len [OF False] il by simp
      have "stored t (absStore t) (Ts ! i)" using ok(2) it by simp
      then have "length (ps_page (absStore t) (pno (Ts ! i))) = t_nodePageSize t"
        using pageHasD(5) [OF stored_node] by fastforce
      then show ?thesis
        using descend_child [OF ok(1,2) d [OF False] Suc.prems(1) it Suc.prems(2)] lf False that by auto
    qed
    have i': "first \<le> Suc i" "Suc i + m = length ks" using Suc.prems by simp_all
    obtain j rs' next2 e' t3 where s: "searchAllLoop descend c k collect ?pw first (Suc i) m next1 t2 =
        Inr (j, length rs', rs', next2, t3)" "looked e' t t3" "e' = e1 \<or> e' = max e1 d \<and> Ts \<noteq> []"
      "length (pw_data next2) = t_nodePageSize t" "Suc i \<le> j" "j \<le> length ks"
      "j < length ks \<longrightarrow> \<not> cmp_isEqual c k (ks ! j) sz \<and> j \<noteq> first"
      "mset rs' = (if collect then \<Sum>l \<in> {Suc i..<j}. picked ks k l else {#}) +
        (if Ts = [] then {#} else \<Sum>l \<in> {Suc i..<j}. filter_mset (hit k) (mset (contents leafy (Ts ! l))))"
      using Suc.IH [OF r(2,4) i'] by blast
    have "searchAllLoop descend c k collect ?pw first i (Suc m) next t1 =
        Inr (j, length (?here @ rs @ rs'), ?here @ rs @ rs', next2, t3)"
      using True key r(1) s(1) ok(3) by (auto simp: F Let_def)
    moreover have "mset (?here @ rs @ rs') = (if collect then \<Sum>l \<in> {i..<j}. picked ks k l else {#}) +
        (if Ts = [] then {#} else \<Sum>l \<in> {i..<j}. filter_mset (hit k) (mset (contents leafy (Ts ! l))))"
      using s(5,8) r(5) by (simp add: sum.atLeast_Suc_lessThan picked_def)
    ultimately show ?thesis
      using s(2-7) r(3) by (intro exI [of _ j] exI [of _ "?here @ rs @ rs'"] exI [of _ next2] exI [of _ e'] exI [of _ t3]) auto
  qed
qed

text \<open>The page where a scan starts, as \<open>probe_page\<close> for the single search.\<close>

lemma scan_start:
  assumes "storeOk t" "t_recSize t = sz" "stored t (absStore t) (PNode p ks Ts)"
  shows "\<exists>i. scanUp c (noteDepth dep t) (pageImg (absStore t) p) k 0 (length ks) = Inr i \<and> stops ks k i \<and>
    getKeysNum (pageImg (absStore t) p) = length ks \<and> (isLeaf (pageImg (absStore t) p) \<longleftrightarrow> Ts = []) \<and>
    looked dep t (noteDepth dep t) \<and> length (pw_data (new_PageWrapper (noteDepth dep t))) = t_nodePageSize t"
proof -
  let ?t = "noteDepth dep t"
  have l: "looked dep t ?t" by (rule looked_note [OF assms(1)])
  note F = lookedD [OF l] and g = storeOkD(1) [OF lookedD(1) [OF l]]
  have h: "pageHas ?t (pageImg (absStore t) p) p ks (map pno Ts)" using assms(3) by (simp add: F)
  show ?thesis
    using page_stop [OF g h, of k] pageHasD(3,4) [OF h] assms(2) l
      length_new_page [OF storeOkD(3) [OF F(1)]] by (auto simp: F)
qed

lemma leaf_scan:
  assumes ok: "storeOk t" "t_comparator t = Some c" "t_recSize t = sz" "stored t (absStore t) (PNode p ks [])"
    and T: "tinv lt leafy mn mx 0 (PNode p ks [])"
  shows "all_done leafy dep k (PNode p ks []) t (searchAllPage descend True k (pageImg (absStore t) p) dep t)"
proof -
  let ?pw = "pageImg (absStore t) p" and ?t = "noteDepth dep t"
  obtain i where i: "scanUp c ?t ?pw k 0 (length ks) = Inr i" "stops ks k i" "getKeysNum ?pw = length ks" "isLeaf ?pw"
    "looked dep t ?t" "length (pw_data (new_PageWrapper ?t)) = t_nodePageSize t"
    using scan_start [OF ok(1,3,4)] by blast
  have "i + (length ks - i) = length ks" using stopsD(1) [OF i(2)] by simp
  from loop_done [OF ok(1,4,3) _ _ i(5,6) order.refl this, of descend leafy dep k True]
  obtain j rs next' t2 where r: "searchAllLoop descend c k True ?pw i i (length ks - i) (new_PageWrapper ?t) ?t =
      Inr (j, length rs, rs, next', t2)" "looked dep t t2" "i \<le> j" "j \<le> length ks"
    "j < length ks \<longrightarrow> \<not> cmp_isEqual c k (ks ! j) sz" "mset rs = (\<Sum>l \<in> {i..<j}. picked ks k l)"
    by auto
  have "mset rs = filter_mset (hit k) (mset ks)"
    using scan_keys [OF keys_ord [OF T], of k i j] r i(2) by (simp add: scanned_def)
  then show ?thesis
    using i r ok(2) by (auto simp: all_done_def searchAllPage_def Let_def contents_def)
qed

lemma node_scan:
  assumes ok: "storeOk t" "t_comparator t = Some c" "t_recSize t = sz" "stored t (absStore t) (PNode p ks Ts)"
    and T: "tinv lt leafy mn mx (Suc h) (PNode p ks Ts)"
    and d: "descends descend leafy d k Ts t" "dep \<le> d"
  shows "all_done leafy d k (PNode p ks Ts) t (searchAllPage descend (\<not> leafy) k (pageImg (absStore t) p) dep t)"
proof -
  let ?pw = "pageImg (absStore t) p" and ?t = "noteDepth dep t"
  have len: "length Ts = Suc (length ks)" "Ts \<noteq> []" using T by (auto simp: tinv_def)
  obtain i where i: "scanUp c ?t ?pw k 0 (length ks) = Inr i" "stops ks k i" "getKeysNum ?pw = length ks" "\<not> isLeaf ?pw"
    "looked dep t ?t" "length (pw_data (new_PageWrapper ?t)) = t_nodePageSize t"
    using scan_start [OF ok(1,3,4)] len(2) by blast
  have "i + (length ks - i) = length ks" using stopsD(1) [OF i(2)] by simp
  from loop_done [OF ok(1,4,3) d(1) len(1) i(5,6) order.refl this, of "\<not> leafy"]
  obtain j rs next' e t2 where r: "searchAllLoop descend c k (\<not> leafy) ?pw i i (length ks - i) (new_PageWrapper ?t) ?t =
      Inr (j, length rs, rs, next', t2)" "looked e t t2" "e = dep \<or> e = max dep d"
    "length (pw_data next') = t_nodePageSize t" "i \<le> j" "j \<le> length ks"
    "j < length ks \<longrightarrow> \<not> cmp_isEqual c k (ks ! j) sz"
    "mset rs = (if \<not> leafy then \<Sum>l \<in> {i..<j}. picked ks k l else {#}) +
      (\<Sum>l \<in> {i..<j}. filter_mset (hit k) (mset (contents leafy (Ts ! l))))"
    using len(2) by auto
  have jl: "j < length Ts" using r(6) len by simp
  obtain rs' t3 where s: "bindR (readPageFromChild next' ?pw j t2) (\<lambda>(nextPage, t).
      bindR (descend nextPage t) (\<lambda>(a, ks, t). Inr (a, ks, nextPage, t))) =
        Inr (length rs', rs', pageImg (absStore t) (pno (Ts ! j)), t3)" "looked (max e d) t t3"
    "mset rs' = filter_mset (hit k) (mset (contents leafy (Ts ! j)))"
    using descend_child [OF ok(1,4) d(1) r(2) jl r(4)] by blast
  have "searchAllPage descend (\<not> leafy) k ?pw dep t = bindR (bindR (readPageFromChild next' ?pw j t2) (\<lambda>(nextPage, t).
      bindR (descend nextPage t) (\<lambda>(a, ks, t). Inr (a, ks, nextPage, t))))
      (\<lambda>(a, ks, _, t). Inr (length rs + a, rs @ ks, t))"
    using i(1,3,4) r(1) ok(2) by (simp add: searchAllPage_def Let_def bindR_assoc case_prod_unfold)
  then have "searchAllPage descend (\<not> leafy) k ?pw dep t = Inr (length (rs @ rs'), rs @ rs', t3)"
    unfolding s(1) by simp
  moreover have "mset (rs @ rs') = filter_mset (hit k) (mset (contents leafy (PNode p ks Ts)))"
    using scan_node [OF T, of k i j] r(5-8) s(3) i(2) by (auto simp: scanned_def sum.atLeastLessThan_Suc)
  moreover have "max e d = d" using r(3) d(2) by auto
  ultimately show ?thesis using s(2) by (auto simp: all_done_def)
qed

lemma descendsI:
  assumes "stored t (absStore t) (PNode p ks Ts)" "tinv lt leafy mn mx (Suc h) (PNode p ks Ts)"
    "\<And>t' T. storeOk t' \<Longrightarrow> t_comparator t' = t_comparator t \<Longrightarrow> t_recSize t' = t_recSize t \<Longrightarrow>
       stored t' (absStore t') T \<Longrightarrow> tinv lt leafy mn mx h T \<Longrightarrow>
       all_done leafy d k T t' (descend (pageImg (absStore t') (pno T)) t')"
  shows "descends descend leafy d k Ts t"
  unfolding descends_def
proof (intro allI impI)
  fix e t' T assume l: "looked e t t'" and T: "T \<in> set Ts"
  note F = lookedD [OF l]
  show "all_done leafy d k T t' (descend (pageImg (absStore t) (pno T)) t')"
    using assms(3) [OF F(1), of T] assms(1) tinv_child [OF assms(2) T] T by (simp add: F)
qed

lemma BaseBTree_searchAll_ok:
  assumes "storeOk t" "t_comparator t = Some c" "t_recSize t = sz" "stored t (absStore t) T"
    "tinv lt False mn mx h T" "h < fuel"
  shows "all_done False (dep + h) k T t (BaseBTree_searchAll fuel k (pageImg (absStore t) (pno T)) dep t)"
  using assms
proof (induction h arbitrary: t T fuel dep)
  case 0
  obtain p ks where T: "T = PNode p ks []" using 0(5) by (cases T) (auto simp: tinv_def)
  obtain f where f: "fuel = Suc f" using 0(6) by (cases fuel) auto
  show ?case using leaf_scan [OF 0(1-3) 0(4,5) [unfolded T]] by (simp add: T f)
next
  case (Suc h)
  obtain p ks Ts where T: "T = PNode p ks Ts" by (cases T)
  obtain f where f: "fuel = Suc f" "h < f" using Suc.prems(6) by (cases fuel) auto
  have "descends (\<lambda>pw t. BaseBTree_searchAll f k pw (dep + 1) t) False (dep + Suc h) k Ts t"
    using Suc.IH [of _ _ f "dep + 1"] Suc.prems(2,3) f(2)
    by (intro descendsI [OF Suc.prems(4,5) [unfolded T]]) simp
  from node_scan [OF Suc.prems(1-3) Suc.prems(4,5) [unfolded T] this, of dep]
  show ?case by (simp add: T f(1))
qed

lemma BaseBPlusTree_searchAll_ok:
  assumes "storeOk t" "t_comparator t = Some c" "t_recSize t = sz" "stored t (absStore t) T"
    "tinv lt True mn mx h T" "h < fuel"
  shows "all_done True (dep + h) k T t (BaseBPlusTree_searchAll fuel k (pageImg (absStore t) (pno T)) dep t)"
  using assms
proof (induction h arbitrary: t T fuel dep)
  case 0
  obtain p ks where T: "T = PNode p ks []" using 0(5) by (cases T) (auto simp: tinv_def)
  obtain f where f: "fuel = Suc f" using 0(6) by (cases fuel) auto
  have "isLeaf (pageImg (absStore t) p)" using pageHasD(4) [OF stored_node [OF 0(4)]] T by simp
  then show ?case using leaf_scan [OF 0(1-3) 0(4,5) [unfolded T]] by (simp add: T f)
next
  case (Suc h)
  obtain p ks Ts where T: "T = PNode p ks Ts" by (cases T)
  obtain f where f: "fuel = Suc f" "h < f" using Suc.prems(6) by (cases fuel) auto
  have "Ts \<noteq> []" using Suc.prems(5) T by (auto simp: tinv_def)
  then have nl: "\<not> isLeaf (pageImg (absStore t) p)" using pageHasD(4) [OF stored_node [OF Suc.prems(4)]] T by simp
  have "descends (\<lambda>pw t. BaseBPlusTree_searchAll f k pw (dep + 1) t) True (dep + Suc h) k Ts t"
    using Suc.IH [of _ _ f "dep + 1"] Suc.prems(2,3) f(2)
    by (intro descendsI [OF Suc.prems(4,5) [unfolded T]]) simp
  from node_scan [OF Suc.prems(1-3) Suc.prems(4,5) [unfolded T] this, of dep]
  show ?case using nl by (simp add: T f(1))
qed

text \<open>The public method.\<close>

theorem searchAll_ok:
  assumes st: "treeState t c h T" "t_recSize t = sz"
  shows "\<exists>ks t'. searchAll k t = Inr (length ks, ks, t') \<and> treeState t' c h T \<and>
    mset ks = filter_mset (hit k) (mset (contents (leafyOf t) T)) \<and>
    absStore t' = absStore t \<and> t_maxSearchDepth t' = h + 1 \<and> leafyOf t' = leafyOf t \<and>
    onlySearched t t'"
proof -
  let ?t = "t\<lparr>t_maxSearchDepth := 0\<rparr>"
  note s = treeStateD [OF st(1)]
  have fuel: "h < fuelOf ?t"
    using stored_height [OF s(1,7,8)] s(9) by (simp add: tinv_def fuelOf_def)
  have "all_done (leafyOf t) (1 + h) k T ?t (searchAllFrom (fuelOf ?t) k (t_rootPage ?t) 1 ?t)"
  proof (cases "leafyOf t")
    case False
    then show ?thesis
      using BaseBTree_searchAll_ok [of ?t T "nodeMin t" "nodeMax t" h "fuelOf ?t" 1] s(1-9) st(2) fuel
      by (simp add: searchAllFrom_kinds)
  next
    case True
    then show ?thesis
      using BaseBPlusTree_searchAll_ok [of ?t T "nodeMin t" "nodeMax t" h "fuelOf ?t" 1] s(1-9) st(2) fuel
      by (simp add: searchAllFrom_kinds)
  qed
  then obtain ks t' where r: "searchAllFrom (fuelOf ?t) k (t_rootPage ?t) 1 ?t = Inr (length ks, ks, t')"
    "looked (1 + h) ?t t'" "mset ks = filter_mset (hit k) (mset (contents (leafyOf t) T))"
    by (auto simp: all_done_def)
  have "treeState ?t c h T" using st(1) by (simp add: treeState_def)
  then show ?thesis
    using looked_treeState [OF _ r(2)] lookedD(2,9,10) [OF r(2)] looked_onlySearched [OF r(2)] r s(3) by (simp add: searchAll_def)
qed

end

end
