(* ===== verification/Tree_Index.thy ===== *)
theory Tree_Index
  imports Tree_Search
begin

text \<open>
  What an open tree promises to its clients, with the pages left out: a multiset of keys.
  \<open>holds t c h M\<close> says that the object \<open>t\<close> is a well-formed tree of height \<open>h\<close> under the
  comparator \<open>c\<close> whose keys are \<open>M\<close>.  The interface \<open>key_index\<close> states what creating, inserting,
  searching and reopening do to \<open>M\<close>; the four kinds of tree provide it.
\<close>

section \<open>The height of a tree is logarithmic in its keys\<close>

lemma sum_list_lower: "\<forall>x \<in> set xs. (m :: nat) \<le> f x \<Longrightarrow> length xs * m \<le> sum_list (map f xs)"
  by (induction xs) auto

lemma length_weave: "length Ts = Suc (length ks) \<Longrightarrow> sum_list (map (length \<circ> inorder) Ts) \<le> length (inorder (PNode p ks Ts))"
proof -
  assume len: "length Ts = Suc (length ks)"
  have "size (mset (contents False (PNode p ks Ts))) = length ks + (\<Sum>l < length Ts. length (inorder (Ts ! l)))"
    unfolding mset_contents [OF len] by (simp add: size_multiset_sum contents_def)
  then show ?thesis
    by (simp add: contents_def sum_list_sum_nth atLeast0LessThan)
qed

lemma length_kids:
  assumes "length Ts = Suc (length ks)"
  shows "sum_list (map (\<lambda>T. length (contents leafy T)) Ts) \<le> length (contents leafy (PNode p ks Ts))"
  using length_weave [OF assms] assms by (auto simp: contents_def length_concat comp_def)

lemma node_size:
  assumes "\<And>b. m \<le> mn b"
  shows "bal h T \<Longrightarrow> sized mn mx T \<Longrightarrow> m \<le> length (pkeys T) \<Longrightarrow> m * (m + 1) ^ h \<le> length (contents leafy T)"
proof (induction h arbitrary: T)
  case 0
  then show ?case by (cases T) (auto simp: contents_def)
next
  case (Suc h)
  obtain p ks Ts where T: "T = PNode p ks Ts" by (cases T)
  have len: "length Ts = Suc (length ks)" using Suc.prems(1) T by simp
  have "\<forall>U \<in> set Ts. m * (m + 1) ^ h \<le> length (contents leafy U)"
  proof
    fix U assume U: "U \<in> set Ts"
    then have "mn (pkids U = []) \<le> length (pkeys U)" "sized mn mx U" "bal h U" using Suc.prems T by auto
    then show "m * (m + 1) ^ h \<le> length (contents leafy U)" using Suc.IH [of U] assms [of "pkids U = []"] by simp
  qed
  then have "length Ts * (m * (m + 1) ^ h) \<le> length (contents leafy T)"
    using sum_list_lower [of Ts "m * (m + 1) ^ h" "\<lambda>T. length (contents leafy T)"] length_kids [OF len, of leafy p] T by simp
  moreover have "(m + 1) * (m * (m + 1) ^ h) \<le> length Ts * (m * (m + 1) ^ h)"
    using Suc.prems(3) T len by (intro mult_le_mono1) simp
  moreover have "m * (m + 1) ^ Suc h = (m + 1) * (m * (m + 1) ^ h)" by (simp add: algebra_simps)
  ultimately show ?case by linarith
qed

lemma height_bound:
  assumes m: "\<And>b. m \<le> mn b" and T: "bal (Suc h) T" "sized mn mx T" "pkeys T \<noteq> []"
  shows "2 * m * (m + 1) ^ h \<le> length (contents leafy T)"
proof -
  obtain p ks Ts where P: "T = PNode p ks Ts" by (cases T)
  have len: "length Ts = Suc (length ks)" using T(1) P by simp
  have "m * (m + 1) ^ h \<le> length (contents leafy U)" if U: "U \<in> set Ts" for U
  proof -
    have u: "mn (pkids U = []) \<le> length (pkeys U)" "sized mn mx U" "bal h U" using T P U by auto
    show ?thesis using node_size [OF m u(3,2)] m [of "pkids U = []"] u(1) by simp
  qed
  then have "length Ts * (m * (m + 1) ^ h) \<le> length (contents leafy T)"
    using sum_list_lower [of Ts "m * (m + 1) ^ h" "\<lambda>T. length (contents leafy T)"] length_kids [OF len, of leafy p] P by simp
  moreover have "2 * (m * (m + 1) ^ h) \<le> length Ts * (m * (m + 1) ^ h)"
    using T(3) P len by (intro mult_le_mono1) (cases ks; simp)
  ultimately show ?thesis by linarith
qed

section \<open>The keys of an open tree\<close>

definition holds :: "BaseBTree \<Rightarrow> IComparator \<Rightarrow> nat \<Rightarrow> byte list multiset \<Rightarrow> bool" where
  "holds t c h M \<longleftrightarrow>
     (\<exists>T. treeState t c h T \<and> M = mset (contents (leafyOf t) T))"

lemma holds_height:
  assumes "holds t c h M" "0 < h"
  shows "2 * t_minKeys t * (t_minKeys t + 1) ^ (h - 1) \<le> size M"
proof -
  obtain T where T: "treeState t c h T" "pkeys T \<noteq> []" "M = mset (contents (leafyOf t) T)"
    using assms treeStateD(11) [of t c h] by (auto simp: holds_def)
  have "t_minKeys t \<le> nodeMin t b" for b
    using treeStateD(4) [OF T(1)] by (auto simp: nodeMin_def orderOk_def starTree_def)
  moreover have "bal (Suc (h - 1)) T" "sized (nodeMin t) (nodeMax t) T"
    using treeStateD(9) [OF T(1)] assms(2) by (simp_all add: tinv_def)
  ultimately show ?thesis using height_bound [of "t_minKeys t" "nodeMin t" "h - 1" T "nodeMax t"] T(2,3) by simp
qed

lemma holds_log: "holds t c h M \<Longrightarrow> size M < 2 ^ n \<Longrightarrow> h \<le> n"
proof (rule ccontr)
  assume H: "holds t c h M" "size M < 2 ^ n" "\<not> h \<le> n"
  have "1 \<le> t_minKeys t"
    using H(1) starOrderD(1) [of t] by (auto simp: holds_def treeState_def orderOk_def split: if_splits)
  then have "2 ^ Suc (h - 1) \<le> 2 * t_minKeys t * (t_minKeys t + 1) ^ (h - 1)"
    using power_mono [of 2 "t_minKeys t + 1" "h - 1"] by (simp add: mult_le_mono)
  then have "2 ^ Suc (h - 1) \<le> size M" using holds_height [OF H(1)] H(3) by simp
  moreover have "(2 :: nat) ^ n \<le> 2 ^ Suc (h - 1)" using H(3) by (intro power_increasing) auto
  ultimately show False using H(2) by simp
qed

lemma holdsD:
  assumes "holds t c h M"
  shows "storeOk t" "ps_ok (absStore t)" "t_comparator t = Some c" "orderOk t"
  using assms treeStateD by (auto simp: holds_def)

section \<open>Creating a tree\<close>

lemma emptyLeaf_page:
  assumes "geom t"
  shows "pageHas t \<lparr>pw_data = emptyLeaf t, pw_pageNum = p\<rparr> p [] []"
proof -
  let ?z = "\<lparr>pw_data = replicate (t_nodePageSize t) 0, pw_pageNum = 0\<rparr>"
  have "length (pw_data ?z) = t_nodePageSize t" by simp
  note i = setKeyNumLeaf_info [OF two_le_page [OF assms this], of 0 True]
  have "getKeysNum \<lparr>pw_data = emptyLeaf t, pw_pageNum = p\<rparr> = 0" "isLeaf \<lparr>pw_data = emptyLeaf t, pw_pageNum = p\<rparr>"
    using i by (simp_all add: emptyLeaf_def getKeysNum_def isLeaf_def nodeInfo_def)
  then show ?thesis using length_emptyLeaf [OF assms] by (simp add: pageHas_def wfPage_def)
qed

lemma emptyLeaf_holds:
  assumes "storeOk t" "t_comparator t = Some c" "orderOk t"
    "absStore t = \<lparr>ps_last = 1, ps_root = 1, ps_free = [], ps_page = (\<lambda>n. []) (1 := emptyLeaf t)\<rparr>"
    "t_rootPage t = \<lparr>pw_data = emptyLeaf t, pw_pageNum = 1\<rparr>"
  shows "holds t c 0 {#}"
proof -
  let ?T = "PNode 1 [] [] :: byte list ptree"
  have "t_rootPageNum t = 1" using assms(4) by (simp add: absStore_def)
  moreover have "stored t (absStore t) ?T"
    using emptyLeaf_page [OF storeOkD(1) [OF assms(1)], of 1] by (simp add: assms(4) ps_live_def ps_avail_def)
  ultimately have "treeState t c 0 ?T"
    using assms by (simp add: treeState_def tinv_def ps_ok_def)
  then show ?thesis by (auto simp: holds_def contents_def intro!: exI [of _ ?T])
qed

text \<open>What the constructor leaves and what the methods need: no pages yet, an empty stream.\<close>

definition freshObject :: "BaseBTree \<Rightarrow> bool" where
  "freshObject t \<longleftrightarrow>
     t_stream t = Some emptyStream \<and> t_lastPageNum t = 0 \<and> t_rootPageNum t = 0 \<and> t_freePagesCounter t = 0 \<and>
     32 \<le> t_ulongBits t"

text \<open>The order and the sizes of an object as \<open>setOrder\<close> computes them from its arguments.\<close>

definition setUp :: "BaseBTree \<Rightarrow> bool" where
  "setUp t \<longleftrightarrow>
     orderOk t \<and> minOrder (t_treeType t) \<le> t_order t \<and>
     (if starTree t then t_maxKeys t = t_order t else t_minKeys t = t_order t - 1)"

lemma setOrder_setUp:
  assumes "setOrder order recSize t = Inr t'"
  shows "setUp t'"
proof -
  have "if starTree t then t_maxKeys t' = order else t_minKeys t' = order - 1"
    using assms by (cases "t_treeType t"; auto simp: starTree_def setOrder_defs Let_def reallocWorkPages_def
        setGeometry_def split: if_splits)
  then show ?thesis
    using setOrder_orderOk [OF assms] setOrder_keys(3) [OF assms] setOrder_frame(1,4) [OF assms]
    by (simp add: setUp_def starTree_def)
qed

lemma create_holds:
  assumes so: "setOrder order recSize t = Inr t1" "t_nodePageSize t1 < 2 ^ 31" "recSize < 2 ^ 16"
    and t: "freshObject t" "t_comparator t = Some c"
  shows "\<exists>t'. createTree order recSize t = Inr t' \<and> holds t' c 0 {#} \<and> setUp t' \<and> t_treeType t' = t_treeType t \<and>
    t_order t' = order \<and> t_recSize t' = recSize \<and> t_ulongBits t' = t_ulongBits t \<and> t_lastPageNum t' = 1 \<and>
    t_nodePageSize t' = t_nodePageSize t1"
proof -
  have g: "geom t1" using setOrder_geometry [OF so(1,3)] so(2) by (simp add: geom_def)
  obtain t' where t': "createTree order recSize t = Inr t'" "storeOk t'"
    "frame t' = frame (t1\<lparr>t_rootPage := \<lparr>pw_data = emptyLeaf t1, pw_pageNum = 1\<rparr>\<rparr>)"
    "absStore t' = \<lparr>ps_last = 1, ps_root = 1, ps_free = [], ps_page = (\<lambda>n. []) (1 := emptyLeaf t1)\<rparr>"
    using createTree_ok [OF so(1) _ _ _ _ _ g] t(1) by (auto simp: freshObject_def)
  note F = frame_eqD [OF t'(3)] order_frame [OF t'(3)] and f = setOrder_frame [OF so(1)]
  have e: "emptyLeaf t' = emptyLeaf t1" by (simp add: emptyLeaf_def F)
  have su: "setUp t1" by (rule setOrder_setUp [OF so(1)])
  have "holds t' c 0 {#}"
    using t'(2,4) su e t(2) f by (intro emptyLeaf_holds) (simp_all add: F setUp_def)
  moreover have "setUp t'" using su by (simp add: setUp_def F)
  moreover have "t_lastPageNum t' = 1" using t'(4) by (simp add: absStore_def)
  ultimately show ?thesis using t'(1) f by (simp add: F)
qed

section \<open>Inserting and searching\<close>

fun insertAll :: "byte list list \<Rightarrow> BaseBTree \<Rightarrow> BaseBTree res" where
  "insertAll [] t = Inr t"
| "insertAll (k # ks) t = bindR (BaseBTree_insert k t) (insertAll ks)"

context tree_order
begin

lemma insert_holds:
  assumes "holds t c h M" "roomy t (absStore t) (h + 3 + n)" "t_recSize t = sz" "length k = sz"
  shows "\<exists>t' h'. BaseBTree_insert k t = Inr t' \<and> holds t' c h' (add_mset k M) \<and> h' \<le> Suc h \<and> sameTree t t' \<and>
    roomy t (absStore t') n"
proof -
  obtain T where T: "treeState t c h T" "M = mset (contents (leafyOf t) T)"
    using assms(1) by (auto simp: holds_def)
  obtain t' h' T' where r: "BaseBTree_insert k t = Inr t'" "treeState t' c h' T'" "h' \<le> Suc h" "sameTree t t'"
    "roomy t (absStore t') n" "mset (contents (leafyOf t) T') = add_mset k (mset (contents (leafyOf t) T))"
    using insert_ok [OF T(1) assms(2-4)] by auto
  have "holds t' c h' (add_mset k M)" using r(2,6) T(2) sameTreeD(1) [OF r(4)] by (auto simp: holds_def)
  then show ?thesis using r by blast
qed

text \<open>A run of insertions.  Below \<open>2 ^ 32\<close> keys no insertion needs more than 35 new pages.\<close>

lemma insertAll_room:
  "holds t c h M \<Longrightarrow> roomy t (absStore t) (r + 35 * length ks) \<Longrightarrow> t_recSize t = sz \<Longrightarrow>
   \<forall>k \<in> set ks. length k = sz \<Longrightarrow> size M + length ks \<le> 2 ^ 32 \<Longrightarrow>
   \<exists>t' h'. insertAll ks t = Inr t' \<and> holds t' c h' (mset ks + M) \<and> sameTree t t' \<and> roomy t (absStore t') r"
proof (induction ks arbitrary: t h M)
  case Nil
  then show ?case using sameTree_keeps [of t t] holdsD(1) by (auto simp: keeps_def)
next
  case (Cons k ks)
  have "size M < 2 ^ 32" using Cons.prems(5) by simp
  then have "h + 3 + (r + 35 * length ks) \<le> r + 35 * length (k # ks)" using holds_log [OF Cons.prems(1), of 32] by simp
  then have r: "roomy t (absStore t) (h + 3 + (r + 35 * length ks))" by (rule roomy_mono [OF Cons.prems(2)])
  obtain t1 h1 where t1: "BaseBTree_insert k t = Inr t1" "holds t1 c h1 (add_mset k M)" "sameTree t t1"
    "roomy t (absStore t1) (r + 35 * length ks)"
    using insert_holds [OF Cons.prems(1) r Cons.prems(3), of k] Cons.prems(4) by auto
  note F = sameTreeD [OF t1(3)]
  obtain t2 h2 where "insertAll ks t1 = Inr t2" "holds t2 c h2 (mset ks + add_mset k M)" "sameTree t1 t2"
    "roomy t1 (absStore t2) r"
    using Cons.IH [OF t1(2)] Cons.prems(3-5) t1(4) by (auto simp: F)
  then show ?case using t1(1) sameTree_trans [OF t1(3)] by (auto simp: F)
qed

lemma insertAll_holds:
  "holds t c h M \<Longrightarrow> roomy t (absStore t) (35 * length ks) \<Longrightarrow> t_recSize t = sz \<Longrightarrow>
   \<forall>k \<in> set ks. length k = sz \<Longrightarrow> size M + length ks \<le> 2 ^ 32 \<Longrightarrow>
   \<exists>t' h'. insertAll ks t = Inr t' \<and> holds t' c h' (mset ks + M) \<and> sameTree t t'"
  using insertAll_room [of t h M 0 ks] by auto

end

context tree_compare
begin

lemma search_holds:
  assumes "holds t c h M" "t_recSize t = sz"
  shows "\<exists>r t'. search k t = Inr (r, t') \<and> holds t' c h M \<and> absStore t' = absStore t \<and>
    (case r of None \<Rightarrow> \<forall>x. x \<in># M \<longrightarrow> \<not> cmp_isEqual c k x sz | Some x \<Rightarrow> x \<in># M \<and> cmp_isEqual c k x sz) \<and>
    1 \<le> t_maxSearchDepth t' \<and> t_maxSearchDepth t' \<le> h + 1 \<and> onlySearched t t'"
proof -
  obtain T where T: "treeState t c h T" "M = mset (contents (leafyOf t) T)"
    using assms(1) by (auto simp: holds_def)
  obtain r t' where r: "search k t = Inr (r, t')" "treeState t' c h T" "found (leafyOf t) k T r"
    "absStore t' = absStore t" "1 \<le> t_maxSearchDepth t'" "t_maxSearchDepth t' \<le> h + 1" "leafyOf t' = leafyOf t"
    "onlySearched t t'"
    using search_ok [OF T(1) assms(2)] by blast
  have "holds t' c h M" using r(2,7) T(2) by (auto simp: holds_def)
  then show ?thesis using r T(2) by (auto simp: found_def split: option.splits)
qed

end

context tree_scan
begin

lemma searchAll_holds:
  assumes "holds t c h M" "t_recSize t = sz"
  shows "\<exists>ks t'. searchAll k t = Inr (length ks, ks, t') \<and> holds t' c h M \<and> absStore t' = absStore t \<and>
    mset ks = filter_mset (\<lambda>x. \<not> cmp_compare c x k sz \<and> cmp_isEqual c k x sz) M \<and> t_maxSearchDepth t' = h + 1 \<and>
    onlySearched t t'"
proof -
  obtain T where T: "treeState t c h T" "M = mset (contents (leafyOf t) T)"
    using assms(1) by (auto simp: holds_def)
  obtain ks t' where r: "searchAll k t = Inr (length ks, ks, t')" "treeState t' c h T"
    "mset ks = filter_mset (hit k) (mset (contents (leafyOf t) T))" "absStore t' = absStore t"
    "t_maxSearchDepth t' = h + 1" "leafyOf t' = leafyOf t" "onlySearched t t'"
    using searchAll_ok [OF T(1) assms(2)] by blast
  then show ?thesis using T(2) by (auto simp: holds_def)
qed

end

section \<open>Reopening a tree file\<close>

lemma setUp_keys: "setUp t \<Longrightarrow> pageKeys t = orderKeys (t_treeType t) (t_order t)"
  by (cases "t_treeType t")
    (auto simp: setUp_def orderOk_def starOrder_def starTree_def pageKeys_def orderKeys_def minOrder_def)

text \<open>The order determines the bounds of the nodes.\<close>

lemma setUp_bounds:
  assumes "setUp t" "setUp t'" "t_treeType t' = t_treeType t" "t_order t' = t_order t"
  shows "nodeMin t' = nodeMin t" "nodeMax t' = nodeMax t" "rootMax t' = rootMax t"
proof -
  have "starTree t' = starTree t" using assms(3) by (simp add: starTree_def)
  moreover have "t_minKeys t' = t_minKeys t" "t_maxKeys t' = t_maxKeys t"
    "starTree t \<Longrightarrow> t_maxRootKeys t' = t_maxRootKeys t"
    "t_treeType t = B_PLUS_TREE \<Longrightarrow> t_minLeafKeys t' = t_minLeafKeys t \<and> t_maxLeafKeys t' = t_maxLeafKeys t"
    using assms by (auto simp: setUp_def orderOk_def starOrder_def starTree_def split: if_splits)
  ultimately show "nodeMin t' = nodeMin t" "nodeMax t' = nodeMax t" "rootMax t' = rootMax t"
    using assms(3) by (auto simp: fun_eq_iff nodeMin_def nodeMax_def rootMax_def)
qed

lemma setUp_sameTree:
  assumes "setUp t" "sameTree t t'"
  shows "setUp t'"
proof -
  obtain pw where "frame t' = frame (t\<lparr>t_rootPage := pw\<rparr>)" using assms(2) by (auto simp: sameTree_def)
  from frame_eqD [OF this] order_frame [OF this] show ?thesis using assms(1) by (simp add: setUp_def)
qed

lemma onlySearchedD:
  assumes "onlySearched t t'"
  shows "setUp t' = setUp t" "t_recSize t' = t_recSize t" "t_order t' = t_order t" "t_treeType t' = t_treeType t"
    "t_comparator t' = t_comparator t" "t_ulongBits t' = t_ulongBits t" "roomy t' = roomy t"
    "t_nodePageSize t' = t_nodePageSize t"
proof -
  obtain d where f: "frame t' = frame (t\<lparr>t_maxSearchDepth := d\<rparr>)" using assms by (auto simp: onlySearched_def)
  show "t_recSize t' = t_recSize t" "t_order t' = t_order t" "t_treeType t' = t_treeType t"
    "t_comparator t' = t_comparator t" "t_ulongBits t' = t_ulongBits t" "t_nodePageSize t' = t_nodePageSize t"
    using frame_eqD [OF f] by simp_all
  show "setUp t' = setUp t" using frame_eqD [OF f] order_frame [OF f] by (simp add: setUp_def)
  show "roomy t' = roomy t" using frame_eqF(8) [OF f] by (simp add: roomy_def fun_eq_iff)
qed

text \<open>\<open>setOrder\<close> on another object with the parameters of \<open>t\<close> gives it the layout of \<open>t\<close>.\<close>

lemma setOrder_again:
  assumes t: "setUp t" "geom t" "t_recSize t < 2 ^ 16" and ty: "t_treeType t0 = t_treeType t"
  shows "\<exists>t1. setOrder (t_order t) (t_recSize t) t0 = Inr t1 \<and> geom t1 \<and> t_nodePageSize t1 = t_nodePageSize t \<and>
    pageHas t1 = pageHas t \<and> nodeMin t1 = nodeMin t \<and> nodeMax t1 = nodeMax t \<and> rootMax t1 = rootMax t \<and>
    orderOk t1 \<and> setUp t1"
proof -
  have "setOrder (t_order t) (t_recSize t) t0 \<noteq> Inl InvalidArgument"
    unfolding setOrder_error(1) using t(1) geomD(3) [OF t(2)] setUp_keys [OF t(1)]
    by (auto simp: ty setUp_def)
  then obtain t1 where so: "setOrder (t_order t) (t_recSize t) t0 = Inr t1"
    using setOrder_error(2) by (cases "setOrder (t_order t) (t_recSize t) t0") auto
  note f = setOrder_frame [OF so]
  have su: "setUp t1" by (rule setOrder_setUp [OF so])
  have k: "pageKeys t1 = pageKeys t" using setUp_keys [OF su] setUp_keys [OF t(1)] f ty by simp
  have g1: "geometry t1" by (rule setOrder_geometry [OF so t(3)])
  have sz: "t_cursorsOfs t1 = t_cursorsOfs t" "t_nodePageSize t1 = t_nodePageSize t"
    using g1 geomD(4,5) [OF t(2)] f k by (simp_all add: geometry_def)
  then have g: "geom t1" using g1 geomD(6) [OF t(2)] by (simp add: geom_def)
  have "pageHas t1 = pageHas t"
    using f k sz by (simp add: fun_eq_iff pageHas_def wfPage_def kslot_def cslot_def)
  moreover have "nodeMin t1 = nodeMin t" "nodeMax t1 = nodeMax t" "rootMax t1 = rootMax t"
    using setUp_bounds [OF t(1) su] f ty by simp_all
  moreover have "orderOk t1" using su by (simp add: setUp_def)
  ultimately show ?thesis using so g sz(2) su by blast
qed

lemma load_holds:
  assumes t: "holds t c h M" "setUp t" "t_order t < 2 ^ 16" "0 < t_recSize t" "t_recSize t < 2 ^ 16"
    and t0: "isOpened t0" "bytesOf t0 = bytesOf t" "t_ulongBits t0 = t_ulongBits t" "t_treeType t0 = t_treeType t"
      "t_comparator t0 = Some c"
  shows "\<exists>t'. loadTree t0 = Inr t' \<and> holds t' c h M \<and> absStore t' = absStore t \<and> setUp t' \<and>
    t_order t' = t_order t \<and> t_recSize t' = t_recSize t \<and> t_treeType t' = t_treeType t \<and> t_ulongBits t' = t_ulongBits t"
proof -
  obtain T where T: "treeState t c h T" "M = mset (contents (leafyOf t) T)"
    using t(1) by (auto simp: holds_def)
  note s = treeStateD [OF T(1)]
  obtain t1 where so: "setOrder (t_order t) (t_recSize t) t0 = Inr t1" "geom t1" "t_nodePageSize t1 = t_nodePageSize t"
    "pageHas t1 = pageHas t" "nodeMin t1 = nodeMin t" "nodeMax t1 = nodeMax t" "rootMax t1 = rootMax t" "orderOk t1" "setUp t1"
    using setOrder_again [OF t(2) storeOkD(1) [OF s(1)] t(5) t0(4)] by blast
  have live: "ps_live (absStore t) (t_rootPageNum t)" using stored_pages [OF s(7) pno_in_pages] s(5) by simp
  have "1 \<le> t_order t" using t(2) by (simp add: setUp_def minOrder_def split: if_splits)
  then obtain t' where l: "loadTree t0 = Inr t'" "storeOk t'" "absStore t' = absStore t"
    "frame t' = frame (t1\<lparr>t_rootPage :=
      \<lparr>pw_data = ps_page (absStore t) (t_rootPageNum t), pw_pageNum = t_rootPageNum t\<rparr>\<rparr>)"
    using loadTree_ok [OF s(1) t(3) _ t(5,4) live t0(1-3) so(1,3,2)] by blast
  note F = frame_eqD [OF l(4)] order_frame [OF l(4)] and f = setOrder_frame [OF so(1)]
  have p: "pageHas t' = pageHas t" using pageHas_frame [OF l(4)] so(4) by simp
  have st: "stored t' = stored t" using stored_cong [OF p] by (simp add: fun_eq_iff)
  have ly: "leafyOf t' = leafyOf t" by (simp add: F) (simp add: leafyOf_def f t0(4))
  have r: "t_rootPageNum t' = t_rootPageNum t" using l(3) by (simp add: absStore_def)
  have m: "rootMax t' = rootMax t"
    unfolding so(7) [symmetric] using F by (simp add: rootMax_def fun_eq_iff)
  have "treeState t' c h T"
    using s l(2,3) so(5-8) t0(5) f by (simp add: treeState_def F(1-15) st ly r m order_frame [OF l(4)])
  then have "holds t' c h M" using T(2) ly by (auto simp: holds_def)
  moreover have "setUp t'" using so(9) by (simp add: setUp_def F)
  ultimately show ?thesis using l(1,3) f t0(3,4) by (simp add: F)
qed

section \<open>Changing the comparator\<close>

lemma comparator_sel:
  "cmp_compare (ByteComparator f) = ByteComparator_compare f" "cmp_isEqual (ByteComparator f) = ByteComparator_isEqual f"
  "cmp_compare (SearchAllByteComparator f) = ByteComparator_compare f"
  "cmp_isEqual (SearchAllByteComparator f) = (\<lambda>lhv rhv sz. True)"
  by (simp_all add: ByteComparator_def SearchAllByteComparator_def fun_eq_iff
      SearchAllByteComparator_compare_def ByteComparator_compare_def)

lemma order_comparator [simp]:
  "leafyOf (t\<lparr>t_comparator := c\<rparr>) = leafyOf t" "nodeMax (t\<lparr>t_comparator := c\<rparr>) = nodeMax t"
  "nodeMin (t\<lparr>t_comparator := c\<rparr>) = nodeMin t" "orderOk (t\<lparr>t_comparator := c\<rparr>) = orderOk t"
  "rootMax (t\<lparr>t_comparator := c\<rparr>) = rootMax t" "setUp (t\<lparr>t_comparator := c\<rparr>) = setUp t"
  by (simp_all add: leafyOf_def nodeMax_def nodeMin_def rootMax_def setUp_def orderOk_def starOrder_def starTree_def
      fun_eq_iff)

lemma setComparator_treeState:
  assumes T: "treeState t c h T"
    and lt: "tinv (\<lambda>x y. cmp_compare c' x y (t_recSize t)) (leafyOf t) (nodeMin t) (nodeMax t) h T"
  shows "treeState (t\<lparr>t_comparator := Some c'\<rparr>) c' h T" "leafyOf (t\<lparr>t_comparator := Some c'\<rparr>) = leafyOf t"
proof -
  let ?t = "t\<lparr>t_comparator := Some c'\<rparr>"
  have k: "pageKeys ?t = pageKeys t" by (cases "t_treeType t") (simp_all add: pageKeys_def)
  have p: "pageHas ?t = pageHas t"
    by (simp add: fun_eq_iff pageHas_def wfPage_def kslot_def cslot_def k)
  have st: "stored ?t = stored t" using stored_cong [OF p] by (simp add: fun_eq_iff)
  have a: "absStore ?t = absStore t" "storeOk ?t = storeOk t"
    by (simp_all add: absStore_def storeOk_def pageBytes_def freeSlot_def fun_eq_iff bytesOf_def isOpened_def
        pageOfs_def geom_def geometry_def k treeHeader_def)
  show "treeState ?t c' h T" "leafyOf ?t = leafyOf t"
    using T lt by (simp_all add: treeState_def st a)
qed

lemma setComparator_holds:
  assumes "holds t c h M" "cmp_compare c' = cmp_compare c"
  shows "holds (t\<lparr>t_comparator := Some c'\<rparr>) c' h M"
proof -
  obtain T where T: "treeState t c h T" "M = mset (contents (leafyOf t) T)"
    using assms(1) by (auto simp: holds_def)
  show ?thesis using setComparator_treeState [OF T(1), of c'] treeStateD(9) [OF T(1)] T(2)
    by (auto simp: holds_def assms(2))
qed

text \<open>An empty tree is ordered by every comparator.\<close>

lemma setComparator_empty:
  assumes "holds t c 0 {#}"
  shows "holds (t\<lparr>t_comparator := Some c'\<rparr>) c' 0 {#}"
proof -
  obtain T where T: "treeState t c 0 T" "mset (contents (leafyOf t) T) = {#}" using assms by (auto simp: holds_def)
  have i: "tinv (\<lambda>x y. cmp_compare c x y (t_recSize t)) (leafyOf t) (nodeMin t) (nodeMax t) 0 T" by (rule treeStateD(9) [OF T(1)])
  obtain p ks where P: "T = PNode p ks []" using i by (cases T) (auto simp: tinv_def)
  then have "ks = []" using T(2) by (auto simp: contents_def split: if_splits)
  then have "tinv (\<lambda>x y. cmp_compare c' x y (t_recSize t)) (leafyOf t) (nodeMin t) (nodeMax t) 0 T"
    using i P by (simp add: tinv_def)
  from setComparator_treeState [OF T(1) this] T(2) show ?thesis by (auto simp: holds_def)
qed

section \<open>A concrete tree\<close>

text \<open>A fresh tree of order 4 with keys of 8 bytes, 4 of which are compared.\<close>

lemma sample_holds:
  assumes "32 \<le> u"
  shows "\<exists>t. createTree 4 8 (sampleTree ty u) = Inr t \<and> holds t (ByteComparator 4) 0 {#} \<and> setUp t \<and>
    t_treeType t = ty \<and> t_order t = 4 \<and> t_recSize t = 8 \<and> t_ulongBits t = u \<and> roomy t (absStore t) 40000000"
proof -
  let ?t = "sampleTree ty u"
  obtain t1 where t1: "setOrder 4 8 ?t = Inr t1" "geom t1" using sample_order [of 4 ty u] by auto
  have f: "freshObject ?t" "t_treeType ?t = ty" "t_comparator ?t = Some (ByteComparator 4)" "t_ulongBits ?t = u"
    using assms by (simp_all add: sampleTree_def new_BaseBTree_def freshObject_def)
  obtain t where t: "createTree 4 8 ?t = Inr t" "holds t (ByteComparator 4) 0 {#}" "setUp t" "t_treeType t = ty"
    "t_order t = 4" "t_recSize t = 8" "t_ulongBits t = u" "t_lastPageNum t = 1"
    using create_holds [OF t1(1) geomD(6) [OF t1(2)] _ f(1,3)] f by auto
  have "pageKeys t \<le> 8" using setUp_keys [OF t(3)] t(4,5) by (cases ty) (simp_all add: orderKeys_def)
  then have "t_nodePageSize t \<le> 102"
    using geomD(4,5) [OF storeOkD(1) [OF holdsD(1) [OF t(2)]]] t(6) by (simp add: layout)
  then have "roomy t (absStore t) 40000000" using t(8) by (simp add: roomy_def absStore_def pageOfs_def layout)
  then show ?thesis using t by blast
qed

text \<open>A tree with more keys than its root can hold has children.\<close>

lemma holds_tall:
  assumes "holds t c h M" "rootMax t True < size M"
  shows "0 < h"
proof (rule ccontr)
  assume "\<not> 0 < h"
  then obtain T where T: "treeState t c 0 T" "M = mset (contents (leafyOf t) T)" using assms(1) by (auto simp: holds_def)
  obtain p ks where P: "T = PNode p ks []" using treeStateD(9) [OF T(1)] by (cases T) (auto simp: tinv_def)
  have "length ks \<le> rootMax t True" using treeStateD(10) [OF T(1)] P by simp
  then show False using assms(2) T(2) P by (simp add: contents_def split: if_splits)
qed

end
