(* ===== verification/Remove_Ops.thy ===== *)
theory Remove_Ops
  imports Star_Ops
begin

text \<open>
  Removing keys (btree.hpp) from all four kinds of tree.  The code passes pages by reference and
  its current page may be the cached root page \<open>_rootPage\<close> itself, which \<open>loadRootPage\<close> overwrites in
  the middle of a merge.  A reference is therefore a \<open>PageRef\<close>: the cached root, or a local
  wrapper.  Local wrappers are dead after a recursive call, so the recursive methods return the
  state only.
\<close>

section \<open>References to pages\<close>

datatype PageRef = RootPage | LocalPage PageWrapper

fun pageOf :: "BaseBTree \<Rightarrow> PageRef \<Rightarrow> PageWrapper" where
  "pageOf t RootPage = t_rootPage t"
| "pageOf t (LocalPage pw) = pw"

fun putPage :: "PageRef \<Rightarrow> PageWrapper \<Rightarrow> BaseBTree \<Rightarrow> PageRef \<times> BaseBTree" where
  "putPage RootPage pw t = (RootPage, t\<lparr>t_rootPage := pw\<rparr>)"
| "putPage (LocalPage _) pw t = (LocalPage pw, t)"

text \<open>\<open>writePage\<close> of a referenced page after a change.\<close>

definition storePage :: "PageRef \<Rightarrow> PageWrapper \<Rightarrow> BaseBTree \<Rightarrow> (PageRef \<times> BaseBTree) res" where
  "storePage ref pw t =
     (case putPage ref pw t of (ref, t) \<Rightarrow> bindR (PageWrapper_writePage pw t) (\<lambda>t. Inr (ref, t)))"

section \<open>Loops\<close>

text \<open>\<open>for (j = median; j < keysNum - 1; ++j)\<close>: key \<open>j + 1\<close> to \<open>j\<close> and cursor \<open>j + 2\<close> to \<open>j + 1\<close>.\<close>

fun closeGap :: "BaseBTree \<Rightarrow> PageWrapper \<Rightarrow> nat \<Rightarrow> nat \<Rightarrow> PageWrapper res" where
  "closeGap t pw j 0 = Inr pw"
| "closeGap t pw j (Suc m) =
     bindR (copyKeyAt t pw j pw (j + 1)) (\<lambda>pw.
     bindR (copyCursorsAt t pw (j + 1) pw (j + 2) 1) (\<lambda>pw. closeGap t pw (j + 1) m))"

text \<open>\<open>for (j = n - 1; j >= 0; --j)\<close>: key and cursor \<open>j\<close> to \<open>j + 1\<close>.\<close>

fun shiftBothUp :: "BaseBTree \<Rightarrow> PageWrapper \<Rightarrow> nat \<Rightarrow> PageWrapper res" where
  "shiftBothUp t pw 0 = Inr pw"
| "shiftBothUp t pw (Suc j) =
     bindR (copyKeyAt t pw (Suc j) pw j) (\<lambda>pw.
     bindR (copyCursorsAt t pw (Suc j) pw j 1) (\<lambda>pw. shiftBothUp t pw j))"

text \<open>\<open>for (j = 0; j < n; ++j)\<close>: key and cursor \<open>j + 1\<close> to \<open>j\<close>.\<close>

fun shiftBothDown :: "BaseBTree \<Rightarrow> PageWrapper \<Rightarrow> nat \<Rightarrow> nat \<Rightarrow> PageWrapper res" where
  "shiftBothDown t pw j 0 = Inr pw"
| "shiftBothDown t pw j (Suc m) =
     bindR (copyKeyAt t pw j pw (j + 1)) (\<lambda>pw.
     bindR (copyCursorsAt t pw j pw (j + 1) 1) (\<lambda>pw. shiftBothDown t pw (j + 1) m))"

section \<open>Merging children\<close>

text \<open>
  The end of every merge of two children: the left child is written; a parent with one key gives
  way to it as the root, any other parent loses a key; the right child's page becomes free.
\<close>

definition finishMerge ::
  "PageWrapper \<Rightarrow> PageWrapper \<Rightarrow> PageRef \<Rightarrow> nat \<Rightarrow> BaseBTree \<Rightarrow> (PageRef \<times> BaseBTree) res" where
  "finishMerge leftChild rightChild cur keysNum t =
     bindR (PageWrapper_writePage leftChild t) (\<lambda>t.
     bindR (let currentPage = pageOf t cur in
            if getKeysNum currentPage = 1
            then bindR (setAsRoot leftChild True t) (\<lambda>t.
                 bindR (markPageFree (pw_pageNum currentPage) t) (\<lambda>t.
                 bindR (loadRootPage t) (\<lambda>t. Inr (cur, t))))
            else storePage cur (setKeyNum (SSub keysNum 1) currentPage) t) (\<lambda>(cur, t).
     bindR (markPageFree (pw_pageNum rightChild) t) (\<lambda>t.
       Inr (cur, t))))"

type_synonym merge_result = "(PageWrapper \<times> PageRef \<times> BaseBTree) res"

definition BaseBTree_mergeChildren ::
  "PageWrapper \<Rightarrow> PageWrapper \<Rightarrow> PageRef \<Rightarrow> nat \<Rightarrow> BaseBTree \<Rightarrow> merge_result" where
  "BaseBTree_mergeChildren leftChild rightChild cur medianNum t =
     (let keysNum = getKeysNum (pageOf t cur); m = t_minKeys t;
          leftChild = setKeyNum (t_maxKeys t) leftChild in
      bindR (copyKeyAt t leftChild m (pageOf t cur) medianNum) (\<lambda>leftChild.
      bindR (copyKeysAt t leftChild (m + 1) rightChild 0 m) (\<lambda>leftChild.
      bindR (copyCursorsAt t leftChild (m + 1) rightChild 0 (m + 1)) (\<lambda>leftChild.
      bindR (closeGap t (pageOf t cur) medianNum (keysNum - 1 - medianNum)) (\<lambda>currentPage.
      case putPage cur currentPage t of (cur, t) \<Rightarrow>
      bindR (finishMerge leftChild rightChild cur keysNum t) (\<lambda>(cur, t).
        Inr (leftChild, cur, t)))))))"

definition BaseBPlusTree_mergeChildren ::
  "PageWrapper \<Rightarrow> PageWrapper \<Rightarrow> PageRef \<Rightarrow> nat \<Rightarrow> BaseBTree \<Rightarrow> merge_result" where
  "BaseBPlusTree_mergeChildren leftChild rightChild cur medianNum t =
     (if \<not> isLeaf leftChild \<or> \<not> isLeaf rightChild then Inl InvalidArgument
      else
        let keysNum = getKeysNum (pageOf t cur); m = t_minLeafKeys t;
            leftChild = setKeyNum (t_maxLeafKeys t) leftChild in
        bindR (copyKeysAt t leftChild m rightChild 0 m) (\<lambda>leftChild.
        bindR (closeGap t (pageOf t cur) medianNum (keysNum - 1 - medianNum)) (\<lambda>currentPage.
        case putPage cur currentPage t of (cur, t) \<Rightarrow>
        bindR (finishMerge leftChild rightChild cur keysNum t) (\<lambda>(cur, t).
          Inr (leftChild, cur, t)))))"

definition BaseBStarTree_mergeChildren ::
  "PageWrapper \<Rightarrow> PageWrapper \<Rightarrow> PageRef \<Rightarrow> nat \<Rightarrow> BaseBTree \<Rightarrow> merge_result" where
  "BaseBStarTree_mergeChildren leftChild rightChild cur medianNum t =
     (let parentKeysNum = getKeysNum (pageOf t cur);
          oldLeftKeysNum = getKeysNum leftChild; rightNum = getKeysNum rightChild;
          leftChild = setKeyNum (oldLeftKeysNum + rightNum + 1) leftChild in
      bindR (copyKeyAt t leftChild oldLeftKeysNum (pageOf t cur) medianNum) (\<lambda>leftChild.
      bindR (copyKeysAt t leftChild (oldLeftKeysNum + 1) rightChild 0 rightNum) (\<lambda>leftChild.
      bindR (copyCursorsAt t leftChild (oldLeftKeysNum + 1) rightChild 0 (rightNum + 1)) (\<lambda>leftChild.
      bindR (closeGap t (pageOf t cur) medianNum (parentKeysNum - 1 - medianNum)) (\<lambda>currentPage.
      case putPage cur currentPage t of (cur, t) \<Rightarrow>
      bindR (finishMerge leftChild rightChild cur parentKeysNum t) (\<lambda>(cur, t).
        Inr (leftChild, cur, t)))))))"

definition BaseBStarPlusTree_mergeChildren ::
  "PageWrapper \<Rightarrow> PageWrapper \<Rightarrow> PageRef \<Rightarrow> nat \<Rightarrow> BaseBTree \<Rightarrow> merge_result" where
  "BaseBStarPlusTree_mergeChildren leftChild rightChild cur medianNum t =
     (if \<not> isLeaf leftChild \<or> \<not> isLeaf rightChild then Inl InvalidArgument
      else
        let parentKeysNum = getKeysNum (pageOf t cur);
            oldLeftKeysNum = getKeysNum leftChild; rightNum = getKeysNum rightChild;
            leftChild = setKeyNum (oldLeftKeysNum + rightNum) leftChild in
        bindR (copyKeysAt t leftChild oldLeftKeysNum rightChild 0 rightNum) (\<lambda>leftChild.
        bindR (closeGap t (pageOf t cur) medianNum (parentKeysNum - 1 - medianNum)) (\<lambda>currentPage.
        case putPage cur currentPage t of (cur, t) \<Rightarrow>
        bindR (finishMerge leftChild rightChild cur parentKeysNum t) (\<lambda>(cur, t).
          Inr (leftChild, cur, t)))))"

definition mergeChildren ::
  "PageWrapper \<Rightarrow> PageWrapper \<Rightarrow> PageRef \<Rightarrow> nat \<Rightarrow> BaseBTree \<Rightarrow> merge_result" where
  "mergeChildren leftChild rightChild cur medianNum t =
     (case t_treeType t of
        B_TREE \<Rightarrow> BaseBTree_mergeChildren leftChild rightChild cur medianNum t
      | B_PLUS_TREE \<Rightarrow> BaseBPlusTree_mergeChildren leftChild rightChild cur medianNum t
      | B_STAR_TREE \<Rightarrow> BaseBStarTree_mergeChildren leftChild rightChild cur medianNum t
      | B_STAR_PLUS_TREE \<Rightarrow> BaseBStarPlusTree_mergeChildren leftChild rightChild cur medianNum t)"

text \<open>Three children into two, in a B*-tree: everything goes through a buffer.  The offset of the
  right child's cursors in the buffer is computed from its own key count.\<close>

definition BaseBStarTree_mergeThree ::
  "PageWrapper \<Rightarrow> PageWrapper \<Rightarrow> PageWrapper \<Rightarrow> PageRef \<Rightarrow> nat \<Rightarrow> nat \<Rightarrow> BaseBTree \<Rightarrow>
   (PageWrapper \<times> PageWrapper \<times> PageRef \<times> BaseBTree) res" where
  "BaseBStarTree_mergeThree leftChild middleChild rightChild cur leftMedianNum rightMedianNum t =
     (let leaf = isLeaf leftChild; currentPage = pageOf t cur; parentKeysNum = getKeysNum currentPage;
          l = getKeysNum leftChild; m = getKeysNum middleChild; r = getKeysNum rightChild;
          keysNum = (l + m + r + 2) mod 2 ^ 16;
          keys = replicate (keysNum * t_recSize t) 0;
          cursors = (if leaf then [] else replicate ((keysNum + 1) * CURSOR_SZ) 0);
          save = (\<lambda>cursors ofs pw n. if leaf then Inr cursors else saveCursors t cursors ofs pw 0 n) in
      bindR (saveKeys t keys 0 leftChild 0 l) (\<lambda>keys.
      bindR (save cursors 0 leftChild (l + 1)) (\<lambda>cursors.
      bindR (saveKeys t keys l currentPage leftMedianNum 1) (\<lambda>keys.
      bindR (saveKeys t keys (l + 1) middleChild 0 m) (\<lambda>keys.
      bindR (save cursors (l + 1) middleChild (m + 1)) (\<lambda>cursors.
      bindR (saveKeys t keys (l + m + 1) currentPage rightMedianNum 1) (\<lambda>keys.
      bindR (saveKeys t keys (l + m + 2) rightChild 0 r) (\<lambda>keys.
      bindR (save cursors (l + r + 2) rightChild (r + 1)) (\<lambda>cursors.
      let rightChildKeysNum = keysNum div 2; leftChildKeysNum = keysNum - rightChildKeysNum - 1 in
      bindR (fillPage t leaf keys cursors 0 leftChildKeysNum (setKeyNum leftChildKeysNum leftChild)) (\<lambda>leftChild.
      bindR (fillPage t leaf keys cursors (leftChildKeysNum + 1) rightChildKeysNum
               (setKeyNum rightChildKeysNum middleChild)) (\<lambda>middleChild.
      bindR (closeGap t currentPage rightMedianNum (parentKeysNum - 1 - rightMedianNum)) (\<lambda>currentPage.
      bindR (loadKeys t currentPage leftMedianNum keys leftChildKeysNum 1) (\<lambda>currentPage.
      let currentPage = setKeyNum (SSub (getKeysNum currentPage) 1) currentPage in
      bindR (writePages [leftChild, middleChild] t) (\<lambda>t.
      bindR (storePage cur currentPage t) (\<lambda>(cur, t).
      bindR (markPageFree (pw_pageNum rightChild) t) (\<lambda>t.
        Inr (leftChild, middleChild, cur, t)))))))))))))))))"

definition BaseBStarPlusTree_mergeThree ::
  "PageWrapper \<Rightarrow> PageWrapper \<Rightarrow> PageWrapper \<Rightarrow> PageRef \<Rightarrow> nat \<Rightarrow> nat \<Rightarrow> BaseBTree \<Rightarrow>
   (PageWrapper \<times> PageWrapper \<times> PageRef \<times> BaseBTree) res" where
  "BaseBStarPlusTree_mergeThree leftChild middleChild rightChild cur leftMedianNum rightMedianNum t =
     (if \<not> isLeaf leftChild then Inl InvalidArgument
      else
        let currentPage = pageOf t cur; parentKeysNum = getKeysNum currentPage;
            l = getKeysNum leftChild; m = getKeysNum middleChild; r = getKeysNum rightChild;
            keysNum = (l + m + r) mod 2 ^ 16; keys = replicate (keysNum * t_recSize t) 0 in
        bindR (saveKeys t keys 0 leftChild 0 l) (\<lambda>keys.
        bindR (saveKeys t keys l middleChild 0 m) (\<lambda>keys.
        bindR (saveKeys t keys (l + m) rightChild 0 r) (\<lambda>keys.
        let rightChildKeysNum = keysNum div 2; leftChildKeysNum = keysNum - rightChildKeysNum in
        bindR (loadKeys t (setKeyNum leftChildKeysNum leftChild) 0 keys 0 leftChildKeysNum) (\<lambda>leftChild.
        bindR (loadKeys t (setKeyNum rightChildKeysNum middleChild) 0 keys leftChildKeysNum rightChildKeysNum) (\<lambda>middleChild.
        bindR (closeGap t currentPage rightMedianNum (parentKeysNum - 1 - rightMedianNum)) (\<lambda>currentPage.
        let currentPage = setKeyNum (SSub (getKeysNum currentPage) 1) currentPage in
        bindR (writePages [leftChild, middleChild] t) (\<lambda>t.
        bindR (storePage cur currentPage t) (\<lambda>(cur, t).
        bindR (markPageFree (pw_pageNum rightChild) t) (\<lambda>t.
          Inr (leftChild, middleChild, cur, t)))))))))))"

definition mergeThree ::
  "PageWrapper \<Rightarrow> PageWrapper \<Rightarrow> PageWrapper \<Rightarrow> PageRef \<Rightarrow> nat \<Rightarrow> nat \<Rightarrow> BaseBTree \<Rightarrow>
   (PageWrapper \<times> PageWrapper \<times> PageRef \<times> BaseBTree) res" where
  "mergeThree leftChild middleChild rightChild cur leftMedianNum rightMedianNum t =
     (if t_treeType t = B_STAR_PLUS_TREE
      then BaseBStarPlusTree_mergeThree leftChild middleChild rightChild cur leftMedianNum rightMedianNum t
      else BaseBStarTree_mergeThree leftChild middleChild rightChild cur leftMedianNum rightMedianNum t)"

section \<open>Borrowing a key from a sibling\<close>

type_synonym move_result = "(PageWrapper \<times> PageWrapper \<times> PageRef \<times> BaseBTree) res"

definition moveOneKeyFromLeft ::
  "PageWrapper \<Rightarrow> PageWrapper \<Rightarrow> PageRef \<Rightarrow> nat \<Rightarrow> BaseBTree \<Rightarrow> move_result" where
  "moveOneKeyFromLeft leftNeighbour child cur childCursorNum t =
     (let currentPage = pageOf t cur; childKeysNum = getKeysNum child + 1;
          neighbourKeysNum = getKeysNum leftNeighbour; child = setKeyNum childKeysNum child in
      bindR (copyCursorsAt t child childKeysNum child (childKeysNum - 1) 1) (\<lambda>child.
      bindR (shiftBothUp t child (childKeysNum - 1)) (\<lambda>child.
      bindR (copyKeyAt t child 0 currentPage (SSub childCursorNum 1)) (\<lambda>child.
      bindR (copyKeyAt t currentPage (SSub childCursorNum 1) leftNeighbour (SSub neighbourKeysNum 1)) (\<lambda>currentPage.
      bindR (copyCursorsAt t child 0 leftNeighbour neighbourKeysNum 1) (\<lambda>child.
      let leftNeighbour = setKeyNum (SSub neighbourKeysNum 1) leftNeighbour in
      bindR (writePages [child, leftNeighbour] t) (\<lambda>t.
      bindR (storePage cur currentPage t) (\<lambda>(cur, t).
        Inr (leftNeighbour, child, cur, t)))))))))"

definition moveOneKeyFromRight ::
  "PageWrapper \<Rightarrow> PageWrapper \<Rightarrow> PageRef \<Rightarrow> nat \<Rightarrow> BaseBTree \<Rightarrow> move_result" where
  "moveOneKeyFromRight rightNeighbour child cur childCursorNum t =
     (let currentPage = pageOf t cur; childKeysNum = getKeysNum child + 1;
          neighbourKeysNum = getKeysNum rightNeighbour; child = setKeyNum childKeysNum child in
      bindR (copyKeyAt t child (childKeysNum - 1) currentPage childCursorNum) (\<lambda>child.
      bindR (copyKeyAt t currentPage childCursorNum rightNeighbour 0) (\<lambda>currentPage.
      bindR (copyCursorsAt t child childKeysNum rightNeighbour 0 1) (\<lambda>child.
      bindR (shiftBothDown t rightNeighbour 0 (neighbourKeysNum - 1)) (\<lambda>rightNeighbour.
      bindR (copyCursorsAt t rightNeighbour (SSub neighbourKeysNum 1) rightNeighbour neighbourKeysNum 1) (\<lambda>rightNeighbour.
      let rightNeighbour = setKeyNum (SSub neighbourKeysNum 1) rightNeighbour in
      bindR (writePages [child, rightNeighbour] t) (\<lambda>t.
      bindR (storePage cur currentPage t) (\<lambda>(cur, t).
        Inr (rightNeighbour, child, cur, t)))))))))"

section \<open>Making a child ready to lose a key\<close>

text \<open>The flag, the child, its left and its right neighbour, the current page and the state.\<close>

type_synonym prepare_result =
  "(bool \<times> PageWrapper \<times> PageWrapper \<times> PageWrapper \<times> PageRef \<times> BaseBTree) res"

definition BaseBTree_prepareSubtree ::
  "nat \<Rightarrow> PageRef \<Rightarrow> PageWrapper \<Rightarrow> PageWrapper \<Rightarrow> PageWrapper \<Rightarrow> BaseBTree \<Rightarrow> prepare_result" where
  "BaseBTree_prepareSubtree cursorNum cur child left right t =
     (let keysNum = getKeysNum (pageOf t cur) in
      bindR (readPageFromChild child (pageOf t cur) cursorNum t) (\<lambda>(child, t).
      if getKeysNum child > t_minKeys t then Inr (False, child, left, right, cur, t)
      else
        bindR (if cursorNum \<ge> 1 then readPageFromChild left (pageOf t cur) (cursorNum - 1) t else Inr (left, t)) (\<lambda>(left, t).
        if cursorNum \<ge> 1 \<and> getKeysNum left \<ge> t_minKeys t + 1
        then bindR (moveOneKeyFromLeft left child cur cursorNum t) (\<lambda>(left, child, cur, t).
               Inr (False, child, left, right, cur, t))
        else
          bindR (if cursorNum < keysNum then readPageFromChild right (pageOf t cur) (cursorNum + 1) t else Inr (right, t)) (\<lambda>(right, t).
          if cursorNum < keysNum \<and> getKeysNum right \<ge> t_minKeys t + 1
          then bindR (moveOneKeyFromRight right child cur cursorNum t) (\<lambda>(right, child, cur, t).
                 Inr (False, child, left, right, cur, t))
          else if cursorNum \<ge> 1
          then bindR (mergeChildren left child cur (cursorNum - 1) t) (\<lambda>(left, cur, t).
                 Inr (True, child, left, right, cur, t))
          else bindR (mergeChildren child right cur cursorNum t) (\<lambda>(child, cur, t).
                 Inr (False, child, left, right, cur, t))))))"

definition BaseBStarTree_prepareSubtree ::
  "nat \<Rightarrow> PageRef \<Rightarrow> PageWrapper \<Rightarrow> PageWrapper \<Rightarrow> PageWrapper \<Rightarrow> BaseBTree \<Rightarrow> prepare_result" where
  "BaseBStarTree_prepareSubtree cursorNum cur child left right t =
     (let keysNum = getKeysNum (pageOf t cur) in
      bindR (readPageFromChild child (pageOf t cur) cursorNum t) (\<lambda>(child, t).
      if getKeysNum child > t_minKeys t then Inr (False, child, left, right, cur, t)
      else
        bindR (if cursorNum \<ge> 1 then readPageFromChild left (pageOf t cur) (cursorNum - 1) t else Inr (left, t)) (\<lambda>(left, t).
        if cursorNum \<ge> 1 \<and> getKeysNum left \<ge> t_minKeys t + 1
        then bindR (moveOneKeyFromLeft left child cur cursorNum t) (\<lambda>(left, child, cur, t).
               Inr (False, child, left, right, cur, t))
        else
          bindR (if cursorNum < keysNum then readPageFromChild right (pageOf t cur) (cursorNum + 1) t else Inr (right, t)) (\<lambda>(right, t).
          if cursorNum < keysNum \<and> getKeysNum right \<ge> t_minKeys t + 1
          then bindR (moveOneKeyFromRight right child cur cursorNum t) (\<lambda>(right, child, cur, t).
                 Inr (False, child, left, right, cur, t))
          else if isRoot t (pageOf t cur)
          then if cursorNum \<ge> 1
               then bindR (mergeChildren left child cur (cursorNum - 1) t) (\<lambda>(left, cur, t).
                      Inr (True, child, left, right, cur, t))
               else bindR (mergeChildren child right cur cursorNum t) (\<lambda>(child, cur, t).
                      Inr (False, child, left, right, cur, t))
          else if cursorNum \<ge> 1 \<and> cursorNum < keysNum
          then bindR (mergeThree left child right cur (cursorNum - 1) cursorNum t) (\<lambda>(left, child, cur, t).
                 Inr (True, child, left, right, cur, t))
          else if cursorNum \<ge> 1
          then bindR (readPageFromChild (new_PageWrapper t) (pageOf t cur) (SSub cursorNum 2) t) (\<lambda>(leftLeft, t).
               if getKeysNum leftLeft > t_minKeys t
               then bindR (moveOneKeyFromLeft leftLeft left cur (cursorNum - 1) t) (\<lambda>(leftLeft, left, cur, t).
                    bindR (moveOneKeyFromLeft left child cur cursorNum t) (\<lambda>(left, child, cur, t).
                      Inr (False, child, left, right, cur, t)))
               else bindR (mergeThree leftLeft left child cur (SSub cursorNum 2) (cursorNum - 1) t) (\<lambda>(leftLeft, left, cur, t).
                      Inr (True, child, left, right, cur, t)))
          else bindR (readPageFromChild (new_PageWrapper t) (pageOf t cur) (cursorNum + 2) t) (\<lambda>(rightRight, t).
               if getKeysNum rightRight > t_minKeys t
               then bindR (moveOneKeyFromRight rightRight right cur (cursorNum + 1) t) (\<lambda>(rightRight, right, cur, t).
                    bindR (moveOneKeyFromRight right child cur cursorNum t) (\<lambda>(right, child, cur, t).
                      Inr (False, child, left, right, cur, t)))
               else bindR (mergeThree child right rightRight cur cursorNum (cursorNum + 1) t) (\<lambda>(child, right, cur, t).
                      Inr (False, child, left, right, cur, t)))))))"

definition prepareSubtree ::
  "nat \<Rightarrow> PageRef \<Rightarrow> PageWrapper \<Rightarrow> PageWrapper \<Rightarrow> PageWrapper \<Rightarrow> BaseBTree \<Rightarrow> prepare_result" where
  "prepareSubtree cursorNum cur child left right t =
     (if t_treeType t = B_STAR_TREE \<or> t_treeType t = B_STAR_PLUS_TREE
      then BaseBStarTree_prepareSubtree cursorNum cur child left right t
      else BaseBTree_prepareSubtree cursorNum cur child left right t)"

section \<open>Taking the greatest or the smallest key out of a subtree\<close>

definition copyOfKey :: "BaseBTree \<Rightarrow> PageWrapper \<Rightarrow> nat \<Rightarrow> byte list res" where
  "copyOfKey t pw i = copyKey t (replicate (t_recSize t) 0) (Some 0) (pw_data pw) (getKey t pw i)"

fun getAndRemoveMaxKey :: "nat \<Rightarrow> PageWrapper \<Rightarrow> BaseBTree \<Rightarrow> (byte list \<times> BaseBTree) res" where
  "getAndRemoveMaxKey 0 pw t = Inl OutOfFuel"
| "getAndRemoveMaxKey (Suc fuel) pw t =
     (if isLeaf pw
      then bindR (copyOfKey t pw (SSub (getKeysNum pw) 1)) (\<lambda>maxKey.
           bindR (PageWrapper_writePage (setKeyNum (SSub (getKeysNum pw) 1) pw) t) (\<lambda>t.
             Inr (maxKey, t)))
      else let new = new_PageWrapper t in
           bindR (prepareSubtree (getKeysNum pw) (LocalPage pw) new new new t) (\<lambda>(flag, child, left, right, cur, t).
             getAndRemoveMaxKey fuel (if flag then left else child) t))"

text \<open>Below an inner page it descends to the last child, as the search for the greatest key does.\<close>

fun getAndRemoveMinKey :: "nat \<Rightarrow> PageWrapper \<Rightarrow> BaseBTree \<Rightarrow> (byte list \<times> BaseBTree) res" where
  "getAndRemoveMinKey 0 pw t = Inl OutOfFuel"
| "getAndRemoveMinKey (Suc fuel) pw t =
     (if isLeaf pw
      then bindR (copyOfKey t pw 0) (\<lambda>minKey.
           bindR (moveKeysDown t pw 1 0 (getKeysNum pw - 1)) (\<lambda>pw.
           bindR (PageWrapper_writePage (setKeyNum (SSub (getKeysNum pw) 1) pw) t) (\<lambda>t.
             Inr (minKey, t))))
      else let new = new_PageWrapper t in
           bindR (prepareSubtree (getKeysNum pw) (LocalPage pw) new new new t) (\<lambda>(flag, child, left, right, cur, t).
             getAndRemoveMinKey fuel (if flag then left else child) t))"

section \<open>Removing the key of a slot\<close>

text \<open>The leaf branch of both methods.\<close>

definition removeFromLeaf :: "nat \<Rightarrow> PageRef \<Rightarrow> BaseBTree \<Rightarrow> (bool \<times> BaseBTree) res" where
  "removeFromLeaf keyNum cur t =
     (let currentPage = pageOf t cur; keysNum = getKeysNum currentPage in
      bindR (moveKeysDown t currentPage 1 keyNum (keysNum - 1 - keyNum)) (\<lambda>currentPage.
      bindR (storePage cur (setKeyNum (SSub keysNum 1) currentPage) t) (\<lambda>(cur, t).
        Inr (True, t))))"

text \<open>
  The part of both methods that looks for a key to replace the removed one: from the left child when it
  has one to spare, else from the right child.
\<close>

definition replacement ::
  "nat \<Rightarrow> nat \<Rightarrow> PageRef \<Rightarrow> BaseBTree \<Rightarrow> (byte list option \<times> PageWrapper \<times> PageWrapper \<times> BaseBTree) res" where
  "replacement fuel keyNum cur t =
     bindR (readPageFromChild (new_PageWrapper t) (pageOf t cur) keyNum t) (\<lambda>(leftChild, t).
     if getKeysNum leftChild \<ge> t_minKeys t + 1
     then bindR (getAndRemoveMaxKey fuel leftChild t) (\<lambda>(k, t).
            Inr (Some k, leftChild, new_PageWrapper t, t))
     else
       bindR (readPageFromChild (new_PageWrapper t) (pageOf t cur) (keyNum + 1) t) (\<lambda>(rightChild, t).
       if getKeysNum rightChild \<ge> t_minKeys t + 1
       then bindR (getAndRemoveMinKey fuel rightChild t) (\<lambda>(k, t). Inr (Some k, leftChild, rightChild, t))
       else Inr (None, leftChild, rightChild, t)))"

fun BaseBTree_removeByKeyNum :: "nat \<Rightarrow> nat \<Rightarrow> PageRef \<Rightarrow> BaseBTree \<Rightarrow> (bool \<times> BaseBTree) res" where
  "BaseBTree_removeByKeyNum 0 keyNum cur t = Inl OutOfFuel"
| "BaseBTree_removeByKeyNum (Suc fuel) keyNum cur t =
     (if isLeaf (pageOf t cur) then removeFromLeaf keyNum cur t
      else
        bindR (replacement fuel keyNum cur t) (\<lambda>(replace, leftChild, rightChild, t).
        case replace of
          Some k \<Rightarrow>
            bindR (copyKeyFrom t (pageOf t cur) keyNum k) (\<lambda>currentPage.
            bindR (storePage cur currentPage t) (\<lambda>(cur, t). Inr (True, t)))
        | None \<Rightarrow>
            bindR (mergeChildren leftChild rightChild cur keyNum t) (\<lambda>(leftChild, cur, t).
            bindR (BaseBTree_removeByKeyNum fuel (t_maxKeys t div 2)
                     (if isRoot t leftChild then RootPage else LocalPage leftChild) t) (\<lambda>(_, t).
              Inr (True, t)))))"

section \<open>Removing a key\<close>

fun BaseBTree_remove :: "nat \<Rightarrow> byte list \<Rightarrow> PageRef \<Rightarrow> BaseBTree \<Rightarrow> (bool \<times> BaseBTree) res" where
  "BaseBTree_remove 0 k cur t = Inl OutOfFuel"
| "BaseBTree_remove (Suc fuel) k cur t =
     (case t_comparator t of None \<Rightarrow> Inl MemoryFault
      | Some c \<Rightarrow>
        let currentPage = pageOf t cur; keysNum = getKeysNum currentPage in
        bindR (scanUp c t currentPage k 0 keysNum) (\<lambda>i.
        bindR (equalAt c t currentPage k i) (\<lambda>found.
        if found
        then BaseBTree_removeByKeyNum (Suc fuel) i (if isRoot t currentPage then RootPage else cur) t
        else if isLeaf currentPage then Inr (False, t)
        else let new = new_PageWrapper t in
             bindR (prepareSubtree i cur new new new t) (\<lambda>(flag, child, left, right, cur, t).
               BaseBTree_remove fuel k (LocalPage (if flag then left else child)) t))))"

text \<open>
  In a B*-tree the key pointer of \<open>removeByKeyNum\<close> still points into the current page when it is
  passed on after the neighbours were reorganised: the key then is what that slot has by then.
\<close>

fun BaseBStarTree_remove :: "nat \<Rightarrow> byte list \<Rightarrow> PageRef \<Rightarrow> BaseBTree \<Rightarrow> (bool \<times> BaseBTree) res"
and BaseBStarTree_removeByKeyNum :: "nat \<Rightarrow> nat \<Rightarrow> PageRef \<Rightarrow> BaseBTree \<Rightarrow> (bool \<times> BaseBTree) res" where
  "BaseBStarTree_remove 0 k cur t = Inl OutOfFuel"
| "BaseBStarTree_remove (Suc fuel) k cur t =
     (case t_comparator t of None \<Rightarrow> Inl MemoryFault
      | Some c \<Rightarrow>
        let currentPage = pageOf t cur; keysNum = getKeysNum currentPage in
        bindR (scanUp c t currentPage k 0 keysNum) (\<lambda>i.
        bindR (equalAt c t currentPage k i) (\<lambda>found.
        if found
        then BaseBStarTree_removeByKeyNum fuel i (if isRoot t currentPage then RootPage else cur) t
        else if isLeaf currentPage then Inr (False, t)
        else let new = new_PageWrapper t in
             bindR (prepareSubtree i cur new new new t) (\<lambda>(flag, child, left, right, cur, t).
             bindR (if flag then BaseBStarTree_remove fuel k (LocalPage left) t else Inr (False, t)) (\<lambda>(removed, t).
               if removed then Inr (True, t) else BaseBStarTree_remove fuel k (LocalPage child) t)))))"
| "BaseBStarTree_removeByKeyNum 0 keyNum cur t = Inl OutOfFuel"
| "BaseBStarTree_removeByKeyNum (Suc fuel) keyNum cur t =
     (let kp = getKey t (pageOf t cur) keyNum in
      if isLeaf (pageOf t cur) then removeFromLeaf keyNum cur t
      else
        bindR (replacement fuel keyNum cur t) (\<lambda>(replace, leftChild, rightChild, t).
        case replace of
          Some k \<Rightarrow>
            bindR (copyKeyFrom t (pageOf t cur) keyNum k) (\<lambda>currentPage.
            bindR (storePage cur currentPage t) (\<lambda>(cur, t). Inr (True, t)))
        | None \<Rightarrow>
            if isRoot t (pageOf t cur)
            then bindR (mergeChildren leftChild rightChild cur keyNum t) (\<lambda>(leftChild, cur, t).
                   BaseBStarTree_removeByKeyNum fuel (t_maxKeys t div 2)
                     (if isRoot t leftChild then RootPage else LocalPage leftChild) t)
            else
              bindR (if keyNum \<ge> 1
                     then bindR (readPageFromChild (new_PageWrapper t) (pageOf t cur) (keyNum - 1) t) (\<lambda>(leftLeft, t).
                            prepareSubtree keyNum cur leftChild leftLeft rightChild t)
                     else bindR (readPageFromChild (new_PageWrapper t) (pageOf t cur) (keyNum + 2) t) (\<lambda>(rightRight, t).
                            prepareSubtree keyNum cur leftChild rightChild rightRight t))
                (\<lambda>(flag, leftChild, left, right, cur, t).
              case kp of
                None \<Rightarrow> Inl MemoryFault
              | Some p \<Rightarrow>
                  if inBuffer (pw_data (pageOf t cur)) p (t_recSize t)
                  then BaseBStarTree_remove fuel (slice (nat p) (t_recSize t) (pw_data (pageOf t cur)))
                         (LocalPage leftChild) t
                  else Inl MemoryFault)))"

text \<open>
  Borrowing in the plus variants: the last key of the left sibling goes to the front of the page;
  the first key of the right sibling goes to its end and becomes the router key between them.
  The changed parent is not written.
\<close>

definition borrowFromLeft ::
  "nat \<Rightarrow> PageWrapper \<Rightarrow> PageWrapper \<Rightarrow> BaseBTree \<Rightarrow> (PageWrapper \<times> PageWrapper \<times> BaseBTree) res" where
  "borrowFromLeft minKeys nextPage leftSibling t =
     (let leaf = isLeaf nextPage; leftNum = getKeysNum leftSibling in
      bindR (moveKeysUp t (setKeyNum (minKeys + 1) nextPage) 1 (minKeys + 1)) (\<lambda>nextPage.
      bindR (if leaf then Inr nextPage else moveCursorsUp t nextPage 1 (minKeys + 2)) (\<lambda>nextPage.
      bindR (copyKeyAt t nextPage 0 leftSibling (SSub leftNum 1)) (\<lambda>nextPage.
      bindR (if leaf then Inr nextPage else copyCursorsAt t nextPage 0 leftSibling leftNum 1) (\<lambda>nextPage.
      let leftSibling = setKeyNum (SSub leftNum 1) leftSibling in
      bindR (writePages [leftSibling, nextPage] t) (\<lambda>t.
        Inr (nextPage, leftSibling, t)))))))"

definition borrowFromRight ::
  "nat \<Rightarrow> nat \<Rightarrow> PageWrapper \<Rightarrow> PageWrapper \<Rightarrow> PageRef \<Rightarrow> BaseBTree \<Rightarrow>
   (PageWrapper \<times> PageWrapper \<times> PageRef \<times> BaseBTree) res" where
  "borrowFromRight minKeys i nextPage rightSibling cur t =
     (let leaf = isLeaf nextPage; rightNum = getKeysNum rightSibling in
      bindR (copyKeyAt t (setKeyNum (minKeys + 1) nextPage) minKeys rightSibling 0) (\<lambda>nextPage.
      bindR (copyKeyAt t (pageOf t cur) i rightSibling 0) (\<lambda>currentPage.
      case putPage cur currentPage t of (cur, t) \<Rightarrow>
      bindR (if leaf then Inr nextPage else copyCursorsAt t nextPage (minKeys + 1) rightSibling 0 1) (\<lambda>nextPage.
      bindR (moveKeysDown t rightSibling 1 0 (rightNum - 1)) (\<lambda>rightSibling.
      bindR (if leaf then Inr rightSibling else moveCursorsDown t rightSibling 1 0 rightNum) (\<lambda>rightSibling.
      let rightSibling = setKeyNum (SSub rightNum 1) rightSibling in
      bindR (writePages [nextPage, rightSibling] t) (\<lambda>t.
        Inr (nextPage, rightSibling, cur, t))))))))"

text \<open>The page in which the removal goes on, after the child \<open>nextPage\<close> at cursor \<open>i\<close> got a key to spare.\<close>

definition rootOrLocal :: "BaseBTree \<Rightarrow> PageWrapper \<Rightarrow> PageRef" where
  "rootOrLocal t pw = (if isRoot t pw then RootPage else LocalPage pw)"

definition BaseBPlusTree_prepareChild ::
  "nat \<Rightarrow> PageWrapper \<Rightarrow> PageRef \<Rightarrow> BaseBTree \<Rightarrow> (PageRef \<times> BaseBTree) res" where
  "BaseBPlusTree_prepareChild i nextPage cur t =
     (let keysNum = getKeysNum (pageOf t cur); leaf = isLeaf nextPage;
          minKeys = (if leaf then t_minLeafKeys t else t_minKeys t);
          merge = (if leaf then mergeChildren else BaseBTree_mergeChildren) in
      if isRoot t nextPage \<or> getKeysNum nextPage \<noteq> minKeys then Inr (rootOrLocal t nextPage, t)
      else
        bindR (if i > 0 then readPageFromChild (new_PageWrapper t) (pageOf t cur) (i - 1) t
               else Inr (new_PageWrapper t, t)) (\<lambda>(leftSibling, t).
        if i > 0 \<and> getKeysNum leftSibling > minKeys
        then bindR (borrowFromLeft minKeys nextPage leftSibling t) (\<lambda>(nextPage, leftSibling, t).
               Inr (LocalPage nextPage, t))
        else
          bindR (if i < keysNum then readPageFromChild (new_PageWrapper t) (pageOf t cur) (i + 1) t
                 else Inr (new_PageWrapper t, t)) (\<lambda>(rightSibling, t).
          if i < keysNum \<and> getKeysNum rightSibling > minKeys
          then bindR (borrowFromRight minKeys i nextPage rightSibling cur t) (\<lambda>(nextPage, rightSibling, cur, t).
                 Inr (LocalPage nextPage, t))
          else if i > 0 \<and> getKeysNum leftSibling = minKeys
          then bindR (merge leftSibling nextPage cur (i - 1) t) (\<lambda>(leftSibling, cur, t).
                 Inr (LocalPage leftSibling, t))
          else bindR (merge nextPage rightSibling cur i t) (\<lambda>(nextPage, cur, t).
                 Inr (rootOrLocal t nextPage, t)))))"

fun BaseBPlusTree_remove :: "nat \<Rightarrow> byte list \<Rightarrow> PageRef \<Rightarrow> BaseBTree \<Rightarrow> (bool \<times> BaseBTree) res" where
  "BaseBPlusTree_remove 0 k cur t = Inl OutOfFuel"
| "BaseBPlusTree_remove (Suc fuel) k cur t =
     (case t_comparator t of None \<Rightarrow> Inl MemoryFault
      | Some c \<Rightarrow>
        let currentPage = pageOf t cur in
        bindR (scanUp c t currentPage k 0 (getKeysNum currentPage)) (\<lambda>i.
        if isLeaf currentPage
        then bindR (equalAt c t currentPage k i) (\<lambda>found.
               if found then BaseBTree_removeByKeyNum (Suc fuel) i cur t else Inr (False, t))
        else
          bindR (readPageFromChild (new_PageWrapper t) currentPage i t) (\<lambda>(nextPage, t).
          bindR (BaseBPlusTree_prepareChild i nextPage cur t) (\<lambda>(nextRef, t).
            BaseBPlusTree_remove fuel k nextRef t))))"

text \<open>In a B*+-tree three pages may become two: the second is tried when the first has no such key.\<close>

definition BaseBStarPlusTree_prepareChild ::
  "nat \<Rightarrow> PageWrapper \<Rightarrow> PageRef \<Rightarrow> BaseBTree \<Rightarrow> (PageRef \<times> PageRef option \<times> BaseBTree) res" where
  "BaseBStarPlusTree_prepareChild i nextPage cur t =
     (let keysNum = getKeysNum (pageOf t cur); leaf = isLeaf nextPage; minKeys = t_minKeys t;
          merge = (if leaf then mergeChildren else BaseBStarTree_mergeChildren);
          merge3 = (if leaf then mergeThree else BaseBStarTree_mergeThree) in
      if isRoot t nextPage \<or> getKeysNum nextPage \<noteq> minKeys then Inr (rootOrLocal t nextPage, None, t)
      else
        bindR (if i > 0 then readPageFromChild (new_PageWrapper t) (pageOf t cur) (i - 1) t
               else Inr (new_PageWrapper t, t)) (\<lambda>(leftSibling, t).
        if i > 0 \<and> getKeysNum leftSibling > minKeys
        then bindR (borrowFromLeft minKeys nextPage leftSibling t) (\<lambda>(nextPage, leftSibling, t).
               Inr (LocalPage nextPage, None, t))
        else
          bindR (if i < keysNum then readPageFromChild (new_PageWrapper t) (pageOf t cur) (i + 1) t
                 else Inr (new_PageWrapper t, t)) (\<lambda>(rightSibling, t).
          if i < keysNum \<and> getKeysNum rightSibling > minKeys
          then bindR (borrowFromRight minKeys i nextPage rightSibling cur t) (\<lambda>(nextPage, rightSibling, cur, t).
                 Inr (LocalPage nextPage, None, t))
          else if i > 0 \<and> i < keysNum
          then bindR (merge3 leftSibling nextPage rightSibling cur (i - 1) i t) (\<lambda>(leftSibling, nextPage, cur, t).
                 Inr (LocalPage leftSibling, Some (LocalPage nextPage), t))
          else if i > 0 \<and> getKeysNum leftSibling = minKeys
          then bindR (merge leftSibling nextPage cur (i - 1) t) (\<lambda>(leftSibling, cur, t).
                 Inr (LocalPage leftSibling, None, t))
          else bindR (merge nextPage rightSibling cur i t) (\<lambda>(nextPage, cur, t).
                 Inr (rootOrLocal t nextPage, None, t)))))"

text \<open>The leaf branch removes the key and then has no \<open>return\<close>.\<close>

fun BaseBStarPlusTree_remove :: "nat \<Rightarrow> byte list \<Rightarrow> PageRef \<Rightarrow> BaseBTree \<Rightarrow> (bool \<times> BaseBTree) res" where
  "BaseBStarPlusTree_remove 0 k cur t = Inl OutOfFuel"
| "BaseBStarPlusTree_remove (Suc fuel) k cur t =
     (case t_comparator t of None \<Rightarrow> Inl MemoryFault
      | Some c \<Rightarrow>
        let currentPage = pageOf t cur in
        bindR (scanUp c t currentPage k 0 (getKeysNum currentPage)) (\<lambda>i.
        if isLeaf currentPage
        then bindR (equalAt c t currentPage k i) (\<lambda>found.
               if found
               then bindR (BaseBStarTree_removeByKeyNum (Suc fuel) i cur t) (\<lambda>(_, t). Inl NoReturnValue)
               else Inr (False, t))
        else
          bindR (readPageFromChild (new_PageWrapper t) currentPage i t) (\<lambda>(nextPage, t).
          bindR (BaseBStarPlusTree_prepareChild i nextPage cur t) (\<lambda>(nextRef, otherRef, t).
          case otherRef of
            None \<Rightarrow> BaseBStarPlusTree_remove fuel k nextRef t
          | Some other \<Rightarrow>
              bindR (BaseBStarPlusTree_remove fuel k nextRef t) (\<lambda>(removed, t).
                if removed then Inr (True, t) else BaseBStarPlusTree_remove fuel k other t)))))"

section \<open>The public methods\<close>

definition removeFrom :: "nat \<Rightarrow> byte list \<Rightarrow> PageRef \<Rightarrow> BaseBTree \<Rightarrow> (bool \<times> BaseBTree) res" where
  "removeFrom fuel k cur t =
     (case t_treeType t of
        B_TREE \<Rightarrow> BaseBTree_remove fuel k cur t
      | B_PLUS_TREE \<Rightarrow> BaseBPlusTree_remove fuel k cur t
      | B_STAR_TREE \<Rightarrow> BaseBStarTree_remove fuel k cur t
      | B_STAR_PLUS_TREE \<Rightarrow> BaseBStarPlusTree_remove fuel k cur t)"

text \<open>Two levels of fuel for every page: a removal visits a page to find the key and once more to take a
  replacement from below.\<close>

definition BaseBTree_removeKey :: "byte list \<Rightarrow> BaseBTree \<Rightarrow> (bool \<times> BaseBTree) res" where
  "BaseBTree_removeKey k t =
     (if t_comparator t = None then Inl RuntimeError else removeFrom (2 * fuelOf t) k RootPage t)"

text \<open>\<open>while (remove(k)) ++amount;\<close> with at most \<open>n\<close> rounds.\<close>

fun removeAllLoop :: "nat \<Rightarrow> byte list \<Rightarrow> nat \<Rightarrow> BaseBTree \<Rightarrow> (nat \<times> BaseBTree) res" where
  "removeAllLoop 0 k amount t = Inl OutOfFuel"
| "removeAllLoop (Suc n) k amount t =
     bindR (BaseBTree_removeKey k t) (\<lambda>(removed, t).
       if removed then removeAllLoop n k (amount + 1) t else Inr (amount, t))"

definition removeAll :: "byte list \<Rightarrow> BaseBTree \<Rightarrow> (nat \<times> BaseBTree) res" where
  "removeAll k t =
     (if t_comparator t = None then Inl RuntimeError
      else removeAllLoop (Suc (t_lastPageNum t * pageKeys t)) k 0 t)"

end
