(* ===== verification/File_Tree.thy ===== *)
theory File_Tree
  imports Tree_Index Remove_Ops
begin

text \<open>
  \<open>FileBaseBTree\<close> (btree.h, btree.hpp): a tree object together with the file it is stored in.
  A file system maps names to contents and says which names can be opened for reading and
  writing.  While a tree is open its file is the stream of the tree object; closing it puts the
  content back.  The methods return the file system also when they throw.  The object that a
  throwing method leaves is not part of the result: a constructor that throws destroys it.
\<close>

section \<open>Files\<close>

record FileSystem =
  fs_files :: "string \<Rightarrow> byte list option"
  fs_writable :: "string \<Rightarrow> bool"

definition fs_put :: "string \<Rightarrow> byte list \<Rightarrow> FileSystem \<Rightarrow> FileSystem" where
  "fs_put name bs fs = fs\<lparr>fs_files := (fs_files fs)(name := Some bs)\<rparr>"

definition fs_remove :: "string \<Rightarrow> FileSystem \<Rightarrow> FileSystem" where
  "fs_remove name fs = fs\<lparr>fs_files := (fs_files fs)(name := None)\<rparr>"

text \<open>\<open>fstream::open\<close> with \<open>in | out | trunc\<close> and with \<open>in | out\<close>.\<close>

definition open_trunc :: "string \<Rightarrow> FileSystem \<Rightarrow> (iostream \<times> FileSystem) option" where
  "open_trunc name fs =
     (if fs_writable fs name then Some (emptyStream, fs_put name [] fs) else None)"

definition open_existing :: "string \<Rightarrow> FileSystem \<Rightarrow> iostream option" where
  "open_existing name fs =
     (if fs_writable fs name
      then map_option (\<lambda>bs. \<lparr>content = bs, pos = 0, failbit = False\<rparr>) (fs_files fs name) else None)"

section \<open>The class\<close>

record FileBaseBTree =
  fb_fileName :: string
  fb_isOpen :: bool
  fb_tree :: BaseBTree

definition new_FileBaseBTree :: "nat \<Rightarrow> TreeType \<Rightarrow> FileBaseBTree" where
  "new_FileBaseBTree ulongBits treeType =
     \<lparr>fb_fileName = [], fb_isOpen = False, fb_tree = new_BaseBTree treeType ulongBits 0 0 None None\<rparr>"

definition isOpen :: "FileBaseBTree \<Rightarrow> bool" where
  "isOpen fb = fb_isOpen fb"

definition setComparator :: "IComparator option \<Rightarrow> FileBaseBTree \<Rightarrow> FileBaseBTree" where
  "setComparator c fb = fb\<lparr>fb_tree := (fb_tree fb)\<lparr>t_comparator := c\<rparr>\<rparr>"

definition checkTreeParams :: "nat \<Rightarrow> nat \<Rightarrow> unit res" where
  "checkTreeParams order recSize =
     (if order < 1 \<or> recSize = 0 then Inl InvalidArgument else Inr ())"

definition attach :: "string \<Rightarrow> iostream \<Rightarrow> FileBaseBTree \<Rightarrow> FileBaseBTree" where
  "attach name s fb =
     fb\<lparr>fb_fileName := name, fb_isOpen := True, fb_tree := (fb_tree fb)\<lparr>t_stream := Some s\<rparr>\<rparr>"

definition createInternal ::
  "nat \<Rightarrow> nat \<Rightarrow> string \<Rightarrow> FileBaseBTree \<Rightarrow> FileSystem \<Rightarrow> FileBaseBTree res \<times> FileSystem" where
  "createInternal order recSize fileName fb fs =
     (case open_trunc fileName fs of
        None \<Rightarrow> (Inl RuntimeError, fs)
      | Some (s, fs) \<Rightarrow>
          let fb = attach fileName s fb in
          (bindR (createTree order recSize (fb_tree fb)) (\<lambda>t. Inr (fb\<lparr>fb_tree := t\<rparr>)), fs))"

text \<open>A \<open>std::exception\<close> that is caught by reference and thrown by name is a plain one afterwards.\<close>

fun sliced :: "exn \<Rightarrow> exn" where
  "sliced MemoryFault = MemoryFault"
| "sliced NoReturnValue = NoReturnValue"
| "sliced OutOfFuel = OutOfFuel"
| "sliced _ = StdException"

definition loadInternal :: "string \<Rightarrow> FileBaseBTree \<Rightarrow> FileSystem \<Rightarrow> FileBaseBTree res" where
  "loadInternal fileName fb fs =
     (case open_existing fileName fs of
        None \<Rightarrow> Inl RuntimeError
      | Some s \<Rightarrow>
          let fb = attach fileName s fb in
          (case loadTree (fb_tree fb) of
             Inl e \<Rightarrow> Inl (sliced e)
           | Inr t \<Rightarrow> Inr (fb\<lparr>fb_tree := t\<rparr>)))"

definition FileBaseBTree_create ::
  "nat \<Rightarrow> nat \<Rightarrow> string \<Rightarrow> FileBaseBTree \<Rightarrow> FileSystem \<Rightarrow> FileBaseBTree res \<times> FileSystem" where
  "FileBaseBTree_create order recSize fileName fb fs =
     (if isOpen fb then (Inl RuntimeError, fs)
      else case checkTreeParams order recSize of
             Inl e \<Rightarrow> (Inl e, fs)
           | Inr _ \<Rightarrow> createInternal order recSize fileName fb fs)"

definition FileBaseBTree_open :: "string \<Rightarrow> FileBaseBTree \<Rightarrow> FileSystem \<Rightarrow> FileBaseBTree res" where
  "FileBaseBTree_open fileName fb fs =
     (if isOpen fb then Inl RuntimeError else loadInternal fileName fb fs)"

definition closeInternal :: "FileBaseBTree \<Rightarrow> FileSystem \<Rightarrow> FileBaseBTree \<times> FileSystem" where
  "closeInternal fb fs =
     (fb\<lparr>fb_isOpen := False, fb_tree := resetBTree (fb_tree fb)\<rparr>,
      fs_put (fb_fileName fb) (bytesOf (fb_tree fb)) fs)"

definition FileBaseBTree_close :: "FileBaseBTree \<Rightarrow> FileSystem \<Rightarrow> FileBaseBTree \<times> FileSystem" where
  "FileBaseBTree_close fb fs = (if \<not> isOpen fb then (fb, fs) else closeInternal fb fs)"

text \<open>The two constructors that the interfaces use: a new file, an existing file.\<close>

definition FileBaseBTree_created ::
  "nat \<Rightarrow> TreeType \<Rightarrow> nat \<Rightarrow> nat \<Rightarrow> IComparator option \<Rightarrow> string \<Rightarrow> FileSystem \<Rightarrow> FileBaseBTree res \<times> FileSystem" where
  "FileBaseBTree_created ulongBits treeType order recSize c fileName fs =
     (let fb = setComparator c (new_FileBaseBTree ulongBits treeType) in
      case checkTreeParams order recSize of
        Inl e \<Rightarrow> (Inl e, fs)
      | Inr _ \<Rightarrow> createInternal order recSize fileName fb fs)"

definition FileBaseBTree_loaded ::
  "nat \<Rightarrow> TreeType \<Rightarrow> string \<Rightarrow> IComparator option \<Rightarrow> FileSystem \<Rightarrow> FileBaseBTree res" where
  "FileBaseBTree_loaded ulongBits treeType fileName c fs =
     loadInternal fileName (setComparator c (new_FileBaseBTree ulongBits treeType)) fs"

text \<open>The operations of the tree, on the object.\<close>

definition onTree :: "(BaseBTree \<Rightarrow> ('a \<times> BaseBTree) res) \<Rightarrow> FileBaseBTree \<Rightarrow> ('a \<times> FileBaseBTree) res" where
  "onTree f fb = bindR (f (fb_tree fb)) (\<lambda>(x, t). Inr (x, fb\<lparr>fb_tree := t\<rparr>))"

definition FileBaseBTree_insert :: "byte list \<Rightarrow> FileBaseBTree \<Rightarrow> FileBaseBTree res" where
  "FileBaseBTree_insert k fb = bindR (BaseBTree_insert k (fb_tree fb)) (\<lambda>t. Inr (fb\<lparr>fb_tree := t\<rparr>))"

definition FileBaseBTree_search :: "byte list \<Rightarrow> FileBaseBTree \<Rightarrow> (byte list option \<times> FileBaseBTree) res" where
  "FileBaseBTree_search k fb = onTree (search k) fb"

definition FileBaseBTree_searchAll :: "byte list \<Rightarrow> FileBaseBTree \<Rightarrow> ((nat \<times> byte list list) \<times> FileBaseBTree) res" where
  "FileBaseBTree_searchAll k fb =
     onTree (\<lambda>t. bindR (searchAll k t) (\<lambda>(n, ks, t). Inr ((n, ks), t))) fb"

definition FileBaseBTree_remove :: "byte list \<Rightarrow> FileBaseBTree \<Rightarrow> (bool \<times> FileBaseBTree) res" where
  "FileBaseBTree_remove k fb = onTree (BaseBTree_removeKey k) fb"

definition FileBaseBTree_removeAll :: "byte list \<Rightarrow> FileBaseBTree \<Rightarrow> (nat \<times> FileBaseBTree) res" where
  "FileBaseBTree_removeAll k fb = onTree (removeAll k) fb"

end
