(* ===== verification/C_API.thy ===== *)
theory C_API
  imports File_Tree
begin

text \<open>
  The C interface of the library (btree_c.h, btree_c.hpp).  Its comparators are two objects of
  static storage whose \<open>firstPartBytes\<close> a client changes at any time, so a tree refers to one
  of them (\<open>ComparatorRef\<close>) and every call reads the width that the object has then.  The
  functions that catch \<open>std::runtime_error\<close> return a null pointer; any other exception leaves
  them.
\<close>

section \<open>Static objects and trees\<close>

datatype ComparatorRef = AtByteComparator | AtSearchAllByteComparator

record CWorld =
  w_fs :: FileSystem
  w_byteComparator :: nat
  w_searchAllByteComparator :: nat

record CTree =
  ct_file :: FileBaseBTree
  ct_comparator :: ComparatorRef

definition comparatorAt :: "CWorld \<Rightarrow> ComparatorRef \<Rightarrow> IComparator" where
  "comparatorAt w r =
     (case r of
        AtByteComparator \<Rightarrow> ByteComparator (w_byteComparator w)
      | AtSearchAllByteComparator \<Rightarrow> SearchAllByteComparator (w_searchAllByteComparator w))"

text \<open>The object as a method of the library sees it: the comparator with its current width.\<close>

definition current :: "CWorld \<Rightarrow> CTree \<Rightarrow> FileBaseBTree" where
  "current w ct = setComparator (Some (comparatorAt w (ct_comparator ct))) (ct_file ct)"

section \<open>Creating, opening and closing\<close>

text \<open>\<open>delete\<close> runs the destructor, which closes the file.\<close>

definition c_close :: "CTree option \<Rightarrow> CWorld \<Rightarrow> CTree option \<times> CWorld" where
  "c_close pTree w =
     (case pTree of
        None \<Rightarrow> (None, w)
      | Some ct \<Rightarrow> (None, w\<lparr>w_fs := snd (FileBaseBTree_close (ct_file ct) (w_fs w))\<rparr>))"

text \<open>\<open>catch (std::runtime_error&) { *pTree = nullptr; }\<close>\<close>

fun caught :: "FileBaseBTree res \<Rightarrow> CTree option res" where
  "caught (Inr fb) = Inr (Some \<lparr>ct_file = fb, ct_comparator = AtByteComparator\<rparr>)"
| "caught (Inl RuntimeError) = Inr None"
| "caught (Inl e) = Inl e"

definition c_create ::
  "nat \<Rightarrow> CTree option \<Rightarrow> TreeType \<Rightarrow> nat \<Rightarrow> nat \<Rightarrow> string \<Rightarrow> CWorld \<Rightarrow> (CTree option \<times> CWorld) res" where
  "c_create ulongBits pTree treeType order keySize treeFileName w =
     (let w = snd (c_close pTree w);
          (r, fs) = FileBaseBTree_created ulongBits treeType order keySize
                      (Some (comparatorAt w AtByteComparator)) treeFileName (w_fs w) in
      bindR (caught r) (\<lambda>p. Inr (p, w\<lparr>w_fs := fs\<rparr>)))"

definition c_createBTree ::
  "nat \<Rightarrow> CTree option \<Rightarrow> nat \<Rightarrow> nat \<Rightarrow> string \<Rightarrow> CWorld \<Rightarrow> (CTree option \<times> CWorld) res" where
  "c_createBTree ulongBits pTree order keySize treeFileName w =
     c_create ulongBits pTree B_TREE order keySize treeFileName w"

definition c_open ::
  "nat \<Rightarrow> CTree option \<Rightarrow> TreeType \<Rightarrow> string \<Rightarrow> CWorld \<Rightarrow> (CTree option \<times> CWorld) res" where
  "c_open ulongBits pTree treeType treeFileName w =
     (let w = snd (c_close pTree w) in
      bindR (caught (FileBaseBTree_loaded ulongBits treeType treeFileName
                       (Some (comparatorAt w AtByteComparator)) (w_fs w)))
        (\<lambda>p. Inr (p, w)))"

section \<open>Calls on a tree\<close>

definition setByteComparator :: "CTree \<Rightarrow> CTree" where
  "setByteComparator ct = ct\<lparr>ct_comparator := AtByteComparator\<rparr>"

definition setSearchAllByteComparator :: "CTree \<Rightarrow> CTree" where
  "setSearchAllByteComparator ct = ct\<lparr>ct_comparator := AtSearchAllByteComparator\<rparr>"

definition c_insert :: "CWorld \<Rightarrow> CTree \<Rightarrow> byte list \<Rightarrow> CTree res" where
  "c_insert w ct k = bindR (FileBaseBTree_insert k (current w ct)) (\<lambda>fb. Inr (ct\<lparr>ct_file := fb\<rparr>))"

definition c_search :: "CWorld \<Rightarrow> CTree \<Rightarrow> byte list \<Rightarrow> (byte list option \<times> CTree) res" where
  "c_search w ct k =
     bindR (FileBaseBTree_search k (current w ct)) (\<lambda>(r, fb). Inr (r, ct\<lparr>ct_file := fb\<rparr>))"

text \<open>The count that the tree returns and the array with the elements of the list.\<close>

definition c_searchAll :: "CWorld \<Rightarrow> CTree \<Rightarrow> byte list \<Rightarrow> (nat \<times> byte list list \<times> CTree) res" where
  "c_searchAll w ct k =
     bindR (FileBaseBTree_searchAll k (current w ct)) (\<lambda>((n, ks), fb). Inr (n, ks, ct\<lparr>ct_file := fb\<rparr>))"

definition c_removeKey :: "CWorld \<Rightarrow> CTree \<Rightarrow> byte list \<Rightarrow> (bool \<times> CTree) res" where
  "c_removeKey w ct k =
     bindR (FileBaseBTree_remove k (current w ct)) (\<lambda>(b, fb). Inr (b, ct\<lparr>ct_file := fb\<rparr>))"

definition c_removeAll :: "CWorld \<Rightarrow> CTree \<Rightarrow> byte list \<Rightarrow> (nat \<times> CTree) res" where
  "c_removeAll w ct k =
     bindR (FileBaseBTree_removeAll k (current w ct)) (\<lambda>(n, fb). Inr (n, ct\<lparr>ct_file := fb\<rparr>))"

definition c_getOrder :: "CTree \<Rightarrow> nat" where
  "c_getOrder ct = t_order (fb_tree (ct_file ct))"

end
