(* ===== verification/C_Index.thy ===== *)
theory C_Index
  imports C_API
begin

text \<open>
  What the C interface promises: a tree is a multiset of keys.  The locale \<open>key_index\<close> is the
  contract between the trees and their clients: \<open>good n w t M\<close> says that the tree \<open>t\<close> holds the keys
  \<open>M\<close> in the world \<open>w\<close> and has space for \<open>n\<close> more; an insertion adds its key, a search for all
  equal keys returns exactly these.  It is interpreted on \<open>c_insert\<close> and \<open>c_searchAll\<close> for
  all four kinds of tree (\<open>indexed\<close>); the lemmas at the end are about creating, closing and reopening
  the file.
\<close>

section \<open>The contract\<close>

locale key_index =
  fixes good :: "nat \<Rightarrow> 'w \<Rightarrow> 't \<Rightarrow> byte list multiset \<Rightarrow> bool"
    and ins :: "'w \<Rightarrow> 't \<Rightarrow> byte list \<Rightarrow> 't res"
    and find_all :: "'w \<Rightarrow> 't \<Rightarrow> byte list \<Rightarrow> (nat \<times> byte list list \<times> 't) res"
    and sz :: nat
    and same :: "byte list \<Rightarrow> byte list \<Rightarrow> bool"
  assumes ins_adds: "good (Suc n) w t M \<Longrightarrow> length k = sz \<Longrightarrow> runs (ins w t k) (\<lambda>t'. good n w t' (add_mset k M))"
    and find_all_finds: "good n w t M \<Longrightarrow>
      runs (find_all w t k) (\<lambda>(m, ks, t'). m = length ks \<and> mset ks = filter_mset (same k) M \<and> good n w t' M)"
begin

fun ins_all :: "'w \<Rightarrow> 't \<Rightarrow> byte list list \<Rightarrow> 't res" where
  "ins_all w t [] = Inr t"
| "ins_all w t (k # ks) = bindR (ins w t k) (\<lambda>t. ins_all w t ks)"

lemma ins_all_adds:
  "good (length ks + n) w t M \<Longrightarrow> \<forall>k \<in> set ks. length k = sz \<Longrightarrow>
   runs (ins_all w t ks) (\<lambda>t'. good n w t' (mset ks + M))"
proof (induction ks arbitrary: t M)
  case (Cons k ks)
  have "runs (ins w t k) (\<lambda>t'. good (length ks + n) w t' (add_mset k M))"
    using ins_adds [of "length ks + n"] Cons.prems by simp
  then show ?case using Cons.IH Cons.prems(2) by (fastforce intro: runs_bindI)
qed simp

lemma ins_then_find:
  assumes "good (Suc n) w t M" "length k = sz" "same k' k"
  shows "runs (bindR (ins w t k) (\<lambda>t. find_all w t k'))
    (\<lambda>(m, ks, t'). k \<in> set ks \<and> mset ks = add_mset k (filter_mset (same k') M) \<and> good n w t' (add_mset k M))"
proof (rule runs_bindI [OF ins_adds [OF assms(1,2)]])
  fix t' assume "good n w t' (add_mset k M)"
  from find_all_finds [OF this, of k'] show "runs (find_all w t' k') (\<lambda>(m, ks, t').
      k \<in> set ks \<and> mset ks = add_mset k (filter_mset (same k') M) \<and> good n w t' (add_mset k M))"
    by (rule runs_mono) (use assms(3) in \<open>auto simp flip: set_mset_mset\<close>)
qed

end

section \<open>Trees behind the C interface\<close>

definition indexed :: "nat \<Rightarrow> nat \<Rightarrow> nat \<Rightarrow> CWorld \<Rightarrow> CTree \<Rightarrow> byte list multiset \<Rightarrow> bool" where
  "indexed f sz n w ct M \<longleftrightarrow>
     ct_comparator ct = AtByteComparator \<and> isOpen (ct_file ct) \<and> w_byteComparator w = f \<and>
     (let t = fb_tree (current w ct) in
      (\<exists>h. holds t (ByteComparator f) h M) \<and> setUp t \<and> t_recSize t = sz \<and> 0 < sz \<and> sz < 2 ^ 16 \<and> t_order t < 2 ^ 16 \<and>
      roomy t (absStore t) (35 * n) \<and> size M + n \<le> 2 ^ 32)"

lemma current_sel:
  "fb_tree (current w ct) = (fb_tree (ct_file ct))\<lparr>t_comparator := Some (comparatorAt w (ct_comparator ct))\<rparr>"
  "fb_isOpen (current w ct) = fb_isOpen (ct_file ct)" "fb_fileName (current w ct) = fb_fileName (ct_file ct)"
  by (simp_all add: current_def setComparator_def)

lemma comparator_same: "t_comparator t = Some c \<Longrightarrow> t\<lparr>t_comparator := Some c\<rparr> = t"
  by (cases t) simp

lemma sameTree_comparator: "sameTree t t' \<Longrightarrow> t_comparator t = Some c \<Longrightarrow> t'\<lparr>t_comparator := Some c\<rparr> = t'"
  using sameTreeD(9) [of t t'] by (intro comparator_same) simp

text \<open>What no call changes: the file name, the kind of tree, the width of \<open>unsigned long\<close>.\<close>

definition ctIdent :: "CTree \<Rightarrow> string \<times> TreeType \<times> nat" where
  "ctIdent ct = (fb_fileName (ct_file ct), t_treeType (fb_tree (ct_file ct)), t_ulongBits (fb_tree (ct_file ct)))"

lemma ctIdent_current: "ctIdent (ct\<lparr>ct_file := (current w ct)\<lparr>fb_tree := t'\<rparr>\<rparr>) = (fb_fileName (ct_file ct), t_treeType t', t_ulongBits t')"
  by (simp add: ctIdent_def current_sel)

lemma c_insert_indexed:
  assumes "indexed f sz (Suc n) w ct M" "length k = sz"
  shows "runs (c_insert w ct k) (\<lambda>ct'. indexed f sz n w ct' (add_mset k M) \<and> ctIdent ct' = ctIdent ct)"
proof -
  let ?t = "fb_tree (current w ct)"
  obtain h where I: "holds ?t (ByteComparator f) h M" "roomy ?t (absStore ?t) (35 * Suc n)" "size M + Suc n \<le> 2 ^ 32"
    "t_recSize ?t = sz" "setUp ?t" "0 < sz" "sz < 2 ^ 16" "t_order ?t < 2 ^ 16" "ct_comparator ct = AtByteComparator"
    "isOpen (ct_file ct)" "w_byteComparator w = f"
    using assms(1) unfolding indexed_def Let_def by blast
  have "h \<le> 32" using holds_log [OF I(1), of 32] I(3) by simp
  then have room: "roomy ?t (absStore ?t) (h + 3 + 35 * n)" by (intro roomy_mono [OF I(2)]) simp
  have "length k = t_recSize ?t" using assms(2) I(4) by simp
  from byte_order.insert_holds [OF I(1) room refl this] obtain t' h' where t': "BaseBTree_insert k ?t = Inr t'" "holds t' (ByteComparator f) h' (add_mset k M)" "sameTree ?t t'"
    "roomy ?t (absStore t') (35 * n)"
    by blast
  note F = sameTreeD [OF t'(3)]
  let ?ct = "ct\<lparr>ct_file := (current w ct)\<lparr>fb_tree := t'\<rparr>\<rparr>"
  have e: "fb_tree (current w ?ct) = t'"
    using sameTree_comparator [OF t'(3)] by (simp add: current_sel)
  have "indexed f sz n w ?ct (add_mset k M)"
    using t' I F setUp_sameTree [OF I(5) t'(3)] by (auto simp: indexed_def e isOpen_def current_sel(2))
  moreover have "ctIdent ?ct = ctIdent ct" using F(11,13) by (simp add: ctIdent_current) (simp add: ctIdent_def current_sel)
  ultimately show ?thesis using t'(1) by (simp add: c_insert_def FileBaseBTree_insert_def)
qed

text \<open>Keys of equal first parts.\<close>

abbreviation sameKey :: "nat \<Rightarrow> nat \<Rightarrow> byte list \<Rightarrow> byte list \<Rightarrow> bool" where
  "sameKey f sz k x \<equiv> ByteComparator_isEqual f k x sz"

lemma byte_hits:
  "filter_mset (\<lambda>x. \<not> ByteComparator_compare f x k sz \<and> ByteComparator_isEqual f k x sz) M = filter_mset (sameKey f sz k) M"
  by (rule filter_mset_cong) (auto simp: bytes.eq_iff)

lemma indexed_holds:
  assumes "indexed f sz n w ct M"
  obtains h where "holds (fb_tree (current w ct)) (ByteComparator f) h M"
  using assms unfolding indexed_def Let_def by blast

lemma indexedD:
  assumes "indexed f sz n w ct M"
  shows "ct_comparator ct = AtByteComparator" "fb_isOpen (ct_file ct)" "w_byteComparator w = f"
    "setUp (fb_tree (current w ct))" "t_recSize (fb_tree (current w ct)) = sz" "0 < sz" "sz < 2 ^ 16"
    "t_order (fb_tree (current w ct)) < 2 ^ 16"
    "roomy (fb_tree (current w ct)) (absStore (fb_tree (current w ct))) (35 * n)" "size M + n \<le> 2 ^ 32"
  using assms unfolding indexed_def Let_def isOpen_def by simp_all

lemma indexed_cong:
  assumes "w_byteComparator w' = w_byteComparator w"
  shows "indexed f sz n w' ct M = indexed f sz n w ct M"
proof (cases "ct_comparator ct")
  case AtByteComparator
  then have "current w' ct = current w ct" using assms by (simp add: current_def comparatorAt_def)
  then show ?thesis using assms by (simp add: indexed_def)
qed (simp add: indexed_def)

text \<open>The state after a search, which leaves the keys alone.\<close>

lemma searched_indexed:
  assumes "indexed f sz n w ct M" and t': "holds t' (ByteComparator f) h M"
    "absStore t' = absStore (fb_tree (current w ct))" "onlySearched (fb_tree (current w ct)) t'"
  shows "indexed f sz n w (ct\<lparr>ct_file := (current w ct)\<lparr>fb_tree := t'\<rparr>\<rparr>) M"
    "ctIdent (ct\<lparr>ct_file := (current w ct)\<lparr>fb_tree := t'\<rparr>\<rparr>) = ctIdent ct"
proof -
  note D = indexedD [OF assms(1)] and F = onlySearchedD [OF t'(3)]
  let ?ct = "ct\<lparr>ct_file := (current w ct)\<lparr>fb_tree := t'\<rparr>\<rparr>"
  have "fb_tree (current w ?ct) = t'"
    using D(1,3) comparator_same [OF holdsD(3) [OF t'(1)]] by (simp add: current_sel comparatorAt_def)
  then show "indexed f sz n w ?ct M"
    using t' F D unfolding indexed_def Let_def isOpen_def by (auto simp: current_sel(2))
  show "ctIdent ?ct = ctIdent ct" using F(4,6) by (simp add: ctIdent_current) (simp add: ctIdent_def current_sel)
qed

lemma c_searchAll_indexed:
  assumes "indexed f sz n w ct M"
  shows "runs (c_searchAll w ct k)
    (\<lambda>(m, ks, ct'). m = length ks \<and> mset ks = filter_mset (sameKey f sz k) M \<and> indexed f sz n w ct' M \<and>
      ctIdent ct' = ctIdent ct)"
proof -
  let ?t = "fb_tree (current w ct)"
  note D = indexedD [OF assms]
  obtain h where h: "holds ?t (ByteComparator f) h M" by (rule indexed_holds [OF assms])
  obtain ks t' where r: "searchAll k ?t = Inr (length ks, ks, t')" "holds t' (ByteComparator f) h M" "absStore t' = absStore ?t"
    "mset ks = filter_mset (sameKey f sz k) M" "onlySearched ?t t'"
    using byte_compare.searchAll_holds [OF h D(5), of k] unfolding comparator_sel byte_hits by blast
  show ?thesis using searched_indexed [OF assms r(2,3,5)] r(1,4)
    by (simp add: c_searchAll_def FileBaseBTree_searchAll_def onTree_def)
qed

interpretation trees: key_index "\<lambda>n w ct M. indexed f sz n w ct M \<and> ctIdent ct = i" c_insert c_searchAll sz "sameKey f sz"
  for f sz i
proof
  fix n w ct M and k :: "byte list"
  assume "indexed f sz (Suc n) w ct M \<and> ctIdent ct = i" "length k = sz"
  then show "runs (c_insert w ct k) (\<lambda>ct'. indexed f sz n w ct' (add_mset k M) \<and> ctIdent ct' = i)"
    using c_insert_indexed [of f sz n w ct M k] by auto
next
  fix n w ct M and k :: "byte list"
  assume "indexed f sz n w ct M \<and> ctIdent ct = i"
  then show "runs (c_searchAll w ct k) (\<lambda>(m, ks, ct'). m = length ks \<and> mset ks = filter_mset (sameKey f sz k) M \<and>
      indexed f sz n w ct' M \<and> ctIdent ct' = i)"
    using c_searchAll_indexed [of f sz n w ct M k] by auto
qed

text \<open>A tree serves a single key too.\<close>

lemma c_search_indexed:
  assumes "indexed f sz n w ct M"
  shows "runs (c_search w ct k) (\<lambda>(r, ct'). indexed f sz n w ct' M \<and> ctIdent ct' = ctIdent ct \<and>
    (case r of None \<Rightarrow> \<forall>x. x \<in># M \<longrightarrow> \<not> sameKey f sz k x | Some x \<Rightarrow> x \<in># M \<and> sameKey f sz k x))"
proof -
  let ?t = "fb_tree (current w ct)"
  note D = indexedD [OF assms]
  obtain h where h: "holds ?t (ByteComparator f) h M" by (rule indexed_holds [OF assms])
  obtain r t' where r: "search k ?t = Inr (r, t')" "holds t' (ByteComparator f) h M" "absStore t' = absStore ?t"
    "case r of None \<Rightarrow> \<forall>x. x \<in># M \<longrightarrow> \<not> sameKey f sz k x | Some x \<Rightarrow> x \<in># M \<and> sameKey f sz k x" "onlySearched ?t t'"
    using byte_compare.search_holds [OF h D(5), of k] unfolding comparator_sel by blast
  show ?thesis using searched_indexed [OF assms r(2,3,5)] r(1,4) by (simp add: c_search_def FileBaseBTree_search_def onTree_def)
qed

section \<open>Runs of a client\<close>

text \<open>The calls of a client on an open tree, with the multiset of the keys it has inserted.\<close>

inductive client_step :: "nat \<Rightarrow> CWorld \<Rightarrow> CTree \<times> byte list multiset \<Rightarrow> CTree \<times> byte list multiset \<Rightarrow> bool" for sz w where
  step_insert: "c_insert w ct k = Inr ct' \<Longrightarrow> length k = sz \<Longrightarrow> client_step sz w (ct, M) (ct', add_mset k M)"
| step_search: "c_search w ct k = Inr (r, ct') \<Longrightarrow> client_step sz w (ct, M) (ct', M)"
| step_searchAll: "c_searchAll w ct k = Inr (m, ks, ct') \<Longrightarrow> client_step sz w (ct, M) (ct', M)"

inductive_cases client_stepE: "client_step sz w (ct, M) (ct', M')"

lemma client_step_indexed:
  assumes "client_step sz w (ct, M) (ct', M')" "indexed f sz n w ct M" "size M' \<le> size M + n"
  shows "indexed f sz (n - (size M' - size M)) w ct' M' \<and> size M \<le> size M'"
proof -
  consider (ins) k where "c_insert w ct k = Inr ct'" "length k = sz" "M' = add_mset k M"
    | (one) k r where "c_search w ct k = Inr (r, ct')" "M' = M"
    | (all) k m ks where "c_searchAll w ct k = Inr (m, ks, ct')" "M' = M"
    using assms(1) by (auto elim: client_stepE)
  then show ?thesis
  proof cases
    case ins
    then obtain n' where n: "n = Suc n'" using assms(3) by (cases n) auto
    from c_insert_indexed [OF assms(2) [unfolded n] ins(2)] ins show ?thesis by (auto simp: runs_def n)
  next
    case one
    from c_search_indexed [OF assms(2), of k] one show ?thesis by (auto simp: runs_def)
  next
    case all
    from c_searchAll_indexed [OF assms(2), of k] all show ?thesis by (auto simp: runs_def)
  qed
qed

lemma client_run_indexed:
  assumes "(client_step sz w)\<^sup>*\<^sup>* (ct, M) (ct', M')" "indexed f sz n w ct M" "size M' \<le> size M + n"
  shows "indexed f sz (n - (size M' - size M)) w ct' M' \<and> size M \<le> size M'"
  using assms(1,3)
proof (induction "(ct', M')" arbitrary: ct' M' rule: rtranclp_induct)
  case base
  then show ?case using assms(2) by simp
next
  case (step y)
  obtain ct1 M1 where y: "y = (ct1, M1)" by (cases y)
  have "size M1 \<le> size M'" using step.hyps(2) y by (auto elim: client_stepE)
  then have 1: "indexed f sz (n - (size M1 - size M)) w ct1 M1 \<and> size M \<le> size M1"
    by (intro step.hyps(3) [OF y]) (use step.prems in linarith)
  have "size M' \<le> size M1 + (n - (size M1 - size M))" using 1 step.prems by simp
  note r = client_step_indexed [OF step.hyps(2) [unfolded y] conjunct1 [OF 1] this]
  have "n - (size M1 - size M) - (size M' - size M1) = n - (size M' - size M)" using 1 r by linarith
  then show ?case using 1 r by (metis le_trans)
qed

section \<open>Creating, closing and reopening\<close>

text \<open>The bytes of a page, and a file with room for \<open>n\<close> insertions of up to 35 pages below 4 GiB.\<close>

definition pageSizeFor :: "TreeType \<Rightarrow> nat \<Rightarrow> nat \<Rightarrow> nat" where
  "pageSizeFor ty order sz = KEYS_OFS + sz * orderKeys ty order + CURSOR_SZ * (orderKeys ty order + 1)"

definition fits :: "TreeType \<Rightarrow> nat \<Rightarrow> nat \<Rightarrow> nat \<Rightarrow> bool" where
  "fits ty order sz n \<longleftrightarrow>
     minOrder ty \<le> order \<and> orderKeys ty order \<le> MAX_KEYS_NUM \<and> order < 2 ^ 16 \<and> 0 < sz \<and> sz < 2 ^ 16 \<and>
     pageSizeFor ty order sz < 2 ^ 31 \<and> n \<le> 2 ^ 32 \<and> FIRST_PAGE_OFS + pageSizeFor ty order sz * (35 * n + 1) + 4 < 2 ^ 32"

lemma setOrder_fits:
  assumes "fits ty order sz n" "t_treeType t = ty"
  shows "\<exists>t1. setOrder order sz t = Inr t1 \<and> t_nodePageSize t1 = pageSizeFor ty order sz"
proof -
  have "setOrder order sz t \<noteq> Inl InvalidArgument" using assms unfolding setOrder_error(1) by (auto simp: fits_def)
  then obtain t1 where "setOrder order sz t = Inr t1"
    using setOrder_error(2) by (cases "setOrder order sz t") auto
  then show ?thesis
    using setOrder_sizes(2,3) [of order sz t t1] setOrder_keys(1) [of order sz t t1] assms by (simp add: pageSizeFor_def fits_def)
qed

lemma c_create_closes: "c_create u pTree ty order sz file w = c_create u None ty order sz file (snd (c_close pTree w))"
  by (simp add: c_create_def c_close_def Let_def)

lemma c_create_indexed:
  assumes fit: "fits ty order sz n" and u: "32 \<le> u"
    and fs: "fs_writable (w_fs w) file"
  shows "\<exists>ct. c_create u None ty order sz file w = Inr (Some ct, w\<lparr>w_fs := fs_put file [] (w_fs w)\<rparr>) \<and>
    (\<forall>w'. indexed (w_byteComparator w') sz n w' ct {#}) \<and> ctIdent ct = (file, ty, u)"
proof -
  let ?c = "comparatorAt w AtByteComparator"
  let ?t = "new_BaseBTree ty u 0 0 (Some ?c) (Some emptyStream)"
  let ?fb = "\<lparr>fb_fileName = file, fb_isOpen = True, fb_tree = ?t\<rparr>"
  have att: "attach file emptyStream (setComparator (Some ?c) (new_FileBaseBTree u ty)) = ?fb"
    by (simp add: attach_def setComparator_def new_FileBaseBTree_def new_BaseBTree_def)
  have f: "freshObject ?t" "t_treeType ?t = ty" "t_comparator ?t = Some ?c" "t_ulongBits ?t = u"
    using u by (simp_all add: freshObject_def new_BaseBTree_def)
  note F = fit [unfolded fits_def]
  obtain t1 where t1: "setOrder order sz ?t = Inr t1" "t_nodePageSize t1 = pageSizeFor ty order sz"
    using setOrder_fits [OF fit f(2)] by blast
  obtain t where t: "createTree order sz ?t = Inr t" "holds t ?c 0 {#}" "setUp t" "t_treeType t = ty"
    "t_order t = order" "t_recSize t = sz" "t_ulongBits t = u" "t_lastPageNum t = 1" "t_nodePageSize t = pageSizeFor ty order sz"
    using create_holds [OF t1(1) _ _ f(1,3)] F t1(2) f(2,4) by auto
  let ?ct = "\<lparr>ct_file = \<lparr>fb_fileName = file, fb_isOpen = True, fb_tree = t\<rparr>, ct_comparator = AtByteComparator\<rparr>"
  have "2 \<le> minOrder ty" by (simp add: minOrder_def)
  then have "\<not> (order < 1 \<or> sz = 0)" using F by simp
  then have "c_create u None ty order sz file w = Inr (Some ?ct, w\<lparr>w_fs := fs_put file [] (w_fs w)\<rparr>)"
    using fs t(1) by (simp add: c_create_def c_close_def Let_def FileBaseBTree_created_def checkTreeParams_def
        createInternal_def open_trunc_def att)
  moreover have "indexed (w_byteComparator w') sz n w' ?ct {#}" for w'
  proof -
    let ?t' = "t\<lparr>t_comparator := Some (ByteComparator (w_byteComparator w'))\<rparr>"
    have e: "fb_tree (current w' ?ct) = ?t'" by (simp add: current_sel comparatorAt_def)
    have "setUp ?t'" using t(3) by simp
    moreover have "roomy ?t' (absStore ?t') (35 * n)"
      using F t(8,9) by (simp add: roomy_def absStore_def pageOfs_def)
    ultimately show ?thesis
      using F t(5,6) setComparator_empty [OF t(2)] unfolding indexed_def Let_def e isOpen_def by auto
  qed
  ultimately show ?thesis using t by (intro exI [of _ ?ct]) (simp add: ctIdent_def)
qed

text \<open>Closing writes the tree to its file; opening the file again gives a tree with the same keys.\<close>

lemma bytesOf_stream: "t_stream t = Some s \<Longrightarrow> bytesOf t = content s"
  by (simp add: bytesOf_def)

lemma setUp_pageSize:
  assumes "setUp t" "geom t"
  shows "t_nodePageSize t = pageSizeFor (t_treeType t) (t_order t) (t_recSize t)"
  using geomD(4,5) [OF assms(2)] setUp_keys [OF assms(1)] by (simp add: pageSizeFor_def)

lemma c_close_file:
  "fb_isOpen (ct_file ct) \<Longrightarrow>
   snd (c_close (Some ct) w) = w\<lparr>w_fs := fs_put (fb_fileName (ct_file ct)) (bytesOf (fb_tree (ct_file ct))) (w_fs w)\<rparr>"
  by (simp add: c_close_def FileBaseBTree_close_def isOpen_def closeInternal_def)

lemma c_close_open_indexed:
  fixes ct w
  defines "w' \<equiv> snd (c_close (Some ct) w)"
  assumes I: "indexed f sz n w ct M" and fs: "fs_writable (w_fs w) file" and id: "ctIdent ct = (file, ty, u)"
  shows "\<exists>ct'. c_open u None ty file w' = Inr (Some ct', w') \<and> indexed f sz n w' ct' M \<and> ctIdent ct' = (file, ty, u)"
proof -
  let ?t = "fb_tree (current w ct)"
  have id: "file = fb_fileName (ct_file ct)" "ty = t_treeType (fb_tree (ct_file ct))" "u = t_ulongBits (fb_tree (ct_file ct))"
    using id by (simp_all add: ctIdent_def)
  note D = indexedD [OF I]
  obtain h where h: "holds ?t (ByteComparator f) h M" by (rule indexed_holds [OF I])
  define bs where "bs = bytesOf ?t"
  have w': "w' = w\<lparr>w_fs := fs_put file (bytesOf (fb_tree (ct_file ct))) (w_fs w)\<rparr>"
    unfolding w'_def id using D(2) by (rule c_close_file)
  have c: "comparatorAt w' AtByteComparator = ByteComparator f" using D(3) by (simp add: comparatorAt_def w')
  have op: "open_existing file (w_fs w') = Some \<lparr>content = bs, pos = 0, failbit = False\<rparr>"
    using fs by (simp add: open_existing_def w' fs_put_def current_sel bytesOf_def bs_def)
  let ?new = "new_BaseBTree ty u 0 0 (Some (ByteComparator f)) (Some \<lparr>content = bs, pos = 0, failbit = False\<rparr>)"
  have att: "attach file \<lparr>content = bs, pos = 0, failbit = False\<rparr>
      (setComparator (Some (ByteComparator f)) (new_FileBaseBTree u ty)) = \<lparr>fb_fileName = file, fb_isOpen = True, fb_tree = ?new\<rparr>"
    by (simp add: attach_def setComparator_def new_FileBaseBTree_def new_BaseBTree_def)
  have "t_stream ?new = Some \<lparr>content = bs, pos = 0, failbit = False\<rparr>" by (simp add: new_BaseBTree_def)
  from bytesOf_stream [OF this] have b: "bytesOf ?new = bytesOf ?t" by (simp add: bs_def)
  have t0: "isOpened ?new" "t_ulongBits ?new = t_ulongBits ?t" "t_treeType ?new = t_treeType ?t"
    "t_comparator ?new = Some (ByteComparator f)"
    by (simp_all add: isOpened_def new_BaseBTree_def current_sel id)
  have pos: "0 < t_recSize ?t" "t_recSize ?t < 2 ^ 16" using D(5-7) by simp_all
  from load_holds [OF h D(4,8) pos t0(1) b t0(2-4)] obtain t where
    t: "loadTree ?new = Inr t" "holds t (ByteComparator f) h M" "absStore t = absStore ?t" "setUp t"
    "t_order t = t_order ?t" "t_recSize t = t_recSize ?t" "t_treeType t = t_treeType ?t" "t_ulongBits t = t_ulongBits ?t"
    by blast
  let ?ct = "\<lparr>ct_file = \<lparr>fb_fileName = file, fb_isOpen = True, fb_tree = t\<rparr>, ct_comparator = AtByteComparator\<rparr>"
  have "c_open u None ty file w' = Inr (Some ?ct, w')"
    by (simp add: c_open_def c_close_def Let_def FileBaseBTree_loaded_def loadInternal_def c op att t(1))
  moreover have "fb_tree (current w' ?ct) = t"
    using comparator_same [OF holdsD(3) [OF t(2)]] by (simp add: current_sel c)
  moreover have "roomy t = roomy ?t"
    using setUp_pageSize [OF t(4) storeOkD(1) [OF holdsD(1) [OF t(2)]]] setUp_pageSize [OF D(4) storeOkD(1) [OF holdsD(1) [OF h]]] t(5-7)
    by (simp add: roomy_def pageOfs_def fun_eq_iff)
  moreover have "w_byteComparator w' = f" using D(3) w' by simp
  moreover have "ctIdent ?ct = (file, ty, u)" using t(7,8) id by (simp add: ctIdent_def current_sel)
  ultimately show ?thesis
    using t D unfolding indexed_def Let_def isOpen_def by (intro exI [of _ ?ct]) auto
qed

end
