(* ===== verification/SQLite_Values.thy ===== *)
theory SQLite_Values
  imports BT_Prelude
begin

text \<open>
  What the SQLite module (btrees_mods.c) uses of SQLite.  SQLite itself is a parameter: the
  record \<open>Sqlite\<close> holds the functions of the connection that the module calls, over a database
  type \<open>'db\<close>.  Values are SQLite's five storage classes; the accessors are the documented ones,
  with the conversions between classes left to the parameter.  On top of it: \<open>executeSql\<close>, and the
  module's conversion of a value to the text of an SQL literal, in a buffer of \<open>TEXT_SIZE\<close> bytes.
\<close>

section \<open>Decimal text\<close>

fun decimal_nat :: "nat \<Rightarrow> string" where
  "decimal_nat n =
     (if n < 10 then [char_of (48 + n)] else decimal_nat (n div 10) @ [char_of (48 + n mod 10)])"

declare decimal_nat.simps [simp del]

definition decimal :: "int \<Rightarrow> string" where
  "decimal i = (if i < 0 then CHR 0x2D # decimal_nat (nat (- i)) else decimal_nat (nat i))"

lemma decimal_nat_not_Nil [simp]: "decimal_nat n \<noteq> []"
  by (subst decimal_nat.simps) simp

lemma digit_ne_minus: "d < 10 \<Longrightarrow> char_of (48 + d :: nat) \<noteq> CHR 0x2D"
proof
  assume d: "d < 10" and "char_of (48 + d) = CHR 0x2D"
  then have "of_char (char_of (48 + d) :: char) = (of_char CHR 0x2D :: nat)" by simp
  then show False using d by simp
qed

lemma decimal_nat_no_minus: "CHR 0x2D \<notin> set (decimal_nat n)"
proof (induction n rule: decimal_nat.induct)
  case (1 n)
  then show ?case using digit_ne_minus [of n] digit_ne_minus [of "n mod 10"]
    by (subst decimal_nat.simps) (auto split: if_splits)
qed

lemma digit_inj: "d < 10 \<Longrightarrow> e < 10 \<Longrightarrow> char_of (48 + d :: nat) = (char_of (48 + e) :: char) \<Longrightarrow> d = e"
proof -
  assume d: "d < 10" "e < 10" "char_of (48 + d) = (char_of (48 + e) :: char)"
  then have "of_char (char_of (48 + d) :: char) = (of_char (char_of (48 + e) :: char) :: nat)" by simp
  then show ?thesis using d(1,2) by simp
qed

lemma decimal_nat_inj: "decimal_nat m = decimal_nat n \<Longrightarrow> m = n"
proof (induction m arbitrary: n rule: decimal_nat.induct)
  case (1 m)
  note eq = "1.prems"
  show ?case
  proof (cases "m < 10 \<or> n < 10")
    case True
    then have "m < 10 \<and> n < 10 \<and> char_of (48 + m) = (char_of (48 + n) :: char)"
      using eq by (subst (asm) decimal_nat.simps, subst (asm) (2) decimal_nat.simps)
        (auto split: if_splits dest: sym [of "[]"])
    then show ?thesis using digit_inj [of m n] by simp
  next
    case False
    then have "decimal_nat (m div 10) = decimal_nat (n div 10)"
      "char_of (48 + m mod 10) = (char_of (48 + n mod 10) :: char)"
      using eq by (subst (asm) decimal_nat.simps, subst (asm) (2) decimal_nat.simps, simp)+
    then have "m div 10 = n div 10" "m mod 10 = n mod 10"
      using "1.IH" False digit_inj [of "m mod 10" "n mod 10"] by simp_all
    then show ?thesis by (metis div_mult_mod_eq)
  qed
qed

lemma decimal_inj: "decimal i = decimal j \<longleftrightarrow> i = j"
proof
  assume e: "decimal i = decimal j"
  have m: "decimal_nat a \<noteq> CHR 0x2D # s" for a s
    using decimal_nat_no_minus [of a] by (metis list.set_intros(1))
  show "i = j"
  proof (cases "i < 0"; cases "j < 0")
    assume "i < 0" "j < 0"
    then show ?thesis using e decimal_nat_inj [of "nat (- i)" "nat (- j)"] by (simp add: decimal_def)
  next
    assume "\<not> i < 0" "\<not> j < 0"
    then show ?thesis using e decimal_nat_inj [of "nat i" "nat j"] by (simp add: decimal_def)
  qed (use e m in \<open>simp_all add: decimal_def m [symmetric]\<close>)
qed simp

section \<open>Values\<close>

datatype sqlite3_value = SqlInteger "64 word" | SqlFloat "64 word" | SqlText string | SqlBlob "byte list" | SqlNull

definition SQLITE_INTEGER :: int where "SQLITE_INTEGER = 1"
definition SQLITE_FLOAT :: int where "SQLITE_FLOAT = 2"
definition SQLITE_TEXT :: int where "SQLITE_TEXT = 3"
definition SQLITE_BLOB :: int where "SQLITE_BLOB = 4"
definition SQLITE_NULL :: int where "SQLITE_NULL = 5"

definition SQLITE_OK :: int where "SQLITE_OK = 0"
definition SQLITE_NOMEM :: int where "SQLITE_NOMEM = 7"
definition SQLITE_MISMATCH :: int where "SQLITE_MISMATCH = 20"
definition SQLITE_MISUSE :: int where "SQLITE_MISUSE = 21"
definition SQLITE_ROW :: int where "SQLITE_ROW = 100"
definition SQLITE_DONE :: int where "SQLITE_DONE = 101"
definition SQLITE_INDEX_CONSTRAINT_EQ :: nat where "SQLITE_INDEX_CONSTRAINT_EQ = 2"

lemmas sqlite_types = SQLITE_INTEGER_def SQLITE_FLOAT_def SQLITE_TEXT_def SQLITE_BLOB_def SQLITE_NULL_def
lemmas sqlite_codes = SQLITE_OK_def SQLITE_NOMEM_def SQLITE_MISMATCH_def SQLITE_MISUSE_def SQLITE_ROW_def SQLITE_DONE_def

fun sqlite3_value_type :: "sqlite3_value \<Rightarrow> int" where
  "sqlite3_value_type (SqlInteger _) = SQLITE_INTEGER"
| "sqlite3_value_type (SqlFloat _) = SQLITE_FLOAT"
| "sqlite3_value_type (SqlText _) = SQLITE_TEXT"
| "sqlite3_value_type (SqlBlob _) = SQLITE_BLOB"
| "sqlite3_value_type SqlNull = SQLITE_NULL"

text \<open>
  The functions of the connection.  \<open>sq_prepare\<close> compiles a statement and gives its column names,
  \<open>sq_step\<close> runs a compiled statement once: a row with \<open>SQLITE_ROW\<close>, the empty list otherwise.
  \<open>sq_column_metadata\<close> gives the declared type of a column and whether it is in the primary key.  The
  last three fields are the conversions between storage classes.
\<close>

record 'db Sqlite =
  sq_prepare :: "string \<Rightarrow> 'db \<Rightarrow> int \<times> string list"
  sq_step :: "string \<Rightarrow> 'db \<Rightarrow> int \<times> sqlite3_value list \<times> 'db"
  sq_column_metadata :: "string \<Rightarrow> string \<Rightarrow> 'db \<Rightarrow> int \<times> string option \<times> bool"
  sq_declare_vtab :: "string \<Rightarrow> 'db \<Rightarrow> int \<times> 'db"
  sq_create_function :: "string \<Rightarrow> nat \<Rightarrow> 'db \<Rightarrow> int \<times> 'db"
  sq_create_module :: "string \<Rightarrow> 'db \<Rightarrow> int \<times> 'db"
  sq_errmsg :: "'db \<Rightarrow> string"
  sq_real_text :: "64 word \<Rightarrow> string"
  sq_to_int64 :: "sqlite3_value \<Rightarrow> 64 word"
  sq_to_double :: "sqlite3_value \<Rightarrow> 64 word"

fun sqlite3_value_int64 :: "'db Sqlite \<Rightarrow> sqlite3_value \<Rightarrow> 64 word" where
  "sqlite3_value_int64 S (SqlInteger i) = i"
| "sqlite3_value_int64 S SqlNull = 0"
| "sqlite3_value_int64 S v = sq_to_int64 S v"

definition sqlite3_value_int :: "'db Sqlite \<Rightarrow> sqlite3_value \<Rightarrow> 32 word" where
  "sqlite3_value_int S v = ucast (sqlite3_value_int64 S v)"

fun sqlite3_value_double :: "'db Sqlite \<Rightarrow> sqlite3_value \<Rightarrow> 64 word" where
  "sqlite3_value_double S (SqlFloat d) = d"
| "sqlite3_value_double S v = sq_to_double S v"

fun sqlite3_value_text :: "'db Sqlite \<Rightarrow> sqlite3_value \<Rightarrow> string option" where
  "sqlite3_value_text S (SqlInteger i) = Some (decimal (sint i))"
| "sqlite3_value_text S (SqlFloat d) = Some (sq_real_text S d)"
| "sqlite3_value_text S (SqlText s) = Some s"
| "sqlite3_value_text S (SqlBlob bs) = Some (map (char_of \<circ> unat) bs)"
| "sqlite3_value_text S SqlNull = None"

text \<open>A C string ends at its first zero byte.\<close>

definition c_string :: "string \<Rightarrow> string" where
  "c_string s = takeWhile (\<lambda>c. c \<noteq> CHR 0x00) s"

section \<open>Running SQL\<close>

record Stmt =
  stmt_columns :: "string list"
  stmt_row :: "sqlite3_value list"

text \<open>The accessors of a column: a null statement and a column without a value give SQL's null.\<close>

definition sqlite3_column_value :: "Stmt option \<Rightarrow> nat \<Rightarrow> sqlite3_value" where
  "sqlite3_column_value stmt i =
     (case stmt of None \<Rightarrow> SqlNull | Some s \<Rightarrow> if i < length (stmt_row s) then stmt_row s ! i else SqlNull)"

definition sqlite3_column_name :: "Stmt option \<Rightarrow> nat \<Rightarrow> string option" where
  "sqlite3_column_name stmt i =
     (case stmt of None \<Rightarrow> None
      | Some s \<Rightarrow> if i < length (stmt_columns s) then Some (stmt_columns s ! i) else None)"

definition executeSql :: "'db Sqlite \<Rightarrow> 'db \<Rightarrow> string option \<Rightarrow> int \<times> Stmt option \<times> 'db" where
  "executeSql S db sql =
     (let (rc, stmt, db) =
        (case sql of
           None \<Rightarrow> (SQLITE_NOMEM, None, db)
         | Some sql \<Rightarrow>
             let (rc, names) = sq_prepare S sql db in
             if rc = SQLITE_OK
             then let (rc, row, db) = sq_step S sql db in (rc, Some \<lparr>stmt_columns = names, stmt_row = row\<rparr>, db)
             else (rc, None, db)) in
      (if rc = SQLITE_DONE \<or> rc = SQLITE_ROW then SQLITE_OK else rc, stmt, db))"

definition executeSqlAndFinalize :: "'db Sqlite \<Rightarrow> 'db \<Rightarrow> string option \<Rightarrow> int \<times> 'db" where
  "executeSqlAndFinalize S db sql = (let (rc, stmt, db) = executeSql S db sql in (rc, db))"

section \<open>Values as text of SQL\<close>

definition TEXT_SIZE :: nat where "TEXT_SIZE = 256"

text \<open>\<open>strcpy\<close> into a buffer of \<open>TEXT_SIZE\<close> bytes, which has to hold the terminating zero too.\<close>

definition strcpy_buffer :: "string \<Rightarrow> string res" where
  "strcpy_buffer s = (if length (c_string s) < TEXT_SIZE then Inr (c_string s) else Inl MemoryFault)"

text \<open>\<open>snprintf\<close> writes at most \<open>TEXT_SIZE - 2\<close> characters and a zero; \<open>strcat\<close> adds the quote.\<close>

definition convertSqliteTextValueToString :: "string \<Rightarrow> string" where
  "convertSqliteTextValueToString s =
     take (TEXT_SIZE - 2) (CHR 0x22 # c_string s) @ [CHR 0x22]"

text \<open>The bytes of a blob end with no zero of their own: without one inside, the copy leaves the blob.\<close>

fun convertSqliteValueToString :: "'db Sqlite \<Rightarrow> sqlite3_value \<Rightarrow> string res" where
  "convertSqliteValueToString S (SqlInteger i) = strcpy_buffer (decimal (sint i))"
| "convertSqliteValueToString S (SqlFloat d) = strcpy_buffer (sq_real_text S d)"
| "convertSqliteValueToString S (SqlText s) = Inr (convertSqliteTextValueToString s)"
| "convertSqliteValueToString S (SqlBlob bs) =
     (if 0 \<in> set bs then strcpy_buffer (map (char_of \<circ> unat) bs) else Inl MemoryFault)"
| "convertSqliteValueToString S SqlNull = Inr ''NULL''"

section \<open>The literals of integers and texts\<close>

lemma decimal_nat_digits: "c \<in> set (decimal_nat n) \<Longrightarrow> \<exists>d < 10. c = char_of (48 + d :: nat)"
proof (induction n rule: decimal_nat.induct)
  case (1 n)
  from "1.prems" have "c \<in> set (if n < 10 then [char_of (48 + n)] else decimal_nat (n div 10) @ [char_of (48 + n mod 10)])"
    by (simp only: decimal_nat.simps [symmetric])
  then consider "n < 10" "c = char_of (48 + n)" | "\<not> n < 10" "c \<in> set (decimal_nat (n div 10))" | "c = char_of (48 + n mod 10)"
    by (auto simp del: char_of_eq_iff split: if_splits)
  then show ?case
  proof cases
    case 2
    then show ?thesis by (rule "1.IH")
  next
    case 3
    then show ?thesis by (intro exI [of _ "n mod 10"]) simp
  qed blast
qed

lemma length_decimal_nat: "n < 10 ^ Suc k \<Longrightarrow> length (decimal_nat n) \<le> Suc k"
proof (induction k arbitrary: n)
  case 0
  then show ?case by (subst decimal_nat.simps) simp
next
  case (Suc k)
  then have "n div 10 < 10 ^ Suc k" by (simp add: less_mult_imp_div_less mult.commute)
  from Suc.IH [OF this] show ?case by (subst decimal_nat.simps) simp
qed

lemma digit_char: "d < 10 \<Longrightarrow> char_of (48 + d :: nat) \<noteq> CHR 0x00 \<and> char_of (48 + d) \<noteq> CHR 0x22"
proof -
  assume d: "d < 10"
  then have "of_char (char_of (48 + d) :: char) \<noteq> (of_char CHR 0x00 :: nat)" "of_char (char_of (48 + d) :: char) \<noteq> (of_char CHR 0x22 :: nat)"
    by simp_all
  then show ?thesis by metis
qed

lemma decimal_chars: "c \<in> set (decimal i) \<Longrightarrow> c \<noteq> CHR 0x00 \<and> c \<noteq> CHR 0x22"
  using decimal_nat_digits digit_char by (fastforce simp: decimal_def split: if_splits)

lemma integer_literal:
  "convertSqliteValueToString S (SqlInteger i) = Inr (decimal (sint i)) \<and> length (decimal (sint i)) \<le> 20"
proof -
  have "- (2 ^ 63) \<le> sint i" "sint i < 2 ^ 63" using sint_ge [of i] sint_lt [of i] by simp_all
  then have "nat (- sint i) < 10 ^ Suc 18" "nat (sint i) < 10 ^ Suc 18" by simp_all
  then have l: "length (decimal (sint i)) \<le> 20"
    using length_decimal_nat [of "nat (- sint i)" 18] length_decimal_nat [of "nat (sint i)" 18]
    unfolding decimal_def by (cases "sint i < 0") simp_all
  have "c_string (decimal (sint i)) = decimal (sint i)"
    using decimal_chars [of _ "sint i"] by (auto simp: c_string_def takeWhile_eq_all_conv)
  then show ?thesis using l by (simp add: strcpy_buffer_def TEXT_SIZE_def)
qed

lemma text_literal:
  "convertSqliteTextValueToString s = CHR 0x22 # take 253 (c_string s) @ [CHR 0x22]"
  by (simp add: convertSqliteTextValueToString_def TEXT_SIZE_def numeral_eq_Suc)

end
