(* ===== verification/Tree_Keys.thy ===== *)
theory Tree_Keys
  imports C_API SQLite_Values
begin

text \<open>
  Column types and tree keys of the SQLite module (btrees_mods.c, btrees_mods.h).  A tree key is
  the indexed value in a field of fixed width followed by the 8 bytes of the row id; the byte
  comparator looks at the first field only.  The group of lemmas at the end says what this encoding
  keeps of the value: a row id is read back from its key, and two keys are equal for the comparator
  exactly when the fields of their values are.
\<close>

section \<open>Column types\<close>

definition INTEGER_SIZE :: nat where "INTEGER_SIZE = 4"
definition FLOAT_SIZE :: nat where "FLOAT_SIZE = 8"
definition BLOB_SIZE :: nat where "BLOB_SIZE = 256"
definition NULL_SIZE :: nat where "NULL_SIZE = 1"
definition ROWID_SIZE :: nat where "ROWID_SIZE = 8"
definition ERROR_CODE :: int where "ERROR_CODE = - 1"

lemmas key_sizes = INTEGER_SIZE_def FLOAT_SIZE_def TEXT_SIZE_def BLOB_SIZE_def NULL_SIZE_def ROWID_SIZE_def

definition getDataSizeByType :: "string \<Rightarrow> int" where
  "getDataSizeByType dataType =
     (if dataType = ''INTEGER'' then int INTEGER_SIZE
      else if dataType = ''FLOAT'' then int FLOAT_SIZE
      else if dataType = ''TEXT'' then int TEXT_SIZE
      else if dataType = ''BLOB'' then int BLOB_SIZE
      else if dataType = ''NULL'' then int NULL_SIZE
      else ERROR_CODE)"

definition getDataTypeByInt :: "int \<Rightarrow> string option" where
  "getDataTypeByInt dataType =
     (if dataType = SQLITE_INTEGER then Some ''INTEGER''
      else if dataType = SQLITE_FLOAT then Some ''FLOAT''
      else if dataType = SQLITE_TEXT then Some ''TEXT''
      else if dataType = SQLITE_BLOB then Some ''BLOB''
      else if dataType = SQLITE_NULL then Some ''NULL''
      else None)"

definition getIntByDataType :: "string \<Rightarrow> int" where
  "getIntByDataType dataType =
     (if dataType = ''INTEGER'' then SQLITE_INTEGER
      else if dataType = ''FLOAT'' then SQLITE_FLOAT
      else if dataType = ''TEXT'' then SQLITE_TEXT
      else if dataType = ''BLOB'' then SQLITE_BLOB
      else if dataType = ''NULL'' then SQLITE_NULL
      else - 1)"

lemma type_of_name_of_type: "getDataTypeByInt n = Some s \<Longrightarrow> getIntByDataType s = n"
  by (auto simp: getDataTypeByInt_def getIntByDataType_def split: if_splits)

lemma name_of_type_of_name: "getIntByDataType s \<noteq> - 1 \<Longrightarrow> getDataTypeByInt (getIntByDataType s) = Some s"
  by (auto simp: getDataTypeByInt_def getIntByDataType_def sqlite_types split: if_splits)

section \<open>Keys\<close>

text \<open>
  The machine: the width of \<open>unsigned long\<close>, and the bytes that happen to follow a variable on the
  stack and a buffer on the heap, which reads past an object return.
\<close>

record Machine =
  m_ulongBits :: nat
  m_stack :: "byte list"
  m_heap :: "byte list"

definition bytesAt :: "nat \<Rightarrow> byte list \<Rightarrow> byte list \<Rightarrow> byte list" where
  "bytesAt n junk bs = take n (bs @ junk @ replicate n 0)"

definition rowIdBytes :: "64 word \<Rightarrow> byte list" where
  "rowIdBytes rowId = le_enc ROWID_SIZE (unat rowId)"

definition createIntTreeKey :: "'db Sqlite \<Rightarrow> sqlite3_value \<Rightarrow> 64 word \<Rightarrow> byte list" where
  "createIntTreeKey S v rowId = le_enc INTEGER_SIZE (unat (sqlite3_value_int S v)) @ rowIdBytes rowId"

definition createFloatTreeKey :: "'db Sqlite \<Rightarrow> sqlite3_value \<Rightarrow> 64 word \<Rightarrow> byte list" where
  "createFloatTreeKey S v rowId = le_enc FLOAT_SIZE (unat (sqlite3_value_double S v)) @ rowIdBytes rowId"

text \<open>The first \<open>n\<close> bytes of a value in a zeroed field of \<open>n\<close> bytes.\<close>

definition field :: "nat \<Rightarrow> byte list \<Rightarrow> byte list" where
  "field n bs = overwrite 0 (take (if length bs \<ge> n then n else length bs) bs) (replicate n 0)"

definition textBytes :: "string \<Rightarrow> byte list" where
  "textBytes s = map of_char s"

definition createTextTreeKey :: "string \<Rightarrow> 64 word \<Rightarrow> byte list" where
  "createTextTreeKey s rowId = field TEXT_SIZE (textBytes s) @ rowIdBytes rowId"

definition createBlobTreeKey :: "byte list \<Rightarrow> 64 word \<Rightarrow> byte list" where
  "createBlobTreeKey bs rowId = field BLOB_SIZE bs @ rowIdBytes rowId"

text \<open>The key of a value; a null pointer for SQL's null.\<close>

fun valueTreeKey :: "'db Sqlite \<Rightarrow> sqlite3_value \<Rightarrow> 64 word \<Rightarrow> byte list option" where
  "valueTreeKey S (SqlInteger i) rowId = Some (createIntTreeKey S (SqlInteger i) rowId)"
| "valueTreeKey S (SqlFloat d) rowId = Some (createFloatTreeKey S (SqlFloat d) rowId)"
| "valueTreeKey S (SqlText s) rowId = Some (createTextTreeKey s rowId)"
| "valueTreeKey S (SqlBlob bs) rowId = Some (createBlobTreeKey bs rowId)"
| "valueTreeKey S SqlNull rowId = None"

text \<open>
  Without a value the row id takes its place: \<open>memcpy(treeKey, &rowId, indexDataSize)\<close>, which reads
  past \<open>rowId\<close> when the field is wider, and copies an absurd number of bytes for the size \<open>-1\<close>.
\<close>

definition createTreeKey ::
  "Machine \<Rightarrow> 'db Sqlite \<Rightarrow> sqlite3_value option \<Rightarrow> 64 word \<Rightarrow> int \<Rightarrow> byte list option res" where
  "createTreeKey m S primaryKeyValue rowId indexDataSize =
     (case primaryKeyValue of
        None \<Rightarrow>
          if indexDataSize < 0 then Inl MemoryFault
          else Inr (Some (bytesAt (nat indexDataSize) (m_stack m) (rowIdBytes rowId) @ rowIdBytes rowId))
      | Some v \<Rightarrow> Inr (valueTreeKey S v rowId))"

text \<open>\<open>memcpy(&rowsIds[i], &keys[i][indexDataSize], sizeof(sqlite_int64))\<close>\<close>

definition rowIdOfKey :: "nat \<Rightarrow> byte list \<Rightarrow> 64 word" where
  "rowIdOfKey indexDataSize key = of_nat (le_dec (slice indexDataSize ROWID_SIZE key))"

section \<open>What a key keeps of the value\<close>

text \<open>The first field of a key, by the type of the value.\<close>

fun valueField :: "sqlite3_value \<Rightarrow> byte list" where
  "valueField (SqlInteger i) = le_enc 4 (unat (ucast i :: 32 word))"
| "valueField (SqlFloat d) = le_enc 8 (unat d)"
| "valueField (SqlText s) = field 256 (textBytes s)"
| "valueField (SqlBlob bs) = field 256 bs"
| "valueField SqlNull = []"

text \<open>A value has the type that the index was declared with, and the index its width.\<close>

definition typed :: "string \<Rightarrow> int \<Rightarrow> sqlite3_value \<Rightarrow> bool" where
  "typed dataType dataSize v \<longleftrightarrow>
     sqlite3_value_type v = getIntByDataType dataType \<and> dataSize = getDataSizeByType dataType \<and> v \<noteq> SqlNull"

lemma length_field [simp]: "length (field n bs) = n"
  by (simp add: field_def)

lemma length_rowIdBytes [simp]: "length (rowIdBytes r) = 8"
  by (simp add: rowIdBytes_def ROWID_SIZE_def)

lemma rowIdBytes_inverse: "of_nat (le_dec (rowIdBytes r)) = r"
proof -
  have "unat r < 256 ^ 8" using unsigned_less [of r, where ?'a = nat] by simp
  then show ?thesis by (simp add: rowIdBytes_def le_dec_enc ROWID_SIZE_def)
qed

lemma le_enc_inject: "le_enc w (unat (x :: 'a :: len word)) = le_enc w (unat y) \<longleftrightarrow> x = y" if "LENGTH('a) = 8 * w"
proof
  have lt: "unat z < 256 ^ w" for z :: "'a word"
    using unsigned_less [of z, where ?'a = nat] that by (simp add: power_mult)
  assume "le_enc w (unat x) = le_enc w (unat y)"
  then have "le_dec (le_enc w (unat x)) = le_dec (le_enc w (unat y))" by simp
  then show "x = y" using lt [of x] lt [of y] by (simp add: le_dec_enc) (rule unsigned_word_eqI)
qed simp

lemma uint_ucast_low: "uint (ucast x :: 32 word) = uint (x :: 64 word) mod 2 ^ 32"
  by (simp add: unsigned_ucast_eq take_bit_eq_mod)

lemma sint_ucast_low: "sint (ucast x :: 32 word) = signed_take_bit 31 (sint (x :: 64 word))"
proof (rule bit_eqI)
  fix n
  show "bit (sint (ucast x :: 32 word)) n = bit (signed_take_bit 31 (sint x)) n"
    by (cases "n = 31") (auto simp: bit_sint_iff bit_ucast_iff bit_signed_take_bit_iff min_def)
qed

lemma valueTreeKey_eq: "v \<noteq> SqlNull \<Longrightarrow> valueTreeKey S v r = Some (valueField v @ rowIdBytes r)"
  by (cases v) (simp_all add: createIntTreeKey_def createFloatTreeKey_def createTextTreeKey_def
      createBlobTreeKey_def key_sizes sqlite3_value_int_def)

lemma length_valueField:
  assumes "typed ty sz v"
  shows "int (length (valueField v)) = sz" "0 < sz"
  using assms by (cases v; simp add: typed_def getIntByDataType_def getDataSizeByType_def sqlite_types key_sizes split: if_splits)+

lemma rowIdOfKey_append: "n = length a \<Longrightarrow> rowIdOfKey n (a @ rowIdBytes r) = r"
  by (simp add: rowIdOfKey_def slice_def rowIdBytes_inverse ROWID_SIZE_def)

lemma typed_key:
  assumes "typed ty sz v"
  shows "valueTreeKey S v r = Some (valueField v @ rowIdBytes r)" "length (valueField v @ rowIdBytes r) = nat sz + 8"
    "rowIdOfKey (nat sz) (valueField v @ rowIdBytes r) = r"
proof -
  show "valueTreeKey S v r = Some (valueField v @ rowIdBytes r)"
    using assms by (simp add: typed_def valueTreeKey_eq)
  have l: "length (valueField v) = nat sz" using length_valueField(1) [OF assms] by simp
  then show "length (valueField v @ rowIdBytes r) = nat sz + 8" "rowIdOfKey (nat sz) (valueField v @ rowIdBytes r) = r"
    by (simp_all add: rowIdOfKey_append)
qed

lemma equalBytes_nth: "equalBytes x y i n \<longleftrightarrow> (\<forall>j < n. x ! (i + j) = y ! (i + j))"
proof (induction n arbitrary: i)
  case (Suc n)
  have "(\<forall>j < Suc n. x ! (i + j) = y ! (i + j)) \<longleftrightarrow> x ! i = y ! i \<and> (\<forall>j < n. x ! (i + 1 + j) = y ! (i + 1 + j))"
    by (auto simp: less_Suc_eq_0_disj)
  then show ?case using Suc [of "i + 1"] by simp
qed simp

lemma isEqual_append:
  assumes "length a = n" "length b = n" "n \<le> sz"
  shows "ByteComparator_isEqual n (a @ x) (b @ y) sz \<longleftrightarrow> a = b"
  using assms by (simp add: ByteComparator_isEqual_def equalBytes_nth nth_append min_absorb2 list_eq_iff_nth_eq)

end
