(* ===== verification/Mods_Table.thy ===== *)
theory Mods_Table
  imports Tree_Keys
begin

text \<open>
  The virtual table of the SQLite module (btrees_mods.c): its state, the tree file behind it, the
  choice of the kind of tree from the statistics, and the handlers that change rows.  A handler
  takes the table and the world (the C interface's static objects and files, the database) and
  returns its code with both; an exception of the library or an invalid access leaves it.
\<close>

section \<open>State\<close>

definition BTREE_NUM :: int where "BTREE_NUM = 1"
definition BPLUSTREE_NUM :: int where "BPLUSTREE_NUM = 2"
definition BSTARTREE_NUM :: int where "BSTARTREE_NUM = 3"
definition BSTARPLUSTREE_NUM :: int where "BSTARPLUSTREE_NUM = 4"
definition TREE_ORDER :: int where "TREE_ORDER = 750"

lemmas index_nums = BTREE_NUM_def BPLUSTREE_NUM_def BSTARTREE_NUM_def BSTARPLUSTREE_NUM_def

record indexParams =
  bestIndex :: int
  indexColNumber :: int
  indexColName :: string
  indexDataType :: string
  indexDataSize :: int
  treeFileName :: string

record indexStats =
  searchesCount :: int
  insertsCount :: int
  deletesCount :: int
  isOriginalStats :: bool

record btreesModsVirtualTable =
  vt_tableName :: string
  vt_tree :: "CTree option"
  vt_params :: indexParams
  vt_stats :: indexStats

record 'db ModWorld =
  mw_c :: CWorld
  mw_db :: 'db

section \<open>The tree of a table\<close>

definition treeTypeOf :: "int \<Rightarrow> TreeType option" where
  "treeTypeOf n =
     (if n = BTREE_NUM then Some B_TREE
      else if n = BPLUSTREE_NUM then Some B_PLUS_TREE
      else if n = BSTARTREE_NUM then Some B_STAR_TREE
      else if n = BSTARPLUSTREE_NUM then Some B_STAR_PLUS_TREE
      else None)"

definition createIndex ::
  "Machine \<Rightarrow> btreesModsVirtualTable \<Rightarrow> int \<Rightarrow> int \<Rightarrow> CWorld \<Rightarrow> (int \<times> btreesModsVirtualTable \<times> CWorld) res" where
  "createIndex m vt order keySize c =
     (case treeTypeOf (bestIndex (vt_params vt)) of
        None \<Rightarrow> Inr (ERROR_CODE, vt, c)
      | Some ty \<Rightarrow>
          bindR (c_create (m_ulongBits m) (vt_tree vt) ty (nat (order mod 2 ^ 16)) (nat (keySize mod 2 ^ 16))
                   (treeFileName (vt_params vt)) c) (\<lambda>(p, c).
          Inr (if p \<noteq> None then SQLITE_OK else ERROR_CODE, vt\<lparr>vt_tree := p\<rparr>, c)))"

definition openIndex ::
  "Machine \<Rightarrow> btreesModsVirtualTable \<Rightarrow> CWorld \<Rightarrow> (int \<times> btreesModsVirtualTable \<times> CWorld) res" where
  "openIndex m vt c =
     (case treeTypeOf (bestIndex (vt_params vt)) of
        None \<Rightarrow> Inr (ERROR_CODE, vt, c)
      | Some ty \<Rightarrow>
          bindR (c_open (m_ulongBits m) (vt_tree vt) ty (treeFileName (vt_params vt)) c) (\<lambda>(p, c).
          Inr (if p \<noteq> None then SQLITE_OK else ERROR_CODE, vt\<lparr>vt_tree := p\<rparr>, c)))"

text \<open>The table's tree where the code dereferences its pointer.\<close>

definition theTree :: "btreesModsVirtualTable \<Rightarrow> CTree res" where
  "theTree vt = (case vt_tree vt of None \<Rightarrow> Inl MemoryFault | Some ct \<Rightarrow> Inr ct)"

text \<open>
  The key that the tree reads through the given pointer: past the end of a short buffer it reads what
  follows on the heap.  A null key is harmless only while there is no key to compare it with.
\<close>

definition keyArg :: "Machine \<Rightarrow> CTree \<Rightarrow> byte list option \<Rightarrow> byte list res" where
  "keyArg m ct key =
     (let t = fb_tree (ct_file ct) in
      case key of
        Some k \<Rightarrow> Inr (if length k < t_recSize t then bytesAt (t_recSize t) (m_heap m) k else k)
      | None \<Rightarrow> if isLeaf (t_rootPage t) \<and> getKeysNum (t_rootPage t) = 0 then Inr [] else Inl MemoryFault)"

text \<open>An insertion copies the key into a page, so it reads it always.\<close>

definition insertArg :: "Machine \<Rightarrow> CTree \<Rightarrow> byte list option \<Rightarrow> byte list res" where
  "insertArg m ct key = (case key of None \<Rightarrow> Inl MemoryFault | Some k \<Rightarrow> keyArg m ct (Some k))"

text \<open>\<open>byteComparator.firstPartBytes = indexDataSize\<close>, an unsigned 32-bit field.\<close>

definition setByteWidth :: "int \<Rightarrow> CWorld \<Rightarrow> CWorld" where
  "setByteWidth sz c = c\<lparr>w_byteComparator := nat (sz mod 2 ^ 32)\<rparr>"

definition setSearchAllWidth :: "int \<Rightarrow> CWorld \<Rightarrow> CWorld" where
  "setSearchAllWidth sz c = c\<lparr>w_searchAllByteComparator := nat (sz mod 2 ^ 32)\<rparr>"

section \<open>Rebuilding the index\<close>

fun insertKeys :: "CWorld \<Rightarrow> CTree \<Rightarrow> byte list list \<Rightarrow> CTree res" where
  "insertKeys c ct [] = Inr ct"
| "insertKeys c ct (k # ks) = bindR (c_insert c ct k) (\<lambda>ct. insertKeys c ct ks)"

definition removeFile :: "string \<Rightarrow> CWorld \<Rightarrow> CWorld" where
  "removeFile name c = c\<lparr>w_fs := fs_remove name (w_fs c)\<rparr>"

definition quoted :: "string \<Rightarrow> string" where
  "quoted s = CHR 0x22 # s @ [CHR 0x22]"

text \<open>The second half: a new file of the chosen kind, the keys one by one, the table of the indexes.\<close>

definition refillIndex ::
  "Machine \<Rightarrow> 'db Sqlite \<Rightarrow> btreesModsVirtualTable \<Rightarrow> byte list list \<Rightarrow> 'db ModWorld \<Rightarrow>
   (btreesModsVirtualTable \<times> 'db ModWorld) res" where
  "refillIndex m S vt keys w =
     (let p = vt_params vt in
      bindR (createIndex m vt TREE_ORDER (indexDataSize p + int ROWID_SIZE) (mw_c w)) (\<lambda>(rc, vt, c).
      bindR (if keys = [] then Inr vt
             else bindR (theTree vt) (\<lambda>ct.
                  bindR (insertKeys c ct keys) (\<lambda>ct. Inr (vt\<lparr>vt_tree := Some ct\<rparr>)))) (\<lambda>vt.
      let (rc, db) = executeSqlAndFinalize S (mw_db w)
            (Some (''UPDATE btrees_mods_idxinfo SET bestIndex = '' @ decimal (bestIndex p) @
                   '' WHERE tableName = '' @ quoted (vt_tableName vt) @ '';'')) in
      Inr (vt, \<lparr>mw_c = c, mw_db = db\<rparr>))))"

definition rebuildIndex ::
  "Machine \<Rightarrow> 'db Sqlite \<Rightarrow> btreesModsVirtualTable \<Rightarrow> 'db ModWorld \<Rightarrow> (btreesModsVirtualTable \<times> 'db ModWorld) res" where
  "rebuildIndex m S vt w =
     (let p = vt_params vt; c = setSearchAllWidth (indexDataSize p) (mw_c w) in
      bindR (theTree vt) (\<lambda>ct.
      bindR (createTreeKey m S None 0 (indexDataSize p)) (\<lambda>key.
      bindR (keyArg m ct key) (\<lambda>key.
      bindR (c_searchAll c (setSearchAllByteComparator ct) key) (\<lambda>(keysCount, keys, ct).
      let c = removeFile (treeFileName p) (snd (c_close (Some (setByteComparator ct)) c)) in
      refillIndex m S (vt\<lparr>vt_tree := None\<rparr>) (take keysCount keys) (w\<lparr>mw_c := c\<rparr>))))))"

definition REBUILD_COUNT :: int where "REBUILD_COUNT = 1000"
definition REBUILD_MAX_COUNT :: int where "REBUILD_MAX_COUNT = 10000"

text \<open>
  The decision.  \<open>REBUILD_COEF\<close> is 0.1 and \<open>REBUILD_SPLIT_PERCENT_POINT\<close> 0.7397; the total is a
  multiple of 1000 of at most 10000 where they are used, and for such counts the rounded products
  of the code compare like the exact ones, so the comparisons are written with integers.
\<close>

definition rebuildTo :: "indexStats \<Rightarrow> int option" where
  "rebuildTo st =
     (let updatesCount = insertsCount st + deletesCount st;
          totalOperationsCount = updatesCount + searchesCount st in
      if \<not> isOriginalStats st then None
      else if totalOperationsCount = 0 then None
      else if totalOperationsCount > REBUILD_MAX_COUNT then None
      else if totalOperationsCount mod REBUILD_COUNT \<noteq> 0 then None
      else if 10 * updatesCount < totalOperationsCount then None
      else if 10000 * insertsCount st > 7397 * updatesCount then Some BSTARTREE_NUM
      else Some BSTARPLUSTREE_NUM)"

definition rebuildIndexIfNecessary ::
  "Machine \<Rightarrow> 'db Sqlite \<Rightarrow> btreesModsVirtualTable \<Rightarrow> 'db ModWorld \<Rightarrow> (btreesModsVirtualTable \<times> 'db ModWorld) res" where
  "rebuildIndexIfNecessary m S vt w =
     (case rebuildTo (vt_stats vt) of
        None \<Rightarrow> Inr (vt, w)
      | Some n \<Rightarrow>
          let oldBestIndex = bestIndex (vt_params vt);
              vt = vt\<lparr>vt_params := (vt_params vt)\<lparr>bestIndex := n\<rparr>\<rparr> in
          if n \<noteq> oldBestIndex then rebuildIndex m S vt w else Inr (vt, w))"

section \<open>Changing rows\<close>

definition count_insert :: "btreesModsVirtualTable \<Rightarrow> btreesModsVirtualTable" where
  "count_insert vt = vt\<lparr>vt_stats := (vt_stats vt)\<lparr>insertsCount := insertsCount (vt_stats vt) + 1\<rparr>\<rparr>"

definition count_delete :: "btreesModsVirtualTable \<Rightarrow> btreesModsVirtualTable" where
  "count_delete vt = vt\<lparr>vt_stats := (vt_stats vt)\<lparr>deletesCount := deletesCount (vt_stats vt) + 1\<rparr>\<rparr>"

definition count_search :: "btreesModsVirtualTable \<Rightarrow> btreesModsVirtualTable" where
  "count_search vt = vt\<lparr>vt_stats := (vt_stats vt)\<lparr>searchesCount := searchesCount (vt_stats vt) + 1\<rparr>\<rparr>"

definition realTable :: "btreesModsVirtualTable \<Rightarrow> string" where
  "realTable vt = vt_tableName vt @ ''_real''"

definition argAt :: "sqlite3_value list \<Rightarrow> int \<Rightarrow> sqlite3_value res" where
  "argAt argv i = (if 0 \<le> i \<and> i < int (length argv) then Inr (argv ! nat i) else Inl MemoryFault)"

definition getRowId ::
  "'db Sqlite \<Rightarrow> btreesModsVirtualTable \<Rightarrow> sqlite3_value \<Rightarrow> 'db \<Rightarrow> (64 word \<times> 'db) res" where
  "getRowId S vt primaryKeyValue db =
     bindR (convertSqliteValueToString S primaryKeyValue) (\<lambda>strValue.
     let (rc, stmt, db) = executeSql S db
           (Some (''SELECT rowid FROM '' @ realTable vt @ '' WHERE '' @ indexColName (vt_params vt) @
                  '' = '' @ strValue @ '';'')) in
     Inr (sqlite3_value_int64 S (sqlite3_column_value stmt 0), db))"

text \<open>The key of a row goes into the tree: \<open>insert(tree, createTreeKey(value, rowId, table))\<close>.\<close>

definition indexRow ::
  "Machine \<Rightarrow> 'db Sqlite \<Rightarrow> CWorld \<Rightarrow> btreesModsVirtualTable \<Rightarrow> sqlite3_value \<Rightarrow> 64 word \<Rightarrow> btreesModsVirtualTable res" where
  "indexRow m S c vt value rowId =
     bindR (createTreeKey m S (Some value) rowId (indexDataSize (vt_params vt))) (\<lambda>key.
     bindR (theTree vt) (\<lambda>ct.
     bindR (insertArg m ct key) (\<lambda>k.
     bindR (c_insert c ct k) (\<lambda>ct. Inr (vt\<lparr>vt_tree := Some ct\<rparr>)))))"

text \<open>\<open>removeKey(tree, createTreeKey(value, table))\<close>, with row id 0 in the key.\<close>

definition unindexValue ::
  "Machine \<Rightarrow> 'db Sqlite \<Rightarrow> CWorld \<Rightarrow> btreesModsVirtualTable \<Rightarrow> sqlite3_value \<Rightarrow> (bool \<times> btreesModsVirtualTable) res" where
  "unindexValue m S c vt value =
     bindR (createTreeKey m S (Some value) 0 (indexDataSize (vt_params vt))) (\<lambda>key.
     bindR (theTree vt) (\<lambda>ct.
     bindR (keyArg m ct key) (\<lambda>k.
     bindR (c_removeKey c ct k) (\<lambda>(removed, ct). Inr (removed, vt\<lparr>vt_tree := Some ct\<rparr>)))))"

text \<open>The values from the second column on: \<open>, v\<close> for each.\<close>

fun commaValues :: "'db Sqlite \<Rightarrow> sqlite3_value list \<Rightarrow> string res" where
  "commaValues S [] = Inr []"
| "commaValues S (v # vs) =
     bindR (convertSqliteValueToString S v) (\<lambda>s. bindR (commaValues S vs) (\<lambda>r. Inr ('', '' @ s @ r)))"

definition insertSql :: "btreesModsVirtualTable \<Rightarrow> string \<Rightarrow> string \<Rightarrow> string" where
  "insertSql vt first rest = ''INSERT INTO '' @ realTable vt @ '' VALUES ('' @ first @ rest @ '');''"

definition btreesModsInsert ::
  "Machine \<Rightarrow> 'db Sqlite \<Rightarrow> btreesModsVirtualTable \<Rightarrow> sqlite3_value list \<Rightarrow> 64 word \<Rightarrow> 'db ModWorld \<Rightarrow>
   (int \<times> 64 word \<times> btreesModsVirtualTable \<times> 'db ModWorld) res" where
  "btreesModsInsert m S vt argv pRowid w =
     bindR (rebuildIndexIfNecessary m S vt w) (\<lambda>(vt, w).
     bindR (argAt argv (indexColNumber (vt_params vt) + 2)) (\<lambda>keyValue.
     if sqlite3_value_type keyValue \<noteq> getIntByDataType (indexDataType (vt_params vt))
     then Inr (SQLITE_MISMATCH, pRowid, vt, w)
     else
       bindR (bindR (argAt argv 2) (convertSqliteValueToString S)) (\<lambda>first.
       bindR (commaValues S (drop 3 argv)) (\<lambda>rest.
       let (rc, db) = executeSqlAndFinalize S (mw_db w) (Some (insertSql vt first rest)) in
       if rc \<noteq> 0 then Inr (rc, pRowid, vt, w\<lparr>mw_db := db\<rparr>)
       else
         bindR (getRowId S vt keyValue db) (\<lambda>(rowId, db).
         let c = setByteWidth (indexDataSize (vt_params vt)) (mw_c w) in
         bindR (indexRow m S c vt keyValue rowId) (\<lambda>vt.
         Inr (rc, rowId, count_insert vt, \<lparr>mw_c = c, mw_db = db\<rparr>)))))))"

definition btreesModsDelete ::
  "Machine \<Rightarrow> 'db Sqlite \<Rightarrow> btreesModsVirtualTable \<Rightarrow> sqlite3_value \<Rightarrow> 64 word \<Rightarrow> 'db ModWorld \<Rightarrow>
   (int \<times> 64 word \<times> btreesModsVirtualTable \<times> 'db ModWorld) res" where
  "btreesModsDelete m S vt primaryKeyValue pRowid w =
     bindR (convertSqliteValueToString S primaryKeyValue) (\<lambda>strValue.
     let (rc, db) = executeSqlAndFinalize S (mw_db w)
           (Some (''DELETE FROM '' @ realTable vt @ '' WHERE '' @ indexColName (vt_params vt) @
                  '' = '' @ strValue @ '';'')) in
     if rc \<noteq> 0 then Inr (rc, pRowid, vt, w\<lparr>mw_db := db\<rparr>)
     else
       let c = setByteWidth (indexDataSize (vt_params vt)) (mw_c w) in
       bindR (unindexValue m S c vt primaryKeyValue) (\<lambda>(removed, vt).
       bindR (getRowId S vt primaryKeyValue db) (\<lambda>(rowId, db).
       Inr (if removed then 0 else 1, rowId, count_delete vt, \<lparr>mw_c = c, mw_db = db\<rparr>))))"

text \<open>\<open>, column = value\<close> for the values from the second column on; a missing name prints as nothing.\<close>

definition columnText :: "Stmt option \<Rightarrow> nat \<Rightarrow> string" where
  "columnText stmt i = (case sqlite3_column_name stmt i of None \<Rightarrow> [] | Some s \<Rightarrow> s)"

fun assignments :: "'db Sqlite \<Rightarrow> Stmt option \<Rightarrow> nat \<Rightarrow> sqlite3_value list \<Rightarrow> string res" where
  "assignments S stmt i [] = Inr []"
| "assignments S stmt i (v # vs) =
     bindR (convertSqliteValueToString S v) (\<lambda>s.
     bindR (assignments S stmt (i + 1) vs) (\<lambda>r. Inr ('', '' @ columnText stmt i @ '' = '' @ s @ r)))"

definition textOf :: "'db Sqlite \<Rightarrow> sqlite3_value \<Rightarrow> string res" where
  "textOf S v = (case sqlite3_value_text S v of None \<Rightarrow> Inl MemoryFault | Some s \<Rightarrow> Inr (c_string s))"

text \<open>The second half of an update: the key moves when the text of the indexed value changes.\<close>

definition moveKey ::
  "Machine \<Rightarrow> 'db Sqlite \<Rightarrow> btreesModsVirtualTable \<Rightarrow> sqlite3_value \<Rightarrow> sqlite3_value \<Rightarrow> 64 word \<Rightarrow> 'db ModWorld \<Rightarrow>
   (int \<times> btreesModsVirtualTable \<times> 'db ModWorld) res" where
  "moveKey m S vt oldValue newValue rowId w =
     bindR (textOf S oldValue) (\<lambda>oldText.
     bindR (textOf S newValue) (\<lambda>newText.
     if oldText = newText then Inr (SQLITE_OK, vt, w)
     else
       let c = setByteWidth (indexDataSize (vt_params vt)) (mw_c w) in
       bindR (unindexValue m S c vt oldValue) (\<lambda>(removed, vt).
       let vt = count_delete vt; w = w\<lparr>mw_c := c\<rparr> in
       if \<not> removed then Inr (1, vt, w)
       else bindR (indexRow m S c vt newValue rowId) (\<lambda>vt. Inr (0, count_insert vt, w)))))"

text \<open>\<open>sqlite3_finalize\<close> gives the result of the last step, which is a success where the code gets to it.\<close>

definition btreesModsDoUpdate ::
  "Machine \<Rightarrow> 'db Sqlite \<Rightarrow> btreesModsVirtualTable \<Rightarrow> sqlite3_value list \<Rightarrow> 64 word \<Rightarrow> 'db ModWorld \<Rightarrow>
   (int \<times> 64 word \<times> btreesModsVirtualTable \<times> 'db ModWorld) res" where
  "btreesModsDoUpdate m S vt argv pRowid w =
     bindR (argAt argv (indexColNumber (vt_params vt) + 2)) (\<lambda>newValue.
     if sqlite3_value_type newValue \<noteq> getIntByDataType (indexDataType (vt_params vt))
     then Inr (SQLITE_MISMATCH, pRowid, vt, w)
     else
       let (rc, stmt, db) = executeSql S (mw_db w) (Some (''SELECT * FROM '' @ realTable vt @ '';'')) in
       if rc \<noteq> 0 then Inr (rc, pRowid, vt, w\<lparr>mw_db := db\<rparr>)
       else
         bindR (bindR (argAt argv 2) (convertSqliteValueToString S)) (\<lambda>first.
         bindR (assignments S stmt 1 (drop 3 argv)) (\<lambda>rest.
         bindR (argAt argv 0) (\<lambda>oldValue.
         bindR (convertSqliteValueToString S oldValue) (\<lambda>old.
         let (rc, db) = executeSqlAndFinalize S db
               (Some (''UPDATE '' @ realTable vt @ '' SET '' @ columnText stmt 0 @ '' = '' @ first @ rest @
                      '' WHERE '' @ indexColName (vt_params vt) @ '' = '' @ old @ '';'')) in
         if rc \<noteq> 0 then Inr (rc, pRowid, vt, w\<lparr>mw_db := db\<rparr>)
         else
           bindR (getRowId S vt newValue db) (\<lambda>(rowId, db).
           bindR (moveKey m S vt oldValue newValue rowId (w\<lparr>mw_db := db\<rparr>)) (\<lambda>(rc, vt, w).
           Inr (rc, rowId, vt, w))))))))"

definition btreesModsUpdate ::
  "Machine \<Rightarrow> 'db Sqlite \<Rightarrow> btreesModsVirtualTable \<Rightarrow> sqlite3_value list \<Rightarrow> 64 word \<Rightarrow> 'db ModWorld \<Rightarrow>
   (int \<times> 64 word \<times> btreesModsVirtualTable \<times> 'db ModWorld) res" where
  "btreesModsUpdate m S vt argv pRowid w =
     (if length argv = 1 \<and> sqlite3_value_type (argv ! 0) \<noteq> SQLITE_NULL
      then btreesModsDelete m S vt (argv ! 0) pRowid w
      else if length argv > 1 \<and> sqlite3_value_type (argv ! 0) = SQLITE_NULL
      then btreesModsInsert m S vt argv pRowid w
      else if length argv > 1 \<and> sqlite3_value_type (argv ! 0) \<noteq> SQLITE_NULL
      then btreesModsDoUpdate m S vt argv pRowid w
      else Inr (- 1, pRowid, vt, w))"

end
