(* ===== verification/Mods_Cursor.thy ===== *)
theory Mods_Cursor
  imports Mods_Table
begin

text \<open>
  Reading a virtual table (btrees_mods.c): the planner's callback \<open>btreesModsBestIndex\<close>, the cursor
  with the row ids that a search has found, and the loop in which SQLite uses it (\<open>cursor_step\<close>:
  while not at the end, take the row id, go to the next).
\<close>

section \<open>Planning\<close>

record IndexConstraint =
  ic_iColumn :: int
  ic_op :: nat
  ic_usable :: bool

text \<open>\<open>idxStr\<close> keeps a column number and an operator per constraint, in one byte each.\<close>

definition constraintBytes :: "IndexConstraint \<Rightarrow> byte list" where
  "constraintBytes k = [of_int (ic_iColumn k), of_nat (ic_op k)]"

record IndexPlan =
  ip_idxNum :: int
  ip_idxStr :: "byte list"
  ip_usage :: "(nat \<times> bool) list"

definition btreesModsBestIndex ::
  "Machine \<Rightarrow> 'db Sqlite \<Rightarrow> btreesModsVirtualTable \<Rightarrow> IndexConstraint list \<Rightarrow> 'db ModWorld \<Rightarrow>
   (int \<times> IndexPlan \<times> btreesModsVirtualTable \<times> 'db ModWorld) res" where
  "btreesModsBestIndex m S vt constraints w =
     bindR (rebuildIndexIfNecessary m S vt w) (\<lambda>(vt, w).
     Inr (SQLITE_OK,
          \<lparr>ip_idxNum = bestIndex (vt_params vt),
           ip_idxStr = concat (map constraintBytes constraints),
           ip_usage = map (\<lambda>i. (i + 1, ic_usable (constraints ! i))) [0..<length constraints]\<rparr>,
          vt, w))"

section \<open>Cursors\<close>

definition ROWID_IDX_EOF :: int where "ROWID_IDX_EOF = - 1"

record btreesModsCursor =
  cur_rowsIds :: "64 word list"
  cur_currentRowIdIdx :: int
  cur_rowsIdsCount :: int

definition btreesModsOpen :: btreesModsCursor where
  "btreesModsOpen = \<lparr>cur_rowsIds = [], cur_currentRowIdIdx = ROWID_IDX_EOF, cur_rowsIdsCount = 0\<rparr>"

definition rowsIdsOf :: "int \<Rightarrow> byte list list \<Rightarrow> 64 word list res" where
  "rowsIdsOf sz keys = (if sz < 0 then Inl MemoryFault else Inr (map (rowIdOfKey (nat sz)) keys))"

definition btreesModsHandleConstraintEq ::
  "Machine \<Rightarrow> 'db Sqlite \<Rightarrow> btreesModsVirtualTable \<Rightarrow> sqlite3_value \<Rightarrow> btreesModsCursor \<Rightarrow> CWorld \<Rightarrow>
   (int \<times> btreesModsCursor \<times> btreesModsVirtualTable \<times> CWorld) res" where
  "btreesModsHandleConstraintEq m S vt exprValue cursor c =
     (let sz = indexDataSize (vt_params vt); c = setByteWidth sz c in
      bindR (createTreeKey m S (Some exprValue) 0 sz) (\<lambda>searchedKey.
      bindR (theTree vt) (\<lambda>ct.
      bindR (keyArg m ct searchedKey) (\<lambda>k.
      bindR (c_searchAll c ct k) (\<lambda>(keysCount, keys, ct).
      let vt = count_search (vt\<lparr>vt_tree := Some ct\<rparr>);
          cursor = cursor\<lparr>cur_rowsIdsCount := int keysCount\<rparr> in
      if keysCount = 0 then Inr (SQLITE_OK, cursor, vt, c)
      else
        bindR (rowsIdsOf sz (take keysCount keys)) (\<lambda>ids.
        Inr (SQLITE_OK, cursor\<lparr>cur_rowsIds := ids, cur_currentRowIdIdx := 0\<rparr>, vt, c)))))))"

text \<open>For another column than the indexed one, control leaves the function without a \<open>return\<close>.\<close>

definition btreesModsHandleConstraint ::
  "Machine \<Rightarrow> 'db Sqlite \<Rightarrow> btreesModsVirtualTable \<Rightarrow> int \<Rightarrow> nat \<Rightarrow> sqlite3_value \<Rightarrow> btreesModsCursor \<Rightarrow> CWorld \<Rightarrow>
   (int \<times> btreesModsCursor \<times> btreesModsVirtualTable \<times> CWorld) res" where
  "btreesModsHandleConstraint m S vt columnNum operation exprValue cursor c =
     (if columnNum = indexColNumber (vt_params vt)
      then if operation = SQLITE_INDEX_CONSTRAINT_EQ then btreesModsHandleConstraintEq m S vt exprValue cursor c
           else Inr (SQLITE_MISUSE, cursor, vt, c)
      else Inl NoReturnValue)"

text \<open>The loop over the arguments, with the rest of \<open>idxStr\<close>.\<close>

fun filterLoop ::
  "Machine \<Rightarrow> 'db Sqlite \<Rightarrow> btreesModsVirtualTable \<Rightarrow> byte list \<Rightarrow> sqlite3_value list \<Rightarrow> btreesModsCursor \<Rightarrow> CWorld \<Rightarrow>
   (int \<times> btreesModsCursor \<times> btreesModsVirtualTable \<times> CWorld) res" where
  "filterLoop m S vt idxStr [] cursor c = Inr (SQLITE_MISUSE, cursor, vt, c)"
| "filterLoop m S vt (column # operation # idxStr) (v # argv) cursor c =
     bindR (btreesModsHandleConstraint m S vt (sint column) (unat operation) v cursor c) (\<lambda>(rc, cursor, vt, c).
     if cur_currentRowIdIdx cursor \<ge> 0 then Inr (rc, cursor, vt, c)
     else if cur_rowsIdsCount cursor \<ge> 0 then Inr (rc, cursor, vt, c)
     else if rc \<noteq> 0 then Inr (rc, cursor, vt, c)
     else filterLoop m S vt idxStr argv cursor c)"
| "filterLoop m S vt idxStr argv cursor c = Inl MemoryFault"

definition btreesModsFilter ::
  "Machine \<Rightarrow> 'db Sqlite \<Rightarrow> btreesModsVirtualTable \<Rightarrow> byte list \<Rightarrow> sqlite3_value list \<Rightarrow> btreesModsCursor \<Rightarrow>
   'db ModWorld \<Rightarrow> (int \<times> btreesModsCursor \<times> btreesModsVirtualTable \<times> 'db ModWorld) res" where
  "btreesModsFilter m S vt idxStr argv cursor w =
     bindR (filterLoop m S vt idxStr argv (cursor\<lparr>cur_rowsIdsCount := - 1, cur_currentRowIdIdx := - 1\<rparr>) (mw_c w))
       (\<lambda>(rc, cursor, vt, c). Inr (rc, cursor, vt, w\<lparr>mw_c := c\<rparr>))"

definition btreesModsNext :: "btreesModsCursor \<Rightarrow> btreesModsCursor" where
  "btreesModsNext cursor =
     (if cur_currentRowIdIdx cursor = ROWID_IDX_EOF then cursor
      else if cur_currentRowIdIdx cursor = cur_rowsIdsCount cursor - 1
      then cursor\<lparr>cur_currentRowIdIdx := ROWID_IDX_EOF\<rparr>
      else cursor\<lparr>cur_currentRowIdIdx := cur_currentRowIdIdx cursor + 1\<rparr>)"

definition btreesModsEof :: "btreesModsCursor \<Rightarrow> bool" where
  "btreesModsEof cursor \<longleftrightarrow> cur_currentRowIdIdx cursor = ROWID_IDX_EOF"

definition currentRowId :: "btreesModsCursor \<Rightarrow> 64 word res" where
  "currentRowId cursor =
     (let i = cur_currentRowIdIdx cursor in
      if 0 \<le> i \<and> i < int (length (cur_rowsIds cursor)) then Inr (cur_rowsIds cursor ! nat i) else Inl MemoryFault)"

text \<open>At the end \<open>pRowid = NULL\<close> sets the local pointer: the caller's variable keeps its value.\<close>

definition btreesModsRowid :: "btreesModsCursor \<Rightarrow> 64 word \<Rightarrow> (int \<times> 64 word) res" where
  "btreesModsRowid cursor pRowid =
     (if cur_currentRowIdIdx cursor = ROWID_IDX_EOF then Inr (SQLITE_OK, pRowid)
      else bindR (currentRowId cursor) (\<lambda>r. Inr (SQLITE_OK, r)))"

text \<open>\<open>%d\<close> prints an \<open>int\<close>: the low 32 bits of the row id.\<close>

definition columnSql :: "btreesModsVirtualTable \<Rightarrow> 64 word \<Rightarrow> string" where
  "columnSql vt r = ''SELECT * FROM '' @ realTable vt @ '' WHERE rowid = '' @ decimal (sint (ucast r :: 32 word)) @ '';''"

definition btreesModsColumn ::
  "'db Sqlite \<Rightarrow> btreesModsVirtualTable \<Rightarrow> btreesModsCursor \<Rightarrow> nat \<Rightarrow> 'db \<Rightarrow> (int \<times> sqlite3_value option \<times> 'db) res" where
  "btreesModsColumn S vt cursor n db =
     bindR (currentRowId cursor) (\<lambda>r.
     let (rc, stmt, db) = executeSql S db (Some (columnSql vt r)) in
     Inr (if rc \<noteq> 0 then (rc, None, db) else (SQLITE_OK, Some (sqlite3_column_value stmt n), db)))"

section \<open>The loop over a cursor\<close>

text \<open>One turn of SQLite's loop over a cursor: the row id it reads, the cursor after it.\<close>

inductive cursor_step :: "btreesModsCursor \<Rightarrow> 64 word \<Rightarrow> btreesModsCursor \<Rightarrow> bool" where
  "\<not> btreesModsEof cur \<Longrightarrow> btreesModsRowid cur 0 = Inr (SQLITE_OK, r) \<Longrightarrow> cursor_step cur r (btreesModsNext cur)"

inductive cursor_run :: "btreesModsCursor \<Rightarrow> 64 word list \<Rightarrow> btreesModsCursor \<Rightarrow> bool" where
  run_end: "btreesModsEof cur \<Longrightarrow> cursor_run cur [] cur"
| run_step: "cursor_step cur r cur' \<Longrightarrow> cursor_run cur' rs cur'' \<Longrightarrow> cursor_run cur (r # rs) cur''"

inductive_cases cursor_stepE: "cursor_step cur r cur'"
inductive_cases cursor_runE: "cursor_run cur rs cur'"
inductive_simps cursor_step_iff: "cursor_step cur r cur'"

text \<open>The states of a cursor: at the end, or at one of the row ids that it counts.\<close>

definition cursorOk :: "btreesModsCursor \<Rightarrow> bool" where
  "cursorOk cur \<longleftrightarrow>
     cur_currentRowIdIdx cur = - 1 \<or>
     0 \<le> cur_currentRowIdIdx cur \<and> cur_currentRowIdIdx cur < cur_rowsIdsCount cur \<and>
     cur_rowsIdsCount cur = int (length (cur_rowsIds cur))"

text \<open>The row ids that are still to come.\<close>

definition remaining :: "btreesModsCursor \<Rightarrow> 64 word list" where
  "remaining cur =
     (if cur_currentRowIdIdx cur = - 1 then [] else drop (nat (cur_currentRowIdIdx cur)) (cur_rowsIds cur))"

lemma cursor_next:
  assumes "cursorOk cur" "\<not> btreesModsEof cur"
  shows "cursorOk (btreesModsNext cur)" "\<exists>r. cursor_step cur r (btreesModsNext cur) \<and> remaining cur = r # remaining (btreesModsNext cur)"
proof -
  let ?i = "cur_currentRowIdIdx cur" and ?ids = "cur_rowsIds cur"
  have i: "0 \<le> ?i" "?i < int (length ?ids)" "cur_rowsIdsCount cur = int (length ?ids)"
    using assms by (auto simp: cursorOk_def btreesModsEof_def ROWID_IDX_EOF_def)
  show "cursorOk (btreesModsNext cur)" using i by (auto simp: cursorOk_def btreesModsNext_def ROWID_IDX_EOF_def)
  have d: "drop (nat ?i) ?ids = ?ids ! nat ?i # drop (Suc (nat ?i)) ?ids"
    using i by (intro Cons_nth_drop_Suc [symmetric]) simp
  have n: "Suc (nat ?i) = nat (?i + 1)" using i(1) by simp
  have "remaining (btreesModsNext cur) = drop (Suc (nat ?i)) ?ids"
  proof (cases "?i = int (length ?ids) - 1")
    case True
    then have "length ?ids \<le> Suc (nat ?i)" by simp
    then show ?thesis using True i by (simp add: remaining_def btreesModsNext_def ROWID_IDX_EOF_def)
  next
    case False
    then show ?thesis using i n by (simp add: remaining_def btreesModsNext_def ROWID_IDX_EOF_def)
  qed
  moreover have "cursor_step cur (?ids ! nat ?i) (btreesModsNext cur)"
    using assms(2) i by (intro cursor_step.intros) (simp_all add: btreesModsRowid_def currentRowId_def btreesModsEof_def)
  ultimately show "\<exists>r. cursor_step cur r (btreesModsNext cur) \<and> remaining cur = r # remaining (btreesModsNext cur)"
    using d i(1) by (auto simp: remaining_def)
qed

lemma cursor_eof: "cursorOk cur \<Longrightarrow> btreesModsEof cur \<longleftrightarrow> remaining cur = []"
  by (auto simp: cursorOk_def btreesModsEof_def ROWID_IDX_EOF_def remaining_def)

text \<open>The loop ends, and it has read each remaining row id once, in order.\<close>

lemma cursor_run_complete:
  "cursorOk cur \<Longrightarrow> \<exists>cur'. cursor_run cur (remaining cur) cur' \<and> btreesModsEof cur'"
proof (induction "remaining cur" arbitrary: cur)
  case Nil
  then show ?case using cursor_eof [of cur] run_end by auto
next
  case (Cons r rs)
  have "\<not> btreesModsEof cur" using cursor_eof [OF Cons.prems] Cons.hyps(2) by (metis list.distinct(1))
  from cursor_next [OF Cons.prems this] Cons.hyps(1) [of "btreesModsNext cur"] Cons.hyps(2) show ?case
    using run_step by fastforce
qed

lemma cursor_run_unique: "cursor_run cur rs cur' \<Longrightarrow> cursorOk cur \<Longrightarrow> rs = remaining cur \<and> btreesModsEof cur'"
proof (induction rule: cursor_run.induct)
  case (run_end cur)
  then show ?case using cursor_eof by simp
next
  case (run_step cur r cur' rs cur'')
  then have e: "\<not> btreesModsEof cur" "cur' = btreesModsNext cur" by (auto elim: cursor_stepE)
  from cursor_next [OF run_step.prems e(1)] obtain r' where
    "cursorOk cur'" "cursor_step cur r' cur'" "remaining cur = r' # remaining cur'" using e(2) by blast
  moreover from this(2) run_step.hyps(1) have "r' = r" by (auto elim!: cursor_stepE)
  ultimately show ?case using run_step.IH by simp
qed

end
