(* ===== verification/Mods_Module.thy ===== *)
theory Mods_Module
  imports Mods_Cursor
begin

text \<open>
  The life of a virtual table of the SQLite module (btrees_mods.c): creating it with its tree
  file and its row in \<open>btrees_mods_idxinfo\<close>, connecting to it again, renaming, disconnecting and
  destroying it, the SQL functions of the module, and its registration.
\<close>

section \<open>Registering the index column\<close>

text \<open>\<open>copyString\<close> takes the length of its source: a null pointer faults.\<close>

definition copyString :: "string option \<Rightarrow> string res" where
  "copyString source = (case source of None \<Rightarrow> Inl MemoryFault | Some s \<Rightarrow> Inr (c_string s))"

text \<open>The file name from a random number and the time in seconds.\<close>

definition getTreeFileName :: "int \<Rightarrow> int \<Rightarrow> string" where
  "getTreeFileName rand time = ''tree_'' @ decimal rand @ decimal time @ ''.btree''"

text \<open>The loop over the columns: the first one of the primary key becomes the index column.\<close>

fun findIndexColumn ::
  "'db Sqlite \<Rightarrow> 'db \<Rightarrow> string \<Rightarrow> string list \<Rightarrow> int \<Rightarrow> indexParams \<Rightarrow> (int \<times> indexParams) res" where
  "findIndexColumn S db tableName [] i p = Inr (SQLITE_OK, p)"
| "findIndexColumn S db tableName (columnName # columns) i p =
     (let (rc, dataType, primaryKey) = sq_column_metadata S (tableName @ ''_real'') columnName db in
      if rc \<noteq> 0 then Inr (rc, p)
      else if primaryKey
      then bindR (copyString dataType) (\<lambda>dataType.
           Inr (rc, p\<lparr>indexColNumber := i, indexColName := columnName, indexDataType := dataType,
                      indexDataSize := getDataSizeByType dataType\<rparr>))
      else findIndexColumn S db tableName columns (i + 1) p)"

definition idxinfoSchema :: string where
  "idxinfoSchema =
     ''CREATE TABLE IF NOT EXISTS btrees_mods_idxinfo('' @ ''tableName TEXT PRIMARY KEY, '' @
     ''bestIndex INTEGER, '' @ ''indexColNumber INTEGER, '' @ ''indexColName TEXT, '' @
     ''indexDataType TEXT, '' @ ''indexDataSize INTEGER, '' @ ''treeFileName TEXT);''"

definition idxinfoRow :: "string \<Rightarrow> indexParams \<Rightarrow> string" where
  "idxinfoRow tableName p =
     ''INSERT INTO btrees_mods_idxinfo VALUES ('' @ quoted tableName @ '', '' @ decimal (bestIndex p) @
     '', '' @ decimal (indexColNumber p) @ '', '' @ quoted (indexColName p) @ '', '' @ quoted (indexDataType p) @
     '', '' @ decimal (indexDataSize p) @ '', '' @ quoted (treeFileName p) @ '');''"

definition defaultParams :: "string \<Rightarrow> indexParams" where
  "defaultParams fileName =
     \<lparr>bestIndex = BPLUSTREE_NUM, indexColNumber = - 1, indexColName = ''rowid'', indexDataType = ''INTEGER'',
      indexDataSize = getDataSizeByType ''INTEGER'', treeFileName = fileName\<rparr>"

definition registerIndexColumn ::
  "'db Sqlite \<Rightarrow> 'db \<Rightarrow> string list \<Rightarrow> string \<Rightarrow> string \<Rightarrow> indexParams \<Rightarrow> (int \<times> indexParams \<times> 'db) res" where
  "registerIndexColumn S db columns tableName fileName p =
     (let (rc, db) = executeSqlAndFinalize S db (Some idxinfoSchema) in
      if rc \<noteq> 0 then Inr (rc, p, db)
      else
        bindR (findIndexColumn S db tableName columns 0 (defaultParams fileName)) (\<lambda>(rc, p).
        if rc \<noteq> 0 then Inr (rc, p, db)
        else let (rc, db) = executeSqlAndFinalize S db (Some (idxinfoRow tableName p)) in Inr (rc, p, db)))"

section \<open>Creating and connecting\<close>

definition newTable :: "bool \<Rightarrow> btreesModsVirtualTable" where
  "newTable isCreate =
     \<lparr>vt_tableName = [], vt_tree = None,
      vt_params = \<lparr>bestIndex = 0, indexColNumber = 0, indexColName = [], indexDataType = [], indexDataSize = 0,
                   treeFileName = []\<rparr>,
      vt_stats = \<lparr>searchesCount = 0, insertsCount = 0, deletesCount = 0, isOriginalStats = isCreate\<rparr>\<rparr>"

fun commaTexts :: "string list \<Rightarrow> string" where
  "commaTexts [] = []"
| "commaTexts (s # ss) = '', '' @ s @ commaTexts ss"

text \<open>The texts after the table name in \<open>argv\<close> are the column definitions.\<close>

definition tableSql :: "string \<Rightarrow> string \<Rightarrow> string list \<Rightarrow> string" where
  "tableSql name column columns = ''CREATE TABLE '' @ name @ ''('' @ column @ commaTexts columns @ '');''"

type_synonym 'db initResult = "int \<times> string option \<times> btreesModsVirtualTable \<times> 'db ModWorld"

definition initCreate ::
  "Machine \<Rightarrow> 'db Sqlite \<Rightarrow> int \<Rightarrow> int \<Rightarrow> string \<Rightarrow> string \<Rightarrow> 'db ModWorld \<Rightarrow> 'db initResult res" where
  "initCreate m S rand time tableName realSql w =
     (let vt = newTable True; (rc, db) = executeSqlAndFinalize S (mw_db w) (Some realSql) in
      if rc \<noteq> 0 then Inr (rc, Some (sq_errmsg S db), vt, w\<lparr>mw_db := db\<rparr>)
      else
        let (rc, columns) = sq_prepare S (''SELECT * FROM '' @ tableName @ ''_real;'') db;
            pzErr = Some (sq_errmsg S db) in
        if rc \<noteq> 0 then Inr (rc, pzErr, vt, w\<lparr>mw_db := db\<rparr>)
        else
          bindR (registerIndexColumn S db columns tableName (getTreeFileName rand time) (vt_params vt)) (\<lambda>(rc, p, db).
          let vt = vt\<lparr>vt_params := p\<rparr> in
          if rc \<noteq> 0 then Inr (rc, Some (sq_errmsg S db), vt, w\<lparr>mw_db := db\<rparr>)
          else
            bindR (createIndex m vt TREE_ORDER (indexDataSize p + int ROWID_SIZE) (mw_c w)) (\<lambda>(rc, vt, c).
            Inr (rc,
                 if rc \<noteq> 0 then Some ''Cannot open tree file for writing or invalid tree type'' else pzErr,
                 vt, \<lparr>mw_c = c, mw_db = db\<rparr>))))"

definition columnInt :: "'db Sqlite \<Rightarrow> Stmt option \<Rightarrow> nat \<Rightarrow> int" where
  "columnInt S stmt i = sint (sqlite3_value_int S (sqlite3_column_value stmt i))"

definition columnCopy :: "'db Sqlite \<Rightarrow> Stmt option \<Rightarrow> nat \<Rightarrow> string res" where
  "columnCopy S stmt i = copyString (sqlite3_value_text S (sqlite3_column_value stmt i))"

definition readParams :: "'db Sqlite \<Rightarrow> Stmt option \<Rightarrow> indexParams res" where
  "readParams S stmt =
     bindR (columnCopy S stmt 3) (\<lambda>colName.
     bindR (columnCopy S stmt 4) (\<lambda>dataType.
     bindR (columnCopy S stmt 6) (\<lambda>fileName.
     Inr \<lparr>bestIndex = columnInt S stmt 1, indexColNumber = columnInt S stmt 2, indexColName = colName,
          indexDataType = dataType, indexDataSize = columnInt S stmt 5, treeFileName = fileName\<rparr>)))"

definition initConnect ::
  "Machine \<Rightarrow> 'db Sqlite \<Rightarrow> string \<Rightarrow> 'db ModWorld \<Rightarrow> 'db initResult res" where
  "initConnect m S tableName w =
     (let (rc, stmt, db) = executeSql S (mw_db w)
            (Some (''SELECT * FROM btrees_mods_idxinfo WHERE tableName = '' @ quoted tableName @ '';'')) in
      bindR (readParams S stmt) (\<lambda>p.
      bindR (openIndex m ((newTable False)\<lparr>vt_params := p\<rparr>) (mw_c w)) (\<lambda>(rc, vt, c).
      Inr (rc, if rc \<noteq> 0 then Some ''Cannot open tree file for reading or invalid tree type'' else None,
           vt, \<lparr>mw_c = c, mw_db = db\<rparr>))))"

text \<open>\<open>argv\<close>: module, database, table name, then the column definitions, of which there is one at least.\<close>

fun btreesModsInit ::
  "Machine \<Rightarrow> 'db Sqlite \<Rightarrow> int \<Rightarrow> int \<Rightarrow> string list \<Rightarrow> bool \<Rightarrow> 'db ModWorld \<Rightarrow>
   (int \<times> string option \<times> btreesModsVirtualTable option \<times> 'db ModWorld) res" where
  "btreesModsInit m S rand time (module # database # tableName # column # columns) isCreate w =
     bindR (if isCreate then initCreate m S rand time tableName (tableSql (tableName @ ''_real'') column columns) w
            else initConnect m S tableName w) (\<lambda>(rc, pzErr, vt, w).
     if rc \<noteq> 0 then Inr (rc, pzErr, None, w)
     else
       let (rc, db) = sq_declare_vtab S (tableSql tableName column columns) (mw_db w); w = w\<lparr>mw_db := db\<rparr> in
       if rc \<noteq> 0 then Inr (rc, Some (sq_errmsg S db), None, w)
       else Inr (rc, pzErr, Some (vt\<lparr>vt_tableName := tableName\<rparr>), w))"
| "btreesModsInit m S rand time _ isCreate w = Inl MemoryFault"

definition btreesModsCreate ::
  "Machine \<Rightarrow> 'db Sqlite \<Rightarrow> int \<Rightarrow> int \<Rightarrow> string list \<Rightarrow> 'db ModWorld \<Rightarrow>
   (int \<times> string option \<times> btreesModsVirtualTable option \<times> 'db ModWorld) res" where
  "btreesModsCreate m S rand time argv w = btreesModsInit m S rand time argv True w"

definition btreesModsConnect ::
  "Machine \<Rightarrow> 'db Sqlite \<Rightarrow> int \<Rightarrow> int \<Rightarrow> string list \<Rightarrow> 'db ModWorld \<Rightarrow>
   (int \<times> string option \<times> btreesModsVirtualTable option \<times> 'db ModWorld) res" where
  "btreesModsConnect m S rand time argv w = btreesModsInit m S rand time argv False w"

section \<open>Closing, destroying and renaming\<close>

definition btreesModsDisconnect :: "btreesModsVirtualTable \<Rightarrow> 'db ModWorld \<Rightarrow> int \<times> 'db ModWorld" where
  "btreesModsDisconnect vt w = (SQLITE_OK, w\<lparr>mw_c := snd (c_close (vt_tree vt) (mw_c w))\<rparr>)"

definition btreesModsDestroy ::
  "'db Sqlite \<Rightarrow> btreesModsVirtualTable \<Rightarrow> 'db ModWorld \<Rightarrow> int \<times> 'db ModWorld" where
  "btreesModsDestroy S vt w =
     (let (rc, db) = executeSqlAndFinalize S (mw_db w) (Some (''DROP TABLE '' @ realTable vt @ '';'')) in
      if rc \<noteq> 0 then (rc, w\<lparr>mw_db := db\<rparr>)
      else
        let (rc, db) = executeSqlAndFinalize S db
              (Some (''DELETE FROM btrees_mods_idxinfo WHERE tableName = '' @ quoted (vt_tableName vt) @ '';'')) in
        if rc \<noteq> 0 then (rc, w\<lparr>mw_db := db\<rparr>)
        else (SQLITE_OK,
              \<lparr>mw_c = removeFile (treeFileName (vt_params vt)) (snd (c_close (vt_tree vt) (mw_c w))), mw_db = db\<rparr>))"

definition btreesModsRename ::
  "'db Sqlite \<Rightarrow> btreesModsVirtualTable \<Rightarrow> string \<Rightarrow> 'db \<Rightarrow> int \<times> btreesModsVirtualTable \<times> 'db" where
  "btreesModsRename S vt zNew db =
     (let (rc, db) = executeSqlAndFinalize S db
            (Some (''ALTER TABLE '' @ realTable vt @ '' RENAME TO '' @ zNew @ ''_real;'')) in
      if rc \<noteq> 0 then (rc, vt, db)
      else
        let (rc, db) = executeSqlAndFinalize S db
              (Some (''UPDATE btrees_mods_idxinfo SET tableName = '' @ quoted zNew @ '' WHERE tableName = '' @
                     quoted (vt_tableName vt) @ '';'')) in
        if rc \<noteq> 0 then (rc, vt, db) else (rc, vt\<lparr>vt_tableName := zNew\<rparr>, db))"

section \<open>SQL functions\<close>

datatype SqlResult = ResultText string | ResultInt int | NoResult

definition isText :: "sqlite3_value \<Rightarrow> bool" where
  "isText v \<longleftrightarrow> sqlite3_value_type v = SQLITE_TEXT"

definition sqlText :: "'db Sqlite \<Rightarrow> sqlite3_value \<Rightarrow> string" where
  "sqlText S v = (case sqlite3_value_text S v of None \<Rightarrow> [] | Some s \<Rightarrow> c_string s)"

text \<open>The tree of the table with the given name, and its data type; no tree when it is not found.\<close>

definition openTreeForTable ::
  "Machine \<Rightarrow> 'db Sqlite \<Rightarrow> string \<Rightarrow> 'db ModWorld \<Rightarrow> (CTree option \<times> int \<times> 'db ModWorld) res" where
  "openTreeForTable m S tableName w =
     (let (rc, stmt, db) = executeSql S (mw_db w)
            (Some (''SELECT treeFileName, bestIndex, indexDataType FROM btrees_mods_idxinfo WHERE tableName = '' @
                   quoted tableName @ '';''));
          w = w\<lparr>mw_db := db\<rparr> in
      if sqlite3_value_type (sqlite3_column_value stmt 0) = SQLITE_NULL then Inr (None, 0, w)
      else
        let fileName = sqlText S (sqlite3_column_value stmt 0); bestIndex = columnInt S stmt 1 in
        bindR (columnCopy S stmt 2) (\<lambda>indexDataType.
        let dataType = getIntByDataType indexDataType in
        case treeTypeOf bestIndex of
          None \<Rightarrow> Inr (None, dataType, w)
        | Some ty \<Rightarrow>
            bindR (c_open (m_ulongBits m) None ty fileName (mw_c w)) (\<lambda>(p, c).
            Inr (p, dataType, w\<lparr>mw_c := c\<rparr>))))"

definition btreesModsGetTreeOrder ::
  "Machine \<Rightarrow> 'db Sqlite \<Rightarrow> sqlite3_value list \<Rightarrow> 'db ModWorld \<Rightarrow> (SqlResult \<times> 'db ModWorld) res" where
  "btreesModsGetTreeOrder m S argv w =
     (if length argv \<noteq> 1 then Inr (ResultText ''Arguments count should be equal to 1'', w)
      else if \<not> isText (argv ! 0) then Inr (ResultText ''Argument's type should be TEXT'', w)
      else
        bindR (openTreeForTable m S (sqlText S (argv ! 0)) w) (\<lambda>(p, dataType, w).
        case p of
          None \<Rightarrow>
            Inr (ResultText ''Table not found or table metadata is invalid or cannot open the tree file'', w)
        | Some ct \<Rightarrow> Inr (ResultInt (int (c_getOrder ct)), w)))"

definition btreesModsGetTreeType ::
  "'db Sqlite \<Rightarrow> sqlite3_value list \<Rightarrow> 'db \<Rightarrow> SqlResult \<times> 'db" where
  "btreesModsGetTreeType S argv db =
     (if length argv \<noteq> 1 then (ResultText ''Arguments count should be equal to 1'', db)
      else if \<not> isText (argv ! 0) then (ResultText ''Argument's type should be TEXT'', db)
      else
        let (rc, stmt, db) = executeSql S db
              (Some (''SELECT bestIndex FROM btrees_mods_idxinfo WHERE tableName = '' @
                     quoted (sqlText S (argv ! 0)) @ '';'')) in
        if sqlite3_value_type (sqlite3_column_value stmt 0) = SQLITE_NULL
        then (ResultText ''Table not found or table metadata is invalid or cannot open the tree file'', db)
        else (ResultInt (columnInt S stmt 0), db))"

section \<open>Registration of the module\<close>

fun registerFunctions :: "'db Sqlite \<Rightarrow> (string \<times> nat) list \<Rightarrow> 'db \<Rightarrow> int \<times> 'db" where
  "registerFunctions S [] db = (SQLITE_OK, db)"
| "registerFunctions S ((name, nArg) # fs) db =
     (let (rc, db) = sq_create_function S name nArg db in
      if rc \<noteq> 0 then (rc, db) else registerFunctions S fs db)"

definition sqlite3_btreesmods_init :: "'db Sqlite \<Rightarrow> 'db \<Rightarrow> int \<times> 'db" where
  "sqlite3_btreesmods_init S db =
     (let (rc, db) = registerFunctions S
            [(''btreesModsVisualize'', 2), (''btreesModsGetTreeOrder'', 1), (''btreesModsGetTreeType'', 1)] db in
      if rc \<noteq> 0 then (rc, db) else sq_create_module S ''btrees_mods'' db)"

end
