(* ===== verification/Dot_Output.thy ===== *)
theory Dot_Output
  imports Mods_Module
begin

text \<open>
  The GraphViz output: the key printers and \<open>visualize\<close> of the C interface (btree_c.h, btree_c.hpp),
  \<open>writeDot\<close> of the trees and of the pages (btree.hpp), and the SQL function \<open>btreesModsVisualize\<close>
  (btrees_mods.c).  The text that \<open>std::to_string\<close> gives for a \<open>double\<close> is a parameter.
\<close>

section \<open>Key printers\<close>

datatype KeyPrinter = BytePrinter | IntBytePrinter | FloatBytePrinter | NullBytePrinter

text \<open>Integers at an offset of the memory that starts with the key.\<close>

definition readInt :: "byte list \<Rightarrow> string res" where
  "readInt key =
     (if length key < 4 then Inl MemoryFault
      else Inr (decimal (sint (of_nat (le_dec (slice 0 4 key)) :: 32 word))))"

definition readLongLong :: "nat \<Rightarrow> byte list \<Rightarrow> string res" where
  "readLongLong ofs key =
     (if length key < ofs + 8 then Inl MemoryFault
      else Inr (decimal (sint (of_nat (le_dec (slice ofs 8 key)) :: 64 word))))"

fun print :: "(64 word \<Rightarrow> string) \<Rightarrow> KeyPrinter \<Rightarrow> byte list \<Rightarrow> nat \<Rightarrow> string res" where
  "print showDouble BytePrinter key sz =
     bindR (readLongLong TEXT_SIZE key) (\<lambda>r.
     Inr (map (char_of \<circ> unat) (takeWhile (\<lambda>b. b \<noteq> 0) (take (min sz TEXT_SIZE) key)) @ ''; '' @ r))"
| "print showDouble IntBytePrinter key sz =
     bindR (readInt key) (\<lambda>k. bindR (readLongLong INTEGER_SIZE key) (\<lambda>r. Inr (k @ ''; '' @ r)))"
| "print showDouble FloatBytePrinter key sz =
     bindR (readLongLong FLOAT_SIZE key) (\<lambda>r.
     Inr (showDouble (of_nat (le_dec (slice 0 FLOAT_SIZE key))) @ ''; '' @ r))"
| "print showDouble NullBytePrinter key sz = Inr ''NULL''"

section \<open>Pages\<close>

definition newline :: string where "newline = [CHR 0x0A]"

text \<open>The memory behind the pointer that \<open>getKey\<close> returns.\<close>

definition keyMemory :: "BaseBTree \<Rightarrow> PageWrapper \<Rightarrow> nat \<Rightarrow> byte list res" where
  "keyMemory t pw i =
     (case getKey t pw i of
        None \<Rightarrow> Inl MemoryFault
      | Some ofs \<Rightarrow> if ofs < 0 then Inl MemoryFault else Inr (drop (nat ofs) (pw_data pw)))"

fun dotKeys :: "(64 word \<Rightarrow> string) \<Rightarrow> KeyPrinter \<Rightarrow> BaseBTree \<Rightarrow> PageWrapper \<Rightarrow> nat list \<Rightarrow> string res" where
  "dotKeys showDouble pr t pw [] = Inr []"
| "dotKeys showDouble pr t pw (i # is) =
     bindR (bindR (keyMemory t pw i) (\<lambda>key. print showDouble pr key (t_recSize t))) (\<lambda>keyString.
     bindR (dotKeys showDouble pr t pw is) (\<lambda>rest.
     Inr (''<c'' @ decimal_nat i @ ''>|'' @ keyString @ ''|'' @ rest)))"

fun dotKids ::
  "(PageWrapper \<Rightarrow> string \<Rightarrow> BaseBTree \<Rightarrow> (string \<times> BaseBTree) res) \<Rightarrow> PageWrapper \<Rightarrow> string \<Rightarrow> nat list \<Rightarrow>
   BaseBTree \<Rightarrow> (string \<times> BaseBTree) res" where
  "dotKids node pw code [] t = Inr ([], t)"
| "dotKids node pw code (i # is) t =
     (let childCode = code @ decimal_nat i in
      bindR (readPageFromChild (new_PageWrapper t) pw i t) (\<lambda>(child, t).
      bindR (node child childCode t) (\<lambda>(out, t).
      bindR (dotKids node pw code is t) (\<lambda>(rest, t).
      Inr (out @ quoted code @ '': c'' @ decimal_nat i @ '' -> '' @ quoted childCode @ newline @ rest, t)))))"

primrec PageWrapper_writeDot ::
  "nat \<Rightarrow> (64 word \<Rightarrow> string) \<Rightarrow> KeyPrinter \<Rightarrow> PageWrapper \<Rightarrow> string \<Rightarrow> BaseBTree \<Rightarrow> (string \<times> BaseBTree) res" where
  "PageWrapper_writeDot 0 showDouble pr pw code t = Inl OutOfFuel"
| "PageWrapper_writeDot (Suc fuel) showDouble pr pw code t =
     bindR (dotKeys showDouble pr t pw [0..<getKeysNum pw]) (\<lambda>keys.
     let label = code @ ''[label = '' @ [CHR 0x22] @ keys @ ''<c'' @ decimal_nat (getKeysNum pw) @ ''>'' @ [CHR 0x22] @
           ''];'' @ newline in
     if isLeaf pw then Inr (label, t)
     else
       bindR (dotKids (\<lambda>pw code t. PageWrapper_writeDot fuel showDouble pr pw code t) pw code [0..<Suc (getKeysNum pw)] t)
         (\<lambda>(kids, t). Inr (label @ kids, t)))"

definition writeDot ::
  "(64 word \<Rightarrow> string) \<Rightarrow> KeyPrinter option \<Rightarrow> BaseBTree \<Rightarrow> (string \<times> BaseBTree) res" where
  "writeDot showDouble keyPrinter t =
     (case keyPrinter of
        None \<Rightarrow> Inl RuntimeError
      | Some pr \<Rightarrow>
          bindR (PageWrapper_writeDot (fuelOf t) showDouble pr (t_rootPage t) ''node0'' t) (\<lambda>(out, t).
          Inr (''digraph btree {'' @ newline @ ''node [shape = record, height = .1];'' @ newline @ out @ ''}'' @ newline, t)))"

section \<open>The C interface and the SQL function\<close>

text \<open>The output file is created or emptied when it is opened.\<close>

definition visualize ::
  "(64 word \<Rightarrow> string) \<Rightarrow> KeyPrinter option \<Rightarrow> CTree \<Rightarrow> string \<Rightarrow> CWorld \<Rightarrow> (bool \<times> CTree \<times> CWorld) res" where
  "visualize showDouble keyPrinter ct dotFileName c =
     (if \<not> fs_writable (w_fs c) dotFileName then Inr (False, ct, c)
      else
        bindR (onTree (writeDot showDouble keyPrinter) (ct_file ct)) (\<lambda>(out, fb).
        Inr (True, ct\<lparr>ct_file := fb\<rparr>, c\<lparr>w_fs := fs_put dotFileName (textBytes out) (w_fs c)\<rparr>)))"

definition printerFor :: "int \<Rightarrow> KeyPrinter option" where
  "printerFor dataType =
     (if dataType = SQLITE_INTEGER then Some IntBytePrinter
      else if dataType = SQLITE_FLOAT then Some FloatBytePrinter
      else if dataType = SQLITE_TEXT \<or> dataType = SQLITE_BLOB then Some BytePrinter
      else if dataType = SQLITE_NULL then Some NullBytePrinter
      else None)"

definition btreesModsVisualize ::
  "Machine \<Rightarrow> 'db Sqlite \<Rightarrow> (64 word \<Rightarrow> string) \<Rightarrow> sqlite3_value list \<Rightarrow> 'db ModWorld \<Rightarrow> (SqlResult \<times> 'db ModWorld) res" where
  "btreesModsVisualize m S showDouble argv w =
     (if length argv \<noteq> 2 then Inr (ResultText ''Arguments count should be equal to 2'', w)
      else if \<not> isText (argv ! 0) \<or> \<not> isText (argv ! 1)
      then Inr (ResultText ''Arguments types should be TEXT'', w)
      else
        bindR (openTreeForTable m S (sqlText S (argv ! 0)) w) (\<lambda>(p, dataType, w).
        case p of
          None \<Rightarrow> Inr (ResultText ''Table not found or table metadata is invalid'', w)
        | Some ct \<Rightarrow>
            bindR (visualize showDouble (printerFor dataType) ct (sqlText S (argv ! 1)) (mw_c w)) (\<lambda>(written, ct, c).
            Inr (if written then ResultText ''File written'' else NoResult, w\<lparr>mw_c := c\<rparr>))))"

end
