(* ===== verification/Mods_Proofs.thy ===== *)
theory Mods_Proofs
  imports C_Index Dot_Output
begin

text \<open>
  What a virtual table promises: its tree indexes rows.  \<open>serves m n vt c R\<close> says that the table \<open>vt\<close>
  has an open tree with one key for each row of \<open>R\<close>, a multiset of pairs of an
  indexed value and a row id, and room for \<open>n\<close> more.  The lemmas follow the handlers: indexing a row
  adds it, a filter on equality leaves the cursor at the row ids of exactly the rows with an equal
  key field, and the loop over the cursor delivers them and ends.
\<close>

section \<open>Rows and keys\<close>

definition rowKey :: "sqlite3_value \<times> 64 word \<Rightarrow> byte list" where
  "rowKey = (\<lambda>(v, r). valueField v @ rowIdBytes r)"

definition serves :: "Machine \<Rightarrow> nat \<Rightarrow> btreesModsVirtualTable \<Rightarrow> CWorld \<Rightarrow> (sqlite3_value \<times> 64 word) multiset \<Rightarrow> bool" where
  "serves m n vt c R \<longleftrightarrow>
     (let ty = indexDataType (vt_params vt); sz = indexDataSize (vt_params vt) in
      0 < sz \<and> sz = getDataSizeByType ty \<and> (\<forall>x. x \<in># R \<longrightarrow> typed ty sz (fst x)) \<and>
      (\<exists>ct tty. vt_tree vt = Some ct \<and> treeTypeOf (bestIndex (vt_params vt)) = Some tty \<and>
        ctIdent ct = (treeFileName (vt_params vt), tty, m_ulongBits m) \<and>
        indexed (nat sz) (nat sz + 8) n (setByteWidth sz c) ct (image_mset rowKey R)))"

lemma dataSize_range: "0 < getDataSizeByType ty \<Longrightarrow> getDataSizeByType ty \<le> 256"
  by (auto simp: getDataSizeByType_def key_sizes ERROR_CODE_def split: if_splits)

lemma servesE:
  assumes "serves m n vt c R"
  obtains ct tty where "vt_tree vt = Some ct" "0 < indexDataSize (vt_params vt)" "indexDataSize (vt_params vt) \<le> 256"
    "indexed (nat (indexDataSize (vt_params vt))) (nat (indexDataSize (vt_params vt)) + 8) n
       (setByteWidth (indexDataSize (vt_params vt)) c) ct (image_mset rowKey R)"
    "\<forall>x. x \<in># R \<longrightarrow> typed (indexDataType (vt_params vt)) (indexDataSize (vt_params vt)) (fst x)"
    "treeTypeOf (bestIndex (vt_params vt)) = Some tty" "ctIdent ct = (treeFileName (vt_params vt), tty, m_ulongBits m)"
  using assms dataSize_range unfolding serves_def Let_def by metis

lemma length_rowKey: "typed ty sz (fst x) \<Longrightarrow> length (rowKey x) = nat sz + 8"
  using typed_key(2) [of ty sz "fst x" "snd x"] by (simp add: rowKey_def split_beta)

lemma rowId_rowKey: "typed ty sz (fst x) \<Longrightarrow> rowIdOfKey (nat sz) (rowKey x) = snd x"
  using typed_key(3) [of ty sz "fst x" "snd x"] by (simp add: rowKey_def split_beta)

lemma createTreeKey_typed: "typed ty sz v \<Longrightarrow> createTreeKey m S (Some v) r sz = Inr (Some (rowKey (v, r)))"
  using typed_key(1) [of ty sz v] by (simp add: createTreeKey_def rowKey_def)

lemma same_rowKey:
  assumes "typed ty sz v" "typed ty sz (fst x)"
  shows "ByteComparator_isEqual (nat sz) (rowKey (v, r)) (rowKey x) (nat sz + 8) \<longleftrightarrow> valueField (fst x) = valueField v"
proof -
  have "length (valueField v) = nat sz" "length (valueField (fst x)) = nat sz"
    using length_valueField(1) [OF assms(1)] length_valueField(1) [OF assms(2)] by simp_all
  then show ?thesis using isEqual_append [of "valueField v" "nat sz" "valueField (fst x)" "nat sz + 8"]
    by (auto simp: rowKey_def split_beta)
qed

text \<open>The row ids in the keys that a search for \<open>v\<close> finds.\<close>

lemma found_rowIds:
  assumes "typed ty sz v" "\<forall>x. x \<in># R \<longrightarrow> typed ty sz (fst x)"
    and ks: "mset ks = filter_mset (sameKey (nat sz) (nat sz + 8) (rowKey (v, r))) (image_mset rowKey R)"
  shows "mset (map (rowIdOfKey (nat sz)) ks) = image_mset snd (filter_mset (\<lambda>x. valueField (fst x) = valueField v) R)"
proof -
  have "mset ks = image_mset rowKey (filter_mset (\<lambda>x. valueField (fst x) = valueField v) R)"
    unfolding ks filter_mset_image_mset
    by (rule arg_cong [where f = "image_mset rowKey"], rule filter_mset_cong [OF refl]) (use same_rowKey assms in auto)
  then have "mset (map (rowIdOfKey (nat sz)) ks) =
      image_mset (\<lambda>x. rowIdOfKey (nat sz) (rowKey x)) (filter_mset (\<lambda>x. valueField (fst x) = valueField v) R)"
    by (simp add: image_mset.compositionality comp_def)
  also have "\<dots> = image_mset snd (filter_mset (\<lambda>x. valueField (fst x) = valueField v) R)"
  proof (rule image_mset_cong)
    fix x assume "x \<in># filter_mset (\<lambda>x. valueField (fst x) = valueField v) R"
    then have "x \<in># R" by simp
    then have "typed ty sz (fst x)" using assms(2) by blast
    then show "rowIdOfKey (nat sz) (rowKey x) = snd x" by (rule rowId_rowKey)
  qed
  finally show ?thesis .
qed

section \<open>Indexing a row\<close>

lemma insertKeys_eq: "insertKeys c ct ks = trees.ins_all c ct ks"
  by (induction ks arbitrary: ct) (simp_all add: bindR_def split: sum.splits)

lemma keyArg_exact:
  assumes "indexed f sz n w ct M" "length k = sz"
  shows "keyArg m ct (Some k) = Inr k"
  using indexedD(5) [OF assms(1)] assms(2) by (simp add: keyArg_def current_sel Let_def)

lemma indexRow_serves:
  assumes "serves m (Suc n) vt c R" "typed (indexDataType (vt_params vt)) (indexDataSize (vt_params vt)) v"
  shows "runs (indexRow m S (setByteWidth (indexDataSize (vt_params vt)) c) vt v r)
    (\<lambda>vt'. serves m n vt' c (add_mset (v, r) R) \<and> (\<exists>ct. vt' = vt\<lparr>vt_tree := ct\<rparr>))"
proof -
  let ?sz = "indexDataSize (vt_params vt)"
  obtain ct tty where ct: "vt_tree vt = Some ct" "0 < ?sz" "?sz \<le> 256"
    "indexed (nat ?sz) (nat ?sz + 8) (Suc n) (setByteWidth ?sz c) ct (image_mset rowKey R)"
    "\<forall>x. x \<in># R \<longrightarrow> typed (indexDataType (vt_params vt)) ?sz (fst x)"
    "treeTypeOf (bestIndex (vt_params vt)) = Some tty" "ctIdent ct = (treeFileName (vt_params vt), tty, m_ulongBits m)"
    by (rule servesE [OF assms(1)])
  have l: "length (rowKey (v, r)) = nat ?sz + 8" using length_rowKey [of _ _ "(v, r)"] assms(2) by simp
  obtain ct' where ct': "c_insert (setByteWidth ?sz c) ct (rowKey (v, r)) = Inr ct'"
    "indexed (nat ?sz) (nat ?sz + 8) n (setByteWidth ?sz c) ct' (add_mset (rowKey (v, r)) (image_mset rowKey R)) \<and>
      ctIdent ct' = (treeFileName (vt_params vt), tty, m_ulongBits m)"
    using trees.ins_adds [OF conjI [OF ct(4,7)] l] by (rule runsE)
  have "indexRow m S (setByteWidth ?sz c) vt v r = Inr (vt\<lparr>vt_tree := Some ct'\<rparr>)"
    using ct(1) ct'(1) keyArg_exact [OF ct(4) l]
    by (simp add: indexRow_def createTreeKey_typed [OF assms(2)] theTree_def insertArg_def)
  moreover have "serves m n (vt\<lparr>vt_tree := Some ct'\<rparr>) c (add_mset (v, r) R)"
    using assms ct ct'(2) by (auto simp: serves_def Let_def)
  ultimately show ?thesis by auto
qed

section \<open>Filtering\<close>

definition countedOnly :: "btreesModsVirtualTable \<Rightarrow> btreesModsVirtualTable \<Rightarrow> bool" where
  "countedOnly vt vt' \<longleftrightarrow> vt_params vt' = vt_params vt \<and> vt_tableName vt' = vt_tableName vt"

lemma filterEq_serves:
  assumes sv: "serves m n vt c R" "typed (indexDataType (vt_params vt)) (indexDataSize (vt_params vt)) v"
    and cur: "cur_currentRowIdIdx cur = - 1"
  shows "runs (btreesModsHandleConstraintEq m S vt v cur c) (\<lambda>(rc, cur', vt', c').
    rc = SQLITE_OK \<and> cursorOk cur' \<and> 0 \<le> cur_rowsIdsCount cur' \<and>
    mset (remaining cur') = image_mset snd (filter_mset (\<lambda>x. valueField (fst x) = valueField v) R) \<and>
    serves m n vt' c' R \<and> countedOnly vt vt')"
proof -
  let ?sz = "indexDataSize (vt_params vt)" and ?hits = "filter_mset (\<lambda>x. valueField (fst x) = valueField v) R"
  obtain ct tty where ct: "vt_tree vt = Some ct" "0 < ?sz" "?sz \<le> 256"
    "indexed (nat ?sz) (nat ?sz + 8) n (setByteWidth ?sz c) ct (image_mset rowKey R)"
    "\<forall>x. x \<in># R \<longrightarrow> typed (indexDataType (vt_params vt)) ?sz (fst x)"
    "treeTypeOf (bestIndex (vt_params vt)) = Some tty" "ctIdent ct = (treeFileName (vt_params vt), tty, m_ulongBits m)"
    by (rule servesE [OF sv(1)])
  have l: "length (rowKey (v, 0)) = nat ?sz + 8" using length_rowKey [of _ _ "(v, 0)"] sv(2) by simp
  obtain ks ct' where ks: "c_searchAll (setByteWidth ?sz c) ct (rowKey (v, 0)) = Inr (length ks, ks, ct')"
    "mset ks = filter_mset (sameKey (nat ?sz) (nat ?sz + 8) (rowKey (v, 0))) (image_mset rowKey R)"
    "indexed (nat ?sz) (nat ?sz + 8) n (setByteWidth ?sz c) ct' (image_mset rowKey R)"
    "ctIdent ct' = (treeFileName (vt_params vt), tty, m_ulongBits m)"
    using trees.find_all_finds [OF conjI [OF ct(4,7)], of "rowKey (v, 0)"] by (rule runsE) auto
  let ?ids = "map (rowIdOfKey (nat ?sz)) ks" and ?vt = "count_search (vt\<lparr>vt_tree := Some ct'\<rparr>)"
  have ids: "mset ?ids = image_mset snd ?hits" by (rule found_rowIds [OF sv(2) ct(5) ks(2)])
  have sv': "serves m n ?vt (setByteWidth ?sz c) R"
    using sv(1) ks(3,4) ct(6) by (auto simp: serves_def Let_def count_search_def setByteWidth_def)
  have r: "btreesModsHandleConstraintEq m S vt v cur c =
      (if ks = [] then Inr (SQLITE_OK, cur\<lparr>cur_rowsIdsCount := 0\<rparr>, ?vt, setByteWidth ?sz c)
       else Inr (SQLITE_OK, cur\<lparr>cur_rowsIdsCount := int (length ks), cur_rowsIds := ?ids, cur_currentRowIdIdx := 0\<rparr>,
             ?vt, setByteWidth ?sz c))"
    using ct(1,2) ks(1) keyArg_exact [OF ct(4) l]
    by (simp add: btreesModsHandleConstraintEq_def createTreeKey_typed [OF sv(2)] theTree_def Let_def rowsIdsOf_def)
  have "countedOnly vt ?vt" by (simp add: countedOnly_def count_search_def)
  moreover have "mset (remaining (cur\<lparr>cur_rowsIdsCount := 0\<rparr>)) = image_mset snd ?hits" if "ks = []"
    using ids cur that by (simp add: remaining_def)
  ultimately show ?thesis
    using ids sv' cur by (simp add: r cursorOk_def) (simp add: remaining_def)
qed

text \<open>The first constraint of a query decides: equality on the index column is looked up.\<close>

lemma constraintBytes_column:
  "- 128 \<le> ic_iColumn k \<Longrightarrow> ic_iColumn k < 128 \<Longrightarrow> sint (of_int (ic_iColumn k) :: byte) = ic_iColumn k"
  by (simp add: signed_of_int signed_take_bit_int_eq_self)

lemma filter_serves:
  assumes sv: "serves m n vt (mw_c w) R" "typed (indexDataType (vt_params vt)) (indexDataSize (vt_params vt)) v"
    and k: "ic_iColumn k = indexColNumber (vt_params vt)" "- 1 \<le> ic_iColumn k" "ic_iColumn k < 128" "ic_op k = SQLITE_INDEX_CONSTRAINT_EQ"
  shows "runs (btreesModsFilter m S vt (constraintBytes k @ idxStr) (v # argv) cur w) (\<lambda>(rc, cur', vt', w').
    rc = SQLITE_OK \<and> cursorOk cur' \<and>
    mset (remaining cur') = image_mset snd (filter_mset (\<lambda>x. valueField (fst x) = valueField v) R) \<and>
    serves m n vt' (mw_c w') R \<and> countedOnly vt vt' \<and> mw_db w' = mw_db w)"
proof -
  let ?cur = "cur\<lparr>cur_rowsIdsCount := - 1, cur_currentRowIdIdx := - 1\<rparr>"
  obtain rc cur' vt' c' where r: "btreesModsHandleConstraintEq m S vt v ?cur (mw_c w) = Inr (rc, cur', vt', c')"
    "rc = SQLITE_OK" "cursorOk cur'" "0 \<le> cur_rowsIdsCount cur'" "serves m n vt' c' R" "countedOnly vt vt'"
    "mset (remaining cur') = image_mset snd (filter_mset (\<lambda>x. valueField (fst x) = valueField v) R)"
    using filterEq_serves [OF sv, of ?cur S] by (auto simp: runs_def)
  have "sint (of_int (ic_iColumn k) :: byte) = indexColNumber (vt_params vt)"
    using constraintBytes_column [of k] k(1-3) by simp
  then show ?thesis
    using r k(4) by (simp add: btreesModsFilter_def constraintBytes_def btreesModsHandleConstraint_def SQLITE_INDEX_CONSTRAINT_EQ_def)
qed

section \<open>Inserting a row\<close>

lemma setByteWidth_twice [simp]: "setByteWidth a (setByteWidth b c) = setByteWidth a c"
  by (simp add: setByteWidth_def)

lemma serves_width [simp]: "serves m n vt (setByteWidth a c) R = serves m n vt c R"
  by (simp add: serves_def)

lemma serves_counted [simp]:
  "serves m n (count_insert vt) c R = serves m n vt c R" "serves m n (count_delete vt) c R = serves m n vt c R"
  by (simp_all add: serves_def count_insert_def count_delete_def)

lemma insert_serves:
  assumes sv: "serves m (Suc n) vt (mw_c w) R" and st: "rebuildIndexIfNecessary m S vt w = Inr (vt, w)"
    and v: "argAt argv (indexColNumber (vt_params vt) + 2) = Inr v"
      "typed (indexDataType (vt_params vt)) (indexDataSize (vt_params vt)) v"
    and sql: "bindR (argAt argv 2) (convertSqliteValueToString S) = Inr first" "commaValues S (drop 3 argv) = Inr rest"
      "executeSqlAndFinalize S (mw_db w) (Some (insertSql vt first rest)) = (SQLITE_OK, db1)"
      "getRowId S vt v db1 = Inr (r, db2)"
  shows "runs (btreesModsInsert m S vt argv pRowid w) (\<lambda>(rc, r', vt', w').
    rc = SQLITE_OK \<and> r' = r \<and> serves m n vt' (mw_c w') (add_mset (v, r) R) \<and> countedOnly vt vt' \<and> mw_db w' = db2)"
proof -
  let ?sz = "indexDataSize (vt_params vt)"
  have ty: "sqlite3_value_type v = getIntByDataType (indexDataType (vt_params vt))" using v(2) by (simp add: typed_def)
  obtain ct where ix: "indexRow m S (setByteWidth ?sz (mw_c w)) vt v r = Inr (vt\<lparr>vt_tree := ct\<rparr>)"
    "serves m n (vt\<lparr>vt_tree := ct\<rparr>) (mw_c w) (add_mset (v, r) R)"
    using indexRow_serves [OF sv v(2), of S r] by (auto simp: runs_def)
  have "btreesModsInsert m S vt argv pRowid w =
      Inr (SQLITE_OK, r, count_insert (vt\<lparr>vt_tree := ct\<rparr>), \<lparr>mw_c = setByteWidth ?sz (mw_c w), mw_db = db2\<rparr>)"
    using st v(1) ty sql ix(1) by (simp add: btreesModsInsert_def Let_def SQLITE_OK_def)
  moreover have "countedOnly vt (count_insert (vt\<lparr>vt_tree := ct\<rparr>))" by (simp add: countedOnly_def count_insert_def)
  ultimately show ?thesis using ix(2) by simp
qed

text \<open>A value of another type than the index is refused, and nothing changes.\<close>

lemma insert_mismatch:
  assumes "rebuildTo (vt_stats vt) = None" "argAt argv (indexColNumber (vt_params vt) + 2) = Inr v"
    "sqlite3_value_type v \<noteq> getIntByDataType (indexDataType (vt_params vt))"
  shows "btreesModsInsert m S vt argv pRowid w = Inr (SQLITE_MISMATCH, pRowid, vt, w)"
  using assms by (simp add: btreesModsInsert_def rebuildIndexIfNecessary_def)

section \<open>Creating and reopening the index\<close>

lemma createIndex_serves:
  assumes p: "treeTypeOf (bestIndex (vt_params vt)) = Some ty"
    "0 < getDataSizeByType (indexDataType (vt_params vt))"
    "indexDataSize (vt_params vt) = getDataSizeByType (indexDataType (vt_params vt))"
    and vt: "vt_tree vt = None" and u: "32 \<le> m_ulongBits m"
    and fit: "fits ty (nat TREE_ORDER) (nat (indexDataSize (vt_params vt)) + 8) n"
    and fs: "fs_writable (w_fs c) (treeFileName (vt_params vt))"
  shows "runs (createIndex m vt TREE_ORDER (indexDataSize (vt_params vt) + int ROWID_SIZE) c) (\<lambda>(rc, vt', c').
    rc = SQLITE_OK \<and> serves m n vt' c' {#} \<and> countedOnly vt vt' \<and> vt_stats vt' = vt_stats vt \<and>
    c' = c\<lparr>w_fs := fs_put (treeFileName (vt_params vt)) [] (w_fs c)\<rparr>)"
proof -
  let ?sz = "indexDataSize (vt_params vt)"
  have sz: "0 < ?sz" "?sz \<le> 256" using p(2,3) dataSize_range by simp_all
  then have n: "nat ((?sz + int ROWID_SIZE) mod 2 ^ 16) = nat ?sz + 8" "nat (TREE_ORDER mod 2 ^ 16) = nat TREE_ORDER"
    by (simp_all add: ROWID_SIZE_def TREE_ORDER_def nat_add_distrib)
  obtain ct where ct: "c_create (m_ulongBits m) None ty (nat TREE_ORDER) (nat ?sz + 8) (treeFileName (vt_params vt)) c =
      Inr (Some ct, c\<lparr>w_fs := fs_put (treeFileName (vt_params vt)) [] (w_fs c)\<rparr>)"
    "\<forall>w'. indexed (w_byteComparator w') (nat ?sz + 8) n w' ct {#}"
    "ctIdent ct = (treeFileName (vt_params vt), ty, m_ulongBits m)"
    using c_create_indexed [OF fit u fs] by blast
  have "indexed (nat ?sz) (nat ?sz + 8) n (setByteWidth ?sz c') ct {#}" for c'
    using ct(2) [rule_format, of "setByteWidth ?sz c'"] sz by (simp add: setByteWidth_def)
  then have "serves m n (vt\<lparr>vt_tree := Some ct\<rparr>) c' {#}" for c'
    using p sz ct(3) by (simp add: serves_def)
  then show ?thesis using p(1) vt n ct by (simp add: createIndex_def countedOnly_def)
qed

text \<open>The tree file of a table, closed by \<open>btreesModsDisconnect\<close> and opened by \<open>openIndex\<close>.\<close>

lemma reconnect_serves:
  assumes sv: "serves m n vt (mw_c w) R" 
    and w': "btreesModsDisconnect vt w = (SQLITE_OK, w')"
    and fs: "fs_writable (w_fs (mw_c w)) (treeFileName (vt_params vt))"
    and width: "w_byteComparator (mw_c w) = nat (indexDataSize (vt_params vt))"
  shows "runs (openIndex m (vt\<lparr>vt_tree := None\<rparr>) (mw_c w')) (\<lambda>(rc, vt', c'). rc = SQLITE_OK \<and> c' = mw_c w' \<and> serves m n vt' c' R)"
proof -
  let ?sz = "indexDataSize (vt_params vt)" and ?c = "mw_c w"
  obtain ct tty where ct: "vt_tree vt = Some ct" "0 < ?sz" "?sz \<le> 256"
    "indexed (nat ?sz) (nat ?sz + 8) n (setByteWidth ?sz ?c) ct (image_mset rowKey R)"
    "treeTypeOf (bestIndex (vt_params vt)) = Some tty" "ctIdent ct = (treeFileName (vt_params vt), tty, m_ulongBits m)"
    by (rule servesE [OF sv])
  have "w_byteComparator (setByteWidth ?sz ?c) = w_byteComparator ?c" using width ct(2,3) by (simp add: setByteWidth_def)
  then have e: "setByteWidth ?sz ?c = ?c" by (simp add: setByteWidth_def)
  have c': "mw_c w' = snd (c_close (Some ct) ?c)" using w' ct(1) by (auto simp: btreesModsDisconnect_def)
  obtain ct' where r: "c_open (m_ulongBits m) None tty (treeFileName (vt_params vt)) (mw_c w') =
      Inr (Some ct', mw_c w')" "indexed (nat ?sz) (nat ?sz + 8) n (mw_c w') ct' (image_mset rowKey R)"
    "ctIdent ct' = (treeFileName (vt_params vt), tty, m_ulongBits m)"
    using c_close_open_indexed [OF ct(4) [unfolded e] fs ct(6)] c' by auto
  have "w_byteComparator (mw_c w') = w_byteComparator ?c" using c' by (simp add: c_close_def)
  then have "setByteWidth ?sz (mw_c w') = mw_c w'" using width ct(2,3) by (simp add: setByteWidth_def)
  with r(2) have "indexed (nat ?sz) (nat ?sz + 8) n (setByteWidth ?sz (mw_c w')) ct' (image_mset rowKey R)" by metis
  then have "serves m n (vt\<lparr>vt_tree := Some ct'\<rparr>) (mw_c w') R"
    using sv r(3) ct(5) by (auto simp: serves_def Let_def)
  then show ?thesis using r(1) ct(5) by (simp add: openIndex_def)
qed

section \<open>Rebuilding the index\<close>

lemma compareBytes_zeros: "(\<And>j. j < n \<Longrightarrow> y ! (i + j) = 0) \<Longrightarrow> \<not> compareBytes x y i n"
proof (induction n arbitrary: i)
  case (Suc n)
  have "y ! i = 0" using Suc.prems [of 0] by simp
  moreover have "\<not> compareBytes x y (i + 1) n" using Suc.prems [of "Suc j" for j] by (intro Suc.IH) simp
  ultimately show ?case by simp
qed simp

lemma rowIdBytes_zero: "rowIdBytes 0 = replicate 8 0"
proof -
  have "le_enc 8 (le_dec (replicate 8 0)) = replicate 8 (0 :: byte)" by (rule le_enc_dec) simp
  then show ?thesis by (simp only: rowIdBytes_def ROWID_SIZE_def le_dec_zeros unat_0)
qed

text \<open>The probe of the full scan for an index of at most 8 bytes: no key is smaller.\<close>

lemma probe_least:
  assumes "0 < sz" "sz \<le> 8"
  shows "\<exists>p. createTreeKey m S None 0 (int sz) = Inr (Some p) \<and> length p = sz + 8 \<and> (\<forall>x. \<not> ByteComparator_compare sz x p (sz + 8))"
proof -
  have "take sz (replicate 8 0 @ m_stack m @ replicate sz 0) = replicate sz (0 :: byte)"
    using assms(2) by simp
  then have "createTreeKey m S None 0 (int sz) = Inr (Some (replicate sz 0 @ replicate 8 0))"
    by (simp add: createTreeKey_def bytesAt_def rowIdBytes_zero)
  moreover have "\<not> ByteComparator_compare sz x (replicate sz 0 @ replicate 8 0) (sz + 8)" for x
    unfolding ByteComparator_compare_def by (rule compareBytes_zeros) (simp add: nth_append)
  ultimately show ?thesis by auto
qed

lemma scan_all_keys:
  assumes I: "indexed f sz n w ct M" and p: "\<forall>x. \<not> ByteComparator_compare f x p sz" and w: "w_searchAllByteComparator w = f"
  shows "runs (c_searchAll w (setSearchAllByteComparator ct) p) (\<lambda>(m, ks, ct'). m = length ks \<and> mset ks = M \<and> ctIdent ct' = ctIdent ct)"
proof -
  let ?c = "SearchAllByteComparator f" and ?ct = "setSearchAllByteComparator ct"
  let ?t = "(fb_tree (current w ct))\<lparr>t_comparator := Some ?c\<rparr>"
  note D = indexedD [OF I]
  obtain h where h: "holds (fb_tree (current w ct)) (ByteComparator f) h M" by (rule indexed_holds [OF I])
  have h': "holds ?t ?c h M" by (rule setComparator_holds [OF h]) (simp add: comparator_sel)
  have e: "fb_tree (current w ?ct) = ?t"
    by (simp add: current_sel setSearchAllByteComparator_def comparatorAt_def w)
  obtain ks t' where r: "searchAll p ?t = Inr (length ks, ks, t')" "onlySearched ?t t'"
    "mset ks = filter_mset (\<lambda>x. \<not> ByteComparator_compare f x p (t_recSize ?t)) M"
    using full_scan.searchAll_holds [OF h' refl, of p] unfolding comparator_sel by auto
  have "mset ks = M" using r(3) D(5) p by simp
  moreover have "ctIdent (?ct\<lparr>ct_file := (current w ?ct)\<lparr>fb_tree := t'\<rparr>\<rparr>) = ctIdent ct"
    using onlySearchedD(4,6) [OF r(2)] by (simp add: ctIdent_def current_sel setSearchAllByteComparator_def)
  ultimately show ?thesis using r(1) e
    by (simp add: c_searchAll_def FileBaseBTree_searchAll_def onTree_def)
qed

lemma rebuild_collects:
  assumes ct: "vt_tree vt = Some ct" and sz: "0 < indexDataSize (vt_params vt)" "indexDataSize (vt_params vt) \<le> 8"
    and I: "indexed (nat (indexDataSize (vt_params vt))) (nat (indexDataSize (vt_params vt)) + 8) n (mw_c w) ct M"
  shows "\<exists>ks c'. mset ks = M \<and> rebuildIndex m S vt w = refillIndex m S (vt\<lparr>vt_tree := None\<rparr>) ks (w\<lparr>mw_c := c'\<rparr>) \<and>
    fs_files (w_fs c') (treeFileName (vt_params vt)) = None \<and> w_byteComparator c' = w_byteComparator (mw_c w) \<and>
    fs_writable (w_fs c') = fs_writable (w_fs (mw_c w))"
proof -
  let ?sz = "nat (indexDataSize (vt_params vt))" and ?c = "setSearchAllWidth (indexDataSize (vt_params vt)) (mw_c w)"
  have "0 < ?sz" "?sz \<le> 8" using sz by simp_all
  from probe_least [OF this, of m S] obtain p where p: "createTreeKey m S None 0 (int ?sz) = Inr (Some p)" "length p = ?sz + 8"
    "\<forall>x. \<not> ByteComparator_compare ?sz x p (?sz + 8)"
    by blast
  have I': "indexed ?sz (?sz + 8) n ?c ct M"
    using I by (subst indexed_cong [of _ "mw_c w"]) (simp_all add: setSearchAllWidth_def)
  have w: "w_searchAllByteComparator ?c = ?sz" using sz by (simp add: setSearchAllWidth_def)
  obtain ks ct' where r: "c_searchAll ?c (setSearchAllByteComparator ct) p = Inr (length ks, ks, ct')" "mset ks = M"
    using scan_all_keys [OF I' p(3) w] by (auto simp: runs_def)
  have k: "keyArg m ct (Some p) = Inr p" by (rule keyArg_exact [OF I p(2)])
  have p1: "createTreeKey m S None 0 (indexDataSize (vt_params vt)) = Inr (Some p)" using p(1) sz(1) by simp
  let ?c' = "removeFile (treeFileName (vt_params vt)) (snd (c_close (Some (setByteComparator ct')) ?c))"
  have "rebuildIndex m S vt w = refillIndex m S (vt\<lparr>vt_tree := None\<rparr>) ks (w\<lparr>mw_c := ?c'\<rparr>)"
    by (simp add: rebuildIndex_def Let_def theTree_def ct p1 k r)
  moreover have "fs_files (w_fs ?c') (treeFileName (vt_params vt)) = None" "w_byteComparator ?c' = w_byteComparator (mw_c w)"
    "fs_writable (w_fs ?c') = fs_writable (w_fs (mw_c w))"
    by (simp_all add: removeFile_def fs_remove_def c_close_def setSearchAllWidth_def FileBaseBTree_close_def
        closeInternal_def fs_put_def)
  ultimately show ?thesis using r(2) by blast
qed

section \<open>A concrete connection and table\<close>

text \<open>A connection on which every statement succeeds and returns the row id 7.\<close>

definition sampleSqlite :: "unit Sqlite" where
  "sampleSqlite =
     \<lparr>sq_prepare = (\<lambda>sql db. (SQLITE_OK, [])), sq_step = (\<lambda>sql db. (SQLITE_ROW, [SqlInteger 7], ())),
      sq_column_metadata = (\<lambda>t c db. (SQLITE_OK, Some ''INTEGER'', True)), sq_declare_vtab = (\<lambda>sql db. (SQLITE_OK, ())),
      sq_create_function = (\<lambda>f n db. (SQLITE_OK, ())), sq_create_module = (\<lambda>f db. (SQLITE_OK, ())),
      sq_errmsg = (\<lambda>db. []), sq_real_text = (\<lambda>d. ''0.0''), sq_to_int64 = (\<lambda>v. 0), sq_to_double = (\<lambda>v. 0)\<rparr>"

definition sampleMachine :: Machine where
  "sampleMachine = \<lparr>m_ulongBits = 64, m_stack = [], m_heap = []\<rparr>"

definition sampleFiles :: FileSystem where
  "sampleFiles = \<lparr>fs_files = (\<lambda>f. None), fs_writable = (\<lambda>f. True)\<rparr>"

definition sampleWorld :: "unit ModWorld" where
  "sampleWorld =
     \<lparr>mw_c = \<lparr>w_fs = sampleFiles, w_byteComparator = 4, w_searchAllByteComparator = 0\<rparr>, mw_db = ()\<rparr>"

definition sampleTable :: btreesModsVirtualTable where
  "sampleTable = (newTable True)\<lparr>vt_tableName := ''t'', vt_params := (defaultParams ''f'')\<lparr>indexColNumber := 0, indexColName := ''id''\<rparr>\<rparr>"

lemma sample_fits: "fits ty (nat TREE_ORDER) 12 1000"
  by (cases ty) (simp_all add: fits_def minOrder_def orderKeys_def layout pageSizeFor_def TREE_ORDER_def)

lemma sample_createIndex:
  "\<exists>vt c. createIndex sampleMachine sampleTable TREE_ORDER 12 (mw_c sampleWorld) = Inr (SQLITE_OK, vt, c) \<and>
     serves sampleMachine 1000 vt c {#} \<and> countedOnly sampleTable vt \<and> vt_stats vt = vt_stats sampleTable \<and>
     c = (mw_c sampleWorld)\<lparr>w_fs := fs_put ''f'' [] (w_fs (mw_c sampleWorld))\<rparr>"
proof -
  have p: "vt_params sampleTable = (defaultParams ''f'')\<lparr>indexColNumber := 0, indexColName := ''id''\<rparr>" "vt_tree sampleTable = None"
    by (simp_all add: sampleTable_def newTable_def)
  have "runs (createIndex sampleMachine sampleTable TREE_ORDER (indexDataSize (vt_params sampleTable) + int ROWID_SIZE) (mw_c sampleWorld))
    (\<lambda>(rc, vt', c'). rc = SQLITE_OK \<and> serves sampleMachine 1000 vt' c' {#} \<and> countedOnly sampleTable vt' \<and> vt_stats vt' = vt_stats sampleTable \<and>
      c' = (mw_c sampleWorld)\<lparr>w_fs := fs_put (treeFileName (vt_params sampleTable)) [] (w_fs (mw_c sampleWorld))\<rparr>)"
    by (rule createIndex_serves)
      (use sample_fits in \<open>simp_all add: p defaultParams_def treeTypeOf_def index_nums getDataSizeByType_def key_sizes
        sampleMachine_def sampleWorld_def sampleFiles_def\<close>)
  then show ?thesis by (auto simp: runs_def p defaultParams_def getDataSizeByType_def key_sizes)
qed

end
