(* ===== verification/Mods_Rebuild.thy ===== *)
theory Mods_Rebuild
  imports Mods_Proofs
begin

text \<open>
  Rebuilding the index of a table: the new tree, a B*-tree or a B*+-tree, is created, gets the
  keys of the old one, and serves the same rows.  The comparator must still have the width of this
  table, which \<open>rebuildIndex\<close> does not set.  An insertion, which starts with a rebuild when one is due.
\<close>

lemma setByteWidth_same: "w_byteComparator c = nat sz \<Longrightarrow> 0 < sz \<Longrightarrow> sz \<le> 256 \<Longrightarrow> setByteWidth sz c = c"
  by (simp add: setByteWidth_def)

lemma rebuildTo_type: "rebuildTo st = Some i \<Longrightarrow> treeTypeOf i = Some (if i = BSTARTREE_NUM then B_STAR_TREE else B_STAR_PLUS_TREE)"
  by (auto simp: rebuildTo_def Let_def treeTypeOf_def index_nums split: if_splits)

text \<open>The second half: the new tree is filled.\<close>

lemma refill_serves:
  assumes p: "treeTypeOf (bestIndex (vt_params vt)) = Some ty" "0 < getDataSizeByType (indexDataType (vt_params vt))"
      "indexDataSize (vt_params vt) = getDataSizeByType (indexDataType (vt_params vt))"
    and vt: "vt_tree vt = None" and u: "32 \<le> m_ulongBits m"
    and fit: "fits ty (nat TREE_ORDER) (nat (indexDataSize (vt_params vt)) + 8) (size R + n)"
    and fs: "fs_writable (w_fs (mw_c w)) (treeFileName (vt_params vt))"
    and width: "w_byteComparator (mw_c w) = nat (indexDataSize (vt_params vt))"
    and R: "\<forall>x. x \<in># R \<longrightarrow> typed (indexDataType (vt_params vt)) (indexDataSize (vt_params vt)) (fst x)"
    and keys: "mset keys = image_mset rowKey R"
  shows "runs (refillIndex m S vt keys w) (\<lambda>(vt', w'). serves m n vt' (mw_c w') R \<and> countedOnly vt vt' \<and> vt_stats vt' = vt_stats vt)"
proof -
  let ?sz = "indexDataSize (vt_params vt)"
  obtain vt1 c1 where c: "createIndex m vt TREE_ORDER (?sz + int ROWID_SIZE) (mw_c w) = Inr (SQLITE_OK, vt1, c1)"
    "serves m (size R + n) vt1 c1 {#}" "countedOnly vt vt1" "vt_stats vt1 = vt_stats vt"
    "c1 = (mw_c w)\<lparr>w_fs := fs_put (treeFileName (vt_params vt)) [] (w_fs (mw_c w))\<rparr>"
    using createIndex_serves [OF p vt u fit fs] by (auto simp: runs_def)
  have P: "vt_params vt1 = vt_params vt" using c(3) by (simp add: countedOnly_def)
  obtain ct tty where ct: "vt_tree vt1 = Some ct" "0 < ?sz" "?sz \<le> 256"
    "indexed (nat ?sz) (nat ?sz + 8) (size R + n) (setByteWidth ?sz c1) ct {#}"
    "treeTypeOf (bestIndex (vt_params vt)) = Some tty" "ctIdent ct = (treeFileName (vt_params vt), tty, m_ulongBits m)"
    using servesE [OF c(2)] by (metis P image_mset_empty)
  have e: "setByteWidth ?sz c1 = c1" by (rule setByteWidth_same) (use c(5) width ct(2,3) in simp_all)
  have sz: "size R = length keys" using arg_cong [OF keys, of size] by simp
  have lens: "\<forall>k \<in> set keys. length k = nat ?sz + 8"
  proof
    fix k assume "k \<in> set keys"
    then have "k \<in># image_mset rowKey R" by (simp flip: keys)
    then show "length k = nat ?sz + 8" using length_rowKey R by fastforce
  qed
  have I: "indexed (nat ?sz) (nat ?sz + 8) (length keys + n) c1 ct {#} \<and> ctIdent ct = (treeFileName (vt_params vt), tty, m_ulongBits m)"
    using ct(4,6) e sz by simp
  obtain ct' where i: "insertKeys c1 ct keys = Inr ct'" "indexed (nat ?sz) (nat ?sz + 8) n c1 ct' (image_mset rowKey R)"
    "ctIdent ct' = (treeFileName (vt_params vt), tty, m_ulongBits m)"
    using trees.ins_all_adds [OF I lens] keys by (auto simp: runs_def insertKeys_eq)
  have sv: "serves m n (vt1\<lparr>vt_tree := Some ct'\<rparr>) c1 R"
    using p(3) ct(2,5) i(2,3) e R by (simp add: serves_def P)
  have t: "(if keys = [] then Inr vt1
      else bindR (theTree vt1) (\<lambda>ct. bindR (insertKeys c1 ct keys) (\<lambda>ct. Inr (vt1\<lparr>vt_tree := Some ct\<rparr>)))) =
    Inr (vt1\<lparr>vt_tree := Some ct'\<rparr>)"
    using i(1) ct(1) by (cases vt1) (auto simp: theTree_def)
  have "countedOnly vt (vt1\<lparr>vt_tree := Some ct'\<rparr>)" using c(3) by (simp add: countedOnly_def)
  then show ?thesis using sv c(4) by (simp add: refillIndex_def c(1) t split: prod.split)
qed

lemma rebuild_serves:
  assumes sv: "serves m k vt (mw_c w) R" and sz: "indexDataSize (vt_params vt) \<le> 8"
    and ty: "treeTypeOf i = Some ty" and u: "32 \<le> m_ulongBits m"
    and fit: "fits ty (nat TREE_ORDER) (nat (indexDataSize (vt_params vt)) + 8) (size R + n)"
    and fs: "fs_writable (w_fs (mw_c w)) (treeFileName (vt_params vt))"
    and width: "w_byteComparator (mw_c w) = nat (indexDataSize (vt_params vt))"
  shows "runs (rebuildIndex m S (vt\<lparr>vt_params := (vt_params vt)\<lparr>bestIndex := i\<rparr>\<rparr>) w) (\<lambda>(vt', w'). serves m n vt' (mw_c w') R \<and>
    vt_params vt' = (vt_params vt)\<lparr>bestIndex := i\<rparr> \<and> vt_tableName vt' = vt_tableName vt \<and> vt_stats vt' = vt_stats vt)"
proof -
  let ?vt = "vt\<lparr>vt_params := (vt_params vt)\<lparr>bestIndex := i\<rparr>\<rparr>" and ?sz = "indexDataSize (vt_params vt)"
  obtain ct tty where ct: "vt_tree vt = Some ct" "0 < ?sz" "?sz \<le> 256"
    "indexed (nat ?sz) (nat ?sz + 8) k (setByteWidth ?sz (mw_c w)) ct (image_mset rowKey R)"
    "\<forall>x. x \<in># R \<longrightarrow> typed (indexDataType (vt_params vt)) ?sz (fst x)"
    by (rule servesE [OF sv])
  have e: "setByteWidth ?sz (mw_c w) = mw_c w" by (rule setByteWidth_same [OF width ct(2,3)])
  have "vt_tree ?vt = Some ct" "0 < indexDataSize (vt_params ?vt)" "indexDataSize (vt_params ?vt) \<le> 8"
    "indexed (nat (indexDataSize (vt_params ?vt))) (nat (indexDataSize (vt_params ?vt)) + 8) k (mw_c w) ct (image_mset rowKey R)"
    using ct sz e by simp_all
  from rebuild_collects [OF this, of m S] obtain ks c' where r: "mset ks = image_mset rowKey R"
    "rebuildIndex m S ?vt w = refillIndex m S (?vt\<lparr>vt_tree := None\<rparr>) ks (w\<lparr>mw_c := c'\<rparr>)"
    "w_byteComparator c' = w_byteComparator (mw_c w)" "fs_writable (w_fs c') = fs_writable (w_fs (mw_c w))"
    by blast
  have d: "?sz = getDataSizeByType (indexDataType (vt_params vt))" using sv by (simp add: serves_def Let_def)
  have "runs (refillIndex m S (?vt\<lparr>vt_tree := None\<rparr>) ks (w\<lparr>mw_c := c'\<rparr>)) (\<lambda>(vt', w'). serves m n vt' (mw_c w') R \<and>
      countedOnly (?vt\<lparr>vt_tree := None\<rparr>) vt' \<and> vt_stats vt' = vt_stats (?vt\<lparr>vt_tree := None\<rparr>))"
    by (rule refill_serves [where ty = ty]) (use ty u fit fs width ct(2,5) d r in simp_all)
  then show ?thesis unfolding r(2) by (rule runs_mono) (auto simp: countedOnly_def)
qed

lemma rebuildIfNecessary_serves:
  assumes sv: "serves m n vt (mw_c w) R" and sz: "indexDataSize (vt_params vt) \<le> 8" and u: "32 \<le> m_ulongBits m"
    and fit: "\<And>ty. fits ty (nat TREE_ORDER) (nat (indexDataSize (vt_params vt)) + 8) (size R + n)"
    and fs: "fs_writable (w_fs (mw_c w)) (treeFileName (vt_params vt))"
    and width: "w_byteComparator (mw_c w) = nat (indexDataSize (vt_params vt))"
  shows "runs (rebuildIndexIfNecessary m S vt w) (\<lambda>(vt', w'). serves m n vt' (mw_c w') R \<and>
    vt_params vt' = (vt_params vt)\<lparr>bestIndex := (case rebuildTo (vt_stats vt) of None \<Rightarrow> bestIndex (vt_params vt) | Some i \<Rightarrow> i)\<rparr> \<and>
    vt_tableName vt' = vt_tableName vt \<and> vt_stats vt' = vt_stats vt)"
proof (cases "rebuildTo (vt_stats vt)")
  case None
  then show ?thesis using sv by (simp add: rebuildIndexIfNecessary_def)
next
  case (Some i)
  show ?thesis
  proof (cases "i = bestIndex (vt_params vt)")
    case True
    have "vt\<lparr>vt_params := (vt_params vt)\<lparr>bestIndex := i\<rparr>\<rparr> = vt" by (cases vt) (simp add: True)
    then show ?thesis using sv Some True by (simp add: rebuildIndexIfNecessary_def)
  next
    case False
    from rebuild_serves [OF sv sz rebuildTo_type [OF Some] u fit fs width, of S] Some False
    show ?thesis by (simp add: rebuildIndexIfNecessary_def)
  qed
qed

section \<open>The decision\<close>

lemma rebuildTo_iff:
  assumes "0 \<le> searchesCount st" "0 \<le> insertsCount st" "0 \<le> deletesCount st"
  shows "rebuildTo st = Some n \<longleftrightarrow>
    isOriginalStats st \<and>
    (\<exists>k. 1 \<le> k \<and> k \<le> 10 \<and> searchesCount st + insertsCount st + deletesCount st = 1000 * k \<and>
      100 * k \<le> insertsCount st + deletesCount st) \<and>
    n = (if 7397 * (insertsCount st + deletesCount st) < 10000 * insertsCount st then BSTARTREE_NUM else BSTARPLUSTREE_NUM)"
proof -
  let ?u = "insertsCount st + deletesCount st"
  let ?t = "?u + searchesCount st"
  have "(\<exists>k. 1 \<le> k \<and> k \<le> 10 \<and> searchesCount st + insertsCount st + deletesCount st = 1000 * k \<and> 100 * k \<le> ?u) \<longleftrightarrow>
      ?t \<noteq> 0 \<and> ?t \<le> 10000 \<and> ?t mod 1000 = 0 \<and> ?t \<le> 10 * ?u"
  proof
    assume t: "?t \<noteq> 0 \<and> ?t \<le> 10000 \<and> ?t mod 1000 = 0 \<and> ?t \<le> 10 * ?u"
    then obtain k where k: "?t = 1000 * k" by (auto simp: mod_eq_0_iff_dvd dvd_def)
    then have "1000 * k \<le> 10 * ?u" "1000 * k \<noteq> 0" "1000 * k \<le> 10000" "0 \<le> 1000 * k" using t assms by simp_all
    then have "100 * k \<le> ?u" "1 \<le> k" "k \<le> 10" by simp_all
    with k show "\<exists>k. 1 \<le> k \<and> k \<le> 10 \<and> searchesCount st + insertsCount st + deletesCount st = 1000 * k \<and> 100 * k \<le> ?u"
      by (intro exI [of _ k]) simp
  next
    assume "\<exists>k. 1 \<le> k \<and> k \<le> 10 \<and> searchesCount st + insertsCount st + deletesCount st = 1000 * k \<and> 100 * k \<le> ?u"
    then obtain k where k: "1 \<le> k" "k \<le> 10" "searchesCount st + insertsCount st + deletesCount st = 1000 * k" "100 * k \<le> ?u"
      by blast
    then have e: "?t = 1000 * k" by simp
    show "?t \<noteq> 0 \<and> ?t \<le> 10000 \<and> ?t mod 1000 = 0 \<and> ?t \<le> 10 * ?u" unfolding e using k by simp
  qed
  then show ?thesis by (auto simp: rebuildTo_def Let_def REBUILD_COUNT_def REBUILD_MAX_COUNT_def)
qed

text \<open>What the decision leaves alone, and that it is taken once.\<close>

lemma createIndex_fields: "createIndex m vt a b c = Inr (rc, vt', c') \<Longrightarrow> \<exists>p. vt' = vt\<lparr>vt_tree := p\<rparr>"
  by (cases vt) (auto simp: createIndex_def bindR_Inr_iff split: option.splits)

lemma refill_fields: "refillIndex m S vt ks w = Inr (vt', w') \<Longrightarrow> \<exists>p. vt' = vt\<lparr>vt_tree := p\<rparr>"
proof -
  assume "refillIndex m S vt ks w = Inr (vt', w')"
  then obtain rc vt1 c where "createIndex m vt TREE_ORDER (indexDataSize (vt_params vt) + int ROWID_SIZE) (mw_c w) = Inr (rc, vt1, c)"
    "vt' = vt1 \<or> (\<exists>p. vt' = vt1\<lparr>vt_tree := p\<rparr>)"
    by (auto simp: refillIndex_def bindR_Inr_iff Let_def split_def split: if_splits)
  then show ?thesis using createIndex_fields by fastforce
qed

lemma rebuildIndex_fields: "rebuildIndex m S vt w = Inr (vt', w') \<Longrightarrow> \<exists>p. vt' = vt\<lparr>vt_tree := p\<rparr>"
  by (auto simp: rebuildIndex_def bindR_Inr_iff Let_def dest!: refill_fields)

lemma rebuild_fields:
  assumes "rebuildIndexIfNecessary m S vt w = Inr (vt', w')"
  shows "vt_params vt' = (vt_params vt)\<lparr>bestIndex := (case rebuildTo (vt_stats vt) of None \<Rightarrow> bestIndex (vt_params vt) | Some i \<Rightarrow> i)\<rparr>"
    "vt_tableName vt' = vt_tableName vt" "vt_stats vt' = vt_stats vt"
proof -
  have "\<exists>p. vt' = (vt\<lparr>vt_params := (vt_params vt)\<lparr>bestIndex :=
      (case rebuildTo (vt_stats vt) of None \<Rightarrow> bestIndex (vt_params vt) | Some i \<Rightarrow> i)\<rparr>\<rparr>)\<lparr>vt_tree := p\<rparr>"
  proof (cases "rebuildTo (vt_stats vt)")
    case None
    then show ?thesis using assms by (intro exI [of _ "vt_tree vt"]) (simp add: rebuildIndexIfNecessary_def)
  next
    case (Some i)
    show ?thesis
    proof (cases "i = bestIndex (vt_params vt)")
      case True
      then show ?thesis using assms Some
        by (intro exI [of _ "vt_tree vt"]) (simp add: rebuildIndexIfNecessary_def)
    next
      case False
      then show ?thesis using assms Some rebuildIndex_fields by (fastforce simp: rebuildIndexIfNecessary_def)
    qed
  qed
  then show "vt_params vt' = (vt_params vt)\<lparr>bestIndex := (case rebuildTo (vt_stats vt) of None \<Rightarrow> bestIndex (vt_params vt) | Some i \<Rightarrow> i)\<rparr>"
    "vt_tableName vt' = vt_tableName vt" "vt_stats vt' = vt_stats vt" by auto
qed

lemma rebuild_again:
  assumes "rebuildIndexIfNecessary m S vt w = Inr (vt', w')"
  shows "rebuildIndexIfNecessary m S vt' w' = Inr (vt', w')"
proof (cases "rebuildTo (vt_stats vt)")
  case (Some i)
  then have "bestIndex (vt_params vt') = i" using rebuild_fields(1) [OF assms] by simp
  then have "vt'\<lparr>vt_params := (vt_params vt')\<lparr>bestIndex := i\<rparr>\<rparr> = vt'" by (cases vt') auto
  then show ?thesis using Some rebuild_fields [OF assms] by (simp add: rebuildIndexIfNecessary_def)
qed (use rebuild_fields(3) [OF assms] in \<open>simp add: rebuildIndexIfNecessary_def\<close>)

lemma insert_rebuilt:
  assumes "rebuildIndexIfNecessary m S vt w = Inr (vt0, w0)"
  shows "btreesModsInsert m S vt argv pRowid w = btreesModsInsert m S vt0 argv pRowid w0"
  by (simp only: btreesModsInsert_def assms rebuild_again [OF assms] bindR_simps)

section \<open>Inserting a row\<close>

text \<open>No rebuild is due, or the index, its file and the comparator allow one.\<close>

definition rebuildSafe :: "Machine \<Rightarrow> btreesModsVirtualTable \<Rightarrow> CWorld \<Rightarrow> nat \<Rightarrow> bool" where
  "rebuildSafe m vt c k \<longleftrightarrow>
     rebuildTo (vt_stats vt) = None \<or>
     indexDataSize (vt_params vt) \<le> 8 \<and> 32 \<le> m_ulongBits m \<and>
     (\<forall>ty. fits ty (nat TREE_ORDER) (nat (indexDataSize (vt_params vt)) + 8) k) \<and>
     fs_writable (w_fs c) (treeFileName (vt_params vt)) \<and> w_byteComparator c = nat (indexDataSize (vt_params vt))"

lemma rebuildSafe_serves:
  assumes "serves m n vt (mw_c w) R" "rebuildSafe m vt (mw_c w) (size R + n)"
  shows "runs (rebuildIndexIfNecessary m S vt w) (\<lambda>(vt0, w0). serves m n vt0 (mw_c w0) R)"
proof (cases "rebuildTo (vt_stats vt)")
  case None
  then show ?thesis using assms(1) by (simp add: rebuildIndexIfNecessary_def)
next
  case (Some i)
  then have safe: "indexDataSize (vt_params vt) \<le> 8" "32 \<le> m_ulongBits m"
    "\<And>ty. fits ty (nat TREE_ORDER) (nat (indexDataSize (vt_params vt)) + 8) (size R + n)"
    "fs_writable (w_fs (mw_c w)) (treeFileName (vt_params vt))" "w_byteComparator (mw_c w) = nat (indexDataSize (vt_params vt))"
    using assms(2) by (simp_all add: rebuildSafe_def)
  show ?thesis by (rule runs_mono [OF rebuildIfNecessary_serves [OF assms(1) safe]]) auto
qed

lemma insert_rebuilt_serves:
  assumes sv: "serves m (Suc n) vt (mw_c w) R" "rebuildSafe m vt (mw_c w) (size R + Suc n)"
      "rebuildIndexIfNecessary m S vt w = Inr (vt0, w0)"
    and v: "argAt argv (indexColNumber (vt_params vt) + 2) = Inr v"
      "typed (indexDataType (vt_params vt)) (indexDataSize (vt_params vt)) v"
    and sql: "bindR (argAt argv 2) (convertSqliteValueToString S) = Inr first" "commaValues S (drop 3 argv) = Inr rest"
      "executeSqlAndFinalize S (mw_db w0) (Some (insertSql vt first rest)) = (SQLITE_OK, db1)"
      "getRowId S vt v db1 = Inr (r, db2)"
  shows "runs (btreesModsInsert m S vt argv pRowid w) (\<lambda>(rc, r', vt', w').
    rc = SQLITE_OK \<and> r' = r \<and> serves m n vt' (mw_c w') (add_mset (v, r) R) \<and> countedOnly vt0 vt' \<and> mw_db w' = db2)"
proof -
  have sv0: "serves m (Suc n) vt0 (mw_c w0) R" using rebuildSafe_serves [OF sv(1,2), of S] sv(3) by simp
  have p: "indexColNumber (vt_params vt0) = indexColNumber (vt_params vt)" "indexDataType (vt_params vt0) = indexDataType (vt_params vt)"
    "indexDataSize (vt_params vt0) = indexDataSize (vt_params vt)"
    "insertSql vt0 a b = insertSql vt a b" "getRowId S vt0 x db = getRowId S vt x db" for a b x db
    using rebuild_fields(1,2) [OF sv(3)] by (simp_all add: insertSql_def realTable_def getRowId_def)
  show ?thesis unfolding insert_rebuilt [OF sv(3)]
    by (rule insert_serves [OF sv0 rebuild_again [OF sv(3)]]) (use v sql p in simp_all)
qed

text \<open>A value of another type: nothing beyond a due rebuild changes.\<close>

lemma mismatch_rebuilt:
  assumes "argAt argv (indexColNumber (vt_params vt) + 2) = Inr v"
    "sqlite3_value_type v \<noteq> getIntByDataType (indexDataType (vt_params vt))"
  shows "btreesModsInsert m S vt argv pRowid w =
    bindR (rebuildIndexIfNecessary m S vt w) (\<lambda>(vt0, w0). Inr (SQLITE_MISMATCH, pRowid, vt0, w0))"
proof (cases "rebuildIndexIfNecessary m S vt w")
  case (Inr r)
  obtain vt0 w0 where r: "r = (vt0, w0)" by force
  have "argAt argv (indexColNumber (vt_params vt0) + 2) = Inr v"
    "sqlite3_value_type v \<noteq> getIntByDataType (indexDataType (vt_params vt0))"
    using assms rebuild_fields(1) [OF Inr [unfolded r]] by simp_all
  then show ?thesis using Inr by (simp add: r btreesModsInsert_def)
qed (simp add: btreesModsInsert_def)

end
