(* ===== verification/Remove_Proofs.thy ===== *)
theory Remove_Proofs
  imports Tree_Index Remove_Ops
begin

text \<open>
  Removing keys.  A tree that consists of its root leaf loses exactly one equal key, and
  \<open>removeAll\<close> all of them, with the loop bounded by the number of keys; the methods of B-trees,
  B+-trees and B*-trees share this part.  In a B*+-tree a call never returns \<open>true\<close>: the branch
  that removes a key ends without a \<open>return\<close>.
\<close>

section \<open>Removing a slot of a page\<close>

definition dropAt :: "nat \<Rightarrow> 'a list \<Rightarrow> 'a list" where
  "dropAt i xs = take i xs @ drop (Suc i) xs"

lemma length_dropAt [simp]: "i < length xs \<Longrightarrow> length (dropAt i xs) = length xs - 1"
  by (simp add: dropAt_def)

lemma nth_dropAt: "i < length xs \<Longrightarrow> j < length xs - 1 \<Longrightarrow> dropAt i xs ! j = (if j < i then xs ! j else xs ! Suc j)"
  by (auto simp: dropAt_def nth_append)

lemma mset_dropAt: "i < length xs \<Longrightarrow> mset xs = add_mset (xs ! i) (mset (dropAt i xs))"
  by (subst id_take_nth_drop [of i xs]) (simp_all add: dropAt_def)

lemma sorted_dropAt:
  assumes "sorted_wrt P xs"
  shows "sorted_wrt P (dropAt i xs)"
proof -
  have "sorted_wrt P (take i xs @ drop i xs)" using assms by simp
  moreover have "set (drop (Suc i) xs) \<subseteq> set (drop i xs)" by (rule set_drop_subset_set_drop) simp
  ultimately show ?thesis
    using sorted_wrt_drop [OF assms, of "Suc i"] unfolding dropAt_def sorted_wrt_append by blast
qed

lemma has_removeKey:
  assumes "geom t" "pageHas t pw p ks []" "i < length ks"
  shows "\<exists>pw1. moveKeysDown t pw 1 i (length ks - 1 - i) = Inr pw1 \<and> pageHas t (setKeyNum (length ks - 1) pw1) p (dropAt i ks) []"
proof -
  note h = pageHasD [OF assms(2)]
  have "i + (length ks - 1 - i) + 1 \<le> length ks" using assms(3) by simp
  from view_moveKeysDown [OF assms(1) pageHas_view [OF assms(2)] this]
  obtain pw1 where w: "moveKeysDown t pw 1 i (length ks - 1 - i) = Inr pw1"
    "pview t pw1 p (length ks) True (\<lambda>j. if i \<le> j \<and> j < i + (length ks - 1 - i) then kslot t pw (j + 1) else kslot t pw j) (cslot t pw)"
    unfolding runs_def by auto
  have "length ks - 1 \<le> pageKeys t" using pviewD(4) [OF w(2)] by simp
  from view_setKeyNum [OF assms(1) w(2) this]
  have "pageHas t (setKeyNum (length ks - 1) pw1) p (dropAt i ks) []"
    by (rule view_pageHas) (use h(7) assms(3) in \<open>auto simp: nth_dropAt\<close>)
  then show ?thesis using w(1) by blast
qed

section \<open>Trees that consist of their root\<close>

lemma SSub_one: "0 < n \<Longrightarrow> n < 2 ^ 16 \<Longrightarrow> SSub n 1 = n - 1"
proof -
  assume n: "0 < n" "n < 2 ^ 16"
  then have "(2 ^ 16 - 1 + n) mod 2 ^ 16 = (n - 1 + 2 ^ 16) mod 2 ^ 16" by simp
  also have "\<dots> = n - 1" using n by (subst mod_add_self2) simp
  finally show ?thesis by (simp add: SSub_def)
qed

lemma leaf_tree:
  assumes "treeState t c 0 T"
  obtains p ks where "T = PNode p ks []" "contents (leafyOf t) T = ks"
  using treeStateD(9) [OF assms] by (cases T) (auto simp: tinv_def contents_def)

lemma removeFromLeaf_ok:
  assumes st: "treeState t c 0 (PNode p ks [])" and i: "i < length ks"
  shows "\<exists>t'. removeFromLeaf i RootPage t = Inr (True, t') \<and> treeState t' c 0 (PNode p (dropAt i ks) []) \<and> sameTree t t' \<and>
    t_lastPageNum t' = t_lastPageNum t"
proof -
  note s = treeStateD [OF st]
  let ?pw = "t_rootPage t" and ?\<sigma> = "absStore t"
  have h: "pageHas t ?pw p ks []" and l: "ps_live ?\<sigma> p" "p \<notin> ps_avail ?\<sigma>"
    using s(6,7) stored_node [OF s(7)] by simp_all
  obtain pw1 where r: "moveKeysDown t ?pw 1 i (length ks - 1 - i) = Inr pw1"
    "pageHas t (setKeyNum (length ks - 1) pw1) p (dropAt i ks) []"
    using has_removeKey [OF storeOkD(1) [OF s(1)] h i] by blast
  let ?new = "setKeyNum (length ks - 1) pw1"
  let ?t = "t\<lparr>t_rootPage := ?new\<rparr>"
  note h2 = pageHasD [OF r(2)]
  obtain t' where t': "PageWrapper_writePage ?new ?t = Inr t'" "keeps ?t t'" "absStore t' = ps_write p (pw_data ?new) ?\<sigma>"
    using write_page [of ?t ?new] s(1) l(1) h2(1,5) by auto
  have img: "pageImg (absStore t') p = ?new" using h2(1) by (simp add: t'(3) ps_write_def)
  have len: "length ks \<le> MAX_KEYS_NUM" using getKeysNum_le [of ?pw] pageHasD(3) [OF h] by simp
  have "SSub (length ks) 1 = length ks - 1" using i len by (intro SSub_one) (auto simp: layout)
  then have run: "removeFromLeaf i RootPage t = Inr (True, t')"
    using r(1) t'(1) pageHasD(3) [OF h] by (simp add: removeFromLeaf_def storePage_def)
  have same: "sameTree t t'" using t'(2) by (auto simp: sameTree_def keeps_def)
  note F = sameTreeD [OF same]
  have "ps_live (absStore t') p" "p \<notin> ps_avail (absStore t')" "ps_root (absStore t') = ps_root ?\<sigma>"
    using l by (simp_all add: t'(3) ps_write_def ps_live_def ps_avail_def)
  then have stored: "stored t (absStore t') (PNode p (dropAt i ks) [])" using r(2) by (simp add: img)
  have "tinv (\<lambda>x y. cmp_compare c x y (t_recSize t)) (leafyOf t) (nodeMin t) (nodeMax t) 0 (PNode p (dropAt i ks) [])"
    using s(9) i sorted_dropAt by (auto simp: tinv_def)
  moreover have "evolves {p} ?\<sigma> (absStore t')" unfolding t'(3) by (rule evolves_write [OF s(2)])
  then have "ps_ok (absStore t')" by (simp add: evolves_def)
  moreover have "length (dropAt i ks) \<le> rootMax t True" using s(10) i by simp
  ultimately have "treeState (t'\<lparr>t_rootPage := pageImg (absStore t') p\<rparr>) c 0 (PNode p (dropAt i ks) [])"
    using treeState_root [OF keepsD(1) [OF t'(2)] _ same s(3,4), of "PNode p (dropAt i ks) []" 0] stored s(5)
    by (simp add: t'(3) ps_write_def absStore_def [of t])
  moreover have "t'\<lparr>t_rootPage := pageImg (absStore t') p\<rparr> = t'"
    using frame_eqD [OF keepsD(2) [OF t'(2)]] by (simp add: img)
  moreover have "t_lastPageNum t' = t_lastPageNum t" using arg_cong [OF t'(3), of ps_last] by (simp add: absStore_def ps_write_def)
  ultimately show ?thesis using run same by auto
qed

lemma isRoot_cached: "treeState t c h T \<Longrightarrow> isRoot t (t_rootPage t)"
  using treeStateD(5,6) by (simp add: isRoot_def)

context tree_compare
begin

lemma removeKey_leaf:
  assumes "holds t c 0 M" "t_recSize t = sz" and ty: "t_treeType t \<noteq> B_STAR_PLUS_TREE"
  shows "\<exists>b t'. BaseBTree_removeKey k t = Inr (b, t') \<and> sameTree t t' \<and> t_lastPageNum t' = t_lastPageNum t \<and>
    (if b then \<exists>x. x \<in># M \<and> cmp_isEqual c k x sz \<and> holds t' c 0 (M - {#x#})
     else t' = t \<and> (\<forall>x. x \<in># M \<longrightarrow> \<not> cmp_isEqual c k x sz))"
proof -
  obtain T where T: "treeState t c 0 T" "M = mset (contents (leafyOf t) T)" using assms(1) by (auto simp: holds_def)
  obtain p ks where P: "T = PNode p ks []" "contents (leafyOf t) T = ks" by (rule leaf_tree [OF T(1)])
  note s = treeStateD [OF T(1) [unfolded P(1)]]
  let ?pw = "t_rootPage t"
  have h: "pageHas t ?pw p ks []" using s(6,7) stored_node [OF s(7)] by simp
  obtain i where i: "scanUp c t ?pw k 0 (getKeysNum ?pw) = Inr i" "stops ks k i"
    "equalAt c t ?pw k i = Inr (i < length ks \<and> cmp_isEqual c k (ks ! i) sz)"
    using page_stop [OF storeOkD(1) [OF s(1)] h assms(2)] by blast
  note root = isRoot_cached [OF T(1)] and lf = pageHasD(4) [OF h]
  obtain fuel where f: "2 * fuelOf t = Suc (Suc fuel)" by (simp add: fuelOf_def)
  have run: "BaseBTree_removeKey k t =
      (if i < length ks \<and> cmp_isEqual c k (ks ! i) sz then removeFromLeaf i RootPage t else Inr (False, t))"
    using ty i root lf s(3) by (cases "t_treeType t") (auto simp: BaseBTree_removeKey_def removeFrom_def f Let_def)
  show ?thesis
  proof (cases "i < length ks \<and> cmp_isEqual c k (ks ! i) sz")
    case True
    obtain t' where t': "removeFromLeaf i RootPage t = Inr (True, t')" "treeState t' c 0 (PNode p (dropAt i ks) [])" "sameTree t t'"
      "t_lastPageNum t' = t_lastPageNum t"
      using removeFromLeaf_ok [OF T(1) [unfolded P(1)]] True by blast
    have "M = add_mset (ks ! i) (mset (dropAt i ks))" using mset_dropAt [of i ks] True T(2) P(2) by simp
    then have "holds t' c 0 (M - {#ks ! i#})" using t'(2) by (auto simp: holds_def contents_def)
    moreover have "ks ! i \<in># M" using True T(2) P(2) by simp
    ultimately show ?thesis using run True t'(1,3,4) by (intro exI [of _ True] exI [of _ t']) auto
  next
    case False
    then have "\<not> (\<exists>x \<in> set ks. cmp_isEqual c k x sz)"
      using found_leaf [OF treeStateD(9) [OF T(1), unfolded P(1) assms(2)] i(2)] P by (auto simp: found_def contents_def split: if_splits)
    then show ?thesis
      using run False T(2) P(2) sameTree_keeps [of t t] s(1) by (intro exI [of _ False] exI [of _ t]) (auto simp: keeps_def)
  qed
qed

text \<open>The loop of \<open>removeAll\<close> ends after one round more than there are equal keys.\<close>

lemma removeAllLoop_leaf:
  assumes "holds t c 0 M" "t_recSize t = sz" "t_treeType t \<noteq> B_STAR_PLUS_TREE" "size (filter_mset (\<lambda>x. cmp_isEqual c k x sz) M) < n"
  shows "\<exists>t'. removeAllLoop n k a t = Inr (a + size (filter_mset (\<lambda>x. cmp_isEqual c k x sz) M), t') \<and> sameTree t t' \<and>
    holds t' c 0 (filter_mset (\<lambda>x. \<not> cmp_isEqual c k x sz) M)"
  using assms
proof (induction n arbitrary: t M a)
  case (Suc n)
  let ?eq = "\<lambda>x. cmp_isEqual c k x sz"
  obtain b t1 where r: "BaseBTree_removeKey k t = Inr (b, t1)" "sameTree t t1"
    "if b then \<exists>x. x \<in># M \<and> ?eq x \<and> holds t1 c 0 (M - {#x#}) else t1 = t \<and> (\<forall>x. x \<in># M \<longrightarrow> \<not> ?eq x)"
    using removeKey_leaf [OF Suc.prems(1-3)] by blast
  show ?case
  proof (cases b)
    case True
    then obtain x where x: "x \<in># M" "?eq x" "holds t1 c 0 (M - {#x#})" using r(3) by auto
    then obtain N where M: "M = add_mset x N" by (meson multi_member_split)
    have "\<exists>t'. removeAllLoop n k (a + 1) t1 = Inr (a + 1 + size (filter_mset ?eq N), t') \<and> sameTree t1 t' \<and>
        holds t' c 0 (filter_mset (\<lambda>x. \<not> ?eq x) N)"
      by (rule Suc.IH) (use x(2,3) M sameTreeD(8,11) [OF r(2)] Suc.prems(2-4) in simp_all)
    then show ?thesis using r(1) True x(2) M sameTree_trans [OF r(2)] by auto
  next
    case False
    then have no: "\<forall>x. x \<in># M \<longrightarrow> \<not> ?eq x" "t1 = t" using r(3) by simp_all
    have "filter_mset ?eq M = filter_mset (\<lambda>x. False) M" "filter_mset (\<lambda>x. \<not> ?eq x) M = filter_mset (\<lambda>x. True) M"
      by (rule filter_mset_cong; use no(1) in blast)+
    then have "filter_mset ?eq M = {#}" "filter_mset (\<lambda>x. \<not> ?eq x) M = M" "t1 = t" using no(2) by simp_all
    then show ?thesis using r(1,2) False Suc.prems(1) by simp
  qed
qed simp

text \<open>More rounds do not change the result, and fewer are too few.\<close>

lemma removeAllLoop_more:
  "removeAllLoop n k a t = Inr r \<Longrightarrow> n \<le> n' \<Longrightarrow> removeAllLoop n' k a t = Inr r"
proof (induction n arbitrary: n' a t)
  case (Suc n)
  then obtain n'' where "n' = Suc n''" "n \<le> n''" by (cases n') auto
  then show ?case using Suc.prems(1) Suc.IH by (auto simp: bindR_Inr_iff split: if_splits)
qed simp

lemma removeAllLoop_short:
  assumes "holds t c 0 M" "t_recSize t = sz" "t_treeType t \<noteq> B_STAR_PLUS_TREE" "n \<le> size (filter_mset (\<lambda>x. cmp_isEqual c k x sz) M)"
  shows "removeAllLoop n k a t = Inl OutOfFuel"
  using assms
proof (induction n arbitrary: t M a)
  case (Suc n)
  let ?eq = "\<lambda>x. cmp_isEqual c k x sz"
  obtain b t1 where r: "BaseBTree_removeKey k t = Inr (b, t1)" "sameTree t t1"
    "if b then \<exists>x. x \<in># M \<and> ?eq x \<and> holds t1 c 0 (M - {#x#}) else t1 = t \<and> (\<forall>x. x \<in># M \<longrightarrow> \<not> ?eq x)"
    using removeKey_leaf [OF Suc.prems(1-3)] by blast
  have "size (filter_mset ?eq M) \<noteq> 0" using Suc.prems(4) by linarith
  then obtain y where "y \<in># filter_mset ?eq M" by (metis multiset_nonemptyE size_empty)
  then have b: b using r(3) by (auto split: if_splits)
  then obtain x where x: "x \<in># M" "?eq x" "holds t1 c 0 (M - {#x#})" using r(3) by auto
  then obtain N where M: "M = add_mset x N" by (meson multi_member_split)
  have "removeAllLoop n k (a + 1) t1 = Inl OutOfFuel"
    by (rule Suc.IH) (use x(2,3) M sameTreeD(8,11) [OF r(2)] Suc.prems(2-4) in simp_all)
  then show ?case using r(1) b by simp
qed simp

lemma removeAll_leaf:
  assumes "holds t c 0 M" "t_recSize t = sz" "t_treeType t \<noteq> B_STAR_PLUS_TREE"
  shows "\<exists>t'. removeAll k t = Inr (size (filter_mset (\<lambda>x. cmp_isEqual c k x sz) M), t') \<and> sameTree t t' \<and>
    holds t' c 0 (filter_mset (\<lambda>x. \<not> cmp_isEqual c k x sz) M) \<and>
    (\<forall>n. removeAllLoop n k 0 t =
       (if size (filter_mset (\<lambda>x. cmp_isEqual c k x sz) M) < n then removeAll k t else Inl OutOfFuel))"
proof -
  obtain T where T: "treeState t c 0 T" "M = mset (contents (leafyOf t) T)" using assms(1) by (auto simp: holds_def)
  obtain p ks where P: "T = PNode p ks []" "contents (leafyOf t) T = ks" by (rule leaf_tree [OF T(1)])
  note s = treeStateD [OF T(1) [unfolded P(1)]]
  have h: "pageHas t (t_rootPage t) p ks []" and l: "ps_live (absStore t) p" using s(6,7) stored_node [OF s(7)] by simp_all
  have "length ks \<le> pageKeys t" using pviewD(4) [OF pageHas_view [OF h]] by simp
  moreover have "1 \<le> t_lastPageNum t" using l by (simp add: ps_live_def absStore_def)
  ultimately have "size M \<le> t_lastPageNum t * pageKeys t"
    using T(2) P(2) mult_le_mono [of 1 "t_lastPageNum t" "length ks" "pageKeys t"] by simp
  then have "size (filter_mset (\<lambda>x. cmp_isEqual c k x sz) M) < Suc (t_lastPageNum t * pageKeys t)"
    using size_filter_mset_lesseq [of "\<lambda>x. cmp_isEqual c k x sz" M] by linarith
  then have enough: "Suc (size (filter_mset (\<lambda>x. cmp_isEqual c k x sz) M)) \<le> Suc (t_lastPageNum t * pageKeys t)" by simp
  obtain t' where t': "removeAllLoop (Suc (size (filter_mset (\<lambda>x. cmp_isEqual c k x sz) M))) k 0 t =
      Inr (size (filter_mset (\<lambda>x. cmp_isEqual c k x sz) M), t')" "sameTree t t'"
    "holds t' c 0 (filter_mset (\<lambda>x. \<not> cmp_isEqual c k x sz) M)"
    using removeAllLoop_leaf [OF assms lessI, where a = 0 and k = k] by auto
  have all: "removeAll k t = Inr (size (filter_mset (\<lambda>x. cmp_isEqual c k x sz) M), t')"
    using removeAllLoop_more [OF t'(1) enough] s(3) by (simp add: removeAll_def)
  have "removeAllLoop n k 0 t = (if size (filter_mset (\<lambda>x. cmp_isEqual c k x sz) M) < n then removeAll k t else Inl OutOfFuel)" for n
  proof (cases "size (filter_mset (\<lambda>x. cmp_isEqual c k x sz) M) < n")
    case True
    then show ?thesis using removeAllLoop_more [OF t'(1) Suc_leI [OF True]] by (simp add: all)
  next
    case False
    then have "removeAllLoop n k 0 t = Inl OutOfFuel" by (intro removeAllLoop_short [OF assms]) simp
    then show ?thesis using False by simp
  qed
  with all t'(2,3) show ?thesis by blast
qed

end

section \<open>B*+-trees\<close>

text \<open>A key that is there makes the call end without a value; otherwise it returns \<open>false\<close>.\<close>

context tree_compare
begin

lemma removeKey_star_plus_leaf:
  assumes "holds t c 0 M" "t_recSize t = sz" and ty: "t_treeType t = B_STAR_PLUS_TREE"
  shows "BaseBTree_removeKey k t =
    (if \<exists>x. x \<in># M \<and> cmp_isEqual c k x sz then Inl NoReturnValue else Inr (False, t))"
proof -
  obtain T where T: "treeState t c 0 T" "M = mset (contents (leafyOf t) T)" using assms(1) by (auto simp: holds_def)
  obtain p ks where P: "T = PNode p ks []" "contents (leafyOf t) T = ks" by (rule leaf_tree [OF T(1)])
  note s = treeStateD [OF T(1) [unfolded P(1)]]
  let ?pw = "t_rootPage t"
  have h: "pageHas t ?pw p ks []" using s(6,7) stored_node [OF s(7)] by simp
  obtain i where i: "scanUp c t ?pw k 0 (getKeysNum ?pw) = Inr i" "stops ks k i"
    "equalAt c t ?pw k i = Inr (i < length ks \<and> cmp_isEqual c k (ks ! i) sz)"
    using page_stop [OF storeOkD(1) [OF s(1)] h assms(2)] by blast
  have r: "\<exists>t'. removeFromLeaf i RootPage t = Inr (True, t')" if "i < length ks"
    using removeFromLeaf_ok [OF T(1) [unfolded P(1)] that] by blast
  obtain fuel where f: "2 * fuelOf t = Suc (Suc fuel)" by (simp add: fuelOf_def)
  have run: "BaseBTree_removeKey k t =
      (if i < length ks \<and> cmp_isEqual c k (ks ! i) sz then Inl NoReturnValue else Inr (False, t))"
    using i pageHasD(4) [OF h] s(3) ty r by (auto simp: BaseBTree_removeKey_def removeFrom_def f Let_def)
  have "(\<exists>x \<in> set ks. cmp_isEqual c k x sz) \<longleftrightarrow> i < length ks \<and> cmp_isEqual c k (ks ! i) sz"
    using found_leaf [OF treeStateD(9) [OF T(1), unfolded P(1) assms(2)] i(2)] P
    by (auto simp: found_def contents_def split: if_splits)
  then have "(\<exists>x. x \<in># M \<and> cmp_isEqual c k x sz) \<longleftrightarrow> i < length ks \<and> cmp_isEqual c k (ks ! i) sz"
    using T(2) P(2) by (simp add: Bex_def)
  with run show ?thesis by presburger
qed

end

end
