(* ===== verification/Remove_Pages.thy ===== *)
theory Remove_Pages
  imports Pair_Pages Remove_Ops
begin

text \<open>
  The pages of a node and of two of its children while a key is removed: borrowing a key from a
  sibling and merging two children, in terms of the lists of keys and of cursors of the pages.
\<close>

section \<open>Loops over keys and cursors\<close>

lemma view_shiftBothUp:
  assumes "geom t" "pview t pw p n leaf K C" "m < n"
  shows "runs (shiftBothUp t pw m) (\<lambda>pw. pview t pw p n leaf
    (\<lambda>l. if 1 \<le> l \<and> l \<le> m then K (l - 1) else K l) (\<lambda>l. if 1 \<le> l \<and> l \<le> m then C (l - 1) else C l))"
  using assms(2,3)
proof (induction m arbitrary: pw K C)
  case 0
  then show ?case by (auto elim!: pview_cong)
next
  case (Suc m)
  show ?case
    unfolding shiftBothUp.simps
  proof (rule runs_bindI)
    show "runs (copyKeyAt t pw (Suc m) pw m) (\<lambda>pw. pview t pw p n leaf (K(Suc m := K m)) C)"
      using Suc.prems by (intro view_copyKeyAt [OF assms(1)]) auto
  next
    fix pw1 assume v1: "pview t pw1 p n leaf (K(Suc m := K m)) C"
    show "runs (bindR (copyCursorsAt t pw1 (Suc m) pw1 m 1) (\<lambda>pw. shiftBothUp t pw m)) (\<lambda>pw. pview t pw p n leaf
      (\<lambda>l. if 1 \<le> l \<and> l \<le> Suc m then K (l - 1) else K l) (\<lambda>l. if 1 \<le> l \<and> l \<le> Suc m then C (l - 1) else C l))"
    proof (rule runs_bindI)
      show "runs (copyCursorsAt t pw1 (Suc m) pw1 m 1) (\<lambda>pw. pview t pw p n leaf (K(Suc m := K m)) (C(Suc m := C m)))"
        using Suc.prems by (intro view_copyCursor [OF assms(1) v1]) auto
    next
      fix pw2 assume v2: "pview t pw2 p n leaf (K(Suc m := K m)) (C(Suc m := C m))"
      have "m < n" using Suc.prems(2) by simp
      from Suc.IH [OF v2 this] show "runs (shiftBothUp t pw2 m) (\<lambda>pw. pview t pw p n leaf
        (\<lambda>l. if 1 \<le> l \<and> l \<le> Suc m then K (l - 1) else K l) (\<lambda>l. if 1 \<le> l \<and> l \<le> Suc m then C (l - 1) else C l))"
        by (rule runs_mono) (auto elim!: pview_cong)
    qed
  qed
qed

text \<open>Keys from \<open>j\<close> on and cursors from \<open>j + d\<close> on move down by one.\<close>

lemma view_shift_step:
  assumes "geom t" "pview t pw p n leaf K C" "Suc j < n" "j + d + 1 \<le> n"
  shows "runs (bindR (copyKeyAt t pw j pw (j + 1)) (\<lambda>pw. copyCursorsAt t pw (j + d) pw (j + d + 1) 1))
    (\<lambda>pw. pview t pw p n leaf (K(j := K (Suc j))) (C(j + d := C (j + d + 1))))"
proof (rule runs_bindI)
  show "runs (copyKeyAt t pw j pw (j + 1)) (\<lambda>pw. pview t pw p n leaf (K(j := K (Suc j))) C)"
    using view_copyKeyAt [OF assms(1) assms(2,2), of j "j + 1"] assms(3) by simp
  fix pw1 assume "pview t pw1 p n leaf (K(j := K (Suc j))) C"
  then show "runs (copyCursorsAt t pw1 (j + d) pw1 (j + d + 1) 1)
    (\<lambda>pw. pview t pw p n leaf (K(j := K (Suc j))) (C(j + d := C (j + d + 1))))"
    by (rule view_copyCursor [OF assms(1)]) (use assms(4) in simp_all)
qed

lemma view_shiftBothDown:
  assumes "geom t" "pview t pw p n leaf K C" "j + m < n"
  shows "runs (shiftBothDown t pw j m) (\<lambda>pw. pview t pw p n leaf
    (\<lambda>l. if j \<le> l \<and> l < j + m then K (Suc l) else K l) (\<lambda>l. if j \<le> l \<and> l < j + m then C (Suc l) else C l))"
  using assms(2,3)
proof (induction m arbitrary: pw j K C)
  case 0
  then show ?case by (auto elim!: pview_cong)
next
  case (Suc m)
  have "runs (bindR (copyKeyAt t pw j pw (j + 1)) (\<lambda>pw. copyCursorsAt t pw (j + 0) pw (j + 0 + 1) 1))
      (\<lambda>pw. pview t pw p n leaf (K(j := K (Suc j))) (C(j + 0 := C (j + 0 + 1))))"
    by (rule view_shift_step [OF assms(1) Suc.prems(1)]) (use Suc.prems(2) in simp_all)
  then have "runs (bindR (bindR (copyKeyAt t pw j pw (j + 1)) (\<lambda>pw. copyCursorsAt t pw j pw (j + 1) 1))
      (\<lambda>pw. shiftBothDown t pw (j + 1) m))
    (\<lambda>pw. pview t pw p n leaf (\<lambda>l. if j \<le> l \<and> l < j + Suc m then K (Suc l) else K l)
      (\<lambda>l. if j \<le> l \<and> l < j + Suc m then C (Suc l) else C l))"
    unfolding add_0_right
  proof (rule runs_bindI)
    fix pw1 assume v: "pview t pw1 p n leaf (K(j := K (Suc j))) (C(j := C (j + 1)))"
    have "j + 1 + m < n" using Suc.prems(2) by simp
    from Suc.IH [OF v this] show "runs (shiftBothDown t pw1 (j + 1) m)
      (\<lambda>pw. pview t pw p n leaf (\<lambda>l. if j \<le> l \<and> l < j + Suc m then K (Suc l) else K l)
        (\<lambda>l. if j \<le> l \<and> l < j + Suc m then C (Suc l) else C l))"
      by (rule runs_mono) (auto elim!: pview_cong)
  qed
  then show ?case by (simp add: bindR_assoc)
qed

lemma view_closeGap:
  assumes "geom t" "pview t pw p n leaf K C" "j + m < n"
  shows "runs (closeGap t pw j m) (\<lambda>pw. pview t pw p n leaf
    (\<lambda>l. if j \<le> l \<and> l < j + m then K (Suc l) else K l) (\<lambda>l. if j < l \<and> l \<le> j + m then C (Suc l) else C l))"
  using assms(2,3)
proof (induction m arbitrary: pw j K C)
  case 0
  then show ?case by (auto elim!: pview_cong)
next
  case (Suc m)
  have "runs (bindR (copyKeyAt t pw j pw (j + 1)) (\<lambda>pw. copyCursorsAt t pw (j + 1) pw (j + 1 + 1) 1))
      (\<lambda>pw. pview t pw p n leaf (K(j := K (Suc j))) (C(j + 1 := C (j + 1 + 1))))"
    by (rule view_shift_step [OF assms(1) Suc.prems(1)]) (use Suc.prems(2) in simp_all)
  then have "runs (bindR (bindR (copyKeyAt t pw j pw (j + 1)) (\<lambda>pw. copyCursorsAt t pw (j + 1) pw (j + 1 + 1) 1))
      (\<lambda>pw. closeGap t pw (j + 1) m))
    (\<lambda>pw. pview t pw p n leaf (\<lambda>l. if j \<le> l \<and> l < j + Suc m then K (Suc l) else K l)
      (\<lambda>l. if j < l \<and> l \<le> j + Suc m then C (Suc l) else C l))"
  proof (rule runs_bindI)
    fix pw1 assume v: "pview t pw1 p n leaf (K(j := K (Suc j))) (C(j + 1 := C (j + 1 + 1)))"
    have "j + 1 + m < n" using Suc.prems(2) by simp
    from Suc.IH [OF v this] show "runs (closeGap t pw1 (j + 1) m)
      (\<lambda>pw. pview t pw p n leaf (\<lambda>l. if j \<le> l \<and> l < j + Suc m then K (Suc l) else K l)
        (\<lambda>l. if j < l \<and> l \<le> j + Suc m then C (Suc l) else C l))"
      by (rule runs_mono) (auto elim!: pview_cong)
  qed
  then show ?case by (simp add: bindR_assoc numeral_eq_Suc)
qed

section \<open>Borrowing a key\<close>

lemma borrow_left:
  assumes g: "geom t" and left: "pageHas t left a us cs" "us \<noteq> []" and child: "pageHas t child b ws es" "length ws < pageKeys t"
    and node: "pageHas t node p ks ds" "i < length ks" and leaf: "(cs = []) = (es = [])"
  shows "\<exists>c1 c2 c3 n1 c4.
    copyCursorsAt t (setKeyNum (length ws + 1) child) (length ws + 1) (setKeyNum (length ws + 1) child) (length ws) 1 = Inr c1 \<and>
    shiftBothUp t c1 (length ws) = Inr c2 \<and> copyKeyAt t c2 0 node i = Inr c3 \<and>
    copyKeyAt t node i left (length us - 1) = Inr n1 \<and> copyCursorsAt t c3 0 left (length us) 1 = Inr c4 \<and>
    pageHas t c4 b (ks ! i # ws) (drop (length us) cs @ es) \<and> pageHas t n1 p (ks[i := us ! (length us - 1)]) ds \<and>
    pageHas t (setKeyNum (length us - 1) left) a (take (length us - 1) us) (take (length us) cs)"
proof -
  let ?n = "length ws + 1" and ?u = "length us"
  have u: "0 < ?u" using left(2) by simp
  obtain K C where v: "pview t (setKeyNum ?n child) b ?n (es = []) K C" "\<forall>i < length ws. K i = ws ! i"
    "es \<noteq> [] \<longrightarrow> (\<forall>i \<le> length ws. C i = es ! i)"
    using has_grown [OF g child(1), of ?n] child(2) by auto
  obtain c1 where c1: "copyCursorsAt t (setKeyNum ?n child) ?n (setKeyNum ?n child) (length ws) 1 = Inr c1"
    "pview t c1 b ?n (es = []) K (C(?n := C (length ws)))"
    using view_copyCursor [OF g v(1), of ?n "length ws"] by (auto elim: runsE)
  obtain c2 where c2: "shiftBothUp t c1 (length ws) = Inr c2" "pview t c2 b ?n (es = [])
      (\<lambda>l. if 1 \<le> l \<and> l \<le> length ws then K (l - 1) else K l)
      (\<lambda>l. if 1 \<le> l \<and> l \<le> length ws then (C(?n := C (length ws))) (l - 1) else (C(?n := C (length ws))) l)"
    (is "pview _ _ _ _ _ ?K2 ?C2")
    using view_shiftBothUp [OF g c1(2), of "length ws"] by (auto elim: runsE)
  obtain c3 where c3: "copyKeyAt t c2 0 node i = Inr c3" "pview t c3 b ?n (es = []) (?K2(0 := kslot t node i)) ?C2"
    using view_copyKeyAt [OF g c2(2) pageHas_view [OF node(1)] _ node(2), of 0] by (auto elim: runsE)
  obtain n1 where n1: "copyKeyAt t node i left (?u - 1) = Inr n1" "pageHas t n1 p (ks[i := us ! (?u - 1)]) ds"
    using has_setKey [OF g node left(1), of "?u - 1"] u by auto
  obtain c4 where c4: "copyCursorsAt t c3 0 left ?u 1 = Inr c4" "pview t c4 b ?n (es = []) (?K2(0 := kslot t node i))
      (\<lambda>l. if 0 \<le> l \<and> l < 0 + 1 then cslot t left (l - 0 + ?u) else ?C2 l)"
    using view_copyCursorsAt [OF g c3(2) pageHas_view [OF left(1)], of 1 0 ?u] by (auto elim: runsE)
  have lc: "length cs = Suc ?u" "length es = Suc (length ws)" if "es \<noteq> []"
    using pageHasD(8) [OF left(1)] pageHasD(8) [OF child(1)] that leaf by simp_all
  have "pageHas t c4 b (ks ! i # ws) (drop ?u cs @ es)"
  proof (rule view_pageHas [OF c4(2)])
    show "(?K2(0 := kslot t node i)) l = (ks ! i # ws) ! l" if "l < ?n" for l
      using that v(2) pageHasD(7) [OF node] by (cases l) auto
    show "(es = []) = (drop ?u cs @ es = [])" using lc leaf by auto
    show "length (drop ?u cs @ es) = Suc ?n" if "drop ?u cs @ es \<noteq> []" using that lc leaf by auto
    fix l assume l: "drop ?u cs @ es \<noteq> []" "l \<le> ?n"
    then have e: "es \<noteq> []" "cs \<noteq> []" using leaf by auto
    have d: "drop ?u cs = [cs ! ?u]" using lc [OF e(1)] by (simp add: Cons_nth_drop_Suc [symmetric])
    show "(if 0 \<le> l \<and> l < 0 + 1 then cslot t left (l - 0 + ?u) else ?C2 l) = (drop ?u cs @ es) ! l"
      using l(2) v(3) e pageHasD(9) [OF left(1) e(2), of ?u] unfolding d
      by (cases l) (auto simp: not_less_eq_eq dest: le_antisym)
  qed simp
  moreover have "pageHas t (setKeyNum (?u - 1) left) a (take (?u - 1) us) (take ?u cs)"
  proof (rule view_pageHas [OF view_setKeyNum [OF g pageHas_view [OF left(1)]]])
    show "?u - 1 \<le> pageKeys t" using pageHasD(6) [OF left(1)] by simp
    show "(cs = []) = (take ?u cs = [])" using u by auto
    show "length (take ?u cs) = Suc (?u - 1)" if "take ?u cs \<noteq> []"
      using that pageHasD(8) [OF left(1)] u by (auto simp: min_def)
    show "cslot t left l = take ?u cs ! l" if "take ?u cs \<noteq> []" "l \<le> ?u - 1" for l
    proof -
      have "l < ?u" using that(2) u by linarith
      then show ?thesis using that(1) pageHasD(9) [OF left(1), of l] by auto
    qed
  qed (use pageHasD(7) [OF left(1)] u in auto)
  ultimately show ?thesis using c1(1) c2(1) c3(1) n1 c4(1) by blast
qed

lemma borrow_right:
  assumes g: "geom t" and right: "pageHas t right b ws es" "ws \<noteq> []" and child: "pageHas t child a us cs" "length us < pageKeys t"
    and node: "pageHas t node p ks ds" "i < length ks" and leaf: "(cs = []) = (es = [])"
  shows "\<exists>c1 n1 c2 r1 r2.
    copyKeyAt t (setKeyNum (length us + 1) child) (length us) node i = Inr c1 \<and>
    copyKeyAt t node i right 0 = Inr n1 \<and> copyCursorsAt t c1 (length us + 1) right 0 1 = Inr c2 \<and>
    shiftBothDown t right 0 (length ws - 1) = Inr r1 \<and> copyCursorsAt t r1 (length ws - 1) r1 (length ws) 1 = Inr r2 \<and>
    pageHas t c2 a (us @ [ks ! i]) (cs @ take 1 es) \<and> pageHas t n1 p (ks[i := ws ! 0]) ds \<and>
    pageHas t (setKeyNum (length ws - 1) r2) b (drop 1 ws) (drop 1 es)"
proof -
  let ?n = "length us + 1" and ?w = "length ws"
  have w: "0 < ?w" using right(2) by simp
  obtain K C where v: "pview t (setKeyNum ?n child) a ?n (cs = []) K C" "\<forall>i < length us. K i = us ! i"
    "cs \<noteq> [] \<longrightarrow> (\<forall>i \<le> length us. C i = cs ! i)"
    using has_grown [OF g child(1), of ?n] child(2) by auto
  obtain c1 where c1: "copyKeyAt t (setKeyNum ?n child) (length us) node i = Inr c1"
    "pview t c1 a ?n (cs = []) (K(length us := kslot t node i)) C"
    using view_copyKeyAt [OF g v(1) pageHas_view [OF node(1)] _ node(2), of "length us"] by (auto elim: runsE)
  obtain n1 where n1: "copyKeyAt t node i right 0 = Inr n1" "pageHas t n1 p (ks[i := ws ! 0]) ds"
    using has_setKey [OF g node right(1), of 0] w by auto
  obtain c2 where c2: "copyCursorsAt t c1 ?n right 0 1 = Inr c2" "pview t c2 a ?n (cs = []) (K(length us := kslot t node i))
      (\<lambda>l. if ?n \<le> l \<and> l < ?n + 1 then cslot t right (l - ?n + 0) else C l)"
    using view_copyCursorsAt [OF g c1(2) pageHas_view [OF right(1)], of 1 ?n 0] by (auto elim: runsE)
  obtain r1 where r1: "shiftBothDown t right 0 (?w - 1) = Inr r1" "pview t r1 b ?w (es = [])
      (\<lambda>l. if 0 \<le> l \<and> l < 0 + (?w - 1) then kslot t right (Suc l) else kslot t right l)
      (\<lambda>l. if 0 \<le> l \<and> l < 0 + (?w - 1) then cslot t right (Suc l) else cslot t right l)"
    (is "pview _ _ _ _ _ ?K1 ?C1")
    using view_shiftBothDown [OF g pageHas_view [OF right(1)], of 0 "?w - 1"] w by (auto elim: runsE)
  obtain r2 where r2: "copyCursorsAt t r1 (?w - 1) r1 ?w 1 = Inr r2" "pview t r2 b ?w (es = []) ?K1 (?C1(?w - 1 := ?C1 ?w))"
    using view_copyCursor [OF g r1(2), of "?w - 1" ?w] by (auto elim: runsE)
  have lc: "length cs = Suc (length us)" "length es = Suc ?w" if "cs \<noteq> []"
    using pageHasD(8) [OF right(1)] pageHasD(8) [OF child(1)] that leaf by simp_all
  have "pageHas t c2 a (us @ [ks ! i]) (cs @ take 1 es)"
  proof (rule view_pageHas [OF c2(2)])
    show "(K(length us := kslot t node i)) l = (us @ [ks ! i]) ! l" if "l < ?n" for l
      using that v(2) pageHasD(7) [OF node] by (auto simp: nth_append)
    show "(cs = []) = (cs @ take 1 es = [])" using leaf by auto
    show "length (cs @ take 1 es) = Suc ?n" if "cs @ take 1 es \<noteq> []" using that lc leaf by auto
    fix l assume l: "cs @ take 1 es \<noteq> []" "l \<le> ?n"
    then have e: "cs \<noteq> []" "es \<noteq> []" using leaf by auto
    show "(if ?n \<le> l \<and> l < ?n + 1 then cslot t right (l - ?n + 0) else C l) = (cs @ take 1 es) ! l"
      using l(2) v(3) e lc pageHasD(9) [OF right(1) e(2), of 0] by (auto simp: nth_append)
  qed simp
  moreover have "pageHas t (setKeyNum (?w - 1) r2) b (drop 1 ws) (drop 1 es)"
  proof (rule view_pageHas [OF view_setKeyNum [OF g r2(2)]])
    show "?w - 1 \<le> pageKeys t" using pageHasD(6) [OF right(1)] by simp
    show "(es = []) = (drop 1 es = [])" using lc leaf w by auto
    show "length (drop 1 es) = Suc (?w - 1)" if "drop 1 es \<noteq> []" using that lc leaf w by auto
    show "(?C1(?w - 1 := ?C1 ?w)) l = drop 1 es ! l" if "drop 1 es \<noteq> []" "l \<le> ?w - 1" for l
    proof -
      have e: "es \<noteq> []" "cs \<noteq> []" using that(1) leaf by auto
      show ?thesis using that(2) e lc w pageHasD(9) [OF right(1) e(1), of "Suc l"] pageHasD(9) [OF right(1) e(1), of ?w] by auto
    qed
  qed (use pageHasD(7) [OF right(1)] w in auto)
  ultimately show ?thesis using c1(1) c2(1) n1 r1(1) r2(1) by blast
qed

section \<open>Merging two children\<close>

text \<open>The left page takes the key between the pages and everything from the right page.\<close>

lemma merge_fill:
  assumes g: "geom t" and left: "pageHas t left a us cs" and right: "pageHas t right b ws es"
    and node: "pageHas t node p ks ds" "i < length ks" and n: "length us + length ws + 1 \<le> pageKeys t"
    and leaf: "(cs = []) = (es = [])"
  shows "\<exists>l1 l2 l3.
    copyKeyAt t (setKeyNum (length us + length ws + 1) left) (length us) node i = Inr l1 \<and>
    copyKeysAt t l1 (length us + 1) right 0 (length ws) = Inr l2 \<and>
    copyCursorsAt t l2 (length us + 1) right 0 (length ws + 1) = Inr l3 \<and>
    pageHas t l3 a (us @ ks ! i # ws) (cs @ es)"
proof -
  let ?n = "length us + length ws + 1"
  obtain K C where v: "pview t (setKeyNum ?n left) a ?n (cs = []) K C" "\<forall>l < length us. K l = us ! l"
    "cs \<noteq> [] \<longrightarrow> (\<forall>l \<le> length us. C l = cs ! l)"
    using has_grown [OF g left _ n] by auto
  obtain l1 where l1: "copyKeyAt t (setKeyNum ?n left) (length us) node i = Inr l1"
    "pview t l1 a ?n (cs = []) (K(length us := kslot t node i)) C"
    using view_copyKeyAt [OF g v(1) pageHas_view [OF node(1)] _ node(2), of "length us"] by (auto elim: runsE)
  obtain l2 where l2: "copyKeysAt t l1 (length us + 1) right 0 (length ws) = Inr l2"
    "pview t l2 a ?n (cs = []) (\<lambda>l. if length us + 1 \<le> l \<and> l < length us + 1 + length ws
      then kslot t right (l - (length us + 1) + 0) else (K(length us := kslot t node i)) l) C" (is "pview _ _ _ _ _ ?K _")
    using view_copyKeysAt [OF g l1(2) pageHas_view [OF right], of "length us + 1" "length ws" 0] by (auto elim: runsE)
  obtain l3 where l3: "copyCursorsAt t l2 (length us + 1) right 0 (length ws + 1) = Inr l3"
    "pview t l3 a ?n (cs = []) ?K (\<lambda>l. if length us + 1 \<le> l \<and> l < length us + 1 + (length ws + 1)
      then cslot t right (l - (length us + 1) + 0) else C l)"
    using view_copyCursorsAt [OF g l2(2) pageHas_view [OF right], of "length ws + 1" "length us + 1" 0] by (auto elim: runsE)
  have lc: "length cs = Suc (length us)" "length es = Suc (length ws)" if "cs \<noteq> []"
    using pageHasD(8) [OF left] pageHasD(8) [OF right] that leaf by simp_all
  have "pageHas t l3 a (us @ ks ! i # ws) (cs @ es)"
  proof (rule view_pageHas [OF l3(2)])
    show "?K l = (us @ ks ! i # ws) ! l" if "l < ?n" for l
    proof (cases "l \<le> length us")
      case True
      then show ?thesis using v(2) pageHasD(7) [OF node] by (cases "l = length us") (auto simp: nth_append)
    next
      case False
      define m where "m = l - (length us + 1)"
      have "l = length us + 1 + m" "m < length ws" using False that by (simp_all add: m_def)
      then show ?thesis using pageHasD(7) [OF right, of m] by (simp add: nth_append)
    qed
    show "(cs = []) = (cs @ es = [])" using leaf by auto
    show "length (cs @ es) = Suc ?n" if "cs @ es \<noteq> []" using that lc leaf by auto
    fix l assume l: "cs @ es \<noteq> []" "l \<le> ?n"
    then have e: "cs \<noteq> []" "es \<noteq> []" using leaf by auto
    show "(if length us + 1 \<le> l \<and> l < length us + 1 + (length ws + 1) then cslot t right (l - (length us + 1) + 0) else C l) =
        (cs @ es) ! l"
      using l(2) v(3) e lc pageHasD(9) [OF right e(2)] by (auto simp: nth_append)
  qed simp
  then show ?thesis using l1(1) l2(1) l3(1) by blast
qed

text \<open>The node loses the key between the pages and the cursor of the right one.\<close>

lemma merge_close:
  assumes g: "geom t" and node: "pageHas t node p ks ds" "i < length ks" and ne: "ds \<noteq> []" "1 < length ks"
  shows "\<exists>n1. closeGap t node i (length ks - 1 - i) = Inr n1 \<and>
    pageHas t (setKeyNum (length ks - 1) n1) p (take i ks @ drop (Suc i) ks) (take (Suc i) ds @ drop (Suc (Suc i)) ds) \<and>
    getKeysNum n1 = length ks"
proof -
  let ?m = "length ks - 1 - i"
  have m: "i + ?m < length ks" "i + ?m = length ks - 1" using node(2) by simp_all
  obtain n1 where n1: "closeGap t node i ?m = Inr n1" "pview t n1 p (length ks) (ds = [])
      (\<lambda>l. if i \<le> l \<and> l < i + ?m then kslot t node (Suc l) else kslot t node l)
      (\<lambda>l. if i < l \<and> l \<le> i + ?m then cslot t node (Suc l) else cslot t node l)" (is "pview _ _ _ _ _ ?K ?C")
    using view_closeGap [OF g pageHas_view [OF node(1)] m(1)] by (rule runsE)
  have ld: "length ds = Suc (length ks)" by (rule pageHasD(8) [OF node(1) ne(1)])
  have "pageHas t (setKeyNum (length ks - 1) n1) p (take i ks @ drop (Suc i) ks) (take (Suc i) ds @ drop (Suc (Suc i)) ds)"
  proof (rule view_pageHas [OF view_setKeyNum [OF g n1(2)]])
    show "length ks - 1 \<le> pageKeys t" using pageHasD(6) [OF node(1)] by simp
    show "?K l = (take i ks @ drop (Suc i) ks) ! l" if "l < length ks - 1" for l
      using that m(2) pageHasD(7) [OF node(1)] node(2) by (auto simp: nth_append)
    show "length (take (Suc i) ds @ drop (Suc (Suc i)) ds) = Suc (length ks - 1)" using ld node(2) by simp
    show "?C l = (take (Suc i) ds @ drop (Suc (Suc i)) ds) ! l" if "l \<le> length ks - 1" for l
      using that m(2) ld pageHasD(9) [OF node(1) ne(1)] node(2) by (auto simp: nth_append)
  qed (use ne ld node(2) in auto)
  then show ?thesis using n1(1) pviewD(3) [OF n1(2)] by blast
qed

end
