(* ===== verification/Remove_Store.thy ===== *)
theory Remove_Store
  imports Remove_Proofs Remove_Pages
begin

text \<open>
  The state while a key is removed: no page is allocated, pages of the subtree may be freed, and
  the cached root page is up to date.  A reference to a page is the cached root or a local
  wrapper of another page.
\<close>

definition cached :: "BaseBTree \<Rightarrow> bool" where
  "cached t \<longleftrightarrow> t_rootPage t = pageImg (absStore t) (t_rootPageNum t)"

definition refNum :: "BaseBTree \<Rightarrow> PageRef \<Rightarrow> nat \<Rightarrow> bool" where
  "refNum t cur p \<longleftrightarrow> (case cur of RootPage \<Rightarrow> p = t_rootPageNum t | LocalPage _ \<Rightarrow> p \<noteq> t_rootPageNum t)"

abbreviation refers :: "BaseBTree \<Rightarrow> PageRef \<Rightarrow> nat \<Rightarrow> bool" where
  "refers t cur p \<equiv> refNum t cur p \<and> pageOf t cur = pageImg (absStore t) p"

definition shrinks :: "nat set \<Rightarrow> BaseBTree \<Rightarrow> BaseBTree \<Rightarrow> bool" where
  "shrinks A t t' \<longleftrightarrow>
     storeOk t' \<and> sameTree t t' \<and> cached t' \<and> ps_ok (absStore t') \<and>
     ps_last (absStore t') = ps_last (absStore t) \<and> ps_root (absStore t') = ps_root (absStore t) \<and>
     ps_avail (absStore t') \<subseteq> ps_avail (absStore t) \<union> A \<and>
     (\<forall>n. n \<notin> A \<longrightarrow> ps_page (absStore t') n = ps_page (absStore t) n)"

lemma shrinksD:
  assumes "shrinks A t t'"
  shows "storeOk t'" "sameTree t t'" "cached t'" "ps_ok (absStore t')" "t_rootPageNum t' = t_rootPageNum t"
    "ps_live (absStore t') = ps_live (absStore t)" "ps_avail (absStore t') \<subseteq> ps_avail (absStore t) \<union> A"
    "n \<notin> A \<Longrightarrow> ps_page (absStore t') n = ps_page (absStore t) n" "ps_last (absStore t') = ps_last (absStore t)"
  using assms by (auto simp: shrinks_def ps_live_def fun_eq_iff absStore_def)

lemma shrinks_refl: "storeOk t \<Longrightarrow> cached t \<Longrightarrow> ps_ok (absStore t) \<Longrightarrow> shrinks A t t"
  using sameTree_keeps [of t t] by (auto simp: shrinks_def keeps_def)

lemma shrinks_trans:
  assumes "shrinks A t t1" "shrinks B t1 t2" "B \<subseteq> A"
  shows "shrinks A t t2"
proof -
  have "sameTree t t2" using assms sameTree_trans by (auto simp: shrinks_def)
  moreover have "ps_page (absStore t2) n = ps_page (absStore t) n" if "n \<notin> A" for n
    using that assms(3) shrinksD(8) [OF assms(1), of n] shrinksD(8) [OF assms(2), of n] by auto
  moreover have "ps_avail (absStore t2) \<subseteq> ps_avail (absStore t) \<union> A"
    using shrinksD(7) [OF assms(1)] shrinksD(7) [OF assms(2)] assms(3) by blast
  ultimately show ?thesis using assms(1,2) by (simp add: shrinks_def)
qed

lemma shrinks_mono: "shrinks A t t' \<Longrightarrow> A \<subseteq> B \<Longrightarrow> shrinks B t t'"
  by (auto simp: shrinks_def)

lemma shrinks_stored:
  assumes "shrinks A t t'" "stored t (absStore t) T" "set (pages T) \<inter> A = {}"
  shows "stored t (absStore t') T"
  using assms(2,3)
proof (induction T)
  case (PNode p ks Ts)
  have "ps_page (absStore t') p = ps_page (absStore t) p" using PNode.prems shrinksD(8) [OF assms(1)] by auto
  moreover have "ps_live (absStore t') p" "p \<notin> ps_avail (absStore t')"
    using PNode.prems shrinksD(6,7) [OF assms(1)] by auto
  moreover have "stored t (absStore t') T" if "T \<in> set Ts" for T
    using PNode.IH [OF that] PNode.prems that by auto
  ultimately show ?case using PNode.prems by simp
qed

lemma refNum_shrinks: "shrinks A t t' \<Longrightarrow> refNum t' cur p = refNum t cur p"
  using shrinksD(5) by (simp add: refNum_def split: PageRef.split)

text \<open>Writing pages below the root.\<close>

lemma write_below:
  assumes ok: "storeOk t" "ps_ok (absStore t)" "cached t"
    and l: "\<forall>pw \<in> set pws. ps_live (absStore t) (pw_pageNum pw) \<and> length (pw_data pw) = t_nodePageSize t \<and>
      pw_pageNum pw \<noteq> t_rootPageNum t"
  shows "\<exists>t'. writePages pws t = Inr t' \<and> shrinks (pw_pageNum ` set pws) t t' \<and> keeps t t' \<and>
    absStore t' = ps_writes pws (absStore t)"
proof -
  obtain t' where t': "writePages pws t = Inr t'" "keeps t t'" "absStore t' = ps_writes pws (absStore t)"
    using write_pages [OF ok(1), of pws] l by auto
  have r: "t_rootPage t' = t_rootPage t" using frame_eqD [OF keepsD(2) [OF t'(2)]] by simp
  have n: "t_rootPageNum t' = t_rootPageNum t"
    using arg_cong [OF t'(3), of ps_root] by (simp add: absStore_def)
  have "t_rootPageNum t \<notin> pw_pageNum ` set pws" using l by auto
  from ps_writes_other [OF this] have "cached t'" using ok(3) by (simp add: cached_def r n t'(3))
  then have "shrinks (pw_pageNum ` set pws) t t'"
    using t' ok(2) keepsD(1) [OF t'(2)] sameTree_keeps [OF t'(2)] ps_writes_other [of _ pws "absStore t"]
    by (simp add: shrinks_def)
  then show ?thesis using t' by blast
qed

text \<open>Writing a referenced page.\<close>

lemma store_page:
  assumes ok: "storeOk t" "ps_ok (absStore t)" "cached t" and r: "refNum t cur p"
    and pw: "pw_pageNum pw = p" "ps_live (absStore t) p" "length (pw_data pw) = t_nodePageSize t"
  shows "\<exists>cur' t'. storePage cur pw t = Inr (cur', t') \<and> shrinks {p} t t' \<and> absStore t' = ps_write p (pw_data pw) (absStore t) \<and>
    refers t' cur' p \<and> pageImg (absStore t') p = pw"
proof (cases cur)
  case RootPage
  let ?t = "t\<lparr>t_rootPage := pw\<rparr>"
  obtain t' where t': "PageWrapper_writePage pw ?t = Inr t'" "keeps ?t t'" "absStore t' = ps_write p (pw_data pw) (absStore t)"
    using write_page [of ?t pw] ok(1) pw by auto
  have n: "t_rootPage t' = pw" using frame_eqD [OF keepsD(2) [OF t'(2)]] by simp
  have m: "t_rootPageNum t' = t_rootPageNum t" using arg_cong [OF t'(3), of ps_root] by (simp add: absStore_def ps_write_def)
  have p: "p = t_rootPageNum t" using r RootPage by (simp add: refNum_def)
  have img: "pageImg (absStore t') p = pw" using pw(1) by (simp add: t'(3) ps_write_def)
  then have "cached t'" using p by (simp add: cached_def n m)
  moreover have "sameTree t t'" by (rule sameTree_trans [OF sameTree_rootPage sameTree_keeps [OF t'(2)]])
  moreover have "ps_ok (absStore t')" "ps_avail (absStore t') = ps_avail (absStore t)"
    using ok(2) by (auto simp: t'(3) ps_write_def ps_ok_def ps_avail_def ps_live_def)
  ultimately have "shrinks {p} t t'"
    using keepsD(1) [OF t'(2)] unfolding shrinks_def t'(3) by (auto simp: ps_write_def)
  then show ?thesis using t'(1,3) img p RootPage by (simp add: storePage_def refNum_def n m)
next
  case (LocalPage pw0)
  have p: "p \<noteq> t_rootPageNum t" using r LocalPage by (simp add: refNum_def)
  obtain t' where t': "writePages [pw] t = Inr t'" "shrinks {p} t t'" "absStore t' = ps_write p (pw_data pw) (absStore t)"
    using write_below [OF ok, of "[pw]"] pw p by (auto simp: ps_writes_def)
  have "pageImg (absStore t') p = pw" using pw(1) by (simp add: t'(3) ps_write_def)
  then show ?thesis using t' LocalPage p shrinksD(5) [OF t'(2)] by (cases "PageWrapper_writePage pw t") (auto simp: storePage_def refNum_def)
qed

section \<open>Freeing a page\<close>

text \<open>Space for \<open>n\<close> more numbers in the area of free pages below 4 GiB; with a 64-bit \<open>ULong\<close> some page
  must be free already.\<close>

definition freeRoom :: "BaseBTree \<Rightarrow> pstore \<Rightarrow> nat \<Rightarrow> bool" where
  "freeRoom t \<sigma> n \<longleftrightarrow>
     (t_ulongBits t = 32 \<or> ps_free \<sigma> \<noteq> []) \<and> pageOfs t (Suc (ps_last \<sigma>)) + 4 + 4 * (length (ps_free \<sigma>) + n) < 2 ^ 32"

lemma freeRoom_mono: "freeRoom t \<sigma> n \<Longrightarrow> m \<le> n \<Longrightarrow> freeRoom t \<sigma> m"
  by (auto simp: freeRoom_def)

lemma freeRoom_sameTree: "sameTree t t' \<Longrightarrow> freeRoom t' = freeRoom t"
  using sameTreeD(12,13) [of t t'] by (simp add: fun_eq_iff freeRoom_def pageOfs_def)

lemma free_page:
  assumes ok: "storeOk t" "ps_ok (absStore t)" "cached t" and q: "ps_live (absStore t) q" "q \<notin> ps_avail (absStore t)"
    and fr: "freeRoom t (absStore t) (Suc n)"
  shows "\<exists>t'. markPageFree q t = Inr t' \<and> shrinks {q} t t' \<and> keeps t t' \<and> absStore t' = ps_push q (absStore t) \<and>
    freeRoom t (absStore t') n"
proof -
  have s: "ps_last (absStore t) = t_lastPageNum t" "length (ps_free (absStore t)) = t_freePagesCounter t"
    by (simp_all add: absStore_def)
  have a: "1 \<le> q" "q \<le> t_lastPageNum t" using q(1) s(1) by (simp_all add: ps_live_def)
  have b: "t_ulongBits t = 32 \<or> 0 < t_freePagesCounter t" "areaOfs t + 8 + 4 * t_freePagesCounter t < 2 ^ 32"
    using fr s by (auto simp: freeRoom_def)
  obtain t' where t': "markPageFree q t = Inr t'" "storeOk t'" "frame t' = frame t" "absStore t' = ps_push q (absStore t)"
    using markPageFree_ok [OF ok(1) a b] by blast
  have k: "keeps t t'" using t'(2,3) by (simp add: keeps_def)
  have r: "t_rootPage t' = t_rootPage t" using frame_eqD [OF t'(3)] by simp
  have m: "t_rootPageNum t' = t_rootPageNum t" using arg_cong [OF t'(4), of ps_root] by (simp add: absStore_def ps_push_def)
  have "cached t'" using ok(3) by (simp add: cached_def r m t'(4) ps_push_def)
  moreover have "ps_ok (absStore t')" using ok(2) q by (simp add: t'(4) ps_ok_def ps_push_def ps_avail_def ps_live_def)
  ultimately have "shrinks {q} t t'"
    using t'(2,4) sameTree_keeps [OF k] by (auto simp: shrinks_def ps_push_def ps_avail_def)
  moreover have "freeRoom t (absStore t') n" using fr by (auto simp: freeRoom_def t'(4) ps_push_def)
  ultimately show ?thesis using t' k by blast
qed

end
