(* ===== verification/Remove_Merge.thy ===== *)
theory Remove_Merge
  imports Remove_Store Share_Keys
begin

text \<open>
  Two children of a node of a B-tree while a key is removed: a key goes over from a sibling, or the
  children become one, on the pages and in the tree.
\<close>

section \<open>The end of a merge\<close>

lemma writePage_rootPage:
  "PageWrapper_writePage pw (t\<lparr>t_rootPage := x\<rparr>) = bindR (PageWrapper_writePage pw t) (\<lambda>t. Inr (t\<lparr>t_rootPage := x\<rparr>))"
  by (auto simp: PageWrapper_writePage_def writePage_def checkForOpenStream_def isOpened_def writePageInternal_def
      gotoPage_def seekT_def writeT_def countDisk_def split: option.splits)

lemma finishMerge_eq:
  assumes "putPage cur pw t = (cur1, t1)" "getKeysNum pw \<noteq> 1"
  shows "finishMerge left right cur1 n t1 =
    bindR (PageWrapper_writePage left t) (\<lambda>t.
    bindR (storePage cur (setKeyNum (SSub n 1) pw) t) (\<lambda>(cur, t).
    bindR (markPageFree (pw_pageNum right) t) (\<lambda>t. Inr (cur, t))))"
proof (cases cur)
  case RootPage
  then have "cur1 = RootPage" "t1 = t\<lparr>t_rootPage := pw\<rparr>" using assms(1) by simp_all
  then show ?thesis
    using assms(2) RootPage
    by (cases "PageWrapper_writePage left t") (simp_all add: finishMerge_def writePage_rootPage storePage_def)
next
  case (LocalPage pw0)
  then have "cur1 = LocalPage pw" "t1 = t" using assms(1) by simp_all
  then show ?thesis using assms(2) LocalPage by (simp add: finishMerge_def storePage_def)
qed

lemma refers_shrinks:
  assumes "shrinks A t t'" "refers t cur p" "p \<notin> A"
  shows "refers t' cur p"
proof -
  have "pageImg (absStore t') p = pageImg (absStore t) p" using shrinksD(8) [OF assms(1,3)] by simp
  then show ?thesis
    using assms(2) shrinksD(3,5) [OF assms(1)] by (cases cur) (simp_all add: refNum_def cached_def)
qed

section \<open>Merging on the pages\<close>

lemma merge_run:
  assumes P: "pairAt t p ks Ts i a us Vs b ws Ws" and c: "cached t" "refers t cur p"
    and r: "a \<noteq> t_rootPageNum t" "b \<noteq> t_rootPageNum t"
    and len: "length us = t_minKeys t" "length ws = t_minKeys t" "t_maxKeys t = 2 * t_minKeys t + 1" "1 < length ks"
    and fr: "freeRoom t (absStore t) (Suc n)"
  shows "\<exists>cur' t'. BaseBTree_mergeChildren (pageImg (absStore t) a) (pageImg (absStore t) b) cur i t =
      Inr (pageImg (absStore t') a, cur', t') \<and> shrinks {p, a, b} t t' \<and> freeRoom t (absStore t') n \<and> refers t' cur' p \<and>
    ps_avail (absStore t') \<subseteq> insert b (ps_avail (absStore t)) \<and>
    pageHas t (pageImg (absStore t') a) a (us @ ks ! i # ws) (map pno (Vs @ Ws)) \<and>
    pageHas t (pageImg (absStore t') p) p (take i ks @ drop (Suc i) ks) (map pno (take (Suc i) Ts @ drop (Suc (Suc i)) Ts))"
proof -
  note D = pairAtD [OF P]
  let ?\<sigma> = "absStore t" and ?m = "t_minKeys t"
  let ?A = "pageImg ?\<sigma> a" and ?B = "pageImg ?\<sigma> b" and ?P = "pageImg ?\<sigma> p"
  have n: "?m + ?m + 1 \<le> pageKeys t" using geomD(2) [OF D(11)] len(3) by simp
  have lf: "(map pno Vs = []) = (map pno Ws = [])" using D(10) by simp
  obtain l1 l2 l3 where l: "copyKeyAt t (setKeyNum (t_maxKeys t) ?A) ?m ?P i = Inr l1"
    "copyKeysAt t l1 (?m + 1) ?B 0 ?m = Inr l2" "copyCursorsAt t l2 (?m + 1) ?B 0 (?m + 1) = Inr l3"
    "pageHas t l3 a (us @ ks ! i # ws) (map pno (Vs @ Ws))"
    using merge_fill [OF D(11,13,14,12,5) _ lf] n len(1-3) by (auto simp: mult_2)
  have ne: "map pno Ts \<noteq> []" using D(6) by auto
  obtain n1 where n1: "closeGap t ?P i (length ks - 1 - i) = Inr n1" "getKeysNum n1 = length ks"
    "pageHas t (setKeyNum (length ks - 1) n1) p (take i ks @ drop (Suc i) ks)
      (take (Suc i) (map pno Ts) @ drop (Suc (Suc i)) (map pno Ts))"
    using merge_close [OF D(11,12,5) ne len(4)] by blast
  let ?new = "setKeyNum (length ks - 1) n1"
  obtain cur1 t1 where put: "putPage cur n1 t = (cur1, t1)" by fastforce
  have "length ks \<le> MAX_KEYS_NUM" using getKeysNum_le [of ?P] pageHasD(3) [OF D(12)] by simp
  then have sub: "SSub (length ks) 1 = length ks - 1" using len(4) by (intro SSub_one) (auto simp: layout)
  note L = pageHasD [OF l(4)] and N = pageHasD [OF n1(3)]
  obtain t2 where t2: "writePages [l3] t = Inr t2" "shrinks {a} t t2" "absStore t2 = ps_write a (pw_data l3) ?\<sigma>"
    using write_below [OF D(1,2) c(1), of "[l3]"] L(1,5) D(15) r(1) by (auto simp: ps_writes_def)
  note S2 = shrinksD [OF t2(2)]
  have w2: "PageWrapper_writePage l3 t = Inr t2" using t2(1) by (cases "PageWrapper_writePage l3 t") simp_all
  have ps: "t_nodePageSize t2 = t_nodePageSize t" using sameTreeD [OF S2(2)] by simp
  have "refNum t2 cur p" using c(2) refNum_shrinks [OF t2(2)] by simp
  then obtain cur' t3 where t3: "storePage cur ?new t2 = Inr (cur', t3)" "shrinks {p} t2 t3"
    "absStore t3 = ps_write p (pw_data ?new) (absStore t2)" "refers t3 cur' p" "pageImg (absStore t3) p = ?new"
    using store_page [OF S2(1,4,3), of cur p ?new] N(1,5) D(15) S2(6) ps by auto
  note S3 = shrinksD [OF t3(2)]
  have fr3: "freeRoom t3 (absStore t3) (Suc n)"
    using fr freeRoom_sameTree [OF S2(2)] freeRoom_sameTree [OF S3(2)] by (simp add: freeRoom_def t3(3) t2(3) ps_write_def)
  have b3: "ps_live (absStore t3) b" "b \<notin> ps_avail (absStore t3)"
    using D(15) S2(6) S3(6) by (auto simp: t3(3) t2(3) ps_avail_def ps_write_def)
  obtain t4 where t4: "markPageFree b t3 = Inr t4" "shrinks {b} t3 t4" "freeRoom t3 (absStore t4) n"
    "absStore t4 = ps_push b (absStore t3)"
    using free_page [OF S3(1,4,3) b3 fr3] by blast
  have run: "BaseBTree_mergeChildren ?A ?B cur i t = Inr (l3, cur', t4)"
    using c(2) l(1-3) n1(1) pageHasD(3) [OF D(12)] put finishMerge_eq [OF put, of l3 ?B "length ks"] n1(2) len(4) sub w2
      t3(1) t4(1) pageHasD(1) [OF D(14)] by (simp add: BaseBTree_mergeChildren_def Let_def)
  have "shrinks {p, a, b} t t4"
    by (rule shrinks_trans [OF shrinks_trans [OF shrinks_mono [OF t2(2)] t3(2)] t4(2)]) auto
  moreover have "pageImg (absStore t4) a = l3" "pageImg (absStore t4) p = ?new"
    using L(1) D(16) t3(5) by (simp_all add: t4(4) t3(3) t2(3) ps_write_def ps_push_def)
  moreover have "ps_avail (absStore t4) \<subseteq> insert b (ps_avail ?\<sigma>)"
    by (auto simp: t4(4) t3(3) t2(3) ps_write_def ps_push_def ps_avail_def)
  moreover have "freeRoom t (absStore t4) n"
    using t4(3) freeRoom_sameTree [OF S2(2)] freeRoom_sameTree [OF S3(2)] by simp
  moreover have "refers t4 cur' p" by (rule refers_shrinks [OF t4(2) t3(4)]) (use D(16) in auto)
  ultimately show ?thesis using run l(4) n1(3) by (intro exI [of _ cur'] exI [of _ t4]) (simp add: take_map drop_map)
qed

section \<open>The rearranged tree in the store\<close>

text \<open>The state and the tree after a node lost or moved a key.\<close>

definition reduced ::
  "BaseBTree \<Rightarrow> nat \<Rightarrow> nat \<Rightarrow> byte list list \<Rightarrow> byte list ptree list \<Rightarrow> BaseBTree \<Rightarrow> byte list ptree \<Rightarrow> bool" where
  "reduced t n p ks Ts t' T1 \<longleftrightarrow>
     shrinks (set (pages (PNode p ks Ts))) t t' \<and> freeRoom t (absStore t') n \<and>
     stored t (absStore t') T1 \<and> distinct (pages T1) \<and> set (pages T1) \<subseteq> set (pages (PNode p ks Ts))"

lemma distinct_submset:
  assumes "mset xs \<subseteq># mset ys" "distinct ys"
  shows "distinct xs" "set xs \<subseteq> set ys"
proof -
  obtain zs where "mset ys = mset xs + mset zs" using assms(1) by (metis ex_mset mset_subset_eqD subset_mset.le_iff_add)
  then have m: "mset ys = mset (xs @ zs)" by simp
  have "distinct (xs @ zs)" using assms(2) mset_eq_imp_distinct_iff [OF m] by simp
  then show "distinct xs" by simp
  show "set xs \<subseteq> set ys" using arg_cong [OF m, of set_mset] by simp
qed

lemma pair_reduced:
  assumes P: "pairAt t p ks Ts i a us Vs b ws Ws" and t': "shrinks {p, a, b} t t'" "freeRoom t (absStore t') n"
    and U: "\<forall>U \<in> set Us. pageHas t (pageImg (absStore t') (pno U)) (pno U) (pkeys U) (map pno (pkids U)) \<and>
        pno U \<in> {a, b} \<and> pno U \<notin> ps_avail (absStore t')"
      "set (concat (map pkids Us)) \<subseteq> set Vs \<union> set Ws"
    and p: "pageHas t (pageImg (absStore t') p) p (take i ks @ ms @ drop (Suc i) ks)
        (map pno (take i Ts @ Us @ drop (Suc (Suc i)) Ts))" "p \<notin> ps_avail (absStore t')"
    and N: "mset (concat (map pages Us)) \<subseteq># mset (pages (PNode a us Vs)) + mset (pages (PNode b ws Ws))"
  shows "reduced t n p ks Ts t' (joinedTree p ks Ts i ms Us)"
proof -
  note D = pairAtD [OF P]
  let ?T1 = "joinedTree p ks Ts i ms Us"
  have live: "ps_live (absStore t') p" "ps_live (absStore t') a" "ps_live (absStore t') b"
    using D(15) shrinksD(6) [OF t'(1)] by simp_all
  have "stored t (absStore t') ?T1"
    using U live(2,3)
    by (intro joined_stored [OF shrinks_stored [OF t'(1)] _ D(4,7-9) _ p(1) live(1) p(2)]) (use D(3) in auto)
  moreover have T: "mset (pages (PNode p ks Ts)) = mset (pages (PNode p ks (take i Ts @ PNode a us Vs # PNode b ws Ws # drop (Suc (Suc i)) Ts)))"
    using pair_kids [OF D(7-9)] by simp
  have "mset (pages ?T1) \<subseteq># mset (pages (PNode p ks Ts))"
    unfolding T using N by (simp add: joinedTree_def)
  then have "distinct (pages ?T1)" "set (pages ?T1) \<subseteq> set (pages (PNode p ks Ts))"
    by (rule distinct_submset [OF _ D(4)])+
  moreover have "a \<in> set (pages (PNode p ks Ts))" "b \<in> set (pages (PNode p ks Ts))"
    using nth_mem [of i Ts] nth_mem [of "Suc i" Ts] D(7-9) by force+
  then have "shrinks (set (pages (PNode p ks Ts))) t t'" by (intro shrinks_mono [OF t'(1)]) auto
  ultimately show ?thesis using t'(2) by (simp add: reduced_def del: pages.simps)
qed

lemma merge_reduced:
  assumes P: "pairAt t p ks Ts i a us Vs b ws Ws" and c: "cached t" "refers t cur p"
    and r: "a \<noteq> t_rootPageNum t" "b \<noteq> t_rootPageNum t"
    and len: "length us = t_minKeys t" "length ws = t_minKeys t" "t_maxKeys t = 2 * t_minKeys t + 1" "1 < length ks"
    and fr: "freeRoom t (absStore t) (Suc n)"
  shows "\<exists>cur' t'. BaseBTree_mergeChildren (pageImg (absStore t) a) (pageImg (absStore t) b) cur i t =
      Inr (pageImg (absStore t') a, cur', t') \<and> refers t' cur' p \<and>
    reduced t n p ks Ts t' (joinedTree p ks Ts i [] [PNode a (us @ ks ! i # ws) (Vs @ Ws)])"
proof -
  note D = pairAtD [OF P]
  obtain cur' t' where t': "BaseBTree_mergeChildren (pageImg (absStore t) a) (pageImg (absStore t) b) cur i t =
      Inr (pageImg (absStore t') a, cur', t')" "shrinks {p, a, b} t t'" "freeRoom t (absStore t') n" "refers t' cur' p"
    "ps_avail (absStore t') \<subseteq> insert b (ps_avail (absStore t))"
    "pageHas t (pageImg (absStore t') a) a (us @ ks ! i # ws) (map pno (Vs @ Ws))"
    "pageHas t (pageImg (absStore t') p) p (take i ks @ drop (Suc i) ks) (map pno (take (Suc i) Ts @ drop (Suc (Suc i)) Ts))"
    using merge_run [OF P c r len fr] by blast
  have k: "map pno (take (Suc i) Ts @ drop (Suc (Suc i)) Ts) =
      map pno (take i Ts @ [PNode a (us @ ks ! i # ws) (Vs @ Ws)] @ drop (Suc (Suc i)) Ts)"
    using D(7,8) by (simp add: take_Suc_conv_app_nth)
  have "reduced t n p ks Ts t' (joinedTree p ks Ts i [] [PNode a (us @ ks ! i # ws) (Vs @ Ws)])"
    by (rule pair_reduced [OF P t'(2,3)]) (use t'(5-7) k D(15,16) in auto)
  then show ?thesis using t'(1,4) by blast
qed

section \<open>Borrowing on the pages\<close>

text \<open>Two children and their node are written, with the same pages and the cut elsewhere.\<close>

lemma borrow_written:
  assumes P: "pairAt t p ks Ts i a us Vs b ws Ws" and c: "cached t" "refers t cur p"
    and r: "a \<noteq> t_rootPageNum t" "b \<noteq> t_rootPageNum t" and fr: "freeRoom t (absStore t) n"
    and pws: "set pws = {left, right}" "distinct (map pw_pageNum pws)"
    and img: "pageHas t node p (take i ks @ [m] @ drop (Suc i) ks) (map pno Ts)"
      "pageHas t left a us' (map pno Vs')" "pageHas t right b ws' (map pno Ws')"
    and kids: "Vs' @ Ws' = Vs @ Ws"
  shows "\<exists>t1 cur' t'. writePages pws t = Inr t1 \<and> storePage cur node t1 = Inr (cur', t') \<and> refers t' cur' p \<and>
    left = pageImg (absStore t') a \<and> right = pageImg (absStore t') b \<and>
    reduced t n p ks Ts t' (joinedTree p ks Ts i [m] [PNode a us' Vs', PNode b ws' Ws'])"
proof -
  note D = pairAtD [OF P] and N = pageHasD [OF img(1)] and L = pageHasD [OF img(2)] and R = pageHasD [OF img(3)]
  have num: "pw_pageNum ` set pws = {a, b}" using L(1) R(1) by (simp add: pws(1))
  obtain t1 where t1: "writePages pws t = Inr t1" "shrinks {a, b} t t1" "absStore t1 = ps_writes pws (absStore t)"
    using write_below [OF D(1,2) c(1), of pws] L(1,5) R(1,5) D(15) r unfolding num by (auto simp: pws(1))
  note S1 = shrinksD [OF t1(2)]
  have "t_nodePageSize t1 = t_nodePageSize t" "refNum t1 cur p"
    using sameTreeD [OF S1(2)] c(2) refNum_shrinks [OF t1(2)] by simp_all
  then obtain cur' t' where t': "storePage cur node t1 = Inr (cur', t')" "shrinks {p} t1 t'"
    "absStore t' = ps_write p (pw_data node) (absStore t1)" "refers t' cur' p" "pageImg (absStore t') p = node"
    using store_page [OF S1(1,4,3), of cur p node] N(1,5) D(15) S1(6) by auto
  have s: "shrinks {p, a, b} t t'" by (rule shrinks_trans [OF shrinks_mono [OF t1(2)] t'(2)]) auto
  have lr: "left = pageImg (absStore t') a" "right = pageImg (absStore t') b"
    using ps_writes_page [OF pws(2)] L(1) R(1) D(16) by (auto simp: t'(3) t1(3) pws(1) ps_write_def)
  have av: "ps_avail (absStore t') = ps_avail (absStore t)" "freeRoom t (absStore t') n"
    using fr by (simp_all add: t'(3) t1(3) ps_write_def ps_avail_def freeRoom_def)
  have "map pno Ts = map pno (take i Ts @ [PNode a us' Vs', PNode b ws' Ws'] @ drop (Suc (Suc i)) Ts)"
    using arg_cong [OF pair_kids [OF D(7-9)], of "map pno"] by simp
  then have "reduced t n p ks Ts t' (joinedTree p ks Ts i [m] [PNode a us' Vs', PNode b ws' Ws'])"
    using img lr t'(5) D(15) av(1) arg_cong [OF kids, of set] arg_cong [OF kids, of "\<lambda>Us. mset (concat (map pages Us))"]
    by (intro pair_reduced [OF P s av(2)]) auto
  then show ?thesis using t1(1) t'(1,4) lr by blast
qed

lemma borrow_left_reduced:
  assumes P: "pairAt t p ks Ts i a us Vs b ws Ws" and c: "cached t" "refers t cur p"
    and r: "a \<noteq> t_rootPageNum t" "b \<noteq> t_rootPageNum t" and fr: "freeRoom t (absStore t) n"
    and len: "us \<noteq> []" "length ws < pageKeys t"
  shows "\<exists>left' cur' t'. moveOneKeyFromLeft (pageImg (absStore t) a) (pageImg (absStore t) b) cur (Suc i) t =
      Inr (left', pageImg (absStore t') b, cur', t') \<and> refers t' cur' p \<and>
    reduced t n p ks Ts t' (pairTree p ks Ts i a b (us @ ks ! i # ws) (Vs @ Ws) (length us - 1))"
proof -
  note D = pairAtD [OF P]
  let ?\<sigma> = "absStore t" and ?u = "length us"
  have lf: "(map pno Vs = []) = (map pno Ws = [])" using D(10) by simp
  obtain c1 c2 c3 n1 c4 where m:
    "copyCursorsAt t (setKeyNum (length ws + 1) (pageImg ?\<sigma> b)) (length ws + 1) (setKeyNum (length ws + 1) (pageImg ?\<sigma> b)) (length ws) 1 = Inr c1"
    "shiftBothUp t c1 (length ws) = Inr c2" "copyKeyAt t c2 0 (pageImg ?\<sigma> p) i = Inr c3"
    "copyKeyAt t (pageImg ?\<sigma> p) i (pageImg ?\<sigma> a) (?u - 1) = Inr n1" "copyCursorsAt t c3 0 (pageImg ?\<sigma> a) ?u 1 = Inr c4"
    "pageHas t c4 b (ks ! i # ws) (drop ?u (map pno Vs) @ map pno Ws)" "pageHas t n1 p (ks[i := us ! (?u - 1)]) (map pno Ts)"
    "pageHas t (setKeyNum (?u - 1) (pageImg ?\<sigma> a)) a (take (?u - 1) us) (take ?u (map pno Vs))"
    using borrow_left [OF D(11,13) len(1) D(14) len(2) D(12,5) lf] by blast
  have mk: "?u \<le> MAX_KEYS_NUM" "length ks \<le> MAX_KEYS_NUM" "0 < ?u"
    using getKeysNum_le [of "pageImg ?\<sigma> a"] getKeysNum_le [of "pageImg ?\<sigma> p"] pageHasD(3) [OF D(12)] pageHasD(3) [OF D(13)] len(1)
    by simp_all
  have sub: "SSub (Suc i) 1 = i" "SSub ?u 1 = ?u - 1"
    using SSub_one [of "Suc i"] SSub_one [of ?u] mk D(5) by (simp_all add: layout)
  have q: "take (Suc (?u - 1)) (Vs @ Ws) = take ?u Vs" "drop (Suc (?u - 1)) (Vs @ Ws) = drop ?u Vs @ Ws"
    "(us @ ks ! i # ws) ! (?u - 1) = us ! (?u - 1)" "take (?u - 1) (us @ ks ! i # ws) = take (?u - 1) us"
    "drop (Suc (?u - 1)) (us @ ks ! i # ws) = ks ! i # ws"
    using mk(3) D(17,10) by (cases "Vs = []"; simp add: nth_append)+
  let ?left = "setKeyNum (?u - 1) (pageImg ?\<sigma> a)"
  have pw: "set [c4, ?left] = {?left, c4}" "distinct (map pw_pageNum [c4, ?left])"
    using pageHasD(1) [OF m(6)] pageHasD(1) [OF m(8)] D(16) by auto
  have up: "ks[i := us ! (?u - 1)] = take i ks @ [us ! (?u - 1)] @ drop (Suc i) ks" using D(5) by (simp add: upd_conv_take_nth_drop)
  obtain t1 cur' t' where t': "writePages [c4, ?left] t = Inr t1" "storePage cur n1 t1 = Inr (cur', t')" "refers t' cur' p"
    "c4 = pageImg (absStore t') b"
    "reduced t n p ks Ts t' (joinedTree p ks Ts i [us ! (?u - 1)] [PNode a (take (?u - 1) us) (take ?u Vs), PNode b (ks ! i # ws) (drop ?u Vs @ Ws)])"
    using borrow_written [OF P c r fr pw m(7) [unfolded up], of "take (?u - 1) us" "take ?u Vs" "ks ! i # ws" "drop ?u Vs @ Ws"]
      m(6,8) by (auto simp: take_map drop_map)
  have "moveOneKeyFromLeft (pageImg ?\<sigma> a) (pageImg ?\<sigma> b) cur (Suc i) t = Inr (?left, c4, cur', t')"
    using c(2) m(1-5) sub t'(1,2) pageHasD(3) [OF D(13)] pageHasD(3) [OF D(14)] by (simp add: moveOneKeyFromLeft_def Let_def)
  then show ?thesis using t'(3-5) q by metis
qed

lemma borrow_right_reduced:
  assumes P: "pairAt t p ks Ts i a us Vs b ws Ws" and c: "cached t" "refers t cur p"
    and r: "a \<noteq> t_rootPageNum t" "b \<noteq> t_rootPageNum t" and fr: "freeRoom t (absStore t) n"
    and len: "ws \<noteq> []" "length us < pageKeys t"
  shows "\<exists>right' cur' t'. moveOneKeyFromRight (pageImg (absStore t) b) (pageImg (absStore t) a) cur i t =
      Inr (right', pageImg (absStore t') a, cur', t') \<and> refers t' cur' p \<and>
    reduced t n p ks Ts t' (pairTree p ks Ts i a b (us @ ks ! i # ws) (Vs @ Ws) (length us + 1))"
proof -
  note D = pairAtD [OF P]
  let ?\<sigma> = "absStore t" and ?u = "length us" and ?w = "length ws"
  have lf: "(map pno Vs = []) = (map pno Ws = [])" using D(10) by simp
  obtain c1 n1 c2 r1 r2 where m:
    "copyKeyAt t (setKeyNum (?u + 1) (pageImg ?\<sigma> a)) ?u (pageImg ?\<sigma> p) i = Inr c1"
    "copyKeyAt t (pageImg ?\<sigma> p) i (pageImg ?\<sigma> b) 0 = Inr n1" "copyCursorsAt t c1 (?u + 1) (pageImg ?\<sigma> b) 0 1 = Inr c2"
    "shiftBothDown t (pageImg ?\<sigma> b) 0 (?w - 1) = Inr r1" "copyCursorsAt t r1 (?w - 1) r1 ?w 1 = Inr r2"
    "pageHas t c2 a (us @ [ks ! i]) (map pno Vs @ take 1 (map pno Ws))" "pageHas t n1 p (ks[i := ws ! 0]) (map pno Ts)"
    "pageHas t (setKeyNum (?w - 1) r2) b (drop 1 ws) (drop 1 (map pno Ws))"
    using borrow_right [OF D(11,14) len(1) D(13) len(2) D(12,5) lf] by blast
  have mk: "?w \<le> MAX_KEYS_NUM" "0 < ?w"
    using getKeysNum_le [of "pageImg ?\<sigma> b"] pageHasD(3) [OF D(14)] len(1) by simp_all
  have sub: "SSub ?w 1 = ?w - 1" using SSub_one [of ?w] mk by (simp add: layout)
  have q: "take (Suc (?u + 1)) (Vs @ Ws) = Vs @ take 1 Ws" "drop (Suc (?u + 1)) (Vs @ Ws) = drop 1 Ws"
    "(us @ ks ! i # ws) ! (?u + 1) = ws ! 0" "take (?u + 1) (us @ ks ! i # ws) = us @ [ks ! i]"
    "drop (Suc (?u + 1)) (us @ ks ! i # ws) = drop 1 ws"
    using mk(2) D(17,10) by (cases "Vs = []"; simp add: nth_append)+
  let ?right = "setKeyNum (?w - 1) r2"
  have pw: "set [c2, ?right] = {c2, ?right}" "distinct (map pw_pageNum [c2, ?right])"
    using pageHasD(1) [OF m(6)] pageHasD(1) [OF m(8)] D(16) by auto
  have up: "ks[i := ws ! 0] = take i ks @ [ws ! 0] @ drop (Suc i) ks" using D(5) by (simp add: upd_conv_take_nth_drop)
  obtain t1 cur' t' where t': "writePages [c2, ?right] t = Inr t1" "storePage cur n1 t1 = Inr (cur', t')" "refers t' cur' p"
    "c2 = pageImg (absStore t') a"
    "reduced t n p ks Ts t' (joinedTree p ks Ts i [ws ! 0] [PNode a (us @ [ks ! i]) (Vs @ take 1 Ws), PNode b (drop 1 ws) (drop 1 Ws)])"
    using borrow_written [OF P c r fr pw m(7) [unfolded up], of "us @ [ks ! i]" "Vs @ take 1 Ws" "drop 1 ws" "drop 1 Ws"]
      m(6,8) by (auto simp: take_map drop_map)
  have "moveOneKeyFromRight (pageImg ?\<sigma> b) (pageImg ?\<sigma> a) cur i t = Inr (?right, c2, cur', t')"
    using c(2) m(1-5) sub t'(1,2) pageHasD(3) [OF D(13)] pageHasD(3) [OF D(14)] by (simp add: moveOneKeyFromRight_def Let_def)
  then show ?thesis using t'(3-5) q by metis
qed

end
