(* ===== verification/Remove_Tree.thy ===== *)
theory Remove_Tree
  imports Search_Tree Pair_Tree
begin

text \<open>
  A tree that loses a key, on the tree itself: the keys of the upper nodes, the keys around the
  one that goes, and the children of a node that a removal goes on below.
\<close>

section \<open>Keys of upper nodes\<close>

text \<open>The nodes two levels and more above the leaves.\<close>

fun upperKeys :: "'k ptree \<Rightarrow> 'k list" where
  "upperKeys (PNode p ks Ts) = (if \<forall>T \<in> set Ts. pkids T = [] then [] else ks @ concat (map upperKeys Ts))"

lemma bal_kids: "bal h T \<Longrightarrow> (pkids T = []) = (h = 0)"
  by (cases T; cases h) auto

lemma upperKeys_low: "bal h T \<Longrightarrow> h \<le> 1 \<Longrightarrow> upperKeys T = []"
  by (cases T; cases h) (auto simp: bal_kids)

lemma upperKeys_high: "bal (Suc (Suc h)) (PNode p ks Ts) \<Longrightarrow> upperKeys (PNode p ks Ts) = ks @ concat (map upperKeys Ts)"
  by (cases Ts) (auto simp: bal_kids)

lemma set_inorder:
  assumes "Ts = [] \<or> length Ts = Suc (length ks)"
  shows "set (inorder (PNode p ks Ts)) = set ks \<union> (\<Union>T \<in> set Ts. set (inorder T))"
proof (cases Ts)
  case (Cons U Us)
  then have "length ks = length (map inorder Us)" using assms by simp
  from set_rgt [OF this] show ?thesis using Cons by auto
qed simp

lemma bal_inorder: "bal h (PNode p ks Ts) \<Longrightarrow> set (inorder (PNode p ks Ts)) = set ks \<union> (\<Union>T \<in> set Ts. set (inorder T))"
  by (rule set_inorder) (cases h; simp)

section \<open>Removing below a child\<close>

context comparator
begin

text \<open>One equal key is gone, or there was none.\<close>

definition removed :: "bool \<Rightarrow> 'k \<Rightarrow> 'k ptree \<Rightarrow> 'k ptree \<Rightarrow> bool" where
  "removed b k T T' \<longleftrightarrow>
     (if b then \<exists>xs x ys. inorder T = xs @ x # ys \<and> inorder T' = xs @ ys \<and> eq k x
      else inorder T' = inorder T \<and> (\<forall>x \<in> set (inorder T). \<not> eq k x))"

lemma removed_ord: "removed b k T T' \<Longrightarrow> ord (inorder T) \<Longrightarrow> ord (inorder T')"
  by (cases b) (auto simp: removed_def sorted_wrt_append)

lemma remove_child:
  assumes T: "tinv less False mn mx (Suc h) (PNode p ks Ts)" and j: "j \<le> length ks"
    and U: "removed b k (Ts ! j) U" "tinv less False mn mx h U"
      "mn (pkids U = []) \<le> length (pkeys U)" "length (pkeys U) \<le> mx (pkids U = [])"
    and n: "\<forall>x \<in> set (inorder (Ts ! j)). \<not> eq k x \<Longrightarrow> \<forall>x \<in> set (inorder (PNode p ks Ts)). \<not> eq k x"
  shows "tinv less False mn mx (Suc h) (PNode p ks (Ts[j := U]))" "removed b k (PNode p ks Ts) (PNode p ks (Ts[j := U]))"
proof -
  let ?B = "before False j ks Ts" and ?A = "after False j ks Ts"
  have len: "length Ts = Suc (length ks)" and o: "ord (inorder (PNode p ks Ts))" using T by (simp_all add: tinv_def)
  have s: "inorder (PNode p ks Ts) = ?B @ inorder (Ts ! j) @ ?A" using inorder_split [OF len j] .
  have s': "inorder (PNode p ks (Ts[j := U])) = ?B @ inorder U @ ?A"
    using contents_update [OF len j, of False p U] by (simp add: contents_def)
  show r: "removed b k (PNode p ks Ts) (PNode p ks (Ts[j := U]))"
  proof (cases b)
    case True
    then obtain xs x ys where "inorder (Ts ! j) = xs @ x # ys" "inorder U = xs @ ys" "eq k x" using U(1) by (auto simp: removed_def)
    then have "inorder (PNode p ks Ts) = (?B @ xs) @ x # ys @ ?A" "inorder (PNode p ks (Ts[j := U])) = (?B @ xs) @ ys @ ?A"
      using s s' by simp_all
    then show ?thesis using True \<open>eq k x\<close> unfolding removed_def by metis
  next
    case False
    then have u: "inorder U = inorder (Ts ! j)" "\<forall>x \<in> set (inorder (Ts ! j)). \<not> eq k x" using U(1) by (simp_all add: removed_def)
    have "inorder (PNode p ks (Ts[j := U])) = inorder (PNode p ks Ts)" by (simp only: s s' u(1))
    then show ?thesis using False n [OF u(2)] by (simp only: removed_def if_False simp_thms)
  qed
  have "ord (inorder (PNode p ks (Ts[j := U])))" by (rule removed_ord [OF r o])
  moreover have "bal (Suc h) (PNode p ks (Ts[j := U]))"
    using T U(2) update_all [of Ts "bal h" U j] by (simp add: tinv_def)
  moreover have "sized mn mx (PNode p ks (Ts[j := U]))"
  proof -
    let ?P = "\<lambda>T. mn (pkids T = []) \<le> length (pkeys T) \<and> length (pkeys T) \<le> mx (pkids T = []) \<and> sized mn mx T"
    have "\<forall>V \<in> set Ts. ?P V" using T unfolding tinv_def sized.simps by blast
    moreover have "?P U" using U(2-4) unfolding tinv_def by blast
    ultimately show ?thesis unfolding sized.simps by (rule update_all)
  qed
  ultimately show "tinv less False mn mx (Suc h) (PNode p ks (Ts[j := U]))" by (simp add: tinv_def)
qed

end

section \<open>Removing a key between two children\<close>

lemma joined_pair_inorder:
  assumes "length Ts = Suc (length ks)" "i < length ks"
  shows "inorder (joinedTree p ks Ts i [x] [U, V]) = before False i ks Ts @ inorder U @ x # inorder V @
    rgt (drop (Suc i) ks) (map inorder (drop (Suc (Suc i)) Ts))"
  using pair_inorder [of "take i Ts @ [U, V] @ drop (Suc (Suc i)) Ts" "take i ks @ [x] @ drop (Suc i) ks" i p] assms
  by (simp add: joinedTree_def before_def nth_append)

context comparator
begin

text \<open>The key between children \<open>i\<close> and \<open>i + 1\<close> goes, and their keys are as before.\<close>

lemma removed_pair:
  assumes T: "tinv less False mn mx (Suc h) (PNode p ks Ts)" and i: "i < length ks" "eq k (ks ! i)"
    and J: "inorder (joinedTree p ks Ts i ms Us) = before False i ks Ts @ (inorder (Ts ! i) @ inorder (Ts ! Suc i)) @
      rgt (drop (Suc i) ks) (map inorder (drop (Suc (Suc i)) Ts))"
    and U: "length Us = Suc (length ms)" "\<forall>U \<in> set Us. bal h U \<and> sized mn mx U \<and>
      mn (pkids U = []) \<le> length (pkeys U) \<and> length (pkeys U) \<le> mx (pkids U = [])"
  shows "tinv less False mn mx (Suc h) (joinedTree p ks Ts i ms Us)" "removed True k (PNode p ks Ts) (joinedTree p ks Ts i ms Us)"
proof -
  have len: "length Ts = Suc (length ks)" and o: "ord (inorder (PNode p ks Ts))" and b: "\<forall>U \<in> set Ts. bal h U"
    and sz: "sized mn mx (PNode p ks Ts)" using T by (simp_all add: tinv_def)
  show r: "removed True k (PNode p ks Ts) (joinedTree p ks Ts i ms Us)"
    unfolding removed_def J pair_inorder [OF len i(1)] if_True
    by (intro exI [of _ "before False i ks Ts @ inorder (Ts ! i)"] exI [of _ "ks ! i"]
        exI [of _ "inorder (Ts ! Suc i) @ rgt (drop (Suc i) ks) (map inorder (drop (Suc (Suc i)) Ts))"])
      (simp add: i(2))
  have "bal (Suc h) (joinedTree p ks Ts i ms Us)"
    using len i(1) b U by (auto simp: joinedTree_def dest: in_set_takeD in_set_dropD)
  moreover have "sized mn mx (joinedTree p ks Ts i ms Us)" by (rule sized_joined [OF sz]) (use U(2) in blast)
  ultimately show "tinv less False mn mx (Suc h) (joinedTree p ks Ts i ms Us)"
    using removed_ord [OF r o] by (simp only: tinv_def simp_thms)
qed

end

section \<open>The children after a rearrangement\<close>

text \<open>A child that took over keys: what the old child held is in the new one, and the keys of
  its upper nodes were in upper nodes before.\<close>

definition grown :: "'k ptree \<Rightarrow> 'k ptree \<Rightarrow> 'k ptree \<Rightarrow> bool" where
  "grown T V W \<longleftrightarrow> set (inorder V) \<subseteq> set (inorder W) \<and> set (upperKeys W) \<subseteq> set (upperKeys T)"

lemma upperKeys_child:
  assumes "bal (Suc h) (PNode p ks Ts)" "U \<in> set Ts"
  shows "set (upperKeys U) \<subseteq> set (upperKeys (PNode p ks Ts))"
proof (cases h)
  case 0
  then show ?thesis using upperKeys_low [of 0 U] assms by simp
next
  case (Suc h')
  then show ?thesis using upperKeys_high [of h' p ks Ts] assms by auto
qed

lemma grown_same: "bal (Suc h) (PNode p ks Ts) \<Longrightarrow> U \<in> set Ts \<Longrightarrow> grown (PNode p ks Ts) U U"
  unfolding grown_def by (intro conjI upperKeys_child order.refl)

lemma grown_pair:
  assumes T: "bal (Suc h) (PNode p ks Ts)" "PNode a us Vs \<in> set Ts" "PNode b ws Ws \<in> set Ts" "k \<in> set ks"
    and bal: "bal h (PNode q xs Q)"
    and x: "set xs \<subseteq> insert k (set us \<union> set ws)" "set Q \<subseteq> set Vs \<union> set Ws"
    and V: "V = PNode a us Vs \<and> set us \<subseteq> set xs \<and> set Vs \<subseteq> set Q \<or> V = PNode b ws Ws \<and> set ws \<subseteq> set xs \<and> set Ws \<subseteq> set Q"
  shows "grown (PNode p ks Ts) V (PNode q xs Q)"
proof -
  have ab: "bal h (PNode a us Vs)" "bal h (PNode b ws Ws)" using T by auto
  note io = bal_inorder [OF ab(1)] bal_inorder [OF ab(2)] bal_inorder [OF bal]
  have "set (inorder V) \<subseteq> set (inorder (PNode q xs Q))"
    using V
  proof (elim disjE conjE)
    show "set (inorder V) \<subseteq> set (inorder (PNode q xs Q))" if "V = PNode a us Vs" "set us \<subseteq> set xs" "set Vs \<subseteq> set Q"
      unfolding that(1) io using that(2,3) by blast
    show "set (inorder V) \<subseteq> set (inorder (PNode q xs Q))" if "V = PNode b ws Ws" "set ws \<subseteq> set xs" "set Ws \<subseteq> set Q"
      unfolding that(1) io using that(2,3) by blast
  qed
  moreover have "set (upperKeys (PNode q xs Q)) \<subseteq> set (upperKeys (PNode p ks Ts))"
  proof (cases "h \<le> 1")
    case True
    then show ?thesis using upperKeys_low [OF bal] by simp
  next
    case False
    define g where "g = h - 2"
    have h: "h = Suc (Suc g)" using False by (simp add: g_def)
    note u = upperKeys_high [OF bal [unfolded h]] upperKeys_high [OF ab(1) [unfolded h]] upperKeys_high [OF ab(2) [unfolded h]]
    have "set (upperKeys (PNode q xs Q)) \<subseteq> insert k (set (upperKeys (PNode a us Vs)) \<union> set (upperKeys (PNode b ws Ws)))"
      unfolding u using x by auto
    moreover have "k \<in> set (upperKeys (PNode p ks Ts))" using upperKeys_high [of "Suc g" p ks Ts] T(1,4) h by simp
    ultimately show ?thesis using upperKeys_child [OF T(1,2)] upperKeys_child [OF T(1,3)] by blast
  qed
  ultimately show ?thesis by (simp only: grown_def)
qed

end
