(* ===== verification/Remove_Descend.thy ===== *)
theory Remove_Descend
  imports Remove_Merge Remove_Tree
begin

text \<open>
  The descent of a removal in a B-tree: \<open>prepareSubtree\<close> makes sure that the child a removal goes on
  below has a key to spare, whatever the sizes of its siblings.
\<close>

context tree_order
begin

text \<open>Where a removal stands: at a node with at least two keys, about to go below child \<open>i\<close>.\<close>

definition descent ::
  "BaseBTree \<Rightarrow> nat \<Rightarrow> nat \<Rightarrow> nat \<Rightarrow> byte list list \<Rightarrow> byte list ptree list \<Rightarrow> PageRef \<Rightarrow> nat \<Rightarrow> bool" where
  "descent t n h p ks Ts cur i \<longleftrightarrow>
     storeOk t \<and> ps_ok (absStore t) \<and> cached t \<and> t_treeType t = B_TREE \<and> orderOk t \<and> t_recSize t = sz \<and>
     stored t (absStore t) (PNode p ks Ts) \<and> distinct (pages (PNode p ks Ts)) \<and> tree_inv t (Suc h) (PNode p ks Ts) \<and>
     rootAside t (PNode p ks Ts) \<and> refers t cur p \<and> freeRoom t (absStore t) (Suc n) \<and> 1 < length ks \<and> i \<le> length ks"

lemma descentD:
  assumes "descent t n h p ks Ts cur i"
  shows "storeOk t" "ps_ok (absStore t)" "cached t" "t_treeType t = B_TREE" "orderOk t" "t_recSize t = sz"
    "stored t (absStore t) (PNode p ks Ts)" "distinct (pages (PNode p ks Ts))" "tree_inv t (Suc h) (PNode p ks Ts)"
    "rootAside t (PNode p ks Ts)" "refers t cur p" "freeRoom t (absStore t) (Suc n)" "1 < length ks" "i \<le> length ks"
    "length Ts = Suc (length ks)" "leafyOf t = False" "nodeMin t = (\<lambda>b. t_minKeys t)" "nodeMax t = (\<lambda>b. t_maxKeys t)"
    "0 < t_minKeys t" "t_maxKeys t = 2 * t_minKeys t + 1"
proof -
  show *: "storeOk t" "ps_ok (absStore t)" "cached t" "t_treeType t = B_TREE" "orderOk t" "t_recSize t = sz"
    "stored t (absStore t) (PNode p ks Ts)" "distinct (pages (PNode p ks Ts))" "tree_inv t (Suc h) (PNode p ks Ts)"
    "rootAside t (PNode p ks Ts)" "refers t cur p" "freeRoom t (absStore t) (Suc n)" "1 < length ks" "i \<le> length ks"
    using assms by (simp_all add: descent_def)
  show "length Ts = Suc (length ks)" using *(9) by (simp add: tinv_def)
  show "leafyOf t = False" "nodeMin t = (\<lambda>b. t_minKeys t)" "nodeMax t = (\<lambda>b. t_maxKeys t)"
    using *(4) by (simp_all add: leafyOf_def nodeMin_def nodeMax_def fun_eq_iff)
  show "0 < t_minKeys t" "t_maxKeys t = 2 * t_minKeys t + 1" using *(4,5) by (simp_all add: orderOk_def starTree_def)
qed

text \<open>The sizes and the pages of the children.\<close>

lemma descent_kid:
  assumes D: "descent t n h p ks Ts cur i" and l: "l < length Ts"
  shows "t_minKeys t \<le> length (pkeys (Ts ! l))" "length (pkeys (Ts ! l)) \<le> t_maxKeys t" "(pkids (Ts ! l) = []) = (h = 0)"
    "getKeysNum (pageImg (absStore t) (pno (Ts ! l))) = length (pkeys (Ts ! l))" "pno (Ts ! l) \<noteq> t_rootPageNum t"
    "bal h (Ts ! l)" "Ts ! l \<in> set Ts"
proof -
  note E = descentD [OF D] and V = nth_mem [OF l]
  show "t_minKeys t \<le> length (pkeys (Ts ! l))" "length (pkeys (Ts ! l)) \<le> t_maxKeys t"
    using E(9) V by (simp_all add: tinv_def E(17,18))
  show b: "bal h (Ts ! l)" using tinv_child [OF E(9) V] by (simp add: tinv_def)
  then show "(pkids (Ts ! l) = []) = (h = 0)" by (cases "Ts ! l"; cases h) auto
  have "stored t (absStore t) (Ts ! l)" using E(7) V by simp
  then show "getKeysNum (pageImg (absStore t) (pno (Ts ! l))) = length (pkeys (Ts ! l))"
    using pageHasD(3) [OF stored_node] by blast
  show "pno (Ts ! l) \<noteq> t_rootPageNum t" "Ts ! l \<in> set Ts" using rootAside_kid [OF E(10)] V by simp_all
qed

lemma descent_bal: "descent t n h p ks Ts cur i \<Longrightarrow> bal (Suc h) (PNode p ks Ts)"
  using descentD(9) unfolding tinv_def by blast

lemma descent_pair:
  assumes D: "descent t n h p ks Ts cur i" and m: "m < length ks"
  obtains a us Vs b ws Ws where "pairAt t p ks Ts m a us Vs b ws Ws" "Ts ! m = PNode a us Vs" "Ts ! Suc m = PNode b ws Ws"
    "(Vs = []) = (h = 0)" "(Ws = []) = (h = 0)"
proof -
  note E = descentD [OF D]
  obtain a us Vs b ws Ws where A: "Ts ! m = PNode a us Vs" "Ts ! Suc m = PNode b ws Ws" by (metis ptree.exhaust)
  have "(Vs = []) = (h = 0)" "(Ws = []) = (h = 0)"
    using descent_kid(3) [OF D, of m] descent_kid(3) [OF D, of "Suc m"] m E(15) A by simp_all
  then show thesis using that [of a us Vs b ws Ws] E A m by (simp add: pairAt_def del: stored.simps pages.simps)
qed

lemma descent_reading:
  assumes D: "descent t n h p ks Ts cur i" and k: "keeps t t1" "absStore t1 = absStore t"
  shows "descent t1 n h p ks Ts cur i"
proof -
  note E = descentD [OF D] and F = sameTreeD [OF sameTree_keeps [OF k(1)]]
  have r: "t_rootPage t1 = t_rootPage t" "t_rootPageNum t1 = t_rootPageNum t"
    using frame_eqD [OF keepsD(2) [OF k(1)]] k(2) by (simp_all add: absStore_def)
  have "cached t1" using E(3) by (simp add: cached_def r k(2))
  moreover have "refers t1 cur p" using E(11) by (cases cur) (simp_all add: refNum_def r k(2))
  moreover have "rootAside t1 (PNode p ks Ts)" using E(10) by (simp add: rootAside_def r k(2))
  moreover have "freeRoom t1 = freeRoom t" by (rule freeRoom_sameTree [OF sameTree_keeps [OF k(1)]])
  ultimately show ?thesis
    using E keepsD(1) [OF k(1)] F k(2) by (simp add: descent_def del: stored.simps pages.simps)
qed

text \<open>What the preparation leaves: a rearranged node, and a child with a key to spare.\<close>

definition prepared ::
  "BaseBTree \<Rightarrow> nat \<Rightarrow> nat \<Rightarrow> nat \<Rightarrow> byte list list \<Rightarrow> byte list ptree list \<Rightarrow> nat \<Rightarrow> BaseBTree \<Rightarrow> PageWrapper \<Rightarrow> bool" where
  "prepared t n h p ks Ts i t' pw \<longleftrightarrow>
     (\<exists>ks' Ts' j. reduced t n p ks Ts t' (PNode p ks' Ts') \<and>
        rearranged (leafyOf t) (nodeMin t) (nodeMax t) h p ks Ts (PNode p ks' Ts') \<and> j < length Ts' \<and>
        pw = pageImg (absStore t') (pno (Ts' ! j)) \<and> t_minKeys t < length (pkeys (Ts' ! j)) \<and>
        length ks \<le> Suc (length ks') \<and> length ks' \<le> length ks \<and> grown (PNode p ks Ts) (Ts ! i) (Ts' ! j))"

lemma prepared_reading:
  assumes "prepared t1 n h p ks Ts i t' pw" and k: "keeps t t1" "absStore t1 = absStore t" "t_recSize t = sz"
  shows "prepared t n h p ks Ts i t' pw"
proof -
  note F = sameTreeD [OF sameTree_keeps [OF k(1)]]
  have "shrinks A t t'" if "shrinks A t1 t'" for A
    using that sameTree_trans [OF sameTree_keeps [OF k(1)]] k(2) by (simp add: shrinks_def)
  moreover have "freeRoom t1 = freeRoom t" by (rule freeRoom_sameTree [OF sameTree_keeps [OF k(1)]])
  ultimately have "reduced t n p ks Ts t' T" if "reduced t1 n p ks Ts t' T" for T
    using that by (simp add: reduced_def F)
  moreover have "t_minKeys t1 = t_minKeys t" using frame_eqD [OF keepsD(2) [OF k(1)]] by simp
  ultimately show ?thesis using assms(1) unfolding prepared_def F by metis
qed

lemma prepared_none:
  assumes D: "descent t n h p ks Ts cur i" and s: "t_minKeys t < length (pkeys (Ts ! i))"
  shows "prepared t n h p ks Ts i t (pageImg (absStore t) (pno (Ts ! i)))"
proof -
  note E = descentD [OF D]
  have "i < length Ts" using E(14,15) by simp
  moreover have "reduced t n p ks Ts t (PNode p ks Ts)"
    using shrinks_refl [OF E(1,3,2)] freeRoom_mono [OF E(12)] E(7,8) unfolding reduced_def by auto
  moreover have "rearranged (leafyOf t) (nodeMin t) (nodeMax t) h p ks Ts (PNode p ks Ts)"
    using E(9) unfolding rearranged_def by blast
  ultimately show ?thesis using s grown_same [OF descent_bal [OF D] descent_kid(7) [OF D]] unfolding prepared_def by (metis le_SucI order.refl)
qed

text \<open>The pieces of a pair that moves one key across, and of a pair that becomes one node.\<close>

lemma rearranged_bal:
  assumes "rearranged (leafyOf t) (nodeMin t) (nodeMax t) h p ks Ts (joinedTree p ks Ts m ms Us)" "U \<in> set Us"
  shows "bal h U"
proof -
  have "tree_inv t (Suc h) (joinedTree p ks Ts m ms Us)" using assms(1) unfolding rearranged_def by blast
  then have "tree_inv t h U" unfolding joinedTree_def by (rule tinv_child) (use assms(2) in simp)
  then show ?thesis unfolding tinv_def by blast
qed

lemma preparedI:
  assumes r: "reduced t n p ks Ts t' (joinedTree p ks Ts m ms Us)"
    and T: "rearranged (leafyOf t) (nodeMin t) (nodeMax t) h p ks Ts (joinedTree p ks Ts m ms Us)"
    and d: "m < length ks" "length Ts = Suc (length ks)" "d < length Us" "length ms \<le> 1" "t_minKeys t < length (pkeys (Us ! d))"
    and g: "grown (PNode p ks Ts) (Ts ! i) (Us ! d)"
  shows "prepared t n h p ks Ts i t' (pageImg (absStore t') (pno (Us ! d)))"
proof -
  let ?Ts = "take m Ts @ Us @ drop (Suc (Suc m)) Ts" and ?ks = "take m ks @ ms @ drop (Suc m) ks"
  have e: "?Ts ! (m + d) = Us ! d" "m + d < length ?Ts" "length ks \<le> Suc (length ?ks)" "length ?ks \<le> length ks"
    using d by (simp_all add: nth_append)
  show ?thesis
    unfolding prepared_def
    by (rule exI [of _ ?ks], rule exI [of _ ?Ts], rule exI [of _ "m + d"])
      (use r T d(5) g e in \<open>simp add: joinedTree_def\<close>)
qed

lemma prepared_left:
  assumes D: "descent t n h p ks Ts cur (Suc m)"
    and s: "length (pkeys (Ts ! Suc m)) = t_minKeys t" "t_minKeys t < length (pkeys (Ts ! m))"
  shows "\<exists>left' cur' t' pw. moveOneKeyFromLeft (pageImg (absStore t) (pno (Ts ! m))) (pageImg (absStore t) (pno (Ts ! Suc m))) cur (Suc m) t =
    Inr (left', pw, cur', t') \<and> prepared t n h p ks Ts (Suc m) t' pw"
proof -
  note E = descentD [OF D]
  have m: "m < length ks" using E(14) by simp
  obtain a us Vs b ws Ws where P: "pairAt t p ks Ts m a us Vs b ws Ws" "Ts ! m = PNode a us Vs" "Ts ! Suc m = PNode b ws Ws"
    "(Vs = []) = (h = 0)" "(Ws = []) = (h = 0)" by (rule descent_pair [OF D m])
  note kl = descent_kid [OF D, of m, unfolded P(2), simplified] and kr = descent_kid [OF D, of "Suc m", unfolded P(3), simplified]
  have il: "m < length Ts" "Suc m < length Ts" using m E(15) by simp_all
  have s': "length ws = t_minKeys t" "t_minKeys t < length us" using s P(2,3) by simp_all
  have r: "a \<noteq> t_rootPageNum t" "b \<noteq> t_rootPageNum t" "length us \<le> t_maxKeys t" using kl(2,5) kr(5) il by simp_all
  let ?PP = "us @ ks ! m # ws" and ?j = "length us - 1"
  have pk: "length ws < pageKeys t" using s'(1) geomD(2) [OF storeOkD(1) [OF E(1)]] E(20) by simp
  obtain left' cur' t' where t': "moveOneKeyFromLeft (pageImg (absStore t) a) (pageImg (absStore t) b) cur (Suc m) t =
      Inr (left', pageImg (absStore t') b, cur', t')" "reduced t n p ks Ts t' (pairTree p ks Ts m a b ?PP (Vs @ Ws) ?j)"
    using borrow_left_reduced [OF P(1) E(3,11) r(1,2) freeRoom_mono [OF E(12)] _ pk, of n] s'(2) by fastforce
  have T: "rearranged (leafyOf t) (nodeMin t) (nodeMax t) h p ks Ts (pairTree p ks Ts m a b ?PP (Vs @ Ws) ?j)"
    by (rule pair_rearranged [OF E(9) m E(5) P(2,3), where j' = "length ws + 1"])
      (use s' r(3) E(16,19,20) in \<open>auto simp: E(17,18)\<close>)
  let ?Us = "[PNode a (take ?j ?PP) (take (Suc ?j) (Vs @ Ws)), PNode b (drop (Suc ?j) ?PP) (drop (Suc ?j) (Vs @ Ws))]"
  have c: "drop (Suc ?j) ?PP = ks ! m # ws" using s'(2) by simp
  have ld: "Vs \<noteq> [] \<Longrightarrow> length Vs = Suc (length us)" using pairAtD(17) [OF P(1)] .
  have q: "drop (Suc ?j) (Vs @ Ws) = drop (length us) Vs @ Ws" using s'(2) ld P(4,5) by (cases "us = []"; cases "Vs = []") simp_all
  have "bal h (?Us ! Suc 0)" by (rule rearranged_bal [OF T]) simp
  then have "bal h (PNode b (ks ! m # ws) (drop (length us) Vs @ Ws))" by (simp only: nth_Cons_0 nth_Cons_Suc c q)
  then have g: "grown (PNode p ks Ts) (Ts ! Suc m) (?Us ! Suc 0)"
    unfolding P(3) using kl(6,7) kr(6,7) il m P(2,3)
    by (simp only: nth_Cons_0 nth_Cons_Suc c q)
      (rule grown_pair [OF descent_bal [OF D], where a = a and us = us and Vs = Vs and b = b and ws = ws and Ws = Ws and k = "ks ! m"],
        auto dest: in_set_dropD)
  have "prepared t n h p ks Ts (Suc m) t' (pageImg (absStore t') (pno (?Us ! Suc 0)))"
    by (rule preparedI [OF t'(2) T m E(15) _ _ _ g]) (use s' c in simp_all)
  then show ?thesis using t'(1) P(2,3) by auto
qed

lemma prepared_right:
  assumes D: "descent t n h p ks Ts cur m" and m: "m < length ks"
    and s: "length (pkeys (Ts ! m)) = t_minKeys t" "t_minKeys t < length (pkeys (Ts ! Suc m))"
  shows "\<exists>right' cur' t' pw. moveOneKeyFromRight (pageImg (absStore t) (pno (Ts ! Suc m))) (pageImg (absStore t) (pno (Ts ! m))) cur m t =
    Inr (right', pw, cur', t') \<and> prepared t n h p ks Ts m t' pw"
proof -
  note E = descentD [OF D]
  obtain a us Vs b ws Ws where P: "pairAt t p ks Ts m a us Vs b ws Ws" "Ts ! m = PNode a us Vs" "Ts ! Suc m = PNode b ws Ws"
    "(Vs = []) = (h = 0)" "(Ws = []) = (h = 0)" by (rule descent_pair [OF D m])
  note kl = descent_kid [OF D, of m, unfolded P(2), simplified] and kr = descent_kid [OF D, of "Suc m", unfolded P(3), simplified]
  have il: "m < length Ts" "Suc m < length Ts" using m E(15) by simp_all
  have s': "length us = t_minKeys t" "t_minKeys t < length ws" using s P(2,3) by simp_all
  have r: "a \<noteq> t_rootPageNum t" "b \<noteq> t_rootPageNum t" "length ws \<le> t_maxKeys t" using kl(5) kr(2,5) il by simp_all
  let ?PP = "us @ ks ! m # ws" and ?j = "length us + 1"
  have pk: "length us < pageKeys t" using s'(1) geomD(2) [OF storeOkD(1) [OF E(1)]] E(20) by simp
  obtain right' cur' t' where t': "moveOneKeyFromRight (pageImg (absStore t) b) (pageImg (absStore t) a) cur m t =
      Inr (right', pageImg (absStore t') a, cur', t')" "reduced t n p ks Ts t' (pairTree p ks Ts m a b ?PP (Vs @ Ws) ?j)"
    using borrow_right_reduced [OF P(1) E(3,11) r(1,2) freeRoom_mono [OF E(12)] _ pk, of n] s'(2) by fastforce
  have T: "rearranged (leafyOf t) (nodeMin t) (nodeMax t) h p ks Ts (pairTree p ks Ts m a b ?PP (Vs @ Ws) ?j)"
    by (rule pair_rearranged [OF E(9) m E(5) P(2,3), where j' = "length ws - 1"])
      (use s' r(3) E(16,19,20) in \<open>auto simp: E(17,18)\<close>)
  let ?Us = "[PNode a (take ?j ?PP) (take (Suc ?j) (Vs @ Ws)), PNode b (drop (Suc ?j) ?PP) (drop (Suc ?j) (Vs @ Ws))]"
  have c: "take ?j ?PP = us @ [ks ! m]" by simp
  have ld: "Vs \<noteq> [] \<Longrightarrow> length Vs = Suc (length us)" using pairAtD(17) [OF P(1)] .
  have q: "take (Suc ?j) (Vs @ Ws) = Vs @ take 1 Ws" using ld P(4,5) by (cases "Vs = []") simp_all
  have "bal h (?Us ! 0)" by (rule rearranged_bal [OF T]) simp
  then have "bal h (PNode a (us @ [ks ! m]) (Vs @ take 1 Ws))" by (simp only: nth_Cons_0 c q)
  then have g: "grown (PNode p ks Ts) (Ts ! m) (?Us ! 0)"
    unfolding P(2) using kl(6,7) kr(6,7) il m P(2,3)
    by (simp only: nth_Cons_0 c q)
      (rule grown_pair [OF descent_bal [OF D], where a = a and us = us and Vs = Vs and b = b and ws = ws and Ws = Ws and k = "ks ! m"],
        auto dest: in_set_takeD)
  have "prepared t n h p ks Ts m t' (pageImg (absStore t') (pno (?Us ! 0)))"
    by (rule preparedI [OF t'(2) T m E(15) _ _ _ g]) (use s' in simp_all)
  then show ?thesis using t'(1) P(2,3) by auto
qed

lemma prepared_merge:
  assumes D: "descent t n h p ks Ts cur i" and m: "m < length ks" "i = m \<or> i = Suc m"
    and s: "length (pkeys (Ts ! m)) = t_minKeys t" "length (pkeys (Ts ! Suc m)) = t_minKeys t"
  shows "\<exists>pw cur' t'. mergeChildren (pageImg (absStore t) (pno (Ts ! m))) (pageImg (absStore t) (pno (Ts ! Suc m))) cur m t =
    Inr (pw, cur', t') \<and> prepared t n h p ks Ts i t' pw"
proof -
  note E = descentD [OF D]
  obtain a us Vs b ws Ws where P: "pairAt t p ks Ts m a us Vs b ws Ws" "Ts ! m = PNode a us Vs" "Ts ! Suc m = PNode b ws Ws"
    "(Vs = []) = (h = 0)" "(Ws = []) = (h = 0)" by (rule descent_pair [OF D m(1)])
  note kl = descent_kid [OF D, of m, unfolded P(2), simplified] and kr = descent_kid [OF D, of "Suc m", unfolded P(3), simplified]
  have il: "m < length Ts" "Suc m < length Ts" using m E(15) by simp_all
  have s': "length us = t_minKeys t" "length ws = t_minKeys t" using s P(2,3) by simp_all
  have r: "a \<noteq> t_rootPageNum t" "b \<noteq> t_rootPageNum t" using kl(5) kr(5) il by simp_all
  let ?W = "PNode a (us @ ks ! m # ws) (Vs @ Ws)"
  obtain cur' t' where t': "BaseBTree_mergeChildren (pageImg (absStore t) a) (pageImg (absStore t) b) cur m t =
      Inr (pageImg (absStore t') a, cur', t')" "reduced t n p ks Ts t' (joinedTree p ks Ts m [] [?W])"
    using merge_reduced [OF P(1) E(3,11) r s' E(20,13,12)] by blast
  have J: "joined (leafyOf t) (nodeMin t) (nodeMax t) h p ks Ts m ?W"
    by (rule joined_nodes [OF E(9) m(1) P(2,3)]) (use s' E(16,19,20) in \<open>simp_all add: E(17,18)\<close>)
  then have T: "rearranged (leafyOf t) (nodeMin t) (nodeMax t) h p ks Ts (joinedTree p ks Ts m [] [?W])"
    unfolding joined_def rearranged_def by blast
  have "bal h ([?W] ! 0)" by (rule rearranged_bal [OF T]) simp
  then have "bal h ?W" by simp
  then have g: "grown (PNode p ks Ts) (Ts ! i) ([?W] ! 0)"
    using kl(6,7) kr(6,7) il m P(2,3)
    by (simp only: nth_Cons_0)
      (rule grown_pair [OF descent_bal [OF D], where a = a and us = us and Vs = Vs and b = b and ws = ws and Ws = Ws and k = "ks ! m"], auto)
  have "prepared t n h p ks Ts i t' (pageImg (absStore t') (pno ([?W] ! 0)))"
    by (rule preparedI [OF t'(2) T m(1) E(15) _ _ _ g]) (use s' E(19) in simp_all)
  then show ?thesis using t'(1) P(2,3) E(4) by (auto simp: mergeChildren_def)
qed

section \<open>The preparation\<close>

lemma descent_read:
  assumes D: "descent t n h p ks Ts cur i" and l: "l < length Ts" "length (pw_data next) = t_nodePageSize t"
  shows "\<exists>t1. readPageFromChild next (pageOf t cur) l t = Inr (pageImg (absStore t) (pno (Ts ! l)), t1) \<and> keeps t t1 \<and>
    absStore t1 = absStore t \<and> descent t1 n h p ks Ts cur i \<and> pageOf t1 cur = pageOf t cur \<and>
    t_minKeys t1 = t_minKeys t \<and> t_nodePageSize t1 = t_nodePageSize t"
proof -
  note E = descentD [OF D]
  have "pageHas t (pageOf t cur) p ks (map pno Ts)" using stored_node [OF E(7)] E(11) by simp
  then obtain t1 where t1: "readPageFromChild next (pageOf t cur) l t = Inr (pageImg (absStore t) (pno (Ts ! l)), t1)"
    "keeps t t1" "absStore t1 = absStore t"
    using read_child [OF E(1,7) _ l] by blast
  have D1: "descent t1 n h p ks Ts cur i" by (rule descent_reading [OF D t1(2,3)])
  then have "pageOf t1 cur = pageOf t cur" using descentD(11) [OF D1] E(11) t1(3) by simp
  then show ?thesis using t1 D1 frame_eqD [OF keepsD(2) [OF t1(2)]] by blast
qed

lemma descent_keysNum:
  assumes "descent t n h p ks Ts cur i"
  shows "getKeysNum (pageOf t cur) = length ks" "isLeaf (pageOf t cur) = False"
proof -
  note E = descentD [OF assms]
  have "pageHas t (pageOf t cur) p ks (map pno Ts)" using stored_node [OF E(7)] E(11) by simp
  then show "getKeysNum (pageOf t cur) = length ks" "isLeaf (pageOf t cur) = False"
    using pageHasD(3,4) E(15) by fastforce+
qed

text \<open>What is left to do when the left sibling has no key to give away.\<close>

definition prepareRest ::
  "nat \<Rightarrow> nat \<Rightarrow> PageRef \<Rightarrow> PageWrapper \<Rightarrow> PageWrapper \<Rightarrow> PageWrapper \<Rightarrow> BaseBTree \<Rightarrow> prepare_result" where
  "prepareRest n i cur child left right t =
    bindR (if i < n then readPageFromChild right (pageOf t cur) (i + 1) t else Inr (right, t)) (\<lambda>(right, t).
      if i < n \<and> getKeysNum right \<ge> t_minKeys t + 1
      then bindR (moveOneKeyFromRight right child cur i t) (\<lambda>(right, child, cur, t). Inr (False, child, left, right, cur, t))
      else if i \<ge> 1
      then bindR (mergeChildren left child cur (i - 1) t) (\<lambda>(left, cur, t). Inr (True, child, left, right, cur, t))
      else bindR (mergeChildren child right cur i t) (\<lambda>(child, cur, t). Inr (False, child, left, right, cur, t)))"

lemma prepareSubtree_rest:
  assumes "t_treeType t = B_TREE" "readPageFromChild child (pageOf t cur) i t = Inr (child', t1)" "\<not> t_minKeys t1 < getKeysNum child'"
    and "if 1 \<le> i then readPageFromChild left (pageOf t1 cur) (i - 1) t1 = Inr (left', t2) \<and> \<not> t_minKeys t2 < getKeysNum left'
      else left' = left \<and> t2 = t1"
  shows "prepareSubtree i cur child left right t = prepareRest (getKeysNum (pageOf t cur)) i cur child' left' right t2"
  using assms by (auto simp: prepareSubtree_def BaseBTree_prepareSubtree_def prepareRest_def Let_def split: if_splits)

lemma prepare_right:
  assumes D: "descent t n h p ks Ts cur i" and len: "length (pkeys (Ts ! i)) = t_minKeys t" "length (pw_data right) = t_nodePageSize t"
    and left: "0 < i \<Longrightarrow> left = pageImg (absStore t) (pno (Ts ! (i - 1))) \<and> length (pkeys (Ts ! (i - 1))) = t_minKeys t"
    and child: "child = pageImg (absStore t) (pno (Ts ! i))"
  shows "\<exists>flag child' left' right' cur' t'.
    prepareRest (length ks) i cur child left right t = Inr (flag, child', left', right', cur', t') \<and>
    prepared t n h p ks Ts i t' (if flag then left' else child')"
    (is "\<exists>flag child' left' right' cur' t'. ?run = _ \<and> _")
proof -
  note E = descentD [OF D]
  show ?thesis
  proof (cases "i < length ks")
    case True
    then have il: "Suc i < length Ts" using E(15) by simp
    obtain t1 where t1: "readPageFromChild right (pageOf t cur) (i + 1) t = Inr (pageImg (absStore t) (pno (Ts ! Suc i)), t1)"
      "keeps t t1" "absStore t1 = absStore t" "descent t1 n h p ks Ts cur i" "t_minKeys t1 = t_minKeys t"
      using descent_read [OF D il len(2)] by auto
    note K = descent_kid [OF t1(4) il, unfolded t1(3,5)]
    note R = prepared_reading [OF _ t1(2,3) E(6)]
    show ?thesis
    proof (cases "t_minKeys t < length (pkeys (Ts ! Suc i))")
      case big: True
      obtain right' cur' t' pw where m: "moveOneKeyFromRight (pageImg (absStore t) (pno (Ts ! Suc i))) child cur i t1 = Inr (right', pw, cur', t')"
        "prepared t1 n h p ks Ts i t' pw"
        using prepared_right [OF t1(4) True] len(1) big t1(3,5) child by auto
      have "?run = Inr (False, pw, left, right', cur', t')" using True t1(1,5) K(4) big m(1) by (simp add: prepareRest_def)
      then show ?thesis using R [OF m(2)] by (intro exI conjI) (assumption, simp)
    next
      case small: False
      then have s: "length (pkeys (Ts ! Suc i)) = t_minKeys t" using K(1) by simp
      show ?thesis
      proof (cases "0 < i")
        case True
        then have "i - 1 < length ks" "Suc (i - 1) = i" using E(14) by linarith+
        then obtain pw cur' t' where m: "mergeChildren left child cur (i - 1) t1 = Inr (pw, cur', t')" "prepared t1 n h p ks Ts i t' pw"
          using prepared_merge [OF t1(4), of "i - 1"] left [OF True] len(1) t1(3,5) child by auto
        have "?run = Inr (True, child, pw, pageImg (absStore t) (pno (Ts ! Suc i)), cur', t')"
          using \<open>i < length ks\<close> True t1(1,5) K(4) s m(1) by (simp add: prepareRest_def)
        then show ?thesis using R [OF m(2)] by (intro exI conjI) (assumption, simp)
      next
        case False
        obtain pw cur' t' where m: "mergeChildren child (pageImg (absStore t) (pno (Ts ! Suc i))) cur i t1 = Inr (pw, cur', t')"
          "prepared t1 n h p ks Ts i t' pw"
          using prepared_merge [OF t1(4) True] len(1) s t1(3,5) child by auto
        have "?run = Inr (False, pw, left, pageImg (absStore t) (pno (Ts ! Suc i)), cur', t')"
          using \<open>i < length ks\<close> False t1(1,5) K(4) s m(1) by (simp add: prepareRest_def)
        then show ?thesis using R [OF m(2)] by (intro exI conjI) (assumption, simp)
      qed
    qed
  next
    case False
    then have i: "0 < i" "i = length ks" using E(13,14) by linarith+
    then have "i - 1 < length ks" "Suc (i - 1) = i" by linarith+
    then obtain pw cur' t' where m: "mergeChildren left child cur (i - 1) t = Inr (pw, cur', t')" "prepared t n h p ks Ts i t' pw"
      using prepared_merge [OF D, of "i - 1"] left [OF i(1)] len(1) child by auto
    have "?run = Inr (True, child, pw, right, cur', t')" using False i(1) m(1) by (simp add: prepareRest_def)
    then show ?thesis using m(2) by (intro exI conjI) (assumption, simp)
  qed
qed

lemma prepareSubtree_ok:
  assumes D: "descent t n h p ks Ts cur i" and len: "length (pw_data child) = t_nodePageSize t"
    "length (pw_data left) = t_nodePageSize t" "length (pw_data right) = t_nodePageSize t"
  shows "\<exists>flag child' left' right' cur' t'. prepareSubtree i cur child left right t = Inr (flag, child', left', right', cur', t') \<and>
    prepared t n h p ks Ts i t' (if flag then left' else child')"
proof -
  note E = descentD [OF D]
  have il: "i < length Ts" using E(14,15) by simp
  let ?C = "pageImg (absStore t) (pno (Ts ! i))" and ?L = "pageImg (absStore t) (pno (Ts ! (i - 1)))"
  obtain t1 where t1: "readPageFromChild child (pageOf t cur) i t = Inr (?C, t1)" "keeps t t1" "absStore t1 = absStore t"
    "descent t1 n h p ks Ts cur i" "pageOf t1 cur = pageOf t cur" "t_minKeys t1 = t_minKeys t" "t_nodePageSize t1 = t_nodePageSize t"
    using descent_read [OF D il len(1)] by blast
  note C = descent_kid [OF D il] and R1 = prepared_reading [OF _ t1(2,3) E(6)]
  note run = prepareSubtree_def BaseBTree_prepareSubtree_def Let_def descent_keysNum [OF D] E(4) t1(1,5,6) C(4)
  show ?thesis
  proof (cases "t_minKeys t < length (pkeys (Ts ! i))")
    case True
    then have "prepareSubtree i cur child left right t = Inr (False, ?C, left, right, cur, t1)" by (simp add: run)
    moreover have "prepared t1 n h p ks Ts i t1 ?C" using prepared_none [OF t1(4)] True t1(3,6) by simp
    ultimately show ?thesis using R1 by (intro exI conjI) (assumption, simp)
  next
    case False
    then have s: "length (pkeys (Ts ! i)) = t_minKeys t" using C(1) by simp
    show ?thesis
    proof (cases "0 < i")
      case True
      then have i: "i - 1 < length Ts" "Suc (i - 1) = i" "1 \<le> i" using il by linarith+
      obtain t2 where t2: "readPageFromChild left (pageOf t1 cur) (i - 1) t1 = Inr (?L, t2)" "keeps t1 t2" "absStore t2 = absStore t"
        "descent t2 n h p ks Ts cur i" "pageOf t2 cur = pageOf t1 cur" "t_minKeys t2 = t_minKeys t" "t_nodePageSize t2 = t_nodePageSize t"
        using descent_read [OF t1(4) i(1), of left] len(2) t1(3,6,7) by auto
      note L = descent_kid [OF D i(1)] and R2 = R1 [OF prepared_reading [OF _ t2(2) _ descentD(6) [OF t1(4)]], unfolded t1(3), OF _ t2(3)]
      show ?thesis
      proof (cases "t_minKeys t < length (pkeys (Ts ! (i - 1)))")
        case big: True
        obtain left' cur' t' pw where m: "moveOneKeyFromLeft ?L ?C cur i t2 = Inr (left', pw, cur', t')" "prepared t2 n h p ks Ts i t' pw"
          using prepared_left [of t2 n h p ks Ts cur "i - 1"] t2(3,4,6) i(2) s big by auto
        have "prepareSubtree i cur child left right t = Inr (False, pw, left', right, cur', t')"
          using False i(3) t2(1,6) L(4) big m(1) t1(5) by (simp add: run)
        then show ?thesis using R2 [OF m(2)] by (intro exI conjI) (assumption, simp)
      next
        case small: False
        then have s1: "length (pkeys (Ts ! (i - 1))) = t_minKeys t" using L(1) by simp
        obtain flag child' left' right' cur' t' where m: "prepareSubtree i cur child left right t = Inr (flag, child', left', right', cur', t')"
          "prepared t2 n h p ks Ts i t' (if flag then left' else child')"
          using prepare_right [OF t2(4), of right ?L ?C] s s1 len(3) t2(3,6,7)
            prepareSubtree_rest [OF E(4) t1(1), of left ?L t2 right] False i(3) t2(1,6) t1(6) L(4) C(4) small descent_keysNum(1) [OF D]
          by auto
        then show ?thesis using R2 [OF m(2)] by (intro exI conjI) (assumption, simp)
      qed
    next
      case zero: False
      obtain flag child' left' right' cur' t' where m: "prepareSubtree i cur child left right t = Inr (flag, child', left', right', cur', t')"
        "prepared t1 n h p ks Ts i t' (if flag then left' else child')"
        using prepare_right [OF t1(4), of right left ?C] s len(3) zero t1(3,6,7)
          prepareSubtree_rest [OF E(4) t1(1), of left left t1 right] False t1(6) C(4) descent_keysNum(1) [OF D]
        by auto
      then show ?thesis using R1 [OF m(2)] by (intro exI conjI) (assumption, simp)
    qed
  qed
qed

end

end
