(* ===== verification/Remove_Above.thy ===== *)
theory Remove_Above
  imports Remove_Descend
begin

text \<open>
  Removing a key from a node just above the leaves of a B-tree: the greatest key of the leaf on its
  left or the smallest of the leaf on its right takes its place, or the two leaves become one and the
  key is removed from it.
\<close>

section \<open>The leaf\<close>

lemma removeFromLeaf_page:
  assumes ok: "storeOk t" "ps_ok (absStore t)" "cached t" and cur: "refers t cur p"
    and T: "stored t (absStore t) (PNode p ks [])" and i: "i < length ks"
  shows "\<exists>t'. removeFromLeaf i cur t = Inr (True, t') \<and> shrinks {p} t t' \<and> stored t (absStore t') (PNode p (dropAt i ks) [])"
proof -
  let ?pw = "pageOf t cur" and ?\<sigma> = "absStore t"
  have h: "pageHas t ?pw p ks []" and l: "ps_live ?\<sigma> p" "p \<notin> ps_avail ?\<sigma>" using T cur by simp_all
  obtain pw1 where r: "moveKeysDown t ?pw 1 i (length ks - 1 - i) = Inr pw1"
    "pageHas t (setKeyNum (length ks - 1) pw1) p (dropAt i ks) []"
    using has_removeKey [OF storeOkD(1) [OF ok(1)] h i] by blast
  note h2 = pageHasD [OF r(2)]
  obtain cur' t' where t': "storePage cur (setKeyNum (length ks - 1) pw1) t = Inr (cur', t')" "shrinks {p} t t'"
    "pageImg (absStore t') p = setKeyNum (length ks - 1) pw1" "absStore t' = ps_write p (pw_data (setKeyNum (length ks - 1) pw1)) ?\<sigma>"
    using store_page [OF ok _ h2(1) l(1) h2(5), of cur] cur by blast
  have len: "length ks \<le> MAX_KEYS_NUM" using getKeysNum_le [of ?pw] pageHasD(3) [OF h] by simp
  have "SSub (length ks) 1 = length ks - 1" using i len by (intro SSub_one) (auto simp: layout)
  then have "removeFromLeaf i cur t = Inr (True, t')"
    using r(1) t'(1) pageHasD(3) [OF h] by (simp add: removeFromLeaf_def)
  moreover have "ps_live (absStore t') p" "p \<notin> ps_avail (absStore t')"
    using l by (simp_all add: t'(4) ps_write_def ps_live_def ps_avail_def)
  then have "stored t (absStore t') (PNode p (dropAt i ks) [])" using r(2) t'(3) by simp
  ultimately show ?thesis using t'(2) by blast
qed

lemma has_copyOfKey:
  assumes "geom t" "pageHas t pw p ks cs" "i < length ks"
  shows "copyOfKey t pw i = Inr (ks ! i)"
proof -
  have "length (ks ! i) = t_recSize t" using pageHas_keyLength [OF assms(1,2)] assms(3) by simp
  then show ?thesis
    using has_keyAt [OF assms] by (auto simp: keyAt_def copyOfKey_def copyKey_def memcpy_def overwrite_def inBuffer_def split: option.splits if_splits)
qed

text \<open>A leaf that gives its last or its first key away.\<close>

lemma leaf_written:
  assumes ok: "storeOk t" "ps_ok (absStore t)" "cached t" and T: "stored t (absStore t) (PNode a us [])" "a \<noteq> t_rootPageNum t"
    and pw: "pageHas t pw a vs []"
  shows "\<exists>t'. PageWrapper_writePage pw t = Inr t' \<and> shrinks {a} t t' \<and> stored t (absStore t') (PNode a vs []) \<and>
    ps_free (absStore t') = ps_free (absStore t)"
proof -
  note h = pageHasD [OF pw]
  have l: "ps_live (absStore t) a" "a \<notin> ps_avail (absStore t)" using T(1) by simp_all
  obtain t' where t': "writePages [pw] t = Inr t'" "shrinks {a} t t'" "absStore t' = ps_write a (pw_data pw) (absStore t)"
    using write_below [OF ok, of "[pw]"] h(1,5) l(1) T(2) by (auto simp: ps_writes_def)
  have "PageWrapper_writePage pw t = Inr t'" using t'(1) by (cases "PageWrapper_writePage pw t") simp_all
  moreover have "pageImg (absStore t') a = pw" using h(1) by (cases pw) (simp add: t'(3) ps_write_def)
  then have "stored t (absStore t') (PNode a vs [])"
    using pw l by (simp only: stored.simps) (simp add: t'(3) ps_write_def ps_live_def ps_avail_def)
  moreover have "ps_free (absStore t') = ps_free (absStore t)" by (simp add: t'(3) ps_write_def)
  ultimately show ?thesis using t'(2) by blast
qed

lemma leaf_max:
  assumes ok: "storeOk t" "ps_ok (absStore t)" "cached t" and T: "stored t (absStore t) (PNode a us [])" "a \<noteq> t_rootPageNum t" "us \<noteq> []"
  shows "\<exists>t'. getAndRemoveMaxKey (Suc fuel) (pageImg (absStore t) a) t = Inr (last us, t') \<and> shrinks {a} t t' \<and>
    stored t (absStore t') (PNode a (butlast us) []) \<and> ps_free (absStore t') = ps_free (absStore t)"
proof -
  let ?pw = "pageImg (absStore t) a"
  have h: "pageHas t ?pw a us []" using T(1) by simp
  note g = storeOkD(1) [OF ok(1)]
  have "length us \<le> MAX_KEYS_NUM" using getKeysNum_le [of ?pw] pageHasD(3) [OF h] by simp
  then have s: "SSub (length us) 1 = length us - 1" using T(3) by (intro SSub_one) (auto simp: layout)
  have m: "copyOfKey t ?pw (length us - 1) = Inr (last us)"
    using has_copyOfKey [OF g h, of "length us - 1"] T(3) by (simp add: last_conv_nth)
  have "pageHas t (setKeyNum (length us - 1) ?pw) a (butlast us) []"
    using has_setKeyNum [OF g h, of "length us - 1"] by (simp add: butlast_conv_take)
  from leaf_written [OF ok T(1,2) this] show ?thesis
    using pageHasD(3,4) [OF h] m s by (auto simp: Let_def)
qed

lemma leaf_min:
  assumes ok: "storeOk t" "ps_ok (absStore t)" "cached t" and T: "stored t (absStore t) (PNode b ws [])" "b \<noteq> t_rootPageNum t" "ws \<noteq> []"
  shows "\<exists>t'. getAndRemoveMinKey (Suc fuel) (pageImg (absStore t) b) t = Inr (hd ws, t') \<and> shrinks {b} t t' \<and>
    stored t (absStore t') (PNode b (tl ws) []) \<and> ps_free (absStore t') = ps_free (absStore t)"
proof -
  let ?pw = "pageImg (absStore t) b"
  have h: "pageHas t ?pw b ws []" using T(1) by simp
  note g = storeOkD(1) [OF ok(1)]
  have "length ws \<le> MAX_KEYS_NUM" using getKeysNum_le [of ?pw] pageHasD(3) [OF h] by simp
  then have s: "SSub (length ws) 1 = length ws - 1" using T(3) by (intro SSub_one) (auto simp: layout)
  have m: "copyOfKey t ?pw 0 = Inr (hd ws)"
    using has_copyOfKey [OF g h, of 0] T(3) by (simp add: hd_conv_nth)
  obtain pw1 where r: "moveKeysDown t ?pw 1 0 (length ws - 1 - 0) = Inr pw1" "pageHas t (setKeyNum (length ws - 1) pw1) b (dropAt 0 ws) []"
    using has_removeKey [OF g h, of 0] T(3) by auto
  have "0 + (length ws - 1 - 0) + 1 \<le> length ws" using T(3) by (cases ws) auto
  from view_moveKeysDown [OF g pageHas_view [OF h] this] r(1) have "getKeysNum pw1 = length ws"
    using pviewD(3) by (auto simp del: One_nat_def elim!: runsE)
  moreover have "dropAt 0 ws = tl ws" by (simp add: dropAt_def drop_Suc)
  ultimately show ?thesis
    using leaf_written [OF ok T(1,2) r(2)] pageHasD(3,4) [OF h] m r(1) s by (auto simp: Let_def)
qed

section \<open>The node\<close>

lemma update_child_shrunk:
  assumes T: "stored t (absStore t) (PNode p ks Ts)" "distinct (pages (PNode p ks Ts))" and i: "i < length Ts"
    and s: "shrinks (set (pages (Ts ! i))) t t'"
    and U: "stored t (absStore t') U" "pno U = pno (Ts ! i)" "distinct (pages U)" "set (pages U) \<subseteq> set (pages (Ts ! i))"
  shows "stored t (absStore t') (PNode p ks (Ts[i := U]))" "distinct (pages (PNode p ks (Ts[i := U])))"
    "set (pages (PNode p ks (Ts[i := U]))) \<subseteq> set (pages (PNode p ks Ts))"
proof -
  have A: "set (pages (PNode p ks Ts)) \<inter> {} = {}" "set (pages U) \<subseteq> set (pages (Ts ! i)) \<union> {}" using U(4) by simp_all
  note u = update_child_pages [OF T(2) i U(3) A(2,1)]
  show "distinct (pages (PNode p ks (Ts[i := U])))" "set (pages (PNode p ks (Ts[i := U]))) \<subseteq> set (pages (PNode p ks Ts))"
    using u(1) u(2) [of ks] by simp_all
  have p: "p \<notin> set (pages (Ts ! i))" using T(2) nth_mem [OF i] by auto
  have "\<forall>W \<in> set (take i Ts) \<union> set (drop (Suc i) Ts). stored t (absStore t') W"
  proof
    fix W assume W: "W \<in> set (take i Ts) \<union> set (drop (Suc i) Ts)"
    then have "W \<in> set Ts" by (auto dest: in_set_takeD in_set_dropD)
    then show "stored t (absStore t') W" using T(1) shrinks_stored [OF s, of W] u(3) W by simp
  qed
  then have "\<forall>W \<in> set (Ts[i := U]). stored t (absStore t') W"
    using i U(1) by (auto simp: upd_conv_take_nth_drop)
  moreover have "map pno (Ts[i := U]) = map pno Ts"
    using i U(2) by (simp add: map_update list_update_same_conv)
  moreover have "ps_page (absStore t') p = ps_page (absStore t) p" "ps_live (absStore t') p" "p \<notin> ps_avail (absStore t')"
    using T(1) shrinksD(6,7,8) [OF s] p by auto
  ultimately show "stored t (absStore t') (PNode p ks (Ts[i := U]))" using T(1) by simp
qed

lemma store_node:
  assumes ok: "storeOk t" "ps_ok (absStore t)" "cached t" and cur: "refNum t cur p"
    and T: "stored t (absStore t) (PNode p ks Ts)" "distinct (pages (PNode p ks Ts))" and pw: "pageHas t pw p ks' (map pno Ts)"
  shows "\<exists>cur' t'. storePage cur pw t = Inr (cur', t') \<and> shrinks {p} t t' \<and> stored t (absStore t') (PNode p ks' Ts)"
proof -
  have l: "ps_live (absStore t) p" "p \<notin> ps_avail (absStore t)" using T(1) by simp_all
  note h = pageHasD [OF pw]
  obtain cur' t' where t': "storePage cur pw t = Inr (cur', t')" "shrinks {p} t t'" "pageImg (absStore t') p = pw"
    "absStore t' = ps_write p (pw_data pw) (absStore t)"
    using store_page [OF ok cur h(1) l(1) h(5)] by blast
  have "stored t (absStore t') U" if "U \<in> set Ts" for U
    using shrinks_stored [OF t'(2), of U] T that by auto
  moreover have "ps_live (absStore t') p" "p \<notin> ps_avail (absStore t')"
    using l by (simp_all add: t'(4) ps_write_def ps_live_def ps_avail_def)
  ultimately have "stored t (absStore t') (PNode p ks' Ts)" using pw t'(3) by simp
  then show ?thesis using t'(1,2) by blast
qed

lemma has_copyKeyFrom:
  assumes "geom t" "pageHas t pw p ks cs" "i < length ks" "length x = t_recSize t"
  shows "\<exists>pw1. copyKeyFrom t pw i x = Inr pw1 \<and> pageHas t pw1 p (ks[i := x]) cs"
proof -
  obtain pw1 where pw: "copyKeyFrom t pw i x = Inr pw1"
    "pview t pw1 p (length ks) (cs = []) ((kslot t pw)(i := x)) (cslot t pw)"
    using view_copyKeyFrom [OF assms(1) pageHas_view [OF assms(2)] assms(3,4)] by (rule runsE)
  have "pageHas t pw1 p (ks[i := x]) cs"
    by (rule view_pageHas [OF pw(2)]) (use pageHasD(7-9) [OF assms(2)] in \<open>auto simp: nth_list_update\<close>)
  then show ?thesis using pw(1) by blast
qed

context tree_compare
begin

definition rem_done ::
  "BaseBTree \<Rightarrow> nat \<Rightarrow> byte list ptree \<Rightarrow> byte list \<Rightarrow> (bool \<times> BaseBTree) res \<Rightarrow> bool" where
  "rem_done t h T k r \<longleftrightarrow>
     (\<exists>b t' T'. r = Inr (b, t') \<and> shrinks (set (pages T)) t t' \<and> stored t (absStore t') T' \<and> distinct (pages T') \<and>
        set (pages T') \<subseteq> set (pages T) \<and> tree_inv t h T' \<and> pno T' = pno T \<and>
        length (pkeys T) \<le> Suc (length (pkeys T')) \<and> length (pkeys T') \<le> length (pkeys T) \<and> removed b k T T')"

text \<open>A key of the child \<open>l\<close> takes the place of key \<open>i\<close>.\<close>

lemma key_replaced:
  assumes D: "descent t n 0 p ks Ts cur i" and i: "i < length ks" and l: "l < length Ts"
    and t1: "shrinks (set (pages (Ts ! l))) t t1"
    and U: "stored t (absStore t1) U" "pno U = pno (Ts ! l)" "distinct (pages U)" "set (pages U) \<subseteq> set (pages (Ts ! l))"
    and x: "length x = t_recSize t"
    and R: "tree_inv t (Suc 0) (PNode p (ks[i := x]) (Ts[l := U]))" "removed True k (PNode p ks Ts) (PNode p (ks[i := x]) (Ts[l := U]))"
  shows "rem_done t (Suc 0) (PNode p ks Ts) k
    (bindR (copyKeyFrom t1 (pageOf t1 cur) i x) (\<lambda>pw. bindR (storePage cur pw t1) (\<lambda>(cur, t). Inr (True, t))))"
proof -
  note E = descentD [OF D]
  note S = shrinksD(1-6) [OF t1]
  note F = sameTreeD [OF S(2)]
  note u = update_child_shrunk [OF E(7,8) l t1 U]
  have p: "p \<notin> set (pages (Ts ! l))" using E(8) nth_mem [OF l] by auto
  have cur: "refers t1 cur p" by (rule refers_shrinks [OF t1 E(11) p])
  have "pageHas t1 (pageOf t1 cur) p ks (map pno (Ts[l := U]))"
    using u(1) cur by (simp add: F)
  moreover have "geom t1" by (rule storeOkD(1) [OF S(1)])
  ultimately obtain pw where pw: "copyKeyFrom t1 (pageOf t1 cur) i x = Inr pw" "pageHas t1 pw p (ks[i := x]) (map pno (Ts[l := U]))"
    using has_copyKeyFrom [OF _ _ i, of t1] x F(8) by metis
  obtain cur' t2 where t2: "storePage cur pw t1 = Inr (cur', t2)" "shrinks {p} t1 t2" "stored t1 (absStore t2) (PNode p (ks[i := x]) (Ts[l := U]))"
    using store_node [OF S(1,4,3) _ u(1) [folded F(7)] u(2) pw(2)] cur by blast
  have "Ts ! l \<in> set Ts" using l by simp
  then have "shrinks (set (pages (PNode p ks Ts))) t t1" by (intro shrinks_mono [OF t1]) auto
  then have "shrinks (set (pages (PNode p ks Ts))) t t2" by (rule shrinks_trans [OF _ t2(2)]) simp
  moreover have "distinct (pages (PNode p (ks[i := x]) (Ts[l := U])))" using u(2) by simp
  moreover have "set (pages (PNode p (ks[i := x]) (Ts[l := U]))) \<subseteq> set (pages (PNode p ks Ts))" using u(3) by simp
  ultimately show ?thesis
    using pw(1) t2(1,3) R F(7) unfolding rem_done_def
    by (intro exI [of _ True] exI [of _ t2] exI [of _ "PNode p (ks[i := x]) (Ts[l := U])"]) (simp del: stored.simps pages.simps)
qed

lemma rem_done_reading:
  assumes "rem_done t1 h T k r" and k: "keeps t t1" "absStore t1 = absStore t"
  shows "rem_done t h T k r"
proof -
  note F = sameTreeD [OF sameTree_keeps [OF k(1)]]
  have "shrinks A t t'" if "shrinks A t1 t'" for A t'
    using that sameTree_trans [OF sameTree_keeps [OF k(1)]] k(2) by (simp add: shrinks_def)
  then show ?thesis using assms(1) unfolding rem_done_def F by metis
qed

text \<open>The leaf on the left, or the one on the right, gives a key.\<close>

lemma above_max:
  assumes D: "descent t n 0 p ks Ts cur i" and i: "i < length ks" "cmp_isEqual c k (ks ! i) sz"
    and A: "Ts ! i = PNode a us []" "t_minKeys t < length us"
  shows "rem_done t (Suc 0) (PNode p ks Ts) k
    (bindR (getAndRemoveMaxKey (Suc fuel) (pageImg (absStore t) a) t) (\<lambda>(x, t).
       bindR (copyKeyFrom t (pageOf t cur) i x) (\<lambda>pw. bindR (storePage cur pw t) (\<lambda>(cur, t). Inr (True, t)))))"
proof -
  note E = descentD [OF D]
  have il: "i < length Ts" "Suc i < length Ts" using i(1) E(15) by simp_all
  note K = descent_kid [OF D il(1), unfolded A(1), simplified] and K' = descent_kid [OF D il(2)]
  have st: "stored t (absStore t) (PNode a us [])" using E(7) nth_mem [OF il(1)] unfolding A(1) [symmetric] by simp
  have ne: "us \<noteq> []" using A(2) by auto
  obtain t1 where t1: "getAndRemoveMaxKey (Suc fuel) (pageImg (absStore t) a) t = Inr (last us, t1)" "shrinks {a} t t1"
    "stored t (absStore t1) (PNode a (butlast us) [])"
    using leaf_max [OF E(1-3) st K(5) ne] by blast
  have x: "length (last us) = t_recSize t"
    using pageHas_keyLength [OF storeOkD(1) [OF E(1)], of "pageImg (absStore t) a" a us "[]" "last us"] st ne by simp
  obtain b ws where B: "Ts ! Suc i = PNode b ws []" using K'(3) by (cases "Ts ! Suc i") auto
  let ?U = "PNode a (butlast us) []"
  have e: "joinedTree p ks Ts i [last us] [?U, Ts ! Suc i] = PNode p (ks[i := last us]) (Ts[i := ?U])"
    using il i(1) by (simp add: joinedTree_def upd_conv_take_nth_drop Cons_nth_drop_Suc)
  have sz: "sized (nodeMin t) (nodeMax t) (PNode p ks Ts)" using E(9) unfolding tinv_def by blast
  have U: "\<forall>U \<in> set [?U, Ts ! Suc i]. bal 0 U \<and> sized (nodeMin t) (nodeMax t) U \<and>
      nodeMin t (pkids U = []) \<le> length (pkeys U) \<and> length (pkeys U) \<le> nodeMax t (pkids U = [])"
    using A(2) K(2) K'(1,2,6) B by (auto simp: E(17,18))
  have J: "inorder (joinedTree p ks Ts i [last us] [?U, Ts ! Suc i]) = before False i ks Ts @ (inorder (Ts ! i) @ inorder (Ts ! Suc i)) @
      rgt (drop (Suc i) ks) (map inorder (drop (Suc (Suc i)) Ts))"
    unfolding joined_pair_inorder [OF E(15) i(1)] A(1) using append_butlast_last_id [OF ne] by simp
  note r = removed_pair [OF E(9) [unfolded E(16)] i J _ U, unfolded e]
  have "rem_done t (Suc 0) (PNode p ks Ts) k
    (bindR (copyKeyFrom t1 (pageOf t1 cur) i (last us)) (\<lambda>pw. bindR (storePage cur pw t1) (\<lambda>(cur, t). Inr (True, t))))"
    by (rule key_replaced [OF D i(1) il(1) _ t1(3)]) (use A(1) t1(2) x r E(16) in simp_all)
  then show ?thesis using t1(1) by simp
qed

lemma above_min:
  assumes D: "descent t n 0 p ks Ts cur i" and i: "i < length ks" "cmp_isEqual c k (ks ! i) sz"
    and B: "Ts ! Suc i = PNode b ws []" "t_minKeys t < length ws"
  shows "rem_done t (Suc 0) (PNode p ks Ts) k
    (bindR (getAndRemoveMinKey (Suc fuel) (pageImg (absStore t) b) t) (\<lambda>(x, t).
       bindR (copyKeyFrom t (pageOf t cur) i x) (\<lambda>pw. bindR (storePage cur pw t) (\<lambda>(cur, t). Inr (True, t)))))"
proof -
  note E = descentD [OF D]
  have il: "i < length Ts" "Suc i < length Ts" using i(1) E(15) by simp_all
  note K = descent_kid [OF D il(2), unfolded B(1), simplified] and K' = descent_kid [OF D il(1)]
  have st: "stored t (absStore t) (PNode b ws [])" using E(7) nth_mem [OF il(2)] unfolding B(1) [symmetric] by simp
  have ne: "ws \<noteq> []" using B(2) by auto
  obtain t1 where t1: "getAndRemoveMinKey (Suc fuel) (pageImg (absStore t) b) t = Inr (hd ws, t1)" "shrinks {b} t t1"
    "stored t (absStore t1) (PNode b (tl ws) [])"
    using leaf_min [OF E(1-3) st K(5) ne] by blast
  have x: "length (hd ws) = t_recSize t"
    using pageHas_keyLength [OF storeOkD(1) [OF E(1)], of "pageImg (absStore t) b" b ws "[]" "hd ws"] st ne by simp
  obtain a us where A: "Ts ! i = PNode a us []" using K'(3) by (cases "Ts ! i") auto
  let ?U = "PNode b (tl ws) []"
  have "take i Ts @ Ts ! i # ?U # drop (Suc (Suc i)) Ts = Ts[Suc i := ?U]"
    using il by (simp add: upd_conv_take_nth_drop take_Suc_conv_app_nth)
  then have e: "joinedTree p ks Ts i [hd ws] [Ts ! i, ?U] = PNode p (ks[i := hd ws]) (Ts[Suc i := ?U])"
    using i(1) by (simp add: joinedTree_def upd_conv_take_nth_drop)
  have U: "\<forall>U \<in> set [Ts ! i, ?U]. bal 0 U \<and> sized (nodeMin t) (nodeMax t) U \<and>
      nodeMin t (pkids U = []) \<le> length (pkeys U) \<and> length (pkeys U) \<le> nodeMax t (pkids U = [])"
    using B(2) K(2) K'(1,2,6) A by (auto simp: E(17,18))
  have J: "inorder (joinedTree p ks Ts i [hd ws] [Ts ! i, ?U]) = before False i ks Ts @ (inorder (Ts ! i) @ inorder (Ts ! Suc i)) @
      rgt (drop (Suc i) ks) (map inorder (drop (Suc (Suc i)) Ts))"
    unfolding joined_pair_inorder [OF E(15) i(1)] B(1) using ne by simp
  note r = removed_pair [OF E(9) [unfolded E(16)] i J _ U, unfolded e]
  have "rem_done t (Suc 0) (PNode p ks Ts) k
    (bindR (copyKeyFrom t1 (pageOf t1 cur) i (hd ws)) (\<lambda>pw. bindR (storePage cur pw t1) (\<lambda>(cur, t). Inr (True, t))))"
    by (rule key_replaced [OF D i(1) il(2) _ t1(3)]) (use B(1) t1(2) x r E(16) in simp_all)
  then show ?thesis using t1(1) by simp
qed

text \<open>Neither has a key to spare: the leaves become one, and the key is removed from it.\<close>

lemma above_merge:
  assumes D: "descent t n 0 p ks Ts cur i" and i: "i < length ks" "cmp_isEqual c k (ks ! i) sz"
    and A: "Ts ! i = PNode a us []" "Ts ! Suc i = PNode b ws []" "length us = t_minKeys t" "length ws = t_minKeys t"
  shows "rem_done t (Suc 0) (PNode p ks Ts) k
    (bindR (mergeChildren (pageImg (absStore t) a) (pageImg (absStore t) b) cur i t) (\<lambda>(leftChild, cur, t).
     bindR (BaseBTree_removeByKeyNum (Suc fuel) (t_maxKeys t div 2) (if isRoot t leftChild then RootPage else LocalPage leftChild) t)
       (\<lambda>(_, t). Inr (True, t))))"
proof -
  note E = descentD [OF D]
  have il: "i < length Ts" "Suc i < length Ts" using i(1) E(15) by simp_all
  obtain a' us' Vs' b' ws' Ws' where "pairAt t p ks Ts i a' us' Vs' b' ws' Ws'" "Ts ! i = PNode a' us' Vs'" "Ts ! Suc i = PNode b' ws' Ws'"
    by (rule descent_pair [OF D i(1)])
  then have P: "pairAt t p ks Ts i a us [] b ws []" using A(1,2) by simp
  have r: "a \<noteq> t_rootPageNum t" "b \<noteq> t_rootPageNum t"
    using descent_kid(5) [OF D il(1)] descent_kid(5) [OF D il(2)] A(1,2) by simp_all
  let ?W = "PNode a (us @ ks ! i # ws) []" and ?W' = "PNode a (us @ ws) []"
  obtain cur' t1 where t1: "BaseBTree_mergeChildren (pageImg (absStore t) a) (pageImg (absStore t) b) cur i t =
      Inr (pageImg (absStore t1) a, cur', t1)" "reduced t n p ks Ts t1 (joinedTree p ks Ts i [] [?W])"
    using merge_reduced [OF P E(3,11) r A(3,4) E(20,13,12)] by auto
  let ?Ts = "take i Ts @ [?W] @ drop (Suc (Suc i)) Ts" and ?ks = "take i ks @ drop (Suc i) ks"
  have R: "shrinks (set (pages (PNode p ks Ts))) t t1" "stored t (absStore t1) (PNode p ?ks ?Ts)" "distinct (pages (PNode p ?ks ?Ts))"
    "set (pages (PNode p ?ks ?Ts)) \<subseteq> set (pages (PNode p ks Ts))"
    using t1(2) unfolding reduced_def joinedTree_def append_Nil by blast+
  note S = shrinksD(1-6) [OF R(1)]
  note F = sameTreeD [OF S(2)]
  have W: "?Ts ! i = ?W" "i < length ?Ts" using il by (simp_all add: nth_append)
  have "?W \<in> set ?Ts" by simp
  then have sW: "stored t1 (absStore t1) ?W" using R(2) unfolding F(7) stored.simps(1) [of t "absStore t1" p] by blast
  have m: "t_maxKeys t1 = 2 * t_minKeys t + 1"
    using F(2) E(18,20) F(11) E(4) by (simp add: nodeMax_def fun_eq_iff)
  have hW: "pageHas t1 (pageImg (absStore t1) a) a (us @ ks ! i # ws) []" using sW by simp
  have cur: "refers t1 (LocalPage (pageImg (absStore t1) a)) a" using r(1) S(5) by (simp add: refNum_def)
  have mk: "length us < length (us @ ks ! i # ws)" by simp
  obtain t2 where t2: "removeFromLeaf (length us) (LocalPage (pageImg (absStore t1) a)) t1 = Inr (True, t2)" "shrinks {a} t1 t2"
    "stored t1 (absStore t2) (PNode a (dropAt (length us) (us @ ks ! i # ws)) [])"
    using removeFromLeaf_page [OF S(1,4,3) cur sW mk] by blast
  have d: "dropAt (length us) (us @ ks ! i # ws) = us @ ws" by (simp add: dropAt_def)
  have "\<not> isRoot t1 (pageImg (absStore t1) a)" using r(1) S(5) pageHasD(1) [OF hW] by (simp add: isRoot_def)
  moreover have "isLeaf (pageImg (absStore t1) a)" using pageHasD(4) [OF hW] by simp
  ultimately have run: "bindR (mergeChildren (pageImg (absStore t) a) (pageImg (absStore t) b) cur i t) (\<lambda>(leftChild, cur, t).
     bindR (BaseBTree_removeByKeyNum (Suc fuel) (t_maxKeys t div 2) (if isRoot t leftChild then RootPage else LocalPage leftChild) t)
       (\<lambda>(_, t). Inr (True, t))) = Inr (True, t2)"
    using t1(1) t2(1) E(4) m A(3) by (simp add: mergeChildren_def)
  have up: "?Ts[i := ?W'] = take i Ts @ [?W'] @ drop (Suc (Suc i)) Ts" using il by (simp add: list_update_append)
  have u: "stored t1 (absStore t2) (PNode p ?ks (?Ts[i := ?W']))" "distinct (pages (PNode p ?ks (?Ts[i := ?W'])))"
    "set (pages (PNode p ?ks (?Ts[i := ?W']))) \<subseteq> set (pages (PNode p ?ks ?Ts))"
    by (rule update_child_shrunk [OF R(2) [folded F(7)] R(3) W(2)]; use W(1) t2(2,3) d in simp)+
  have J: "inorder (joinedTree p ks Ts i [] [?W']) = before False i ks Ts @ (inorder (Ts ! i) @ inorder (Ts ! Suc i)) @
      rgt (drop (Suc i) ks) (map inorder (drop (Suc (Suc i)) Ts))"
    unfolding joined_inorder [OF E(15) i(1)] A(1,2) by simp
  have U: "\<forall>U \<in> set [?W']. bal 0 U \<and> sized (nodeMin t) (nodeMax t) U \<and>
      nodeMin t (pkids U = []) \<le> length (pkeys U) \<and> length (pkeys U) \<le> nodeMax t (pkids U = [])"
    using A(3,4) E(20) by (simp add: E(17,18))
  have e: "joinedTree p ks Ts i [] [?W'] = PNode p ?ks (?Ts[i := ?W'])" unfolding up by (simp add: joinedTree_def)
  note rp = removed_pair [OF E(9) [unfolded E(16)] i J _ U, unfolded e]
  have "a \<in> set (pages (PNode p ks Ts))" using nth_mem [OF il(1)] A(1) by force
  then have "shrinks (set (pages (PNode p ks Ts))) t t2" by (intro shrinks_trans [OF R(1) t2(2)]) simp
  moreover have "length ks \<le> Suc (length ?ks)" "length ?ks \<le> length ks" using i(1) by simp_all
  ultimately show ?thesis
    using u R(4) rp E(16) unfolding run rem_done_def F(7)
    by (intro exI [of _ True] exI [of _ t2] exI [of _ "PNode p ?ks (?Ts[i := ?W'])"])
      (simp del: stored.simps pages.simps list_update.simps)
qed

text \<open>All three cases.\<close>

lemma removeByKeyNum_above:
  assumes D: "descent t n 0 p ks Ts cur i" and i: "i < length ks" "cmp_isEqual c k (ks ! i) sz"
  shows "rem_done t (Suc 0) (PNode p ks Ts) k (BaseBTree_removeByKeyNum (Suc (Suc fuel)) i cur t)"
proof -
  note E = descentD [OF D]
  have il: "i < length Ts" "Suc i < length Ts" using i(1) E(15) by simp_all
  obtain a us where A: "Ts ! i = PNode a us []" using descent_kid(3) [OF D il(1)] by (cases "Ts ! i") auto
  obtain b ws where B: "Ts ! Suc i = PNode b ws []" using descent_kid(3) [OF D il(2)] by (cases "Ts ! Suc i") auto
  note K = descent_kid [OF D il(1), unfolded A, simplified] descent_kid [OF D il(2), unfolded B, simplified]
  have ln: "length (pw_data (new_PageWrapper t)) = t_nodePageSize t" by (rule length_new_page [OF storeOkD(3) [OF E(1)]])
  obtain t1 where t1: "readPageFromChild (new_PageWrapper t) (pageOf t cur) i t = Inr (pageImg (absStore t) a, t1)"
    "keeps t t1" "absStore t1 = absStore t" "descent t1 n 0 p ks Ts cur i" "t_minKeys t1 = t_minKeys t" "t_nodePageSize t1 = t_nodePageSize t"
    using descent_read [OF D il(1) ln] A by auto
  note D1 = descentD [OF t1(4)]
  note run = BaseBTree_removeByKeyNum.simps(2) [of "Suc fuel"] replacement_def descent_keysNum(2) [OF D] t1(1,5)
  show ?thesis
  proof (cases "t_minKeys t < length us")
    case True
    have "BaseBTree_removeByKeyNum (Suc (Suc fuel)) i cur t =
      bindR (getAndRemoveMaxKey (Suc fuel) (pageImg (absStore t) a) t1) (\<lambda>(x, t).
       bindR (copyKeyFrom t (pageOf t cur) i x) (\<lambda>pw. bindR (storePage cur pw t) (\<lambda>(cur, t). Inr (True, t))))"
      using True K(4) by (simp add: run bindR_assoc split_def del: getAndRemoveMaxKey.simps)
    then show ?thesis
      using rem_done_reading [OF above_max [OF t1(4) i A, of fuel, unfolded t1(3,5), OF True] t1(2,3)] by simp
  next
    case False
    then have u: "length us = t_minKeys t" using K(1) by simp
    have ln1: "length (pw_data (new_PageWrapper t1)) = t_nodePageSize t1" by (rule length_new_page [OF storeOkD(3) [OF D1(1)]])
    obtain t2 where t2: "readPageFromChild (new_PageWrapper t1) (pageOf t1 cur) (i + 1) t1 = Inr (pageImg (absStore t) b, t2)"
      "keeps t1 t2" "absStore t2 = absStore t" "descent t2 n 0 p ks Ts cur i" "t_minKeys t2 = t_minKeys t"
      using descent_read [OF t1(4) il(2) ln1] B t1(3,5) by auto
    have k2: "keeps t t2" by (rule keeps_trans [OF t1(2) t2(2)])
    show ?thesis
    proof (cases "t_minKeys t < length ws")
      case True
      have "BaseBTree_removeByKeyNum (Suc (Suc fuel)) i cur t =
        bindR (getAndRemoveMinKey (Suc fuel) (pageImg (absStore t) b) t2) (\<lambda>(x, t).
         bindR (copyKeyFrom t (pageOf t cur) i x) (\<lambda>pw. bindR (storePage cur pw t) (\<lambda>(cur, t). Inr (True, t))))"
        using True u K(4) K(11) t2(1,5) by (simp add: run bindR_assoc split_def del: getAndRemoveMinKey.simps)
      then show ?thesis
        using rem_done_reading [OF above_min [OF t2(4) i B, of fuel, unfolded t2(3,5), OF True] k2 t2(3)] by simp
    next
      case False
      then have w: "length ws = t_minKeys t" using K(8) by simp
      have "BaseBTree_removeByKeyNum (Suc (Suc fuel)) i cur t =
        bindR (mergeChildren (pageImg (absStore t) a) (pageImg (absStore t) b) cur i t2) (\<lambda>(leftChild, cur, t).
         bindR (BaseBTree_removeByKeyNum (Suc fuel) (t_maxKeys t div 2) (if isRoot t leftChild then RootPage else LocalPage leftChild) t)
           (\<lambda>(_, t). Inr (True, t)))"
        using u w K(4) K(11) t2(1,5) by (simp add: run bindR_assoc split_def del: BaseBTree_removeByKeyNum.simps)
      then show ?thesis
        using rem_done_reading [OF above_merge [OF t2(4) i A B, of fuel, unfolded t2(3,5), OF u w] k2 t2(3)] by simp
    qed
  qed
qed

end

end
