(* ===== verification/Remove_Tall.thy ===== *)
theory Remove_Tall
  imports Remove_Above
begin

text \<open>
  Removing a key from a B-tree of any height, when an equal key is in a leaf or just above the
  leaves and the root has two keys or is a leaf: one equal key goes, or there is none; the tree keeps its
  invariant, the pages of merged children become free.
\<close>

lemma rootAside_reduced:
  assumes r: "rootAside t (PNode p ks Ts)" and t': "reduced t n p ks Ts t' (PNode p ks' Ts')"
  shows "rootAside t' (PNode p ks' Ts')"
proof -
  have R: "shrinks (set (pages (PNode p ks Ts))) t t'" "stored t (absStore t') (PNode p ks' Ts')"
    "distinct (pages (PNode p ks' Ts'))" "set (pages (PNode p ks' Ts')) \<subseteq> set (pages (PNode p ks Ts))"
    using t' unfolding reduced_def by blast+
  note S = shrinksD(5,7) [OF R(1)]
  show ?thesis
  proof (cases "p = t_rootPageNum t")
    case True
    then show ?thesis using R(2,3) S(1) by (auto simp: rootAside_def)
  next
    case False
    then have n: "t_rootPageNum t \<notin> set (pages (PNode p ks Ts))" using r by (auto simp: rootAside_def)
    then have "t_rootPageNum t \<notin> ps_avail (absStore t')" using S(2) r by (auto simp: rootAside_def)
    moreover have "t_rootPageNum t \<notin> set (pages (PNode p ks' Ts'))" using n R(4) by blast
    ultimately show ?thesis using S(1) by (simp add: rootAside_def)
  qed
qed

section \<open>The descent\<close>

context tree_compare
begin

text \<open>A leaf.\<close>

lemma rem_leaf:
  assumes ok: "storeOk t" "ps_ok (absStore t)" "cached t" "refers t cur p" "t_comparator t = Some c" "t_recSize t = sz"
    and T: "stored t (absStore t) (PNode p ks [])" "tree_inv t 0 (PNode p ks [])"
  shows "rem_done t 0 (PNode p ks []) k (BaseBTree_remove (Suc fuel) k cur t)"
proof -
  let ?pw = "pageOf t cur"
  have h: "pageHas t ?pw p ks []" using T(1) ok(4) by simp
  obtain i where i: "scanUp c t ?pw k 0 (getKeysNum ?pw) = Inr i" "stops ks k i"
    "equalAt c t ?pw k i = Inr (i < length ks \<and> cmp_isEqual c k (ks ! i) sz)"
    using page_stop [OF storeOkD(1) [OF ok(1)] h ok(6)] by blast
  let ?cur = "if isRoot t ?pw then RootPage else cur"
  have run: "BaseBTree_remove (Suc fuel) k cur t =
      (if i < length ks \<and> cmp_isEqual c k (ks ! i) sz then removeFromLeaf i ?cur t else Inr (False, t))"
  proof -
    have "pageOf t ?cur = ?pw"
      using ok(3,4) pageHasD(1) [OF h] by (auto simp: isRoot_def cached_def)
    then show ?thesis using ok(5) i pageHasD(4) [OF h] by (simp add: Let_def del: pageOf.simps)
  qed
  show ?thesis
  proof (cases "i < length ks \<and> cmp_isEqual c k (ks ! i) sz")
    case True
    have cur: "refers t ?cur p"
      using ok(3,4) pageHasD(1) [OF h] by (auto simp: isRoot_def cached_def refNum_def)
    obtain t' where t': "removeFromLeaf i ?cur t = Inr (True, t')" "shrinks {p} t t'" "stored t (absStore t') (PNode p (dropAt i ks) [])"
      using removeFromLeaf_page [OF ok(1-3) cur T(1)] True by blast
    have "removed True k (PNode p ks []) (PNode p (dropAt i ks) [])"
      using True id_take_nth_drop [of i ks] unfolding removed_def dropAt_def by auto
    moreover have "tree_inv t 0 (PNode p (dropAt i ks) [])" using T(2) sorted_dropAt by (auto simp: tinv_def)
    moreover have "length ks \<le> Suc (length (dropAt i ks))" "length (dropAt i ks) \<le> length ks" using True by simp_all
    ultimately show ?thesis
      using run True t' unfolding rem_done_def
      by (intro exI [of _ True] exI [of _ t'] exI [of _ "PNode p (dropAt i ks) []"]) simp
  next
    case False
    have "\<forall>x \<in> set ks. \<not> cmp_isEqual c k x sz"
      using no_key [OF keys_ord [OF T(2)] i(2) False] by blast
    then have "removed False k (PNode p ks []) (PNode p ks [])" by (simp add: removed_def)
    moreover have "BaseBTree_remove (Suc fuel) k cur t = Inr (False, t)" using run False by (simp only: if_False)
    ultimately show ?thesis
      using T shrinks_refl [OF ok(1,3,2)] unfolding rem_done_def
      by (intro exI [of _ False] exI [of _ t] exI [of _ "PNode p ks []"]) simp
  qed
qed

text \<open>The removal below the prepared child, seen from the node.\<close>

lemma rem_below:
  assumes D: "descent t n h p ks Ts cur i" and R: "reduced t n p ks Ts t' (PNode p ks' Ts')"
    "rearranged (leafyOf t) (nodeMin t) (nodeMax t) h p ks Ts (PNode p ks' Ts')"
    and j: "j < length Ts'" "t_minKeys t < length (pkeys (Ts' ! j))" "length ks \<le> Suc (length ks')" "length ks' \<le> length ks"
      "grown (PNode p ks Ts) (Ts ! i) (Ts' ! j)"
    and st: "stops ks k i" "\<not> (i < length ks \<and> cmp_isEqual c k (ks ! i) sz)"
    and r: "rem_done t' h (Ts' ! j) k r"
  shows "rem_done t (Suc h) (PNode p ks Ts) k r"
proof -
  note E = descentD [OF D]
  let ?T = "PNode p ks Ts" and ?T1 = "PNode p ks' Ts'"
  have R1: "shrinks (set (pages ?T)) t t'" "stored t (absStore t') ?T1" "distinct (pages ?T1)" "set (pages ?T1) \<subseteq> set (pages ?T)"
    using R(1) unfolding reduced_def by blast+
  note S = shrinksD(2) [OF R1(1)]
  note F = sameTreeD [OF S]
  have T1: "tinv lt False (nodeMin t) (nodeMax t) (Suc h) ?T1" "inorder ?T1 = inorder ?T"
    using R(2) E(16) unfolding rearranged_def by (auto simp: contents_def)
  obtain b t2 U where r': "r = Inr (b, t2)" "shrinks (set (pages (Ts' ! j))) t' t2" "stored t' (absStore t2) U"
    "distinct (pages U)" "set (pages U) \<subseteq> set (pages (Ts' ! j))" "tree_inv t' h U" "pno U = pno (Ts' ! j)"
    "length (pkeys (Ts' ! j)) \<le> Suc (length (pkeys U))" "length (pkeys U) \<le> length (pkeys (Ts' ! j))" "removed b k (Ts' ! j) U"
    using r unfolding rem_done_def by blast
  note u = update_child_shrunk [of t' p ks' Ts' j t2 U, unfolded F, OF R1(2,3) j(1) r'(2) _ r'(7,4,5)]
  have len: "length Ts' = Suc (length ks')" using T1(1) by (simp add: tinv_def)
  have W: "Ts' ! j \<in> set Ts'" "j \<le> length ks'" using j(1) len by simp_all
  have sz: "sized (nodeMin t) (nodeMax t) ?T1" using T1(1) unfolding tinv_def by blast
  have mx: "length (pkeys (Ts' ! j)) \<le> t_maxKeys t" using sz W(1) by (simp add: E(18))
  have no: "\<forall>x \<in> set (inorder ?T1). \<not> cmp_isEqual c k x sz" if "\<forall>x \<in> set (inorder (Ts' ! j)). \<not> cmp_isEqual c k x sz"
  proof -
    have "\<not> (\<exists>x \<in> set (contents False (Ts ! i)). cmp_isEqual c k x sz)"
      using that j(5) by (auto simp: grown_def contents_def)
    then have "\<not> (\<exists>x \<in> set (contents False ?T). cmp_isEqual c k x sz)"
      using search_below [OF E(9) [unfolded E(16)] st] by blast
    then show ?thesis unfolding T1(2) contents_def by auto
  qed
  have U: "tinv lt False (nodeMin t) (nodeMax t) h U" "nodeMin t (pkids U = []) \<le> length (pkeys U)"
    "length (pkeys U) \<le> nodeMax t (pkids U = [])"
    using r'(6,8,9) j(2) mx by (simp_all add: F E(16-18))
  note rc = remove_child [OF T1(1) W(2) r'(10) U no]
  have rm: "removed b k ?T (PNode p ks' (Ts'[j := U]))" using rc(2) unfolding removed_def T1(2) .
  have "shrinks (set (pages ?T)) t t2"
    by (rule shrinks_trans [OF R1(1) r'(2)]) (use R1(4) W(1) in auto)
  moreover have "stored t (absStore t2) (PNode p ks' (Ts'[j := U]))" using u(1) r'(3) by (simp add: F)
  moreover have "distinct (pages (PNode p ks' (Ts'[j := U])))" "set (pages (PNode p ks' (Ts'[j := U]))) \<subseteq> set (pages ?T)"
    using u(2,3) r'(3) R1(4) unfolding F by blast+
  moreover have "tree_inv t (Suc h) (PNode p ks' (Ts'[j := U]))" using rc(1) E(16) by simp
  ultimately show ?thesis
    using j(3,4) rm unfolding rem_done_def r'(1)
    by (intro exI [of _ b] exI [of _ t2] exI [of _ "PNode p ks' (Ts'[j := U])"]) (simp del: stored.simps pages.simps)
qed

text \<open>From the root to a leaf: at every level the child has a key to spare.\<close>

lemma BaseBTree_remove_ok:
  assumes "storeOk t" "ps_ok (absStore t)" "cached t" "t_treeType t = B_TREE" "orderOk t" "t_recSize t = sz"
    "t_comparator t = Some c" "stored t (absStore t) T" "distinct (pages T)" "tree_inv t h T" "rootAside t T"
    "refers t cur (pno T)" "freeRoom t (absStore t) h" "0 < h \<Longrightarrow> 1 < length (pkeys T)"
    "\<forall>x \<in> set (upperKeys T). \<not> cmp_isEqual c k x sz" "h < fuel"
  shows "rem_done t h T k (BaseBTree_remove fuel k cur t)"
  using assms
proof (induction h arbitrary: t T cur fuel)
  case 0
  obtain p ks where T: "T = PNode p ks []" using "0.prems"(10) by (cases T) (auto simp: tinv_def)
  obtain f where "fuel = Suc f" using "0.prems"(16) by (cases fuel) auto
  then show ?case using "0.prems" unfolding T by (simp only: ptree.sel) (rule rem_leaf)
next
  case (Suc h)
  obtain p ks Ts where T: "T = PNode p ks Ts" by (cases T)
  obtain f where f: "fuel = Suc f" "h < f" using Suc.prems(16) by (cases fuel) auto
  note P = Suc.prems [unfolded T ptree.sel]
  have hp: "pageHas t (pageOf t cur) p ks (map pno Ts)" using P(12) stored_node [OF P(8)] by simp
  obtain i where i: "scanUp c t (pageOf t cur) k 0 (getKeysNum (pageOf t cur)) = Inr i" "stops ks k i"
    "equalAt c t (pageOf t cur) k i = Inr (i < length ks \<and> cmp_isEqual c k (ks ! i) sz)"
    using page_stop [OF storeOkD(1) [OF P(1)] hp P(6)] by blast
  have len: "length Ts = Suc (length ks)" using P(10) by (simp add: tinv_def)
  have D: "descent t h h p ks Ts cur i"
    using P(1-6,8-14) stopsD(1) [OF i(2)] by (simp add: descent_def del: stored.simps pages.simps)
  show ?case
  proof (cases "i < length ks \<and> cmp_isEqual c k (ks ! i) sz")
    case True
    have "h = 0"
    proof (rule ccontr)
      assume "h \<noteq> 0"
      then obtain g where "h = Suc g" by (cases h) auto
      then show False using True P(15) upperKeys_high [of g p ks Ts] descent_bal [OF D] nth_mem [of i ks] by auto
    qed
    then obtain g where g: "f = Suc g" using f(2) by (cases f) auto
    let ?cur = "if isRoot t (pageOf t cur) then RootPage else cur"
    have c: "refers t ?cur p"
      using P(3,12) pageHasD(1) [OF hp] by (auto simp: isRoot_def cached_def refNum_def)
    then have "descent t h h p ks Ts ?cur i" using D by (simp only: descent_def)
    then have "rem_done t (Suc 0) T k (BaseBTree_removeByKeyNum (Suc (Suc g)) i ?cur t)"
      using True unfolding T \<open>h = 0\<close> by (intro removeByKeyNum_above) simp_all
    moreover have "BaseBTree_remove fuel k cur t = BaseBTree_removeByKeyNum (Suc (Suc g)) i ?cur t"
      using P(7) i True unfolding f(1) g by (simp add: Let_def del: BaseBTree_removeByKeyNum.simps pageOf.simps)
    ultimately show ?thesis using \<open>h = 0\<close> by simp
  next
    case nf: False
    let ?new = "new_PageWrapper t"
    have ln: "length (pw_data ?new) = t_nodePageSize t" by (rule length_new_page) (rule storeOkD(3) [OF P(1)])
    obtain flag child left right cur' t' where pr: "prepareSubtree i cur ?new ?new ?new t = Inr (flag, child, left, right, cur', t')"
      "prepared t h h p ks Ts i t' (if flag then left else child)"
      using prepareSubtree_ok [OF D ln ln ln] by blast
    obtain ks' Ts' j where R: "reduced t h p ks Ts t' (PNode p ks' Ts')"
      "rearranged (leafyOf t) (nodeMin t) (nodeMax t) h p ks Ts (PNode p ks' Ts')" "j < length Ts'"
      "(if flag then left else child) = pageImg (absStore t') (pno (Ts' ! j))" "t_minKeys t < length (pkeys (Ts' ! j))"
      "length ks \<le> Suc (length ks')" "length ks' \<le> length ks" "grown (PNode p ks Ts) (Ts ! i) (Ts' ! j)"
      using pr(2) unfolding prepared_def by blast
    have R1: "shrinks (set (pages (PNode p ks Ts))) t t'" "freeRoom t (absStore t') h" "stored t (absStore t') (PNode p ks' Ts')"
      "distinct (pages (PNode p ks' Ts'))" "tree_inv t (Suc h) (PNode p ks' Ts')"
      using R(1,2) unfolding reduced_def rearranged_def by blast+
    note S = shrinksD(1-6) [OF R1(1)]
    note F = sameTreeD [OF S(2)]
    have ra: "rootAside t' (PNode p ks' Ts')" by (rule rootAside_reduced [OF P(11) R(1)])
    have W: "Ts' ! j \<in> set Ts'" using R(3) by simp
    have ra': "rootAside t' (Ts' ! j)" "pno (Ts' ! j) \<noteq> t_rootPageNum t'" using rootAside_kid [OF ra] W by simp_all
    have sW: "stored t' (absStore t') (Ts' ! j)" "distinct (pages (Ts' ! j))" "tree_inv t' h (Ts' ! j)"
      using R1(3,4) tinv_child [OF R1(5) W] W by (auto simp: F distinct_concat_iff)
    have "rem_done t' h (Ts' ! j) k (BaseBTree_remove f k (LocalPage (pageImg (absStore t') (pno (Ts' ! j)))) t')"
    proof (rule Suc.IH [OF S(1,4,3) _ _ _ _ sW ra'(1) _ _ _ _ f(2)])
      show "t_treeType t' = B_TREE" "orderOk t'" "t_recSize t' = sz" "t_comparator t' = Some c" using P(4-7) by (simp_all add: F)
      show "refers t' (LocalPage (pageImg (absStore t') (pno (Ts' ! j)))) (pno (Ts' ! j))" using ra'(2) by (simp add: refNum_def)
      show "freeRoom t' (absStore t') h" using R1(2) freeRoom_sameTree [OF S(2)] by simp
      show "1 < length (pkeys (Ts' ! j))" using R(5) descentD(19) [OF D] by linarith
      show "\<forall>x \<in> set (upperKeys (Ts' ! j)). \<not> cmp_isEqual c k x sz" using R(8) P(15) unfolding grown_def by blast
    qed
    from rem_below [OF D R(1-3,5-8) i(2) nf this]
    have "rem_done t (Suc h) T k (BaseBTree_remove f k (LocalPage (if flag then left else child)) t')" unfolding T R(4) .
    moreover have "BaseBTree_remove fuel k cur t = BaseBTree_remove f k (LocalPage (if flag then left else child)) t'"
      using P(7) i nf pr(1) descent_keysNum(2) [OF D] unfolding f(1) by (simp add: Let_def)
    ultimately show ?thesis by simp
  qed
qed

text \<open>The whole call.\<close>

lemma removeKey_tall:
  assumes T: "treeState t c h T" and ty: "t_treeType t = B_TREE" "t_recSize t = sz"
    and fr: "freeRoom t (absStore t) h" and two: "0 < h \<Longrightarrow> 1 < length (pkeys T)"
    and n: "\<forall>x \<in> set (upperKeys T). \<not> cmp_isEqual c k x sz"
  shows "\<exists>b t' T'. BaseBTree_removeKey k t = Inr (b, t') \<and> sameTree t t' \<and> treeState t' c h T' \<and> removed b k T T' \<and>
    t_lastPageNum t' = t_lastPageNum t"
proof -
  note s = treeStateD [OF T]
  have c: "cached t" using s(5,6) by (simp add: cached_def)
  have r: "refers t RootPage (pno T)" using s(5,6) by (simp add: refNum_def)
  have fuel: "h < 2 * fuelOf t"
    using stored_height [OF s(1,7,8), of h] s(9) unfolding tinv_def by linarith
  obtain b t' T' where t': "BaseBTree_remove (2 * fuelOf t) k RootPage t = Inr (b, t')" "shrinks (set (pages T)) t t'"
    "stored t (absStore t') T'" "distinct (pages T')" "tree_inv t h T'" "pno T' = pno T"
    "length (pkeys T) \<le> Suc (length (pkeys T'))" "length (pkeys T') \<le> length (pkeys T)" "removed b k T T'"
    using BaseBTree_remove_ok [OF s(1,2) c ty(1) s(4) ty(2) s(3,7,8) s(9) [unfolded ty(2)] treeState_rootAside [OF T] r fr two n fuel]
    unfolding rem_done_def by blast
  note S = shrinksD(1-6) [OF t'(2)]
  have root: "pno T' = ps_root (absStore t')" using s(5) t'(6) S(5) by (simp add: absStore_def)
  have rm: "rootMax t b = t_maxKeys t" for b using ty(1) by (simp add: rootMax_def nodeMax_def starTree_def)
  have "treeState (t'\<lparr>t_rootPage := pageImg (absStore t') (pno T')\<rparr>) c h T'"
    by (rule treeState_root [OF S(1,4,2) s(3,4) root t'(3,4) t'(5) [folded ty(2)]]) (use s(10) t'(7,8) two in \<open>auto simp: rm\<close>)
  moreover have "t_rootPage t' = pageImg (absStore t') (pno T')" using S(3,5) s(5) t'(6) by (simp add: cached_def)
  then have "t'\<lparr>t_rootPage := pageImg (absStore t') (pno T')\<rparr> = t'" by simp
  moreover have "BaseBTree_removeKey k t = Inr (b, t')"
    using t'(1) ty(1) s(3) by (simp add: BaseBTree_removeKey_def removeFrom_def)
  moreover have "t_lastPageNum t' = t_lastPageNum t" using shrinksD(9) [OF t'(2)] by (simp add: absStore_def)
  ultimately show ?thesis using S(2) t'(9) by auto
qed

text \<open>The same on the keys the tree holds.\<close>

lemma removed_mset:
  assumes "removed b k T T'"
  shows "if b then \<exists>x. x \<in># mset (inorder T) \<and> cmp_isEqual c k x sz \<and> mset (inorder T') = mset (inorder T) - {#x#}
    else mset (inorder T') = mset (inorder T) \<and> (\<forall>x. x \<in># mset (inorder T) \<longrightarrow> \<not> cmp_isEqual c k x sz)"
proof (cases b)
  case True
  then obtain xs x ys where "inorder T = xs @ x # ys" "inorder T' = xs @ ys" "cmp_isEqual c k x sz"
    using assms by (auto simp: removed_def)
  then show ?thesis using True by (intro iffD2 [OF if_P] exI [of _ x]) auto
next
  case False
  then show ?thesis using assms by (simp add: removed_def)
qed

lemma removeKey_keys:
  assumes T: "treeState t c h T" and ty: "t_treeType t = B_TREE" "t_recSize t = sz"
    and fr: "freeRoom t (absStore t) h" and two: "0 < h \<Longrightarrow> 1 < length (pkeys T)"
    and n: "\<forall>x \<in> set (upperKeys T). \<not> cmp_isEqual c k x sz"
  shows "\<exists>b t' T'. BaseBTree_removeKey k t = Inr (b, t') \<and> sameTree t t' \<and> treeState t' c h T' \<and>
    t_lastPageNum t' = t_lastPageNum t \<and>
    (if b then \<exists>x. x \<in># mset (inorder T) \<and> cmp_isEqual c k x sz \<and> mset (inorder T') = mset (inorder T) - {#x#}
     else mset (inorder T') = mset (inorder T) \<and> (\<forall>x. x \<in># mset (inorder T) \<longrightarrow> \<not> cmp_isEqual c k x sz))"
  using removeKey_tall [OF assms] removed_mset by blast

end

section \<open>A concrete tree\<close>

lemma sum_list_upper: "\<forall>x \<in> set xs. f x \<le> (m :: nat) \<Longrightarrow> sum_list (map f xs) \<le> length xs * m"
  by (induction xs) auto

lemma low_size:
  assumes "bal (Suc 0) (PNode p ks Ts)" "sized mn mx (PNode p ks Ts)"
  shows "length (inorder (PNode p ks Ts)) \<le> length ks + Suc (length ks) * mx True"
proof -
  have len: "length Ts = Suc (length ks)" and b: "\<forall>U \<in> set Ts. bal 0 U" using assms(1) by simp_all
  have "length (inorder U) \<le> mx True" if "U \<in> set Ts" for U
  proof -
    have "bal 0 U" "length (pkeys U) \<le> mx (pkids U = [])" using b assms(2) that unfolding sized.simps by blast+
    then show ?thesis by (cases U) simp
  qed
  then have "sum_list (map (\<lambda>U. length (inorder U)) Ts) \<le> length Ts * mx True" by (intro sum_list_upper) blast
  moreover have "size (mset (contents False (PNode p ks Ts))) = length ks + sum_list (map (\<lambda>U. length (inorder U)) Ts)"
    unfolding mset_contents [OF len] by (simp add: contents_def size_multiset_sum_list sum_list_sum_nth atLeast0LessThan)
  ultimately show ?thesis using len by (simp add: contents_def del: inorder.simps)
qed

text \<open>A B-tree of order 4 with sixteen keys has one level of leaves below a root with at least two keys.\<close>

abbreviation sixteenKeys :: "byte list list" where
  "sixteenKeys \<equiv> map (\<lambda>i. [i, 0, 0, 0, 0, 0, 0, 0]) [1, 2, 3, 4, 5, 6, 7, 8, 9, 10, 11, 12, 13, 14, 15, 16]"

lemma sample_two_levels:
  "\<exists>t T. bindR (createTree 4 8 (sampleTree B_TREE 32)) (insertAll sixteenKeys) = Inr t \<and>
     treeState t (ByteComparator 4) 1 T \<and> t_treeType t = B_TREE \<and> t_recSize t = 8 \<and> 1 < length (pkeys T) \<and>
     mset (inorder T) = mset sixteenKeys \<and> freeRoom t (absStore t) 1"
proof -
  obtain t0 where t0: "createTree 4 8 (sampleTree B_TREE 32) = Inr t0" "holds t0 (ByteComparator 4) 0 {#}" "setUp t0"
    "t_treeType t0 = B_TREE" "t_order t0 = 4" "t_recSize t0 = 8" "t_ulongBits t0 = 32" "roomy t0 (absStore t0) 40000000"
    using sample_holds [of 32 B_TREE] by auto
  have "roomy t0 (absStore t0) (39999440 + 35 * length sixteenKeys)" using t0(8) by simp
  then obtain t h where t: "insertAll sixteenKeys t0 = Inr t" "holds t (ByteComparator 4) h (mset sixteenKeys)" "sameTree t0 t"
    "roomy t0 (absStore t) 39999440"
    using byte_order.insertAll_room [OF t0(2) _ t0(6), of 39999440 sixteenKeys] by auto
  note F = sameTreeD [OF t(3)]
  have su: "setUp t" by (rule setUp_sameTree [OF t0(3) t(3)])
  have ty: "t_treeType t = B_TREE" "t_order t = 4" "t_recSize t = 8" "t_ulongBits t = 32" using t0(4-7) F by simp_all
  have m: "t_minKeys t = 3" "t_maxKeys t = 7"
    using su ty by (simp_all add: setUp_def orderOk_def starTree_def)
  have "rootMax t True = 7" using ty(1) m by (simp add: rootMax_def nodeMax_def starTree_def)
  then have h0: "0 < h" using holds_tall [OF t(2)] by simp
  have h1: "h = 1"
  proof (rule ccontr)
    assume "h \<noteq> 1"
    then have "(4::nat) ^ 1 \<le> 4 ^ (h - 1)" using h0 by (intro power_increasing) auto
    then have "24 \<le> 2 * t_minKeys t * (t_minKeys t + 1) ^ (h - 1)" by (simp add: m)
    then show False using holds_height [OF t(2) h0] by simp
  qed
  obtain T where T: "treeState t (ByteComparator 4) 1 T" "mset (inorder T) = mset sixteenKeys"
    using t(2) ty(1) unfolding h1 by (auto simp: holds_def contents_def leafyOf_def)
  note s = treeStateD [OF T(1)]
  obtain p ks Ts where P: "T = PNode p ks Ts" by (cases T)
  have "length (inorder T) \<le> length ks + Suc (length ks) * 7"
    using low_size [of p ks Ts "nodeMin t" "nodeMax t"] s(9) ty(1) m P by (simp add: tinv_def nodeMax_def del: inorder.simps)
  moreover have "length (inorder T) = 16" using arg_cong [OF T(2), of size] by simp
  ultimately have two: "1 < length (pkeys T)" using P by (cases "length ks \<le> 1") auto
  have S: "t_nodePageSize t = KEYS_OFS + 8 * 7 + CURSOR_SZ * 8"
    using setUp_keys [OF su] geomD(4,5) [OF storeOkD(1) [OF s(1)]] ty by (simp add: orderKeys_def)
  have "set (ps_free (absStore t)) \<subseteq> {1..ps_last (absStore t)}" "distinct (ps_free (absStore t))"
    using s(2) by (auto simp: ps_ok_def ps_live_def)
  then have "length (ps_free (absStore t)) \<le> ps_last (absStore t)"
    using card_mono [of "{1..ps_last (absStore t)}" "set (ps_free (absStore t))"] by (simp add: distinct_card)
  moreover have "roomy t (absStore t) 39999440" using t(4) F(5) by simp
  ultimately have "freeRoom t (absStore t) 1"
    using ty(4) by (simp add: freeRoom_def roomy_def pageOfs_def S layout)
  moreover have "bindR (createTree 4 8 (sampleTree B_TREE 32)) (insertAll sixteenKeys) = Inr t"
    unfolding t0(1) bindR_simps by (rule t(1))
  ultimately show ?thesis using T two ty by blast
qed

end
