(* ===== verification/Mods_Remove.thy ===== *)
theory Mods_Remove
  imports Mods_Proofs Remove_Tall
begin

text \<open>
  Deleting a row of a table whose index has a tree that removals are proved for: the index loses one
  key of a row with the given value, and the status of the call tells whether there was one.
\<close>

section \<open>Removing a key through the C interface\<close>

text \<open>Trees of one leaf but for B*+-trees, and B-trees with children.\<close>

definition removable :: "nat \<Rightarrow> BaseBTree \<Rightarrow> byte list \<Rightarrow> bool" where
  "removable f t k \<longleftrightarrow>
     t_treeType t \<noteq> B_STAR_PLUS_TREE \<and> isLeaf (t_rootPage t) \<or>
     t_treeType t = B_TREE \<and> (\<exists>h T. treeState t (ByteComparator f) h T \<and> 1 < length (pkeys T) \<and>
       freeRoom t (absStore t) h \<and> (\<forall>x \<in> set (upperKeys T). \<not> ByteComparator_isEqual f k x (t_recSize t)))"

lemma holds_leaf:
  assumes "holds t c h M" "isLeaf (t_rootPage t)"
  shows "h = 0"
proof -
  obtain T where T: "treeState t c h T" using assms(1) by (auto simp: holds_def)
  note s = treeStateD [OF T]
  have "pkids T = []" using pageHasD(4) [OF stored_node [OF s(7)]] s(6) assms(2) by simp
  then show ?thesis using s(9) by (cases T; cases h) (auto simp: tinv_def)
qed

text \<open>The pages determine the tree.\<close>

lemma pageHas_unique:
  assumes "pageHas t pw p ks cs" "pageHas t pw p ks' cs'"
  shows "ks' = ks" "cs' = cs"
proof -
  note h = pageHasD [OF assms(1)] and h' = pageHasD [OF assms(2)]
  have len: "length ks' = length ks" using h(3) h'(3) by simp
  show "ks' = ks" by (rule nth_equalityI) (use len h(7) h'(7) in auto)
  show "cs' = cs"
  proof (cases "cs = []")
    case True
    then show ?thesis using h(4) h'(4) by simp
  next
    case False
    then have c: "cs' \<noteq> []" using h(4) h'(4) by simp
    show ?thesis by (rule nth_equalityI) (use len h(8) h'(8) h(9) h'(9) False c in auto)
  qed
qed

lemma stored_unique: "stored t \<sigma> T \<Longrightarrow> stored t \<sigma> T' \<Longrightarrow> pno T' = pno T \<Longrightarrow> T' = T"
proof (induction T arbitrary: T')
  case (PNode p ks Ts)
  obtain ks' Ts' where T': "T' = PNode p ks' Ts'" using PNode.prems(3) by (cases T') auto
  have h: "pageHas t (pageImg \<sigma> p) p ks (map pno Ts)" "pageHas t (pageImg \<sigma> p) p ks' (map pno Ts')"
    using PNode.prems(1,2) T' by simp_all
  note u = pageHas_unique [OF h]
  have len: "length Ts' = length Ts" using arg_cong [OF u(2), of length] by simp
  have "Ts' = Ts"
  proof (rule nth_equalityI [OF len])
    fix i assume i: "i < length Ts'"
    then have n: "Ts ! i \<in> set Ts" "Ts' ! i \<in> set Ts'" using len by simp_all
    have "pno (Ts' ! i) = pno (Ts ! i)" using arg_cong [OF u(2), of "\<lambda>l. l ! i"] i len by simp
    then show "Ts' ! i = Ts ! i" using PNode.IH [OF n(1)] PNode.prems(1,2) n T' by simp
  qed
  then show ?case using T' u(1) by simp
qed

lemma treeState_unique:
  assumes "treeState t c h T" "treeState t c' h' T'"
  shows "T' = T"
  using stored_unique treeStateD(5,7) [OF assms(1)] treeStateD(5,7) [OF assms(2)] by metis

lemma bal_unique: "bal h T \<Longrightarrow> bal h' T \<Longrightarrow> h = h'"
proof (induction h arbitrary: h' T)
  case 0
  then show ?case by (cases T; cases h') auto
next
  case (Suc h)
  obtain p ks Ts where T: "T = PNode p ks Ts" by (cases T)
  obtain U Us where U: "Ts = U # Us" using Suc.prems(1) T by (cases Ts) auto
  obtain g where "h' = Suc g" "bal g U" using Suc.prems(2) T U by (cases h') auto
  then show ?case using Suc.IH [of U g] Suc.prems(1) T U by simp
qed

text \<open>One call of the C interface.\<close>

lemma removeKey_removable:
  assumes h: "holds t (ByteComparator f) h M" and r: "removable f t k"
  shows "\<exists>b t'. BaseBTree_removeKey k t = Inr (b, t') \<and> sameTree t t' \<and> t_lastPageNum t' = t_lastPageNum t \<and>
    (if b then \<exists>x. x \<in># M \<and> ByteComparator_isEqual f k x (t_recSize t) \<and> holds t' (ByteComparator f) h (M - {#x#})
     else holds t' (ByteComparator f) h M \<and> (\<forall>x. x \<in># M \<longrightarrow> \<not> ByteComparator_isEqual f k x (t_recSize t)))"
  using r unfolding removable_def
proof (elim disjE conjE exE)
  assume "t_treeType t \<noteq> B_STAR_PLUS_TREE" and leaf: "isLeaf (t_rootPage t)"
  have h0: "h = 0" by (rule holds_leaf [OF h leaf])
  note r = byte_compare.removeKey_leaf [OF h [unfolded h0] refl \<open>t_treeType t \<noteq> B_STAR_PLUS_TREE\<close>, of k, unfolded comparator_sel]
  then obtain b t' where r: "BaseBTree_removeKey k t = Inr (b, t')" "sameTree t t'" "t_lastPageNum t' = t_lastPageNum t"
    "if b then \<exists>x. x \<in># M \<and> ByteComparator_isEqual f k x (t_recSize t) \<and> holds t' (ByteComparator f) 0 (M - {#x#})
     else t' = t \<and> (\<forall>x. x \<in># M \<longrightarrow> \<not> ByteComparator_isEqual f k x (t_recSize t))"
    by blast
  show ?thesis by (intro exI [of _ b] exI [of _ t'] conjI r(1-3)) (use r(4) h h0 in \<open>cases b; simp\<close>)
next
  fix h' T assume T: "t_treeType t = B_TREE" "treeState t (ByteComparator f) h' T" "1 < length (pkeys T)" "freeRoom t (absStore t) h'"
    "\<forall>x \<in> set (upperKeys T). \<not> ByteComparator_isEqual f k x (t_recSize t)"
  obtain T0 where T0: "treeState t (ByteComparator f) h T0" "M = mset (contents (leafyOf t) T0)" using h by (auto simp: holds_def)
  have lf: "leafyOf t = False" using T(1) by (simp add: leafyOf_def)
  have e: "T0 = T" by (rule treeState_unique [OF T(2) T0(1)])
  have "bal h T" "bal h' T" using treeStateD(9) [OF T0(1)] treeStateD(9) [OF T(2)] unfolding e tinv_def by blast+
  then have h': "h' = h" by (rule bal_unique [symmetric])
  have M: "M = mset (inorder T)" using T0(2) by (simp add: e lf contents_def)
  obtain b t' T' where r: "BaseBTree_removeKey k t = Inr (b, t')" "sameTree t t'" "treeState t' (ByteComparator f) h T'"
    "t_lastPageNum t' = t_lastPageNum t"
    "if b then \<exists>x. x \<in># M \<and> ByteComparator_isEqual f k x (t_recSize t) \<and> mset (inorder T') = M - {#x#}
     else mset (inorder T') = M \<and> (\<forall>x. x \<in># M \<longrightarrow> \<not> ByteComparator_isEqual f k x (t_recSize t))"
    using byte_compare.removeKey_keys [OF T(2,1) refl T(4) T(3), of k] T(5) unfolding comparator_sel M h' by blast
  have "holds t' (ByteComparator f) h (mset (inorder T'))"
    using r(3) lf sameTreeD(1) [OF r(2)] by (auto simp: holds_def contents_def)
  then show ?thesis by (intro exI [of _ b] exI [of _ t'] conjI r(1,2,4)) (use r(5) in \<open>cases b; auto\<close>)
qed

lemma c_removeKey_indexed:
  assumes ix: "indexed f sz n w ct M" and r: "removable f (fb_tree (current w ct)) k"
  shows "runs (c_removeKey w ct k) (\<lambda>(b, ct'). ctIdent ct' = ctIdent ct \<and>
    (if b then \<exists>x. x \<in># M \<and> sameKey f sz k x \<and> indexed f sz n w ct' (M - {#x#})
     else indexed f sz n w ct' M \<and> (\<forall>x. x \<in># M \<longrightarrow> \<not> sameKey f sz k x)))"
proof -
  let ?t = "fb_tree (current w ct)"
  note D = indexedD [OF ix]
  obtain h where h: "holds ?t (ByteComparator f) h M" by (rule indexed_holds [OF ix])
  obtain b t' where t': "BaseBTree_removeKey k ?t = Inr (b, t')" "sameTree ?t t'" "t_lastPageNum t' = t_lastPageNum ?t"
    "if b then \<exists>x. x \<in># M \<and> sameKey f sz k x \<and> holds t' (ByteComparator f) h (M - {#x#})
     else holds t' (ByteComparator f) h M \<and> (\<forall>x. x \<in># M \<longrightarrow> \<not> sameKey f sz k x)"
    using removeKey_removable [OF h r] unfolding D(5) by blast
  note F = sameTreeD [OF t'(2)]
  let ?ct = "ct\<lparr>ct_file := (current w ct)\<lparr>fb_tree := t'\<rparr>\<rparr>"
  have e: "fb_tree (current w ?ct) = t'"
    using sameTree_comparator [OF t'(2) holdsD(3) [OF h]] D(1,3) by (simp add: current_sel comparatorAt_def)
  have room: "roomy t' (absStore t') (35 * n)" using D(9) t'(3) by (simp add: F roomy_def absStore_def)
  have ix': "indexed f sz n w ?ct N" if "holds t' (ByteComparator f) h N" "size N \<le> size M" for N
    using that D room F setUp_sameTree [OF D(4) t'(2)] unfolding indexed_def Let_def e isOpen_def by (auto simp: current_sel(2))
  have "ctIdent ?ct = ctIdent ct" using F(11,13) by (simp add: ctIdent_current) (simp add: ctIdent_def current_sel)
  moreover have "if b then \<exists>x. x \<in># M \<and> sameKey f sz k x \<and> indexed f sz n w ?ct (M - {#x#})
     else indexed f sz n w ?ct M \<and> (\<forall>x. x \<in># M \<longrightarrow> \<not> sameKey f sz k x)"
  proof (cases b)
    case True
    then obtain x where x: "x \<in># M" "sameKey f sz k x" "holds t' (ByteComparator f) h (M - {#x#})" using t'(4) by auto
    have "indexed f sz n w ?ct (M - {#x#})" by (rule ix' [OF x(3)]) (simp add: size_Diff_submset size_mset_mono)
    then show ?thesis using x(1,2) True by auto
  next
    case False
    then show ?thesis using t'(4) ix' by simp
  qed
  ultimately show ?thesis using t'(1) by (simp add: c_removeKey_def FileBaseBTree_remove_def onTree_def)
qed

section \<open>Deleting a row\<close>

definition hasValue :: "sqlite3_value \<Rightarrow> sqlite3_value \<times> 64 word \<Rightarrow> bool" where
  "hasValue v x \<longleftrightarrow> valueField (fst x) = valueField v"

lemma unindex_serves:
  assumes sv: "serves m n vt c R" "typed (indexDataType (vt_params vt)) (indexDataSize (vt_params vt)) v" "vt_tree vt = Some ct"
    and r: "removable (nat (indexDataSize (vt_params vt))) (fb_tree (current (setByteWidth (indexDataSize (vt_params vt)) c) ct)) (rowKey (v, 0))"
  shows "runs (unindexValue m S (setByteWidth (indexDataSize (vt_params vt)) c) vt v) (\<lambda>(b, vt'). countedOnly vt vt' \<and>
    (if b then \<exists>x. x \<in># R \<and> hasValue v x \<and> serves m n vt' c (R - {#x#})
     else serves m n vt' c R \<and> (\<forall>x. x \<in># R \<longrightarrow> \<not> hasValue v x)))"
proof -
  let ?sz = "indexDataSize (vt_params vt)"
  let ?c = "setByteWidth ?sz c"
  obtain ct' tty where "vt_tree vt = Some ct'" "0 < ?sz" "?sz \<le> 256"
    "indexed (nat ?sz) (nat ?sz + 8) n ?c ct' (image_mset rowKey R)"
    "\<forall>x. x \<in># R \<longrightarrow> typed (indexDataType (vt_params vt)) ?sz (fst x)"
    "treeTypeOf (bestIndex (vt_params vt)) = Some tty" "ctIdent ct' = (treeFileName (vt_params vt), tty, m_ulongBits m)"
    by (rule servesE [OF sv(1)])
  then have ct: "indexed (nat ?sz) (nat ?sz + 8) n ?c ct (image_mset rowKey R)"
    "\<forall>x. x \<in># R \<longrightarrow> typed (indexDataType (vt_params vt)) ?sz (fst x)"
    "treeTypeOf (bestIndex (vt_params vt)) = Some tty" "ctIdent ct = (treeFileName (vt_params vt), tty, m_ulongBits m)"
    using sv(3) by simp_all
  have l: "length (rowKey (v, 0)) = nat ?sz + 8" using length_rowKey [of _ _ "(v, 0)"] sv(2) by simp
  obtain b ct1 where rm: "c_removeKey ?c ct (rowKey (v, 0)) = Inr (b, ct1)" "ctIdent ct1 = ctIdent ct"
    "if b then \<exists>x. x \<in># image_mset rowKey R \<and> sameKey (nat ?sz) (nat ?sz + 8) (rowKey (v, 0)) x \<and>
         indexed (nat ?sz) (nat ?sz + 8) n ?c ct1 (image_mset rowKey R - {#x#})
     else indexed (nat ?sz) (nat ?sz + 8) n ?c ct1 (image_mset rowKey R) \<and>
       (\<forall>x. x \<in># image_mset rowKey R \<longrightarrow> \<not> sameKey (nat ?sz) (nat ?sz + 8) (rowKey (v, 0)) x)"
    using c_removeKey_indexed [OF ct(1) r] by (auto simp: runs_def)
  let ?vt = "vt\<lparr>vt_tree := Some ct1\<rparr>"
  have u: "unindexValue m S ?c vt v = Inr (b, ?vt)"
    using sv(3) rm(1) keyArg_exact [OF ct(1) l] by (simp add: unindexValue_def createTreeKey_typed [OF sv(2)] theTree_def)
  have same: "sameKey (nat ?sz) (nat ?sz + 8) (rowKey (v, 0)) (rowKey x) = hasValue v x" if "x \<in># R" for x
    using same_rowKey [OF sv(2), of x 0] ct(2) that unfolding hasValue_def by blast
  have sv': "serves m n ?vt c N" if "indexed (nat ?sz) (nat ?sz + 8) n ?c ct1 (image_mset rowKey N)" "N \<subseteq># R" for N
  proof -
    have "\<forall>x. x \<in># N \<longrightarrow> typed (indexDataType (vt_params vt)) ?sz (fst x)" using ct(2) mset_subset_eqD [OF that(2)] by blast
    then show ?thesis using sv(1) that(1) ct(3,4) rm(2) by (simp add: serves_def Let_def)
  qed
  have "if b then \<exists>x. x \<in># R \<and> hasValue v x \<and> serves m n ?vt c (R - {#x#})
     else serves m n ?vt c R \<and> (\<forall>x. x \<in># R \<longrightarrow> \<not> hasValue v x)"
  proof (cases b)
    case True
    then obtain y where y: "y \<in># image_mset rowKey R" "sameKey (nat ?sz) (nat ?sz + 8) (rowKey (v, 0)) y"
      "indexed (nat ?sz) (nat ?sz + 8) n ?c ct1 (image_mset rowKey R - {#y#})" using rm(3) by auto
    then obtain x where x: "x \<in># R" "y = rowKey x" by auto
    have "image_mset rowKey R - {#y#} = image_mset rowKey (R - {#x#})" using x by (simp add: image_mset_Diff)
    then have "serves m n ?vt c (R - {#x#})" using y(3) by (intro sv') simp_all
    moreover have "hasValue v x" using same [OF x(1)] y(2) x(2) by simp
    ultimately show ?thesis using x(1) unfolding eqTrueI [OF True] if_True by blast
  next
    case False
    then show ?thesis using rm(3) sv' same by auto
  qed
  then show ?thesis using u by (simp add: countedOnly_def)
qed

lemma getRowId_counted: "countedOnly vt vt' \<Longrightarrow> getRowId S vt' v db = getRowId S vt v db"
  by (simp add: countedOnly_def getRowId_def realTable_def)

lemma delete_serves:
  assumes sv: "serves m n vt (mw_c w) R" "typed (indexDataType (vt_params vt)) (indexDataSize (vt_params vt)) v" "vt_tree vt = Some ct"
    and r: "removable (nat (indexDataSize (vt_params vt))) (fb_tree (current (setByteWidth (indexDataSize (vt_params vt)) (mw_c w)) ct)) (rowKey (v, 0))"
    and sql: "convertSqliteValueToString S v = Inr s"
      "executeSqlAndFinalize S (mw_db w) (Some (''DELETE FROM '' @ realTable vt @ '' WHERE '' @ indexColName (vt_params vt) @ '' = '' @ s @ '';'')) = (0, db1)"
      "getRowId S vt v db1 = Inr (rid, db2)"
  shows "runs (btreesModsDelete m S vt v p w) (\<lambda>(rc, r', vt', w'). r' = rid \<and> countedOnly vt vt' \<and> mw_db w' = db2 \<and>
    (if rc = SQLITE_OK then \<exists>x. x \<in># R \<and> hasValue v x \<and> serves m n vt' (mw_c w') (R - {#x#})
     else serves m n vt' (mw_c w') R \<and> (\<forall>x. x \<in># R \<longrightarrow> \<not> hasValue v x)))"
proof -
  obtain b vt1 where u: "unindexValue m S (setByteWidth (indexDataSize (vt_params vt)) (mw_c w)) vt v = Inr (b, vt1)" "countedOnly vt vt1"
    "if b then \<exists>x. x \<in># R \<and> hasValue v x \<and> serves m n vt1 (mw_c w) (R - {#x#})
     else serves m n vt1 (mw_c w) R \<and> (\<forall>x. x \<in># R \<longrightarrow> \<not> hasValue v x)"
    using unindex_serves [OF sv r, of S] by (auto simp: runs_def)
  have "btreesModsDelete m S vt v p w = Inr (if b then 0 else 1, rid, count_delete vt1,
      \<lparr>mw_c = setByteWidth (indexDataSize (vt_params vt)) (mw_c w), mw_db = db2\<rparr>)"
    using sql(1,2) sql(3) [folded getRowId_counted [OF u(2)]] u(1) by (simp add: btreesModsDelete_def Let_def)
  moreover have "countedOnly vt (count_delete vt1)" using u(2) by (simp add: countedOnly_def count_delete_def)
  ultimately show ?thesis using u(3) by (cases b) (auto simp: SQLITE_OK_def)
qed

text \<open>A table of one entry has a tree of one leaf.\<close>

lemma small_holds_leaf:
  assumes h: "holds t c h M" and M: "size M \<le> 1"
  shows "isLeaf (t_rootPage t)"
proof -
  obtain T where T: "treeState t c h T" using h by (auto simp: holds_def)
  note s = treeStateD [OF T]
  have m: "0 < t_minKeys t" using s(4) starOrderD(1) [of t] by (auto simp: orderOk_def split: if_splits)
  have "h = 0"
  proof (rule ccontr)
    assume "h \<noteq> 0"
    then have "2 * t_minKeys t * (t_minKeys t + 1) ^ (h - 1) \<le> 1" using holds_height [OF h] M by (meson le_trans not_gr0)
    moreover have "2 * t_minKeys t * 1 \<le> 2 * t_minKeys t * (t_minKeys t + 1) ^ (h - 1)"
      by (intro mult_le_mono2) (metis Suc_eq_plus1 Suc_leI zero_less_Suc zero_less_power One_nat_def)
    ultimately show False using m by linarith
  qed
  then have "pkids T = []" using s(9) by (cases T) (auto simp: tinv_def)
  then show ?thesis using pageHasD(4) [OF stored_node [OF s(7)]] s(6) by simp
qed

lemma small_removable:
  assumes sv: "serves m n vt c R" "vt_tree vt = Some ct" and R: "size R \<le> 1"
    and ty: "treeTypeOf (bestIndex (vt_params vt)) \<noteq> Some B_STAR_PLUS_TREE"
  shows "removable f (fb_tree (current (setByteWidth (indexDataSize (vt_params vt)) c) ct)) k"
proof -
  let ?sz = "indexDataSize (vt_params vt)" and ?t = "fb_tree (current (setByteWidth (indexDataSize (vt_params vt)) c) ct)"
  obtain ct' tty where "vt_tree vt = Some ct'"
    "indexed (nat ?sz) (nat ?sz + 8) n (setByteWidth ?sz c) ct' (image_mset rowKey R)"
    "treeTypeOf (bestIndex (vt_params vt)) = Some tty" "ctIdent ct' = (treeFileName (vt_params vt), tty, m_ulongBits m)"
    by (rule servesE [OF sv(1)])
  then have x: "indexed (nat ?sz) (nat ?sz + 8) n (setByteWidth ?sz c) ct (image_mset rowKey R)"
    "t_treeType ?t \<noteq> B_STAR_PLUS_TREE" using sv(2) ty by (auto simp: ctIdent_def current_sel)
  obtain h where "holds ?t (ByteComparator (nat ?sz)) h (image_mset rowKey R)" by (rule indexed_holds [OF x(1)])
  then have "isLeaf (t_rootPage ?t)" using small_holds_leaf R size_image_mset by metis
  then show ?thesis using x(2) by (simp add: removable_def)
qed

section \<open>Changing the indexed value of a row\<close>

lemma moveKey_serves:
  assumes sv: "serves m (Suc n) vt (mw_c w) R" "typed (indexDataType (vt_params vt)) (indexDataSize (vt_params vt)) v"
      "typed (indexDataType (vt_params vt)) (indexDataSize (vt_params vt)) v'" "vt_tree vt = Some ct"
    and r: "removable (nat (indexDataSize (vt_params vt))) (fb_tree (current (setByteWidth (indexDataSize (vt_params vt)) (mw_c w)) ct)) (rowKey (v, 0))"
    and str: "textOf S v = Inr s" "textOf S v' = Inr s'" "s \<noteq> s'"
  shows "runs (moveKey m S vt v v' rid w) (\<lambda>(rc, vt', w'). countedOnly vt vt' \<and> mw_db w' = mw_db w \<and>
    (if rc = SQLITE_OK then \<exists>x. x \<in># R \<and> hasValue v x \<and> serves m n vt' (mw_c w') (add_mset (v', rid) (R - {#x#}))
     else serves m (Suc n) vt' (mw_c w') R \<and> (\<forall>x. x \<in># R \<longrightarrow> \<not> hasValue v x)))"
proof -
  let ?sz = "indexDataSize (vt_params vt)"
  let ?c = "setByteWidth ?sz (mw_c w)"
  obtain b vt1 where u: "unindexValue m S ?c vt v = Inr (b, vt1)" "countedOnly vt vt1"
    "if b then \<exists>x. x \<in># R \<and> hasValue v x \<and> serves m (Suc n) vt1 (mw_c w) (R - {#x#})
     else serves m (Suc n) vt1 (mw_c w) R \<and> (\<forall>x. x \<in># R \<longrightarrow> \<not> hasValue v x)"
    using unindex_serves [OF sv(1,2,4) r, of S] by (auto simp: runs_def)
  let ?vt = "count_delete vt1"
  have p: "vt_params ?vt = vt_params vt" "vt_tableName ?vt = vt_tableName vt"
    using u(2) by (simp_all add: countedOnly_def count_delete_def)
  show ?thesis
  proof (cases b)
    case True
    then obtain x where x: "x \<in># R" "hasValue v x" "serves m (Suc n) ?vt (mw_c w) (R - {#x#})" using u(3) by auto
    have "typed (indexDataType (vt_params ?vt)) (indexDataSize (vt_params ?vt)) v'" using sv(3) by (simp add: p)
    then obtain ct1 where i: "indexRow m S ?c ?vt v' rid = Inr (?vt\<lparr>vt_tree := ct1\<rparr>)"
      "serves m n (?vt\<lparr>vt_tree := ct1\<rparr>) (mw_c w) (add_mset (v', rid) (R - {#x#}))"
      using indexRow_serves [OF x(3), of v' S rid] by (auto simp: runs_def p)
    have "countedOnly vt (count_insert (?vt\<lparr>vt_tree := ct1\<rparr>))" using p by (simp add: countedOnly_def count_insert_def)
    moreover have "moveKey m S vt v v' rid w = Inr (SQLITE_OK, count_insert (?vt\<lparr>vt_tree := ct1\<rparr>), w\<lparr>mw_c := ?c\<rparr>)"
      using str u(1) True i(1) by (simp add: moveKey_def Let_def SQLITE_OK_def)
    ultimately show ?thesis using x(1,2) i(2) by (auto simp: runs_def simp del: split_paired_Ex)
  next
    case False
    then have "moveKey m S vt v v' rid w = Inr (1, ?vt, w\<lparr>mw_c := ?c\<rparr>)"
      using str u(1) by (simp add: moveKey_def Let_def)
    then show ?thesis using u(3) False p by (simp add: SQLITE_OK_def countedOnly_def)
  qed
qed

lemma update_serves:
  assumes sv: "serves m (Suc n) vt (mw_c w) R" "vt_tree vt = Some ct"
    and v: "argAt argv 0 = Inr v" "typed (indexDataType (vt_params vt)) (indexDataSize (vt_params vt)) v"
      "argAt argv (indexColNumber (vt_params vt) + 2) = Inr v'"
      "typed (indexDataType (vt_params vt)) (indexDataSize (vt_params vt)) v'"
    and r: "removable (nat (indexDataSize (vt_params vt))) (fb_tree (current (setByteWidth (indexDataSize (vt_params vt)) (mw_c w)) ct)) (rowKey (v, 0))"
    and str: "textOf S v = Inr s" "textOf S v' = Inr s'" "s \<noteq> s'"
    and sql: "executeSql S (mw_db w) (Some (''SELECT * FROM '' @ realTable vt @ '';'')) = (0, stmt, db1)"
      "bindR (argAt argv 2) (convertSqliteValueToString S) = Inr first" "assignments S stmt 1 (drop 3 argv) = Inr rest"
      "convertSqliteValueToString S v = Inr old"
      "executeSqlAndFinalize S db1 (Some (''UPDATE '' @ realTable vt @ '' SET '' @ columnText stmt 0 @ '' = '' @ first @ rest @
         '' WHERE '' @ indexColName (vt_params vt) @ '' = '' @ old @ '';'')) = (0, db2)"
      "getRowId S vt v' db2 = Inr (rid, db3)"
  shows "runs (btreesModsDoUpdate m S vt argv pRowid w) (\<lambda>(rc, r', vt', w'). r' = rid \<and> countedOnly vt vt' \<and> mw_db w' = db3 \<and>
    (if rc = SQLITE_OK then \<exists>x. x \<in># R \<and> hasValue v x \<and> serves m n vt' (mw_c w') (add_mset (v', rid) (R - {#x#}))
     else serves m (Suc n) vt' (mw_c w') R \<and> (\<forall>x. x \<in># R \<longrightarrow> \<not> hasValue v x)))"
proof -
  have sv': "serves m (Suc n) vt (mw_c (w\<lparr>mw_db := db3\<rparr>)) R"
    "removable (nat (indexDataSize (vt_params vt))) (fb_tree (current (setByteWidth (indexDataSize (vt_params vt)) (mw_c (w\<lparr>mw_db := db3\<rparr>))) ct)) (rowKey (v, 0))"
    using sv(1) r by simp_all
  have ty: "sqlite3_value_type v' = getIntByDataType (indexDataType (vt_params vt))" using v(4) by (simp add: typed_def)
  obtain rc vt' w' where k: "moveKey m S vt v v' rid (w\<lparr>mw_db := db3\<rparr>) = Inr (rc, vt', w')" "countedOnly vt vt'"
    "mw_db w' = db3"
    "if rc = SQLITE_OK then \<exists>x. x \<in># R \<and> hasValue v x \<and> serves m n vt' (mw_c w') (add_mset (v', rid) (R - {#x#}))
     else serves m (Suc n) vt' (mw_c w') R \<and> (\<forall>x. x \<in># R \<longrightarrow> \<not> hasValue v x)"
    using moveKey_serves [OF sv'(1) v(2,4) sv(2) sv'(2) str, of rid] unfolding runs_def by (auto simp del: split_paired_Ex)
  have "btreesModsDoUpdate m S vt argv pRowid w = Inr (rc, rid, vt', w')"
    using v(1,3) ty sql k(1) by (simp add: btreesModsDoUpdate_def Let_def)
  then show ?thesis using k(2-4) by simp
qed

section \<open>A table with one row\<close>

lemma sample_row:
  "\<exists>vt c vt1 w1. createIndex sampleMachine sampleTable TREE_ORDER 12 (mw_c sampleWorld) = Inr (SQLITE_OK, vt, c) \<and>
    btreesModsInsert sampleMachine sampleSqlite vt [SqlNull, SqlNull, SqlInteger 5] 0 \<lparr>mw_c = c, mw_db = ()\<rparr> = Inr (SQLITE_OK, 7, vt1, w1) \<and>
    serves sampleMachine 999 vt1 (mw_c w1) {#(SqlInteger 5, 7)#} \<and>
    vt_params vt1 = (defaultParams ''f'')\<lparr>indexColNumber := 0, indexColName := ''id''\<rparr> \<and>
    treeTypeOf (bestIndex (vt_params vt1)) \<noteq> Some B_STAR_PLUS_TREE"
proof -
  let ?v = "SqlInteger 5" and ?S = sampleSqlite and ?argv = "[SqlNull, SqlNull, SqlInteger 5]"
  obtain vt c where vt: "createIndex sampleMachine sampleTable TREE_ORDER 12 (mw_c sampleWorld) = Inr (SQLITE_OK, vt, c)"
    "serves sampleMachine 1000 vt c {#}" "countedOnly sampleTable vt" "vt_stats vt = vt_stats sampleTable"
    using sample_createIndex by blast
  have p: "vt_params vt = (defaultParams ''f'')\<lparr>indexColNumber := 0, indexColName := ''id''\<rparr>"
    using vt(3) by (simp add: countedOnly_def sampleTable_def newTable_def)
  have sv: "serves sampleMachine (Suc 999) vt (mw_c \<lparr>mw_c = c, mw_db = ()\<rparr>) {#}" using vt(2) by simp
  have st: "rebuildIndexIfNecessary sampleMachine ?S vt \<lparr>mw_c = c, mw_db = ()\<rparr> = Inr (vt, \<lparr>mw_c = c, mw_db = ()\<rparr>)"
    by (simp add: vt(4) sampleTable_def newTable_def rebuildTo_def rebuildIndexIfNecessary_def)
  have v: "argAt ?argv (indexColNumber (vt_params vt) + 2) = Inr ?v" "typed (indexDataType (vt_params vt)) (indexDataSize (vt_params vt)) ?v"
    by (simp_all add: argAt_def p defaultParams_def typed_def getIntByDataType_def)
  have sql: "executeSqlAndFinalize ?S d (Some q) = (SQLITE_OK, ())" for d q
    by (simp add: executeSqlAndFinalize_def executeSql_def sampleSqlite_def)
  have str5: "convertSqliteValueToString ?S ?v = Inr ''5''" by code_simp
  have first: "bindR (argAt ?argv 2) (convertSqliteValueToString ?S) = Inr ''5''" "commaValues ?S (drop 3 ?argv) = Inr []"
    using str5 by (simp_all add: argAt_def)
  have rid: "getRowId ?S x ?v () = Inr (7, ())" for x
    using str5 by (simp add: getRowId_def executeSql_def sampleSqlite_def sqlite3_column_value_def SQLITE_OK_def)
  obtain vt1 w1 where i: "btreesModsInsert sampleMachine ?S vt ?argv 0 \<lparr>mw_c = c, mw_db = ()\<rparr> = Inr (SQLITE_OK, 7, vt1, w1)"
    "serves sampleMachine 999 vt1 (mw_c w1) {#(?v, 7)#}" "countedOnly vt vt1"
    using insert_serves [OF sv st v first sql rid, of 0] by (auto simp: runs_def)
  have p1: "vt_params vt1 = vt_params vt" using i(3) by (simp add: countedOnly_def)
  have "treeTypeOf (bestIndex (vt_params vt1)) \<noteq> Some B_STAR_PLUS_TREE"
    by (simp add: p1 p defaultParams_def treeTypeOf_def index_nums)
  then show ?thesis using vt(1) i(1,2) p1 p by simp
qed

lemma sample_sql:
  "executeSqlAndFinalize sampleSqlite d (Some q) = (0, ())"
  "\<exists>stmt. executeSql sampleSqlite d (Some q) = (0, stmt, ())"
  "convertSqliteValueToString sampleSqlite (SqlInteger 5) = Inr ''5''"
  "convertSqliteValueToString sampleSqlite (SqlInteger 6) = Inr ''6''"
  "textOf sampleSqlite (SqlInteger 5) = Inr ''5''"
  "textOf sampleSqlite (SqlInteger 6) = Inr ''6''"
  "getRowId sampleSqlite x (SqlInteger 5) () = Inr (7, ())"
  "getRowId sampleSqlite x (SqlInteger 6) () = Inr (7, ())"
proof -
  show str5: "convertSqliteValueToString sampleSqlite (SqlInteger 5) = Inr ''5''" by code_simp
  show str6: "convertSqliteValueToString sampleSqlite (SqlInteger 6) = Inr ''6''" by code_simp
  show "textOf sampleSqlite (SqlInteger 5) = Inr ''5''" "textOf sampleSqlite (SqlInteger 6) = Inr ''6''" by code_simp+
  show "executeSqlAndFinalize sampleSqlite d (Some q) = (0, ())" "\<exists>stmt. executeSql sampleSqlite d (Some q) = (0, stmt, ())"
    by (simp_all add: executeSqlAndFinalize_def executeSql_def sampleSqlite_def SQLITE_OK_def)
  show "getRowId sampleSqlite x (SqlInteger 5) () = Inr (7, ())" "getRowId sampleSqlite x (SqlInteger 6) () = Inr (7, ())"
    using str5 str6 by (simp_all add: getRowId_def executeSql_def sampleSqlite_def sqlite3_column_value_def SQLITE_OK_def)
qed

lemma sample_typed:
  "vt_params vt = (defaultParams ''f'')\<lparr>indexColNumber := 0, indexColName := ''id''\<rparr> \<Longrightarrow>
    typed (indexDataType (vt_params vt)) (indexDataSize (vt_params vt)) (SqlInteger i)"
  by (simp add: defaultParams_def typed_def getIntByDataType_def)

end
