(* ===== verification/Reached_Pages.thy ===== *)
theory Reached_Pages
  imports Tree_Index
begin

text \<open>
  The pages that the code can read from the cached root page by \<open>readPageFromChild\<close>, and what
  every one of them is like in an open tree: its flag, its number of keys, its keys, its cursors.
\<close>

inductive reached :: "BaseBTree \<Rightarrow> nat \<Rightarrow> PageWrapper \<Rightarrow> bool" for t where
  reached_root: "reached t 0 (t_rootPage t)"
| reached_child: "reached t d pw \<Longrightarrow> \<not> isLeaf pw \<Longrightarrow> i \<le> getKeysNum pw \<Longrightarrow>
    readPageFromChild (new_PageWrapper t) pw i t = Inr (child, t') \<Longrightarrow> reached t (Suc d) child"

context tree_order
begin

text \<open>A reached page is a node of the tree.\<close>

definition node_at :: "BaseBTree \<Rightarrow> byte list ptree \<Rightarrow> nat \<Rightarrow> nat \<Rightarrow> byte list ptree \<Rightarrow> bool" where
  "node_at t T h d U \<longleftrightarrow>
     stored t (absStore t) U \<and> d \<le> h \<and> tree_inv t (h - d) U \<and>
     (if d = 0 then U = T
      else set (pages U) \<subseteq> (\<Union>V \<in> set (pkids T). set (pages V)) \<and>
        nodeMin t (pkids U = []) \<le> length (pkeys U) \<and> length (pkeys U) \<le> nodeMax t (pkids U = []))"

lemma node_at_child:
  assumes N: "node_at t T h d (PNode p ks Ts)" and i: "i < length Ts"
  shows "node_at t T h (Suc d) (Ts ! i)"
proof -
  have U: "stored t (absStore t) (PNode p ks Ts)" "tree_inv t (h - d) (PNode p ks Ts)" "d \<le> h"
    using N by (simp_all add: node_at_def)
  obtain h' where h: "h - d = Suc h'" using U(2) i by (cases "h - d") (auto simp: tinv_def)
  then have d: "Suc d \<le> h" "h - Suc d = h'" by linarith+
  have "stored t (absStore t) (Ts ! i)" using U(1) i by simp
  moreover have "tree_inv t h' (Ts ! i)" using tinv_child [OF U(2) [unfolded h] nth_mem [OF i]] .
  moreover have "nodeMin t (pkids (Ts ! i) = []) \<le> length (pkeys (Ts ! i))"
    "length (pkeys (Ts ! i)) \<le> nodeMax t (pkids (Ts ! i) = [])"
    using U(2) i by (auto simp: tinv_def)
  moreover have "set (pages (Ts ! i)) \<subseteq> (\<Union>V \<in> set (pkids T). set (pages V))"
  proof (cases "d = 0")
    case True
    then have "T = PNode p ks Ts" using N by (simp add: node_at_def)
    then show ?thesis using nth_mem [OF i] by auto
  next
    case False
    then have "set (pages (PNode p ks Ts)) \<subseteq> (\<Union>V \<in> set (pkids T). set (pages V))" using N by (simp add: node_at_def)
    moreover have "set (pages (Ts ! i)) \<subseteq> set (pages (PNode p ks Ts))" using nth_mem [OF i] by auto
    ultimately show ?thesis by blast
  qed
  ultimately show ?thesis using d by (simp add: node_at_def)
qed

text \<open>Reading a child of a node.\<close>

lemma node_read:
  assumes ok: "storeOk t" and N: "node_at t T h d U" and i: "i \<le> length (pkeys U)" "pkids U \<noteq> []"
  shows "\<exists>t'. readPageFromChild (new_PageWrapper t) (pageImg (absStore t) (pno U)) i t =
    Inr (pageImg (absStore t) (pno (pkids U ! i)), t') \<and> node_at t T h (Suc d) (pkids U ! i)"
proof -
  obtain p ks Ts where U: "U = PNode p ks Ts" by (cases U)
  have s: "stored t (absStore t) (PNode p ks Ts)" using N U by (simp add: node_at_def)
  have "length Ts = Suc (length ks)"
    using N U i(2) by (cases "h - d") (auto simp: node_at_def tinv_def)
  then have il: "i < length Ts" using i U by simp
  have "pageHas t (pageImg (absStore t) p) p ks (map pno Ts)" using s by simp
  from read_child [OF ok s this il length_new_page [OF storeOkD(3) [OF ok]]] node_at_child [OF N [unfolded U] il]
  show ?thesis by (auto simp: U)
qed

lemma reached_node:
  assumes st: "treeState t c h T" "t_recSize t = sz" and r: "reached t d pw"
  shows "\<exists>U. node_at t T h d U \<and> pw = pageImg (absStore t) (pno U)"
  using r
proof (induction rule: reached.induct)
  case reached_root
  have "node_at t T h 0 T" using treeStateD(7,9) [OF st(1)] st(2) by (simp add: node_at_def)
  then show ?case using treeStateD(6) [OF st(1)] by blast
next
  case (reached_child d pw i child t')
  obtain U where U: "node_at t T h d U" "pw = pageImg (absStore t) (pno U)" using reached_child.IH by blast
  have h: "pageHas t pw (pno U) (pkeys U) (map pno (pkids U))"
    using U stored_node by (simp add: node_at_def)
  have "i \<le> length (pkeys U)" "pkids U \<noteq> []"
    using reached_child.hyps(2,3) pageHasD(3,4) [OF h] by simp_all
  from node_read [OF treeStateD(1) [OF st(1)] U(1) this] reached_child.hyps(4)
  show ?case by (auto simp: U(2))
qed

lemma node_root:
  assumes "treeState t c h T" "node_at t T h d U"
  shows "pno U = t_rootPageNum t \<longleftrightarrow> d = 0"
proof -
  note s = treeStateD(5,8) [OF assms(1)]
  have "pno T \<notin> (\<Union>V \<in> set (pkids T). set (pages V))" using s(2) by (cases T) auto
  then show ?thesis using assms(2) s(1) pno_in_pages [of U] by (auto simp: node_at_def split: if_splits)
qed

text \<open>The keys of a page are in order.\<close>

lemma node_keys:
  assumes N: "node_at t T h d U" and ok: "storeOk t"
  shows "\<forall>i < length (pkeys U). keyAt t (pageImg (absStore t) (pno U)) i = Inr (pkeys U ! i)"
    "\<forall>k \<in> set (pkeys U). length k = t_recSize t" "ord (pkeys U)"
proof -
  have s: "stored t (absStore t) U" "tree_inv t (h - d) U" using N by (simp_all add: node_at_def)
  note h = stored_node [OF s(1)] and g = storeOkD(1) [OF ok]
  show "\<forall>i < length (pkeys U). keyAt t (pageImg (absStore t) (pno U)) i = Inr (pkeys U ! i)"
    using has_keyAt [OF g h] by blast
  have "length (pkeys U ! i) = t_recSize t" if "i < length (pkeys U)" for i
    using length_kslot [OF g pageHasD(5) [OF h], of i] pageHasD(6) [OF h] pageHasD(7) [OF h that] that by simp
  then show "\<forall>k \<in> set (pkeys U). length k = t_recSize t" by (auto simp: in_set_conv_nth)
  show "ord (pkeys U)" using keys_ord s(2) by (cases U) auto
qed

text \<open>What a reached page is like.\<close>

lemma reached_page:
  assumes H: "holds t c h M" "t_recSize t = sz" and r: "reached t d pw"
  shows "d \<le> h \<and> (isLeaf pw \<longleftrightarrow> d = h) \<and> (isRoot t pw \<longleftrightarrow> d = 0) \<and>
    (if d = 0 then getKeysNum pw \<le> rootMax t (isLeaf pw)
     else nodeMin t (isLeaf pw) \<le> getKeysNum pw \<and> getKeysNum pw \<le> nodeMax t (isLeaf pw)) \<and>
    (\<exists>ks. length ks = getKeysNum pw \<and> (\<forall>i < length ks. keyAt t pw i = Inr (ks ! i)) \<and> (\<forall>k \<in> set ks. length k = sz) \<and> ord ks) \<and>
    (\<not> isLeaf pw \<longrightarrow> (\<forall>i \<le> getKeysNum pw. \<exists>child t'. readPageFromChild (new_PageWrapper t) pw i t = Inr (child, t')))"
proof -
  obtain T where T: "treeState t c h T" using H(1) by (auto simp: holds_def)
  obtain U where U: "node_at t T h d U" "pw = pageImg (absStore t) (pno U)" using reached_node [OF T H(2) r] by blast
  note s = treeStateD [OF T]
  have u: "stored t (absStore t) U" "d \<le> h" "tree_inv t (h - d) U" using U(1) by (simp_all add: node_at_def)
  note h = pageHasD [OF stored_node [OF u(1)], folded U(2)]
  have leaf: "isLeaf pw \<longleftrightarrow> pkids U = []" using h(4) by simp
  have depth: "pkids U = [] \<longleftrightarrow> d = h"
    using u(2,3) by (cases U; cases "h - d") (auto simp: tinv_def)
  have root: "isRoot t pw \<longleftrightarrow> d = 0" using node_root [OF T U(1)] h(1) by (auto simp: isRoot_def)
  have size: "if d = 0 then getKeysNum pw \<le> rootMax t (isLeaf pw)
     else nodeMin t (isLeaf pw) \<le> getKeysNum pw \<and> getKeysNum pw \<le> nodeMax t (isLeaf pw)"
    using U(1) s(10) unfolding leaf h(3) by (auto simp: node_at_def)
  note k = node_keys [OF U(1) s(1), folded U(2)]
  have "\<exists>child t'. readPageFromChild (new_PageWrapper t) pw i t = Inr (child, t')" if "\<not> isLeaf pw" "i \<le> getKeysNum pw" for i
    using node_read [OF s(1) U(1), folded U(2)] that unfolding leaf h(3) by blast
  then show ?thesis using u(2) leaf depth root size h(3) k H(2) by auto
qed

end

text \<open>A B*-tree of order 4 with six keys has a page below its root.\<close>

abbreviation sampleKeys :: "byte list list" where
  "sampleKeys \<equiv> map (\<lambda>i. [i, 0, 0, 0, 0, 0, 0, 0]) [1, 2, 3, 4, 5, 6]"

lemma sample_tall:
  "\<exists>t h child. bindR (createTree 4 8 (sampleTree B_STAR_TREE 64)) (insertAll sampleKeys) = Inr t \<and>
     holds t (ByteComparator 4) h (mset sampleKeys) \<and> setUp t \<and> t_treeType t = B_STAR_TREE \<and> t_order t = 4 \<and>
     reached t 1 child"
proof -
  obtain t0 where t0: "createTree 4 8 (sampleTree B_STAR_TREE 64) = Inr t0" "holds t0 (ByteComparator 4) 0 {#}" "setUp t0"
    "t_treeType t0 = B_STAR_TREE" "t_order t0 = 4" "t_recSize t0 = 8" "roomy t0 (absStore t0) 40000000"
    using sample_holds [of 64 B_STAR_TREE] by auto
  have "roomy t0 (absStore t0) (35 * length sampleKeys)" by (rule roomy_mono [OF t0(7)]) simp
  then obtain t h where t: "insertAll sampleKeys t0 = Inr t" "holds t (ByteComparator 4) h (mset sampleKeys)" "sameTree t0 t"
    using byte_order.insertAll_holds [OF t0(2) _ t0(6), of sampleKeys] by auto
  note F = sameTreeD [OF t(3)]
  have su: "setUp t" by (rule setUp_sameTree [OF t0(3) t(3)])
  then have "rootMax t True = 5" using t0(4,5) F by (simp add: setUp_def orderOk_def starOrder_def starTree_def rootMax_def)
  then have "0 < h" using holds_tall [OF t(2)] by simp
  note P = byte_order.reached_page [OF t(2) refl reached_root]
  have leaf: "\<not> isLeaf (t_rootPage t)" using P \<open>0 < h\<close> by simp
  moreover have "\<not> isLeaf (t_rootPage t) \<longrightarrow> (\<forall>i \<le> getKeysNum (t_rootPage t). \<exists>child t'.
      readPageFromChild (new_PageWrapper t) (t_rootPage t) i t = Inr (child, t'))"
    using P by (elim conjE)
  ultimately obtain child t' where "readPageFromChild (new_PageWrapper t) (t_rootPage t) 0 t = Inr (child, t')" by blast
  then have "reached t 1 child" using reached_child [OF reached_root leaf, of 0] by simp
  moreover have "bindR (createTree 4 8 (sampleTree B_STAR_TREE 64)) (insertAll sampleKeys) = Inr t"
    unfolding t0(1) bindR_simps by (rule t(1))
  ultimately show ?thesis using t(2) su t0(4,5) F(10,11) by metis
qed

end
