(* ===== verification/Spec2Isabelle.thy ===== *)
theory Spec2Isabelle
  imports Mods_Rebuild Mods_Remove Reached_Pages
begin

text \<open>
  Verification of the multiway-tree library btrees and of its SQLite module.

  \<^bold>\<open>The program.\<close>  The sources are in
  \<^verbatim>\<open>src/root/prj/0.1/sol/projects/sqlite/ext/btrees_mods\<close>.  \<^verbatim>\<open>btree.h\<close> and
  \<^verbatim>\<open>btree.hpp\<close> keep B-trees, B+-trees, B*-trees and B*+-trees of fixed-size keys in a file: pages of
  keys and cursors (page numbers), a header with order and record size, a counter of pages, the
  number of the root page and a stack of free pages behind the last page.  \<^verbatim>\<open>FileBaseBTree\<close> ties a
  tree to a file.  \<^verbatim>\<open>btree_c.h\<close> and \<^verbatim>\<open>btree_c.hpp\<close> are the C interface, with two comparators and the
  key printers as static objects.  \<^verbatim>\<open>btrees_mods.c\<close> is a virtual-table module of SQLite that stores
  the rows in a table \<^verbatim>\<open><name>_real\<close>, indexes the primary key in a tree file through the C interface,
  records its parameters in \<^verbatim>\<open>btrees_mods_idxinfo\<close>, and rebuilds the index as another kind of tree
  when the statistics ask for it.

  \<^bold>\<open>The model.\<close>  Bytes are 8-bit words; the page buffer and the file are byte lists; machine integers of
  the layout are naturals with the conversions of the code (\<open>UInt\<close>, \<open>ULong\<close>, \<open>SSub\<close>) written out; the
  node info is a 16-bit word; row ids are 64-bit words.  An exception is a value of \<open>exn\<close>; an
  invalid memory access is \<open>MemoryFault\<close>, a function that ends without a \<open>return\<close> is
  \<open>NoReturnValue\<close>.  Recursion over pages takes fuel: the public methods pass one more than the number
  of pages of the file (twice that for removals), which is more than the height of any well-formed tree, so the
  theorems about well-formed trees state that the methods return; on a file with a cycle of cursors
  the code does not return and the model gives \<open>OutOfFuel\<close>.

  \<^item> \<open>BT_Prelude\<close>: results, byte ranges, little-endian numbers.  \<open>IO_Stream\<close>: the stream.
  \<^item> \<open>Tree_State\<close>: the fields of the tree classes, \<open>setOrder\<close>.  \<open>Page_Wrapper\<close>: accessors and copies
    of a page buffer.  \<open>Storage\<close>: reading, writing, allocating and freeing pages, creating and loading.
  \<^item> \<open>Page_Store\<close>: a tree file as an abstract store of pages (\<open>absStore\<close>), with the interfaces \<open>page_store\<close>
    and \<open>page_alloc\<close>; \<open>Create_Load\<close>: what creating and loading do to it.
  \<^item> \<open>Comparators\<close>: the comparators of the C interface and the contracts \<open>key_order\<close>, \<open>comparator\<close>.
  \<^item> \<open>Tree_Ops\<close>, \<open>Star_Ops\<close>, \<open>Remove_Ops\<close>: searching, inserting and removing, method by method.
  \<^item> \<open>Page_View\<close>, \<open>Key_Tree\<close>, \<open>Stored_Tree\<close>: the keys of a page, trees of keys with their invariant (balanced,
    ordered, occupancy, router keys), trees stored in pages.  \<open>Split_Child\<close>, \<open>Insert_Proofs\<close>: splitting a child
    in two, and \<open>insertNonFull\<close> of B-trees and B+-trees.
  \<^item> \<open>Pair_Tree\<close>, \<open>Move_View\<close>, \<open>Pair_Pages\<close>, \<open>Pair_Store\<close>: two neighbouring children joined and cut again into two
    or three, on lists, on one page, on the pages of the pair and in the store.  \<open>Share_Keys\<close>: the methods that do
    this in B*-trees, \<open>Plus_Leaves\<close>: on the leaves of B*+-trees, \<open>Star_Pairs\<close>: that the products are within the bounds.
    \<open>Star_Share\<close>, \<open>Star_Insert\<close>, \<open>Star_Split\<close>: \<open>insertNonFull\<close> of both and the split of their root.
  \<^item> \<open>Tree_Insert\<close>, \<open>Search_Tree\<close>, \<open>Tree_Search\<close>: the public \<open>insert\<close>, \<open>search\<close> and \<open>searchAll\<close> of all four
    kinds implement the tree operations.
  \<^item> \<open>Tree_Index\<close>: \<open>holds t c h M\<close>, an open tree as a multiset of keys.  \<open>Reached_Pages\<close>: the pages that can be read
    from the root.  \<open>Remove_Proofs\<close>: removals from trees of one leaf.
  \<^item> \<open>Remove_Pages\<close>, \<open>Remove_Store\<close>, \<open>Remove_Merge\<close>: the pages of a node and two children when a key goes over from a
    sibling or the children become one, and the store that loses a page.  \<open>Remove_Tree\<close>: the same on the tree.
    \<open>Remove_Descend\<close>: \<open>prepareSubtree\<close> of B-trees.  \<open>Remove_Above\<close>, \<open>Remove_Tall\<close>: removing a key of a leaf or of a node
    just above the leaves, and the descent to it.
  \<^item> \<open>File_Tree\<close>, \<open>C_API\<close>: \<^verbatim>\<open>FileBaseBTree\<close> and the C interface, over a map of file contents; \<open>C_Index\<close>: the
    contract \<open>key_index\<close> between trees and clients and its interpretation.
  \<^item> \<open>SQLite_Values\<close>, \<open>Tree_Keys\<close>, \<open>Mods_Table\<close>, \<open>Mods_Cursor\<close>, \<open>Mods_Module\<close>, \<open>Dot_Output\<close>: the module, with
    SQLite as the parameter \<open>Sqlite\<close>; \<open>Mods_Proofs\<close>: \<open>serves m n vt c R\<close>, a table whose index has
    one key for each row of \<open>R\<close>; \<open>Mods_Rebuild\<close>: the rebuilt index, and insertions that rebuild it first; \<open>Mods_Remove\<close>: deleting a row
    and changing its indexed value.

  \<^bold>\<open>What is shown.\<close>  For all four kinds of tree: insertion, search and search for all equal keys are
  correct and return, files keep their keys over closing and opening, the depth is logarithmic, and
  these carry over to the C interface and to the rows of a table.  Removals are modelled for every kind and
  proved for trees of one leaf, and for B-trees of any height whose root has two keys or is a leaf, when an equal key is
  at most one level above the leaves and the stack of free pages has room; within these bounds \<open>deleted_row_is_gone\<close> and \<open>updated_row_moves\<close> carry them over
  to the rows of a table.  Outside these bounds the code has defects: the key that replaces one of an upper node
  is not always its neighbour (\<open>getAndRemoveMinKey\<close> goes down to the last child), and a root with one key is merged
  through a stale page.
  The bound of 35 new pages for each insertion comes from the height: with fewer than
  \<open>2 ^ 32\<close> keys it is at most 32.  Several theorems show where the code fails (for example
  \<open>first_free_page_lost\<close>, \<open>full_scan_above_probe\<close>, \<open>column_selects_row\<close>).

  \<^bold>\<open>Not modelled.\<close>  SQLite itself (vendored; a parameter); the copies of the library in other directories
  (the same text); the experiment program; the class \<^verbatim>\<open>Indexer\<close>, of which there are only declarations.  Two
  objects on one open file: a file's content is what was last written by closing it.  Release of
  memory and its failure; strings copied into buffers one byte too short behave as if the byte were there.
  Counters of the module's statistics are unbounded integers.
\<close>

section \<open>Trees as multisets of keys\<close>

text \<open>
  C2.  Inserting a key into an open tree of any of the four kinds returns and adds exactly this key: with space
  for the new pages, \<open>insert\<close> does not throw, the tree stays well formed (balanced, ordered,
  every node within the occupancy bounds of its kind, router keys correct), its keys are the
  old ones and the new one, and its height grows by at most one.
\<close>

theorem insert_adds_key:
  assumes "holds t (ByteComparator f) h M" "roomy t (absStore t) (h + 3 + n)" "length k = t_recSize t"
  shows "\<exists>t' h'. BaseBTree_insert k t = Inr t' \<and> holds t' (ByteComparator f) h' (add_mset k M) \<and>
    h' \<le> Suc h \<and> sameTree t t' \<and> roomy t (absStore t') n"
  using byte_order.insert_holds [OF assms(1,2) refl assms(3)] .

theorem insert_adds_key_witness:
  "\<exists>t t' h'. createTree 4 8 (sampleTree B_PLUS_TREE 64) = Inr t \<and>
    BaseBTree_insert [1, 2, 3, 4, 5, 6, 7, 8] t = Inr t' \<and>
    holds t' (ByteComparator 4) h' {#[1, 2, 3, 4, 5, 6, 7, 8]#}"
proof -
  obtain t where t: "createTree 4 8 (sampleTree B_PLUS_TREE 64) = Inr t" "holds t (ByteComparator 4) 0 {#}"
    "t_recSize t = 8" "roomy t (absStore t) 40000000"
    using sample_holds [of 64 B_PLUS_TREE] by auto
  have "roomy t (absStore t) (0 + 3 + 0)" by (rule roomy_mono [OF t(4)]) simp
  from insert_adds_key [OF t(2) this, of "[1, 2, 3, 4, 5, 6, 7, 8]"] t(1,3) show ?thesis by auto
qed

text \<open>
  C4.  Searching for a key in an open tree returns a key of the tree that the
  comparator calls equal to it, and reports that there is none exactly when the tree has none;
  the tree and its file stay as they are, and at most one page per level is read.
\<close>

theorem search_finds_key:
  assumes "holds t (ByteComparator f) h M"
  shows "\<exists>r t'. search k t = Inr (r, t') \<and> holds t' (ByteComparator f) h M \<and> absStore t' = absStore t \<and>
    (case r of None \<Rightarrow> \<forall>x. x \<in># M \<longrightarrow> \<not> ByteComparator_isEqual f k x (t_recSize t)
     | Some x \<Rightarrow> x \<in># M \<and> ByteComparator_isEqual f k x (t_recSize t)) \<and>
    1 \<le> t_maxSearchDepth t' \<and> t_maxSearchDepth t' \<le> h + 1"
  using byte_compare.search_holds [OF assms refl, of k] unfolding comparator_sel by blast

theorem search_finds_key_witness:
  "\<exists>t t'. createTree 4 8 (sampleTree B_TREE 64) = Inr t \<and> search [0, 0, 0, 0, 0, 0, 0, 0] t = Inr (None, t') \<and>
    t_maxSearchDepth t' = 1"
proof -
  obtain t where t: "createTree 4 8 (sampleTree B_TREE 64) = Inr t" "holds t (ByteComparator 4) 0 {#}"
    using sample_holds [of 64 B_TREE] by auto
  from search_finds_key [OF t(2), of "[0, 0, 0, 0, 0, 0, 0, 0]"] t(1) show ?thesis
    by (auto split: option.splits)
qed

text \<open>
  C3.  \<open>searchAll\<close> returns every key of the tree that is equal to the probe, each as often as
  the tree has it, and their number; the depth it records is the height of the tree.
\<close>

theorem searchAll_finds_all:
  assumes "holds t (ByteComparator f) h M"
  shows "\<exists>ks t'. searchAll k t = Inr (length ks, ks, t') \<and> holds t' (ByteComparator f) h M \<and>
    absStore t' = absStore t \<and> mset ks = filter_mset (\<lambda>x. ByteComparator_isEqual f k x (t_recSize t)) M \<and>
    t_maxSearchDepth t' = h + 1"
  using byte_compare.searchAll_holds [OF assms refl, of k] unfolding comparator_sel byte_hits by blast

theorem searchAll_finds_all_witness:
  "\<exists>t t'. createTree 4 8 (sampleTree B_TREE 64) = Inr t \<and> searchAll [0, 0, 0, 0, 0, 0, 0, 0] t = Inr (0, [], t') \<and>
    t_maxSearchDepth t' = 1"
proof -
  obtain t where t: "createTree 4 8 (sampleTree B_TREE 64) = Inr t" "holds t (ByteComparator 4) 0 {#}"
    using sample_holds [of 64 B_TREE] by auto
  from searchAll_finds_all [OF t(2), of "[0, 0, 0, 0, 0, 0, 0, 0]"] t(1) show ?thesis by auto
qed

text \<open>
  C25.  A scan with the comparator that calls all keys equal returns every key of the tree that
  is not smaller than the probe: the whole tree exactly when the probe is a smallest key.
\<close>

theorem full_scan_above_probe:
  assumes "holds t (ByteComparator f) h M"
  shows "\<exists>ks t'. searchAll k (t\<lparr>t_comparator := Some (SearchAllByteComparator f)\<rparr>) = Inr (length ks, ks, t') \<and>
    mset ks = filter_mset (\<lambda>x. \<not> ByteComparator_compare f x k (t_recSize t)) M"
proof -
  let ?t = "t\<lparr>t_comparator := Some (SearchAllByteComparator f)\<rparr>"
  have "holds ?t (SearchAllByteComparator f) h M"
    by (rule setComparator_holds [OF assms]) (simp add: comparator_sel)
  from full_scan.searchAll_holds [OF this refl, of k] show ?thesis
    unfolding comparator_sel by auto
qed

theorem full_scan_above_probe_witness:
  "\<exists>t t'. createTree 4 8 (sampleTree B_TREE 64) = Inr t \<and>
    searchAll [0, 0, 0, 0, 0, 0, 0, 0] (t\<lparr>t_comparator := Some (SearchAllByteComparator 4)\<rparr>) = Inr (0, [], t')"
proof -
  obtain t where t: "createTree 4 8 (sampleTree B_TREE 64) = Inr t" "holds t (ByteComparator 4) 0 {#}"
    using sample_holds [of 64 B_TREE] by auto
  from full_scan_above_probe [OF t(2), of "[0, 0, 0, 0, 0, 0, 0, 0]"] t(1) show ?thesis by auto
qed

text \<open>
  C9.  What is inserted survives closing and reopening: a tree file of any kind created with
  some order and record size, filled with keys and read by another object of the same kind (its
  stream gives back the bytes written) has exactly these keys.  None of the calls throws as long
  as the file stays below 4 GiB.
\<close>

theorem reopened_tree_has_keys:
  assumes t: "freshObject t" "t_comparator t = Some (ByteComparator f)"
    and so: "setOrder order recSize t = Inr t0" "order < 2 ^ 16" "0 < recSize" "recSize < 2 ^ 16"
    and ks: "\<forall>k \<in> set ks. length k = recSize" "length ks \<le> 2 ^ 32"
      "FIRST_PAGE_OFS + t_nodePageSize t0 * (35 * length ks + 1) + 4 < 2 ^ 32" "t_nodePageSize t0 < 2 ^ 31"
  shows "\<exists>t2 h. bindR (createTree order recSize t) (insertAll ks) = Inr t2 \<and> holds t2 (ByteComparator f) h (mset ks) \<and>
    (\<forall>u. isOpened u \<and> bytesOf u = bytesOf t2 \<and> t_ulongBits u = t_ulongBits t \<and> t_treeType u = t_treeType t \<and>
       t_comparator u = Some (ByteComparator f) \<longrightarrow>
       (\<exists>t3. loadTree u = Inr t3 \<and> holds t3 (ByteComparator f) h (mset ks)))"
proof -
  obtain t1 where t1: "createTree order recSize t = Inr t1" "holds t1 (ByteComparator f) 0 {#}" "setUp t1"
    "t_treeType t1 = t_treeType t" "t_order t1 = order" "t_recSize t1 = recSize" "t_ulongBits t1 = t_ulongBits t"
    "t_lastPageNum t1 = 1" "t_nodePageSize t1 = t_nodePageSize t0"
    using create_holds [OF so(1) ks(4) so(4) t] by blast
  have "roomy t1 (absStore t1) (35 * length ks)"
    using ks(3) t1(8,9) by (simp add: roomy_def absStore_def pageOfs_def)
  then obtain t2 h where t2: "insertAll ks t1 = Inr t2" "holds t2 (ByteComparator f) h (mset ks)" "sameTree t1 t2"
    using byte_order.insertAll_holds [OF t1(2), of ks recSize] t1(6) ks(1,2) by auto
  note F = sameTreeD [OF t2(3)]
  have "\<exists>t3. loadTree u = Inr t3 \<and> holds t3 (ByteComparator f) h (mset ks)"
    if "isOpened u" "bytesOf u = bytesOf t2" "t_ulongBits u = t_ulongBits t" "t_treeType u = t_treeType t"
      "t_comparator u = Some (ByteComparator f)" for u
    using load_holds [OF t2(2) setUp_sameTree [OF t1(3) t2(3)], of u] so(2-4) that t1(4-7) by (auto simp: F)
  then show ?thesis using t1(1) t2(1,2) by auto
qed

theorem reopened_tree_has_keys_witness:
  "\<exists>t2 h. bindR (createTree 4 8 (sampleTree B_TREE 64)) (insertAll [[1, 2, 3, 4, 5, 6, 7, 8], [0, 0, 0, 0, 0, 0, 0, 1]]) = Inr t2 \<and>
    holds t2 (ByteComparator 4) h {#[1, 2, 3, 4, 5, 6, 7, 8], [0, 0, 0, 0, 0, 0, 0, 1]#}"
proof -
  let ?t = "sampleTree B_TREE 64"
  obtain t0 where t0: "setOrder 4 8 ?t = Inr t0" "geom t0" using sample_order [of 4 B_TREE 64] by auto
  have f: "freshObject ?t" "t_treeType ?t = B_TREE" "t_comparator ?t = Some (ByteComparator 4)"
    by (simp_all add: sampleTree_def new_BaseBTree_def freshObject_def)
  have "t_nodePageSize t0 \<le> 102"
    using setOrder_sizes(2,3) [OF t0(1)] setOrder_keys(1) [OF t0(1)] f(2) by (simp add: layout orderKeys_def)
  then have "FIRST_PAGE_OFS + t_nodePageSize t0 * (35 * 2 + 1) + 4 < 2 ^ 32" by (simp add: layout)
  from reopened_tree_has_keys [OF f(1,3) t0(1), of "[[1, 2, 3, 4, 5, 6, 7, 8], [0, 0, 0, 0, 0, 0, 0, 1]]"] this geomD(6) [OF t0(2)]
  show ?thesis by (auto simp: f(2) add_mset_commute)
qed

text \<open>
  C17.  The depth of every search is logarithmic in the number of keys: in a tree whose nodes
  have at least \<open>m\<close> keys, fewer than \<open>2 m (m + 1)^n\<close> keys mean that no search reads more than
  \<open>n + 1\<close> pages.
\<close>

theorem search_depth_logarithmic:
  assumes "holds t (ByteComparator f) h M" "size M < 2 * t_minKeys t * (t_minKeys t + 1) ^ n"
  shows "\<exists>r t'. search k t = Inr (r, t') \<and> t_maxSearchDepth t' \<le> n + 1"
proof -
  have "h \<le> n"
  proof (rule ccontr)
    assume "\<not> h \<le> n"
    then have h: "0 < h" "n \<le> h - 1" by linarith+
    then have "(t_minKeys t + 1) ^ n \<le> (t_minKeys t + 1) ^ (h - 1)" by (intro power_increasing) simp_all
    then have "2 * t_minKeys t * (t_minKeys t + 1) ^ n \<le> 2 * t_minKeys t * (t_minKeys t + 1) ^ (h - 1)"
      by (rule mult_le_mono2)
    with holds_height [OF assms(1) h(1)] assms(2) show False by linarith
  qed
  then show ?thesis using byte_compare.search_holds [OF assms(1) refl, of k] by fastforce
qed

theorem search_depth_logarithmic_witness:
  "\<exists>t r t'. createTree 4 8 (sampleTree B_TREE 64) = Inr t \<and> search [0, 0, 0, 0, 0, 0, 0, 0] t = Inr (r, t') \<and>
    t_maxSearchDepth t' \<le> 1"
proof -
  obtain t where t: "createTree 4 8 (sampleTree B_TREE 64) = Inr t" "holds t (ByteComparator 4) 0 {#}" "setUp t" "t_order t = 4" "t_treeType t = B_TREE"
    using sample_holds [of 64 B_TREE] by auto
  then have "size ({#} :: byte list multiset) < 2 * t_minKeys t * (t_minKeys t + 1) ^ 0" using t(5) by (simp add: setUp_def starTree_def)
  from search_depth_logarithmic [OF t(2) this] t(1) show ?thesis by auto
qed

text \<open>
  C7.  Every page that can be read from the root of an open tree is well formed: pages are leaves exactly at
  the depth of the tree, the root is no child of a page, the keys are within the bounds of the kind of
  tree, they have the size of a record and are in order, and every cursor of an inner page leads to a page.
\<close>

theorem reached_pages_well_formed:
  assumes "holds t (ByteComparator f) h M" "reached t d pw"
  shows "d \<le> h \<and> (isLeaf pw \<longleftrightarrow> d = h) \<and> (isRoot t pw \<longleftrightarrow> d = 0) \<and>
    (if d = 0 then getKeysNum pw \<le> rootMax t (isLeaf pw)
     else nodeMin t (isLeaf pw) \<le> getKeysNum pw \<and> getKeysNum pw \<le> nodeMax t (isLeaf pw)) \<and>
    (\<exists>ks. length ks = getKeysNum pw \<and> (\<forall>i < length ks. keyAt t pw i = Inr (ks ! i)) \<and>
      (\<forall>k \<in> set ks. length k = t_recSize t) \<and> sorted_wrt (\<lambda>x y. \<not> ByteComparator_compare f y x (t_recSize t)) ks) \<and>
    (\<not> isLeaf pw \<longrightarrow> (\<forall>i \<le> getKeysNum pw. \<exists>child t'. readPageFromChild (new_PageWrapper t) pw i t = Inr (child, t')))"
  using byte_order.reached_page [OF assms(1) refl assms(2)] unfolding comparator_sel .

theorem reached_pages_well_formed_witness:
  "\<exists>t h child. bindR (createTree 4 8 (sampleTree B_STAR_TREE 64)) (insertAll sampleKeys) = Inr t \<and> reached t 1 child \<and>
    \<not> isRoot t child \<and> (isLeaf child \<longleftrightarrow> h = 1) \<and> holds t (ByteComparator 4) h (mset sampleKeys)"
proof -
  obtain t h child where t: "bindR (createTree 4 8 (sampleTree B_STAR_TREE 64)) (insertAll sampleKeys) = Inr t"
    "holds t (ByteComparator 4) h (mset sampleKeys)" "reached t 1 child"
    using sample_tall by blast
  from reached_pages_well_formed [OF t(2,3)] have "\<not> isRoot t child \<and> (isLeaf child \<longleftrightarrow> h = 1)" by auto
  with t show ?thesis by blast
qed

text \<open>
  C18.  How full the pages are: below the root, a page of a B*-tree or B*+-tree of order \<open>m\<close> has at most \<open>m\<close> keys and
  at least two thirds of \<open>m\<close> less four thirds; a page of a B-tree or B+-tree has at least \<open>m - 1\<close> keys
  (\<open>m\<close> in a leaf of a B+-tree) and at most \<open>2 m - 1\<close> (\<open>2 m\<close>).
\<close>

theorem pages_are_filled:
  assumes "holds t (ByteComparator f) h M" "setUp t" "reached t d pw" "\<not> isRoot t pw"
  shows "if t_treeType t = B_STAR_TREE \<or> t_treeType t = B_STAR_PLUS_TREE
    then 2 * t_order t \<le> 3 * getKeysNum pw + 4 \<and> getKeysNum pw \<le> t_order t
    else let e = (if t_treeType t = B_PLUS_TREE \<and> isLeaf pw then 1 else 0) in
      t_order t + e \<le> getKeysNum pw + 1 \<and> getKeysNum pw + 1 \<le> 2 * t_order t + e"
proof -
  have b: "nodeMin t (isLeaf pw) \<le> getKeysNum pw" "getKeysNum pw \<le> nodeMax t (isLeaf pw)"
    using byte_order.reached_page [OF assms(1) refl assms(3)] assms(4) by auto
  have "2 * n \<le> 3 * ((2 * n - 2) div 3) + 4" for n :: nat by linarith
  from this [of "t_order t"] b assms(2) show ?thesis
    by (auto simp: setUp_def orderOk_def starOrder_def starTree_def nodeMin_def nodeMax_def minOrder_def split: if_splits)
qed

theorem pages_are_filled_witness:
  "\<exists>t child. bindR (createTree 4 8 (sampleTree B_STAR_TREE 64)) (insertAll sampleKeys) = Inr t \<and> reached t 1 child \<and>
    2 \<le> getKeysNum child \<and> getKeysNum child \<le> 4"
proof -
  obtain t h child where t: "bindR (createTree 4 8 (sampleTree B_STAR_TREE 64)) (insertAll sampleKeys) = Inr t"
    "holds t (ByteComparator 4) h (mset sampleKeys)" "setUp t" "t_treeType t = B_STAR_TREE" "t_order t = 4" "reached t 1 child"
    using sample_tall by blast
  have "\<not> isRoot t child" using byte_order.reached_page [OF t(2) refl t(6)] by simp
  from pages_are_filled [OF t(2,3,6) this] have "2 \<le> getKeysNum child \<and> getKeysNum child \<le> 4" using t(4,5) by simp
  with t(1,6) show ?thesis by blast
qed

section \<open>The file layer\<close>

text \<open>
  C21.  A page written to a well-formed tree file is read back, and no other page changes:
  reading page \<open>m\<close> after writing page \<open>n\<close> returns the bytes written when \<open>m = n\<close> and the
  bytes page \<open>m\<close> had otherwise, the calls do not throw, and the file stays well formed.
\<close>

theorem write_then_read:
  assumes "storeOk t" "ps_live (absStore t) n" "length d = t_nodePageSize t"
    "ps_live (absStore t) m" "length dst = t_nodePageSize t"
  shows "\<exists>t'. bindR (writePage n d t) (readPage m dst) =
      Inr (if m = n then d else ps_page (absStore t) m, t') \<and> storeOk t' \<and>
    absStore t' = ps_write n d (absStore t)"
  using ps.write_read [OF assms] by (auto simp: keeps_def elim!: runsE)

theorem write_then_read_witness:
  "\<exists>t t'. createTree 4 8 (sampleTree B_TREE 32) = Inr t \<and>
    bindR (writePage 1 (replicate (t_nodePageSize t) 7) t) (readPage 1 (replicate (t_nodePageSize t) 0)) =
      Inr (replicate (t_nodePageSize t) 7, t')"
proof -
  obtain t where t: "createTree 4 8 (sampleTree B_TREE 32) = Inr t" "storeOk t"
    "absStore t = \<lparr>ps_last = 1, ps_root = 1, ps_free = [], ps_page = (\<lambda>n. []) (1 := emptyLeaf t)\<rparr>"
    using sample_created [of 4 32 B_TREE] by auto
  have "ps_live (absStore t) 1" by (simp add: t(3) ps_live_def)
  then show ?thesis
    using write_then_read [of t 1 "replicate (t_nodePageSize t) 7" 1 "replicate (t_nodePageSize t) 0"] t(1,2)
    by auto
qed

text \<open>
  C34.  With a 64-bit \<open>ULong\<close>, the first page marked free is lost: \<open>_freePagesCounter - 1\<close>
  wraps in 32 bits, so \<open>markPageFree\<close> writes the page number 4 GiB behind the free-page area;
  the counter says one page is free, but the number that a later allocation pops is 0.
\<close>

theorem first_free_page_lost:
  assumes "storeOk t" "t_ulongBits t = 64" "t_freePagesCounter t = 0" "n \<le> t_lastPageNum t"
    "length (bytesOf t) = areaOfs t + 4"
  shows "\<exists>t'. markPageFree n t = Inr t' \<and> t_freePagesCounter t' = 1 \<and> freeSlot t' 0 = 0 \<and>
    length (bytesOf t') = areaOfs t + 4 + 2 ^ 32 + 4"
proof -
  let ?t1 = "countDisk (putBytes (areaOfs t + 4 + 2 ^ 32) (le_enc 4 n) t)"
  let ?t2 = "?t1\<lparr>t_freePagesCounter := 1\<rparr>"
  let ?t3 = "countDisk (putBytes (areaOfs t) (le_enc 4 1) ?t2)"
  note o = storeOkD(3) [OF assms(1)]
  have "getFreePagesInfoAreaOfs ?t2 = areaOfs t"
    using area_ofs_code [OF assms(1)]
    by (simp add: getFreePagesInfoAreaOfs_def getPageOfs_def ULong_def)
  then have m: "markPageFree n t = Inr ?t3"
    using assms(3,4) push_ofs_64 [OF assms(1-3)] o
    by (simp add: markPageFree_def seek_ok write_ok Let_def writeFreePagesCounter_def layout UInt_def)
  have B: "bytesOf ?t3 = overwrite (areaOfs t) (le_enc 4 1)
      (overwrite (areaOfs t + 4 + 2 ^ 32) (le_enc 4 n) (bytesOf t))"
    using o by simp
  have "slice (areaOfs t + 4) 4 (bytesOf ?t3) = slice (areaOfs t + 4) 4
      (overwrite (areaOfs t + 4 + 2 ^ 32) (le_enc 4 n) (bytesOf t))"
    unfolding B by (rule slice_overwrite_disj) (simp_all add: assms(5))
  also have "\<dots> = replicate 4 0"
    by (rule nth_equalityI) (auto simp: nth_slice nth_overwrite assms(5))
  finally have sl: "slice (areaOfs t + 4) 4 (bytesOf ?t3) = replicate 4 0" .
  have "areaOfs ?t3 = areaOfs t" by (simp add: pageOfs_def)
  then have "freeSlot ?t3 0 = le_dec (replicate 4 0)"
    unfolding freeSlot_def sl [symmetric] by simp
  then have "freeSlot ?t3 0 = 0" by (simp only: le_dec_zeros)
  moreover have "length (bytesOf ?t3) = areaOfs t + 4 + 2 ^ 32 + 4"
    unfolding B by (simp add: assms(5))
  ultimately show ?thesis
    using m by (intro exI [of _ ?t3]) simp
qed

theorem first_free_page_lost_witness:
  "\<exists>t t'. createTree 4 8 (sampleTree B_TREE 64) = Inr t \<and> markPageFree 1 t = Inr t' \<and>
    t_freePagesCounter t' = 1 \<and> freeSlot t' 0 = 0"
proof -
  obtain t where t: "createTree 4 8 (sampleTree B_TREE 64) = Inr t" "storeOk t" "t_ulongBits t = 64"
    "absStore t = \<lparr>ps_last = 1, ps_root = 1, ps_free = [], ps_page = (\<lambda>n. []) (1 := emptyLeaf t)\<rparr>"
    "length (bytesOf t) = areaOfs t + 4"
    using sample_created [of 4 64 B_TREE] by auto
  have "t_freePagesCounter t = 0" "t_lastPageNum t = 1"
    using t(4) by (simp_all add: absStore_def)
  then show ?thesis
    using first_free_page_lost [OF t(2,3) _ _ t(5), of 1] t(1) by auto
qed

section \<open>The C interface\<close>

text \<open>
  C5.  A tree file made through the C interface keeps its keys: after \<open>create\<close>, a run of \<open>insert\<close>,
  \<open>close\<close> and \<open>open\<close> with the same kind of tree, \<open>searchAll\<close> returns exactly the inserted keys that are
  equal to the probe.  Every call succeeds while the file stays below 4 GiB.
\<close>

theorem c_file_keeps_keys:
  assumes fit: "fits ty order sz (length ks)" and u: "32 \<le> u"
    and fs: "fs_writable (w_fs w) file" and ks: "\<forall>k \<in> set ks. length k = sz"
  shows "\<exists>ct w1 ct1 w2 ct2 found ct3. c_create u None ty order sz file w = Inr (Some ct, w1) \<and>
    insertKeys w1 ct ks = Inr ct1 \<and> c_close (Some ct1) w1 = (None, w2) \<and> c_open u None ty file w2 = Inr (Some ct2, w2) \<and>
    c_searchAll w2 ct2 k = Inr (length found, found, ct3) \<and>
    mset found = filter_mset (\<lambda>x. ByteComparator_isEqual (w_byteComparator w) k x sz) (mset ks)"
proof -
  let ?w = "w\<lparr>w_fs := fs_put file [] (w_fs w)\<rparr>" and ?f = "w_byteComparator w" and ?i = "(file, ty, u)"
  obtain ct where ct: "c_create u None ty order sz file w = Inr (Some ct, ?w)"
    "\<forall>w'. indexed (w_byteComparator w') sz (length ks) w' ct {#}" "ctIdent ct = ?i"
    using c_create_indexed [OF fit u fs] by blast
  have I: "indexed ?f sz (length ks + 0) ?w ct {#} \<and> ctIdent ct = ?i"
    using ct(2) [rule_format, of ?w] ct(3) by simp
  obtain ct1 where i: "insertKeys ?w ct ks = Inr ct1" "indexed ?f sz 0 ?w ct1 (mset ks)" "ctIdent ct1 = ?i"
    using trees.ins_all_adds [OF I ks] by (auto simp: runs_def insertKeys_eq)
  let ?w2 = "snd (c_close (Some ct1) ?w)"
  have "fs_writable (w_fs ?w) file" using fs by (simp add: fs_put_def)
  then obtain ct2 where o: "c_open u None ty file ?w2 = Inr (Some ct2, ?w2)" "indexed ?f sz 0 ?w2 ct2 (mset ks)" "ctIdent ct2 = ?i"
    using c_close_open_indexed [OF i(2) _ i(3)] by blast
  have "c_close (Some ct1) ?w = (None, ?w2)" by (simp add: c_close_def)
  with ct(1) i(1) o trees.find_all_finds [OF conjI [OF o(2,3)], of k] show ?thesis by (auto simp: runs_def)
qed

theorem c_file_keeps_keys_witness:
  "\<exists>ct w1 ct1 w2 ct2 ct3. c_create 64 None B_PLUS_TREE 4 8 ''f'' (mw_c sampleWorld) = Inr (Some ct, w1) \<and>
    insertKeys w1 ct [[1, 2, 3, 4, 5, 6, 7, 8]] = Inr ct1 \<and> c_close (Some ct1) w1 = (None, w2) \<and>
    c_open 64 None B_PLUS_TREE ''f'' w2 = Inr (Some ct2, w2) \<and>
    c_searchAll w2 ct2 [1, 2, 3, 4, 0, 0, 0, 0] = Inr (1, [[1, 2, 3, 4, 5, 6, 7, 8]], ct3)"
proof -
  let ?k = "[1, 2, 3, 4, 5, 6, 7, 8] :: byte list"
  have "fits B_PLUS_TREE 4 8 (length [?k])"
    by (simp add: fits_def minOrder_def orderKeys_def layout pageSizeFor_def)
  moreover have "fs_writable (w_fs (mw_c sampleWorld)) ''f''" by (simp add: sampleWorld_def sampleFiles_def)
  ultimately obtain ct w1 ct1 w2 ct2 found ct3 where r: "c_create 64 None B_PLUS_TREE 4 8 ''f'' (mw_c sampleWorld) = Inr (Some ct, w1)"
    "insertKeys w1 ct [?k] = Inr ct1" "c_close (Some ct1) w1 = (None, w2)" "c_open 64 None B_PLUS_TREE ''f'' w2 = Inr (Some ct2, w2)"
    "c_searchAll w2 ct2 [1, 2, 3, 4, 0, 0, 0, 0] = Inr (length found, found, ct3)"
    "mset found = filter_mset (\<lambda>x. ByteComparator_isEqual (w_byteComparator (mw_c sampleWorld)) [1, 2, 3, 4, 0, 0, 0, 0] x 8) (mset [?k])"
    using c_file_keeps_keys [of B_PLUS_TREE 4 8 "[?k]" 64 "mw_c sampleWorld" "''f''" "[1, 2, 3, 4, 0, 0, 0, 0]"] by auto
  have "ByteComparator_isEqual 4 [1, 2, 3, 4, 0, 0, 0, 0] ?k 8" by code_simp
  then have "mset found = {#?k#}" using r(6) by (simp add: sampleWorld_def)
  then have "found = [?k]" by simp
  then show ?thesis using r(1-5) by auto
qed

section \<open>The SQLite module\<close>

text \<open>
  C1.  A row that is inserted is found.  The index of the table serves the rows \<open>R\<close>; either no rebuild is due, or it is safe
  (\<open>rebuildSafe\<close>: an index field of at most 8 bytes, the comparator set to its width, the tree file writable, room), and
  the handler starts with it.  SQLite then executes the statements of \<open>btreesModsInsert\<close> (the row gets the id \<open>r\<close>).
  The handler returns \<open>SQLITE_OK\<close> with \<open>r\<close>, and a query for an equal value delivers, by SQLite's loop over the
  cursor, exactly the row ids of the rows with an equal key field, \<open>r\<close> among them; the loop ends.
\<close>

theorem inserted_row_is_found:
  assumes sv: "serves m (Suc n) vt (mw_c w) R" "rebuildSafe m vt (mw_c w) (size R + Suc n)"
      "rebuildIndexIfNecessary m S vt w = Inr (vt0, w0)"
    and v: "argAt argv (indexColNumber (vt_params vt) + 2) = Inr v"
      "typed (indexDataType (vt_params vt)) (indexDataSize (vt_params vt)) v"
    and sql: "bindR (argAt argv 2) (convertSqliteValueToString S) = Inr first" "commaValues S (drop 3 argv) = Inr rest"
      "executeSqlAndFinalize S (mw_db w0) (Some (insertSql vt first rest)) = (SQLITE_OK, db1)"
      "getRowId S vt v db1 = Inr (r, db2)"
    and k: "ic_iColumn k = indexColNumber (vt_params vt)" "- 1 \<le> ic_iColumn k" "ic_iColumn k < 128" "ic_op k = SQLITE_INDEX_CONSTRAINT_EQ"
  shows "\<exists>vt1 w1 cur vt2 w2 rows end. btreesModsInsert m S vt argv pRowid w = Inr (SQLITE_OK, r, vt1, w1) \<and>
    btreesModsFilter m S vt1 (constraintBytes k) [v] btreesModsOpen w1 = Inr (SQLITE_OK, cur, vt2, w2) \<and>
    cursor_run cur rows end \<and> r \<in> set rows \<and>
    mset rows = image_mset snd (filter_mset (\<lambda>x. valueField (fst x) = valueField v) (add_mset (v, r) R)) \<and>
    serves m n vt2 (mw_c w2) (add_mset (v, r) R)"
proof -
  obtain vt1 w1 where i: "btreesModsInsert m S vt argv pRowid w = Inr (SQLITE_OK, r, vt1, w1)"
    "serves m n vt1 (mw_c w1) (add_mset (v, r) R)" "countedOnly vt0 vt1"
    using insert_rebuilt_serves [OF sv v sql, of pRowid] by (auto simp: runs_def)
  then have p: "indexColNumber (vt_params vt1) = indexColNumber (vt_params vt)" "indexDataType (vt_params vt1) = indexDataType (vt_params vt)"
    "indexDataSize (vt_params vt1) = indexDataSize (vt_params vt)" using rebuild_fields(1) [OF sv(3)] by (simp_all add: countedOnly_def)
  obtain cur vt2 w2 where f: "btreesModsFilter m S vt1 (constraintBytes k) [v] btreesModsOpen w1 = Inr (SQLITE_OK, cur, vt2, w2)"
    "cursorOk cur" "mset (remaining cur) = image_mset snd (filter_mset (\<lambda>x. valueField (fst x) = valueField v) (add_mset (v, r) R))"
    "serves m n vt2 (mw_c w2) (add_mset (v, r) R)"
    using filter_serves [OF i(2), of v k S "[]" "[]" btreesModsOpen] v(2) k by (auto simp: runs_def p)
  obtain e where e: "cursor_run cur (remaining cur) e" using cursor_run_complete [OF f(2)] by blast
  have "r \<in># mset (remaining cur)" unfolding f(3) by simp
  then show ?thesis using i(1) f(1,3,4) e by (metis set_mset_mset)
qed

theorem inserted_row_is_found_witness:
  "\<exists>vt c vt1 w1 cur vt2 w2 end. createIndex sampleMachine sampleTable TREE_ORDER 12 (mw_c sampleWorld) = Inr (SQLITE_OK, vt, c) \<and>
    btreesModsInsert sampleMachine sampleSqlite
      (vt\<lparr>vt_stats := \<lparr>searchesCount = 100, insertsCount = 800, deletesCount = 100, isOriginalStats = True\<rparr>\<rparr>)
      [SqlNull, SqlNull, SqlInteger 5] 0 \<lparr>mw_c = c, mw_db = ()\<rparr> = Inr (SQLITE_OK, 7, vt1, w1) \<and>
    btreesModsFilter sampleMachine sampleSqlite vt1 [0, 2] [SqlInteger 5] btreesModsOpen w1 = Inr (SQLITE_OK, cur, vt2, w2) \<and>
    cursor_run cur [7] end"
proof -
  let ?k = "\<lparr>ic_iColumn = 0, ic_op = 2, ic_usable = True\<rparr>" and ?v = "SqlInteger 5" and ?S = sampleSqlite
  let ?argv = "[SqlNull, SqlNull, ?v]"
  obtain vt' c where vt': "createIndex sampleMachine sampleTable TREE_ORDER 12 (mw_c sampleWorld) = Inr (SQLITE_OK, vt', c)"
    "serves sampleMachine 1000 vt' c {#}" "countedOnly sampleTable vt'"
    "c = (mw_c sampleWorld)\<lparr>w_fs := fs_put ''f'' [] (w_fs (mw_c sampleWorld))\<rparr>"
    using sample_createIndex by blast
  let ?vt = "vt'\<lparr>vt_stats := \<lparr>searchesCount = 100, insertsCount = 800, deletesCount = 100, isOriginalStats = True\<rparr>\<rparr>"
  let ?w = "\<lparr>mw_c = c, mw_db = ()\<rparr>"
  have p: "vt_params ?vt = (defaultParams ''f'')\<lparr>indexColNumber := 0, indexColName := ''id''\<rparr>"
    using vt'(3) by (simp add: countedOnly_def sampleTable_def newTable_def)
  have sv: "serves sampleMachine (Suc 999) ?vt (mw_c ?w) {#}" using vt'(2) by (simp add: serves_def)
  have "indexDataSize (vt_params ?vt) = 4" by (simp only: p) (simp add: defaultParams_def getDataSizeByType_def key_sizes)
  then have safe: "rebuildSafe sampleMachine ?vt (mw_c ?w) (size {#} + Suc 999)"
    using sample_fits by (simp add: rebuildSafe_def vt'(4) sampleMachine_def sampleWorld_def sampleFiles_def fs_put_def)
  obtain vt0 w0 where st: "rebuildIndexIfNecessary sampleMachine ?S ?vt ?w = Inr (vt0, w0)"
    using rebuildSafe_serves [OF sv safe, of ?S] by (auto simp: runs_def)
  have v: "argAt ?argv (indexColNumber (vt_params ?vt) + 2) = Inr ?v" "typed (indexDataType (vt_params ?vt)) (indexDataSize (vt_params ?vt)) ?v"
    by (simp only: p, simp add: argAt_def) (rule sample_typed [OF p])
  have sql: "executeSqlAndFinalize ?S (mw_db w0) (Some (insertSql ?vt ''5'' [])) = (SQLITE_OK, ())"
    using sample_sql(1) by (simp add: SQLITE_OK_def)
  have first: "bindR (argAt ?argv 2) (convertSqliteValueToString ?S) = Inr ''5''" and rest: "commaValues ?S (drop 3 ?argv) = Inr []"
    using sample_sql(3) by (simp_all add: argAt_def)
  have k: "ic_iColumn ?k = indexColNumber (vt_params ?vt)" "- 1 \<le> ic_iColumn ?k" "ic_iColumn ?k < 128" "ic_op ?k = SQLITE_INDEX_CONSTRAINT_EQ"
    by (simp only: p, simp) (simp_all add: SQLITE_INDEX_CONSTRAINT_EQ_def)
  from inserted_row_is_found [OF sv safe st v first rest sql sample_sql(7) k, of 0]
  obtain vt1 w1 cur vt2 w2 rows e where r: "btreesModsInsert sampleMachine ?S ?vt ?argv 0 ?w = Inr (SQLITE_OK, 7, vt1, w1)"
    "btreesModsFilter sampleMachine ?S vt1 (constraintBytes ?k) [?v] btreesModsOpen w1 = Inr (SQLITE_OK, cur, vt2, w2)"
    "cursor_run cur rows e" "mset rows = image_mset snd (filter_mset (\<lambda>x. valueField (fst x) = valueField ?v) (add_mset (?v, 7) {#}))"
    by blast
  have "rows = [7]" using r(4) by simp
  then show ?thesis using vt'(1) r(1-3) by (auto simp: constraintBytes_def)
qed

text \<open>
  C12.  Deleting the rows of the value \<open>v\<close> (which is \<open>argv[0]\<close> of xUpdate: the code takes it as the value of the
  primary key) takes one entry with this value out of the index, and nothing else.  This is for tables whose tree is
  \<open>removable\<close>: one leaf and not a B*+-tree, or a B-tree with a root of two keys at least, no equal key two
  or more levels above the leaves, and room on the stack of free pages (with a 64-bit
  \<open>ULong\<close> also a page free already).  When the SQL statements succeed, the call
  returns, with \<open>SQLITE_OK\<close> exactly when there was an entry with the value; then
  the table serves its rows without that one, and otherwise it serves the same rows.
\<close>

theorem deleted_row_is_gone:
  assumes sv: "serves m n vt (mw_c w) R" "typed (indexDataType (vt_params vt)) (indexDataSize (vt_params vt)) v" "vt_tree vt = Some ct"
    and r: "removable (nat (indexDataSize (vt_params vt))) (fb_tree (current (setByteWidth (indexDataSize (vt_params vt)) (mw_c w)) ct)) (rowKey (v, 0))"
    and sql: "convertSqliteValueToString S v = Inr s"
      "executeSqlAndFinalize S (mw_db w) (Some (''DELETE FROM '' @ realTable vt @ '' WHERE '' @ indexColName (vt_params vt) @ '' = '' @ s @ '';'')) = (0, db1)"
      "getRowId S vt v db1 = Inr (rid, db2)"
  shows "\<exists>rc vt' w'. btreesModsDelete m S vt v pRowid w = Inr (rc, rid, vt', w') \<and> mw_db w' = db2 \<and> countedOnly vt vt' \<and>
    (rc = SQLITE_OK) = (\<exists>x. x \<in># R \<and> hasValue v x) \<and>
    (if rc = SQLITE_OK then \<exists>x. x \<in># R \<and> hasValue v x \<and> serves m n vt' (mw_c w') (R - {#x#})
     else serves m n vt' (mw_c w') R)"
proof -
  obtain rc vt' w' where "btreesModsDelete m S vt v pRowid w = Inr (rc, rid, vt', w')" "countedOnly vt vt'" "mw_db w' = db2"
    "if rc = SQLITE_OK then \<exists>x. x \<in># R \<and> hasValue v x \<and> serves m n vt' (mw_c w') (R - {#x#})
     else serves m n vt' (mw_c w') R \<and> (\<forall>x. x \<in># R \<longrightarrow> \<not> hasValue v x)"
    using delete_serves [OF sv r sql, of pRowid] unfolding runs_def by blast
  then show ?thesis by (metis (full_types))
qed

theorem deleted_row_is_gone_witness:
  "\<exists>vt c vt1 w1 vt2 w2. createIndex sampleMachine sampleTable TREE_ORDER 12 (mw_c sampleWorld) = Inr (SQLITE_OK, vt, c) \<and>
    btreesModsInsert sampleMachine sampleSqlite vt [SqlNull, SqlNull, SqlInteger 5] 0 \<lparr>mw_c = c, mw_db = ()\<rparr> = Inr (SQLITE_OK, 7, vt1, w1) \<and>
    serves sampleMachine 999 vt1 (mw_c w1) {#(SqlInteger 5, 7)#} \<and>
    btreesModsDelete sampleMachine sampleSqlite vt1 (SqlInteger 5) 0 w1 = Inr (SQLITE_OK, 7, vt2, w2) \<and>
    serves sampleMachine 999 vt2 (mw_c w2) {#}"
proof -
  let ?v = "SqlInteger 5"
  obtain vt c vt1 w1 where i: "createIndex sampleMachine sampleTable TREE_ORDER 12 (mw_c sampleWorld) = Inr (SQLITE_OK, vt, c)"
    "btreesModsInsert sampleMachine sampleSqlite vt [SqlNull, SqlNull, ?v] 0 \<lparr>mw_c = c, mw_db = ()\<rparr> = Inr (SQLITE_OK, 7, vt1, w1)"
    "serves sampleMachine 999 vt1 (mw_c w1) {#(?v, 7)#}"
    "vt_params vt1 = (defaultParams ''f'')\<lparr>indexColNumber := 0, indexColName := ''id''\<rparr>"
    "treeTypeOf (bestIndex (vt_params vt1)) \<noteq> Some B_STAR_PLUS_TREE" using sample_row by blast
  obtain ct where ct: "vt_tree vt1 = Some ct" by (rule servesE [OF i(3)])
  obtain rc vt2 w2 where d: "btreesModsDelete sampleMachine sampleSqlite vt1 ?v 0 w1 = Inr (rc, 7, vt2, w2)"
    "(rc = SQLITE_OK) = (\<exists>x. x \<in># {#(?v, 7)#} \<and> hasValue ?v x)"
    "if rc = SQLITE_OK then \<exists>x. x \<in># {#(?v, 7)#} \<and> hasValue ?v x \<and> serves sampleMachine 999 vt2 (mw_c w2) ({#(?v, 7)#} - {#x#})
     else serves sampleMachine 999 vt2 (mw_c w2) {#(?v, 7)#}"
    using deleted_row_is_gone [OF i(3) sample_typed [OF i(4)] ct small_removable [OF i(3) ct _ i(5)] sample_sql(3,1,7), of 0]
    by auto
  have "rc = SQLITE_OK" using d(2) by (simp add: hasValue_def)
  then show ?thesis using i(1-3) d(1,3) by auto
qed

text \<open>
  C13.  An update through xUpdate that changes the indexed value moves the row in the index.  This is for tables whose tree
  is \<open>removable\<close> for the old value (one leaf and not a B*+-tree, or a B-tree with a root of two keys at least, no equal key two
  or more levels above the leaves, and room on the stack of free pages (with a 64-bit
  \<open>ULong\<close> also a page free already)); the old value is
  \<open>argv[0]\<close>, which the code takes as the value of the primary key.  When the SQL statements succeed and the texts of
  the old and of the new value differ, the call returns, with \<open>SQLITE_OK\<close> exactly when there was an entry with the old
  value; then one such entry has been replaced by one of the new value with the row id that is read
  back, and otherwise the table serves the same rows.
\<close>

theorem updated_row_moves:
  assumes sv: "serves m (Suc n) vt (mw_c w) R" "vt_tree vt = Some ct"
    and v: "argAt argv 0 = Inr v" "typed (indexDataType (vt_params vt)) (indexDataSize (vt_params vt)) v"
      "argAt argv (indexColNumber (vt_params vt) + 2) = Inr v'"
      "typed (indexDataType (vt_params vt)) (indexDataSize (vt_params vt)) v'"
    and r: "removable (nat (indexDataSize (vt_params vt))) (fb_tree (current (setByteWidth (indexDataSize (vt_params vt)) (mw_c w)) ct)) (rowKey (v, 0))"
    and str: "textOf S v = Inr s" "textOf S v' = Inr s'" "s \<noteq> s'"
    and sql: "executeSql S (mw_db w) (Some (''SELECT * FROM '' @ realTable vt @ '';'')) = (0, stmt, db1)"
      "bindR (argAt argv 2) (convertSqliteValueToString S) = Inr first" "assignments S stmt 1 (drop 3 argv) = Inr rest"
      "convertSqliteValueToString S v = Inr old"
      "executeSqlAndFinalize S db1 (Some (''UPDATE '' @ realTable vt @ '' SET '' @ columnText stmt 0 @ '' = '' @ first @ rest @
         '' WHERE '' @ indexColName (vt_params vt) @ '' = '' @ old @ '';'')) = (0, db2)"
      "getRowId S vt v' db2 = Inr (rid, db3)"
  shows "\<exists>rc vt' w'. btreesModsDoUpdate m S vt argv pRowid w = Inr (rc, rid, vt', w') \<and> mw_db w' = db3 \<and> countedOnly vt vt' \<and>
    (rc = SQLITE_OK) = (\<exists>x. x \<in># R \<and> hasValue v x) \<and>
    (if rc = SQLITE_OK then \<exists>x. x \<in># R \<and> hasValue v x \<and> serves m n vt' (mw_c w') (add_mset (v', rid) (R - {#x#}))
     else serves m (Suc n) vt' (mw_c w') R)"
proof -
  obtain rc vt' w' where "btreesModsDoUpdate m S vt argv pRowid w = Inr (rc, rid, vt', w')" "countedOnly vt vt'" "mw_db w' = db3"
    "if rc = SQLITE_OK then \<exists>x. x \<in># R \<and> hasValue v x \<and> serves m n vt' (mw_c w') (add_mset (v', rid) (R - {#x#}))
     else serves m (Suc n) vt' (mw_c w') R \<and> (\<forall>x. x \<in># R \<longrightarrow> \<not> hasValue v x)"
    using update_serves [OF sv v r str sql, of pRowid] unfolding runs_def by blast
  then show ?thesis by (metis (full_types))
qed

theorem updated_row_moves_witness:
  "\<exists>vt c vt1 w1 vt2 w2. createIndex sampleMachine sampleTable TREE_ORDER 12 (mw_c sampleWorld) = Inr (SQLITE_OK, vt, c) \<and>
    btreesModsInsert sampleMachine sampleSqlite vt [SqlNull, SqlNull, SqlInteger 5] 0 \<lparr>mw_c = c, mw_db = ()\<rparr> = Inr (SQLITE_OK, 7, vt1, w1) \<and>
    btreesModsDoUpdate sampleMachine sampleSqlite vt1 [SqlInteger 5, SqlInteger 6, SqlInteger 6] 0 w1 = Inr (SQLITE_OK, 7, vt2, w2) \<and>
    serves sampleMachine 998 vt2 (mw_c w2) {#(SqlInteger 6, 7)#}"
proof -
  let ?v = "SqlInteger 5" and ?v' = "SqlInteger 6" and ?S = sampleSqlite
  let ?argv = "[?v, ?v', ?v']"
  obtain vt c vt1 w1 where i: "createIndex sampleMachine sampleTable TREE_ORDER 12 (mw_c sampleWorld) = Inr (SQLITE_OK, vt, c)"
    "btreesModsInsert sampleMachine ?S vt [SqlNull, SqlNull, ?v] 0 \<lparr>mw_c = c, mw_db = ()\<rparr> = Inr (SQLITE_OK, 7, vt1, w1)"
    "serves sampleMachine 999 vt1 (mw_c w1) {#(?v, 7)#}"
    "vt_params vt1 = (defaultParams ''f'')\<lparr>indexColNumber := 0, indexColName := ''id''\<rparr>"
    "treeTypeOf (bestIndex (vt_params vt1)) \<noteq> Some B_STAR_PLUS_TREE" using sample_row by blast
  obtain ct where ct: "vt_tree vt1 = Some ct" by (rule servesE [OF i(3)])
  have sv: "serves sampleMachine (Suc 998) vt1 (mw_c w1) {#(?v, 7)#}" using i(3) by simp
  have a: "argAt ?argv 0 = Inr ?v" "argAt ?argv (indexColNumber (vt_params vt1) + 2) = Inr ?v'"
    by (simp_all add: argAt_def i(4))
  obtain stmt where q: "executeSql ?S (mw_db w1) (Some (''SELECT * FROM '' @ realTable vt1 @ '';'')) = (0, stmt, ())"
    using sample_sql(2) by blast
  have z: "bindR (argAt ?argv 2) (convertSqliteValueToString ?S) = Inr ''6''" "assignments ?S stmt 1 (drop 3 ?argv) = Inr []"
    using sample_sql(4) by (simp_all add: argAt_def)
  have ne: "''5'' \<noteq> ''6''" by simp
  obtain rc vt2 w2 where d: "btreesModsDoUpdate sampleMachine ?S vt1 ?argv 0 w1 = Inr (rc, 7, vt2, w2)"
    "(rc = SQLITE_OK) = (\<exists>x. x \<in># {#(?v, 7)#} \<and> hasValue ?v x)"
    "if rc = SQLITE_OK then \<exists>x. x \<in># {#(?v, 7)#} \<and> hasValue ?v x \<and>
       serves sampleMachine 998 vt2 (mw_c w2) (add_mset (?v', 7) ({#(?v, 7)#} - {#x#}))
     else serves sampleMachine (Suc 998) vt2 (mw_c w2) {#(?v, 7)#}"
    using updated_row_moves [OF sv ct a(1) sample_typed [OF i(4)] a(2) sample_typed [OF i(4)] small_removable [OF i(3) ct _ i(5)]
      sample_sql(5,6) ne q z sample_sql(3,1,8), of 0] by auto
  have "rc = SQLITE_OK" using d(2) by (simp add: hasValue_def)
  then show ?thesis using i(1,2) d(1,3) by auto
qed

text \<open>
  C19.  The loop over a cursor ends and reads each of its row ids once, in order: from a cursor
  in a proper state it can read the sequence \<open>rows\<close> and nothing else before the end.
\<close>

theorem cursor_visits_each_row_once:
  assumes "cursorOk cur"
  shows "(\<exists>end. cursor_run cur rows end) \<longleftrightarrow> rows = remaining cur"
  using cursor_run_complete [OF assms] cursor_run_unique [OF _ assms] by blast

theorem cursor_visits_each_row_once_witness:
  "\<exists>end. cursor_run \<lparr>cur_rowsIds = [3, 9], cur_currentRowIdIdx = 0, cur_rowsIdsCount = 2\<rparr> [3, 9] end"
proof -
  let ?cur = "\<lparr>cur_rowsIds = [3, 9], cur_currentRowIdIdx = 0, cur_rowsIdsCount = 2\<rparr>"
  have "cursorOk ?cur" "remaining ?cur = [3, 9]" by (simp_all add: cursorOk_def remaining_def)
  with cursor_visits_each_row_once [of ?cur "[3, 9]"] show ?thesis by simp
qed

text \<open>
  C8.  A table keeps its index over a disconnect: \<open>btreesModsDisconnect\<close> writes the tree file, and
  \<open>openIndex\<close>, which \<open>btreesModsConnect\<close> calls with the same parameters, gives a table that serves the
  same rows.
\<close>

theorem reconnected_table_serves:
  assumes "serves m n vt (mw_c w) R" "btreesModsDisconnect vt w = (SQLITE_OK, w')"
    "fs_writable (w_fs (mw_c w)) (treeFileName (vt_params vt))"
    "w_byteComparator (mw_c w) = nat (indexDataSize (vt_params vt))"
  shows "\<exists>vt'. openIndex m (vt\<lparr>vt_tree := None\<rparr>) (mw_c w') = Inr (SQLITE_OK, vt', mw_c w') \<and> serves m n vt' (mw_c w') R"
  using reconnect_serves [OF assms] by (auto simp: runs_def)

theorem reconnected_table_serves_witness:
  "\<exists>vt c vt'. createIndex sampleMachine sampleTable TREE_ORDER 12 (mw_c sampleWorld) = Inr (SQLITE_OK, vt, c) \<and>
    openIndex sampleMachine (vt\<lparr>vt_tree := None\<rparr>) (mw_c (snd (btreesModsDisconnect vt \<lparr>mw_c = c, mw_db = ()\<rparr>))) =
      Inr (SQLITE_OK, vt', mw_c (snd (btreesModsDisconnect vt \<lparr>mw_c = c, mw_db = ()\<rparr>)))"
proof -
  obtain vt c where vt: "createIndex sampleMachine sampleTable TREE_ORDER 12 (mw_c sampleWorld) = Inr (SQLITE_OK, vt, c)"
    "serves sampleMachine 1000 vt c {#}" "countedOnly sampleTable vt"
    "c = (mw_c sampleWorld)\<lparr>w_fs := fs_put ''f'' [] (w_fs (mw_c sampleWorld))\<rparr>"
    using sample_createIndex by blast
  have p: "vt_params vt = (defaultParams ''f'')\<lparr>indexColNumber := 0, indexColName := ''id''\<rparr>"
    using vt(3) by (simp add: countedOnly_def sampleTable_def newTable_def)
  let ?w = "\<lparr>mw_c = c, mw_db = ()\<rparr>"
  have d: "btreesModsDisconnect vt ?w = (SQLITE_OK, snd (btreesModsDisconnect vt ?w))" by (simp add: btreesModsDisconnect_def)
  have "serves sampleMachine 1000 vt (mw_c ?w) {#}" using vt(2) by simp
  from reconnected_table_serves [OF this d] vt(1) show ?thesis
    by (auto simp: p defaultParams_def getDataSizeByType_def key_sizes vt(4) sampleWorld_def sampleFiles_def fs_put_def)
qed

text \<open>
  C29.  A row whose indexed value has another type than the index is refused with \<open>SQLITE_MISMATCH\<close>, inserted or updated.
  An update then changes nothing.  An insertion starts with the rebuild of the index if one is due,
  before the type is looked at; nothing else changes, and nothing at all if none is due.
\<close>

theorem wrong_type_refused:
  assumes "argAt argv (indexColNumber (vt_params vt) + 2) = Inr v"
    "sqlite3_value_type v \<noteq> getIntByDataType (indexDataType (vt_params vt))" "1 < length argv"
  shows "btreesModsUpdate m S vt argv pRowid w =
      (if sqlite3_value_type (argv ! 0) = SQLITE_NULL
       then bindR (rebuildIndexIfNecessary m S vt w) (\<lambda>(vt0, w0). Inr (SQLITE_MISMATCH, pRowid, vt0, w0))
       else Inr (SQLITE_MISMATCH, pRowid, vt, w)) \<and>
    (rebuildTo (vt_stats vt) = None \<longrightarrow> btreesModsUpdate m S vt argv pRowid w = Inr (SQLITE_MISMATCH, pRowid, vt, w))"
  using mismatch_rebuilt [OF assms(1,2), of m S pRowid w] insert_mismatch [OF _ assms(1,2), of m S pRowid w] assms
  by (simp add: btreesModsUpdate_def btreesModsDoUpdate_def)

theorem wrong_type_refused_witness:
  "btreesModsUpdate sampleMachine sampleSqlite sampleTable [SqlNull, SqlNull, SqlText ''a''] 0 sampleWorld =
     Inr (SQLITE_MISMATCH, 0, sampleTable, sampleWorld) \<and>
   btreesModsUpdate sampleMachine sampleSqlite sampleTable [SqlInteger 1, SqlInteger 1, SqlText ''a''] 0 sampleWorld =
     Inr (SQLITE_MISMATCH, 0, sampleTable, sampleWorld)"
proof -
  have t: "rebuildTo (vt_stats sampleTable) = None" "sqlite3_value_type (SqlText ''a'') \<noteq> getIntByDataType (indexDataType (vt_params sampleTable))"
    by (simp_all add: sampleTable_def newTable_def rebuildTo_def defaultParams_def getIntByDataType_def sqlite_types)
  have "argAt [a, b, SqlText ''a''] (indexColNumber (vt_params sampleTable) + 2) = Inr (SqlText ''a'')" for a b
    by (simp add: sampleTable_def newTable_def defaultParams_def argAt_def)
  from wrong_type_refused [OF this t(2)] t(1) show ?thesis by force
qed

text \<open>
  C30.  Only the type names INTEGER, FLOAT, TEXT, BLOB and NULL are known: a table whose primary key
  is declared with any other type (INT, REAL, VARCHAR) refuses every row.
\<close>

theorem unknown_type_refuses_every_row:
  assumes "getDataSizeByType (indexDataType (vt_params vt)) = ERROR_CODE" "rebuildTo (vt_stats vt) = None"
    "argAt argv (indexColNumber (vt_params vt) + 2) = Inr v"
  shows "btreesModsInsert m S vt argv pRowid w = Inr (SQLITE_MISMATCH, pRowid, vt, w)"
proof (rule insert_mismatch [OF assms(2,3)])
  have "getIntByDataType (indexDataType (vt_params vt)) = - 1"
    using assms(1) by (auto simp: getDataSizeByType_def getIntByDataType_def key_sizes ERROR_CODE_def split: if_splits)
  then show "sqlite3_value_type v \<noteq> getIntByDataType (indexDataType (vt_params vt))"
    by (cases v) (simp_all add: sqlite_types)
qed

theorem unknown_type_refuses_every_row_witness:
  "btreesModsInsert sampleMachine sampleSqlite (sampleTable\<lparr>vt_params := (defaultParams ''f'')\<lparr>indexColNumber := 0, indexDataType := ''INT''\<rparr>\<rparr>)
     [SqlNull, SqlNull, SqlInteger 1] 0 sampleWorld =
   Inr (SQLITE_MISMATCH, 0, sampleTable\<lparr>vt_params := (defaultParams ''f'')\<lparr>indexColNumber := 0, indexDataType := ''INT''\<rparr>\<rparr>, sampleWorld)"
  by (rule unknown_type_refuses_every_row [where v = "SqlInteger 1"])
    (simp_all add: sampleTable_def newTable_def rebuildTo_def defaultParams_def argAt_def getDataSizeByType_def)

section \<open>Keys and SQL text\<close>

text \<open>
  C20.  A tree key keeps the row id and the key field: \<open>createTreeKey\<close> of a value of the index type
  has \<open>indexDataSize + 8\<close> bytes, the row id is read back from it, and the byte comparator calls the
  keys of two such values equal exactly when their fields are equal, whatever the row ids.
\<close>

theorem tree_key_roundtrip:
  assumes "typed ty sz v" "typed ty sz v'"
  shows "\<exists>key key'. createTreeKey m S (Some v) r sz = Inr (Some key) \<and> createTreeKey m S (Some v') r' sz = Inr (Some key') \<and>
    length key = nat sz + 8 \<and> rowIdOfKey (nat sz) key = r \<and>
    (ByteComparator_isEqual (nat sz) key key' (nat sz + 8) \<longleftrightarrow> valueField v' = valueField v)"
  using createTreeKey_typed [OF assms(1), of m S r] createTreeKey_typed [OF assms(2), of m S r']
    length_rowKey [of ty sz "(v, r)"] rowId_rowKey [of ty sz "(v, r)"] same_rowKey [of ty sz v "(v', r')" r] assms
  by simp

theorem tree_key_roundtrip_witness:
  "\<exists>key. createTreeKey sampleMachine sampleSqlite (Some (SqlText ''ab'')) 7 256 = Inr (Some key) \<and>
    length key = 264 \<and> rowIdOfKey 256 key = 7"
proof -
  have "typed ''TEXT'' 256 (SqlText ''ab'')" by (simp add: typed_def getIntByDataType_def getDataSizeByType_def key_sizes)
  from tree_key_roundtrip [OF this this, of sampleMachine sampleSqlite 7 7] show ?thesis by auto
qed

text \<open>
  C31.  The key of an INTEGER holds the low 32 bits of the value: the keys of two integers are equal
  for the index exactly when the integers agree modulo \<open>2 ^ 32\<close>, so a query for 4294967297 delivers
  the row of 1.
\<close>

theorem integer_keys_modulo_word:
  "(\<exists>key key'. createTreeKey m S (Some (SqlInteger i)) r 4 = Inr (Some key) \<and>
      createTreeKey m S (Some (SqlInteger j)) r' 4 = Inr (Some key') \<and> ByteComparator_isEqual 4 key key' 12) \<longleftrightarrow>
   uint i mod 2 ^ 32 = uint j mod 2 ^ 32"
proof -
  have ty: "typed ''INTEGER'' 4 (SqlInteger x)" for x
    by (simp add: typed_def getIntByDataType_def getDataSizeByType_def key_sizes)
  have "(ByteComparator_isEqual 4 (rowKey (SqlInteger i, r)) (rowKey (SqlInteger j, r')) 12) \<longleftrightarrow>
      valueField (SqlInteger j) = valueField (SqlInteger i)"
    using same_rowKey [OF ty [of i], of "(SqlInteger j, r')" r] ty by simp
  also have "\<dots> \<longleftrightarrow> (ucast j :: 32 word) = ucast i" by (simp add: le_enc_inject)
  also have "\<dots> \<longleftrightarrow> uint i mod 2 ^ 32 = uint j mod 2 ^ 32"
    by (auto simp: word_uint_eq_iff uint_ucast_low)
  finally show ?thesis by (simp add: createTreeKey_typed [OF ty])
qed

text \<open>
  C33.  Which values the SQL text of the module tells apart.  Every integer and every text has a literal that fits,
  with its terminating zero, into the buffer of \<open>TEXT_SIZE\<close> bytes.  Two integers have the same literal only if they
  are equal (although their keys are compared modulo \<open>2 ^ 32\<close>), an integer and a text never have, and
  two texts have the same literal exactly if their first 253 characters up to a zero agree (their keys take 256 bytes).
\<close>

theorem sql_literals_distinguish:
  "(\<exists>l. convertSqliteValueToString S (SqlInteger i) = Inr l \<and> length l < TEXT_SIZE) \<and>
   (\<exists>l. convertSqliteValueToString S (SqlText s) = Inr l \<and> length l < TEXT_SIZE) \<and>
   (convertSqliteValueToString S (SqlInteger i) = convertSqliteValueToString S (SqlInteger j) \<longleftrightarrow> i = j) \<and>
   convertSqliteValueToString S (SqlInteger i) \<noteq> convertSqliteValueToString S (SqlText s) \<and>
   (convertSqliteValueToString S (SqlText s) = convertSqliteValueToString S (SqlText s') \<longleftrightarrow>
      take 253 (c_string s) = take 253 (c_string s'))"
proof -
  have i: "convertSqliteValueToString S (SqlInteger k) = Inr (decimal (sint k))" "length (decimal (sint k)) \<le> 20" for k
    using integer_literal [of S k] by simp_all
  have "decimal (sint i) \<noteq> convertSqliteTextValueToString s"
    using decimal_chars [of "CHR 0x22" "sint i"] by (auto simp: text_literal)
  moreover have e: "sint i = sint j \<longleftrightarrow> i = j" using signed_word_eqI [where 'a = int, of i j] by auto
  ultimately show ?thesis using i(2) [of i] unfolding i(1)
    by (simp add: text_literal TEXT_SIZE_def decimal_inj min_less_iff_disj e)
qed

text \<open>
  C24.  What \<open>rebuildIndexIfNecessary\<close> does.  It rebuilds the index exactly if the statistics are those of the
  connection that created the table, the number of operations is 1000, 2000, ... or 10000, at least a tenth of
  them changed rows, and the kind chosen is not the present one; the choice is a B*-tree exactly if
  more than 73.97 percent of the changes were insertions, and a B*+-tree otherwise.  In all other cases nothing changes.
\<close>

theorem rebuild_decision:
  assumes "0 \<le> searchesCount (vt_stats vt)" "0 \<le> insertsCount (vt_stats vt)" "0 \<le> deletesCount (vt_stats vt)"
  shows "rebuildIndexIfNecessary m S vt w =
    (let st = vt_stats vt; updates = insertsCount st + deletesCount st;
         kind = (if 7397 * updates < 10000 * insertsCount st then BSTARTREE_NUM else BSTARPLUSTREE_NUM) in
     if isOriginalStats st \<and>
        (\<exists>k. 1 \<le> k \<and> k \<le> 10 \<and> searchesCount st + insertsCount st + deletesCount st = 1000 * k \<and> 100 * k \<le> updates) \<and>
        bestIndex (vt_params vt) \<noteq> kind
     then rebuildIndex m S (vt\<lparr>vt_params := (vt_params vt)\<lparr>bestIndex := kind\<rparr>\<rparr>) w
     else Inr (vt, w))"
proof (cases "rebuildTo (vt_stats vt)")
  case None
  then show ?thesis using rebuildTo_iff [OF assms] by (auto simp: rebuildIndexIfNecessary_def Let_def)
next
  case (Some n)
  have "vt\<lparr>vt_params := (vt_params vt)\<lparr>bestIndex := bestIndex (vt_params vt)\<rparr>\<rparr> = vt" by simp
  moreover note rebuildTo_iff [OF assms, THEN iffD1, OF Some]
  ultimately show ?thesis using Some unfolding rebuildIndexIfNecessary_def Let_def by auto
qed

theorem rebuild_decision_witness:
  "let vt = sampleTable\<lparr>vt_stats := \<lparr>searchesCount = 100, insertsCount = 800, deletesCount = 100, isOriginalStats = True\<rparr>\<rparr>;
       vt' = vt\<lparr>vt_params := (vt_params vt)\<lparr>bestIndex := BSTARTREE_NUM\<rparr>\<rparr> in
   rebuildIndexIfNecessary sampleMachine sampleSqlite vt sampleWorld = rebuildIndex sampleMachine sampleSqlite vt' sampleWorld \<and>
   rebuildIndexIfNecessary sampleMachine sampleSqlite vt' sampleWorld = Inr (vt', sampleWorld)"
proof -
  let ?vt = "sampleTable\<lparr>vt_stats := \<lparr>searchesCount = 100, insertsCount = 800, deletesCount = 100, isOriginalStats = True\<rparr>\<rparr>"
  let ?vt' = "?vt\<lparr>vt_params := (vt_params ?vt)\<lparr>bestIndex := BSTARTREE_NUM\<rparr>\<rparr>"
  have "bestIndex (vt_params ?vt) \<noteq> BSTARTREE_NUM" by (simp add: sampleTable_def newTable_def defaultParams_def index_nums)
  then show ?thesis
    using rebuild_decision [of ?vt sampleMachine sampleSqlite sampleWorld] rebuild_decision [of ?vt' sampleMachine sampleSqlite sampleWorld]
    by (auto simp: Let_def)
qed

text \<open>
  C10.  Rebuilding an index of at most 8 bytes (INTEGER, FLOAT, NULL) loses no key: \<open>rebuildIndex\<close>
  removes the old file and fills the new tree with a list of exactly the keys of the old one.
\<close>

theorem rebuild_keeps_all_keys:
  assumes "vt_tree vt = Some ct" "0 < indexDataSize (vt_params vt)" "indexDataSize (vt_params vt) \<le> 8"
    "indexed (nat (indexDataSize (vt_params vt))) (nat (indexDataSize (vt_params vt)) + 8) n (mw_c w) ct M"
  shows "\<exists>keys c'. mset keys = M \<and> rebuildIndex m S vt w = refillIndex m S (vt\<lparr>vt_tree := None\<rparr>) keys (w\<lparr>mw_c := c'\<rparr>) \<and>
    fs_files (w_fs c') (treeFileName (vt_params vt)) = None"
  using rebuild_collects [OF assms] by blast

theorem rebuild_keeps_all_keys_witness:
  "\<exists>ct c c'. c_create 64 None B_PLUS_TREE 750 12 ''f'' (mw_c sampleWorld) = Inr (Some ct, c) \<and>
    rebuildIndex sampleMachine sampleSqlite (sampleTable\<lparr>vt_tree := Some ct\<rparr>) \<lparr>mw_c = c, mw_db = ()\<rparr> =
    refillIndex sampleMachine sampleSqlite (sampleTable\<lparr>vt_tree := None\<rparr>) [] \<lparr>mw_c = c', mw_db = ()\<rparr>"
proof -
  have "fs_writable (w_fs (mw_c sampleWorld)) ''f''" "fits B_PLUS_TREE 750 12 1000"
    using sample_fits by (simp_all add: sampleWorld_def sampleFiles_def TREE_ORDER_def)
  then obtain ct where ct: "c_create 64 None B_PLUS_TREE 750 12 ''f'' (mw_c sampleWorld) =
      Inr (Some ct, (mw_c sampleWorld)\<lparr>w_fs := fs_put ''f'' [] (w_fs (mw_c sampleWorld))\<rparr>)"
    "\<forall>w'. indexed (w_byteComparator w') 12 1000 w' ct {#}"
    using c_create_indexed [of B_PLUS_TREE 750 12 1000 64 "mw_c sampleWorld" "''f''"] by auto
  let ?c = "(mw_c sampleWorld)\<lparr>w_fs := fs_put ''f'' [] (w_fs (mw_c sampleWorld))\<rparr>"
  have "indexed 4 12 1000 ?c ct {#}" using ct(2) [rule_format, of ?c] by (simp add: sampleWorld_def)
  from rebuild_keeps_all_keys [of "sampleTable\<lparr>vt_tree := Some ct\<rparr>" ct 1000 "\<lparr>mw_c = ?c, mw_db = ()\<rparr>" "{#}" sampleMachine sampleSqlite]
    this ct(1) show ?thesis
    by (auto simp: sampleTable_def newTable_def defaultParams_def getDataSizeByType_def key_sizes)
qed

text \<open>
  C11.  A table serves its rows over a rebuild: with an index of at most 8 bytes, and the width of the comparator
  still that of this table, \<open>rebuildIndexIfNecessary\<close> returns and leaves a table whose index serves the same
  rows; the kind of tree is the one that the statistics ask for.
\<close>

theorem rebuilt_table_serves:
  assumes "serves m n vt (mw_c w) R" "indexDataSize (vt_params vt) \<le> 8" "32 \<le> m_ulongBits m"
    "\<And>ty. fits ty (nat TREE_ORDER) (nat (indexDataSize (vt_params vt)) + 8) (size R + n)"
    "fs_writable (w_fs (mw_c w)) (treeFileName (vt_params vt))"
    "w_byteComparator (mw_c w) = nat (indexDataSize (vt_params vt))"
  shows "\<exists>vt' w'. rebuildIndexIfNecessary m S vt w = Inr (vt', w') \<and> serves m n vt' (mw_c w') R \<and>
    bestIndex (vt_params vt') = (case rebuildTo (vt_stats vt) of None \<Rightarrow> bestIndex (vt_params vt) | Some i \<Rightarrow> i)"
  using rebuildIfNecessary_serves [OF assms, of S] by (auto simp: runs_def)

theorem rebuilt_table_serves_witness:
  "\<exists>vt c vt' w'. createIndex sampleMachine sampleTable TREE_ORDER 12 (mw_c sampleWorld) = Inr (SQLITE_OK, vt, c) \<and>
    rebuildIndexIfNecessary sampleMachine sampleSqlite
      (vt\<lparr>vt_stats := \<lparr>searchesCount = 100, insertsCount = 800, deletesCount = 100, isOriginalStats = True\<rparr>\<rparr>)
      \<lparr>mw_c = c, mw_db = ()\<rparr> = Inr (vt', w') \<and>
    bestIndex (vt_params vt') = BSTARTREE_NUM \<and> serves sampleMachine 1000 vt' (mw_c w') {#}"
proof -
  obtain vt c where vt: "createIndex sampleMachine sampleTable TREE_ORDER 12 (mw_c sampleWorld) = Inr (SQLITE_OK, vt, c)"
    "serves sampleMachine 1000 vt c {#}" "countedOnly sampleTable vt"
    "c = (mw_c sampleWorld)\<lparr>w_fs := fs_put ''f'' [] (w_fs (mw_c sampleWorld))\<rparr>"
    using sample_createIndex by blast
  let ?st = "\<lparr>searchesCount = 100, insertsCount = 800, deletesCount = 100, isOriginalStats = True\<rparr>"
  have p: "vt_params vt = (defaultParams ''f'')\<lparr>indexColNumber := 0, indexColName := ''id''\<rparr>"
    using vt(3) by (simp add: countedOnly_def sampleTable_def newTable_def)
  have d: "indexDataSize (vt_params vt) = 4" by (simp add: p defaultParams_def getDataSizeByType_def key_sizes)
  have r: "rebuildTo ?st = Some BSTARTREE_NUM" by (simp add: rebuildTo_def REBUILD_COUNT_def REBUILD_MAX_COUNT_def)
  have "serves sampleMachine 1000 (vt\<lparr>vt_stats := ?st\<rparr>) (mw_c \<lparr>mw_c = c, mw_db = ()\<rparr>) {#}"
    using vt(2) by (simp add: serves_def)
  from rebuilt_table_serves [OF this, of sampleSqlite] vt(1) show ?thesis
    using sample_fits by (auto simp: d r vt(4) sampleMachine_def sampleWorld_def sampleFiles_def fs_put_def)
qed

section \<open>Removing\<close>

text \<open>
  C14.  Removing from a B-tree with children, within bounds: the root has two keys at least (or is a leaf), no key two or
  more levels above the leaves is equal to the given one, and there is room on the stack of free pages (with a
  64-bit \<open>ULong\<close> also a page free already).  Then the call returns: \<open>true\<close>, and exactly one equal key is
  gone, or \<open>false\<close>, and there was none.  Either way the tree is well formed again, with the same height, all its other
  keys and no new page, though keys have moved between siblings and children have become one on the way down.
\<close>

theorem remove_from_tall_tree:
  assumes "treeState t (ByteComparator f) h T" "t_treeType t = B_TREE" "0 < h \<Longrightarrow> 1 < length (pkeys T)"
    "\<forall>x \<in> set (upperKeys T). \<not> ByteComparator_isEqual f k x (t_recSize t)" "freeRoom t (absStore t) h"
  shows "let M = mset (inorder T); eq = \<lambda>x. ByteComparator_isEqual f k x (t_recSize t) in
    \<exists>b t' T'. BaseBTree_removeKey k t = Inr (b, t') \<and> treeState t' (ByteComparator f) h T' \<and> t_lastPageNum t' = t_lastPageNum t \<and>
      (if b then \<exists>x. x \<in># M \<and> eq x \<and> mset (inorder T') = M - {#x#}
       else mset (inorder T') = M \<and> (\<forall>x. x \<in># M \<longrightarrow> \<not> eq x))"
  using byte_compare.removeKey_keys [OF assms(1,2) refl assms(5,3), of k] assms(4) unfolding comparator_sel Let_def by blast

theorem remove_from_tall_tree_witness:
  "\<exists>t t' T'. bindR (createTree 4 8 (sampleTree B_TREE 32)) (insertAll sixteenKeys) = Inr t \<and>
     BaseBTree_removeKey [5, 0, 0, 0, 0, 0, 0, 0] t = Inr (True, t') \<and> treeState t' (ByteComparator 4) 1 T' \<and>
     mset (inorder T') = mset sixteenKeys - {#[5, 0, 0, 0, 0, 0, 0, 0]#}"
proof -
  obtain t T where t: "bindR (createTree 4 8 (sampleTree B_TREE 32)) (insertAll sixteenKeys) = Inr t"
    "treeState t (ByteComparator 4) 1 T" "t_treeType t = B_TREE" "t_recSize t = 8" "1 < length (pkeys T)"
    "mset (inorder T) = mset sixteenKeys" "freeRoom t (absStore t) 1"
    using sample_two_levels by blast
  have "upperKeys T = []" using upperKeys_low [of 1 T] treeStateD(9) [OF t(2)] by (simp add: tinv_def)
  then have "\<forall>x \<in> set (upperKeys T). \<not> ByteComparator_isEqual 4 [5, 0, 0, 0, 0, 0, 0, 0] x (t_recSize t)" by simp
  from remove_from_tall_tree [OF t(2,3,5) this t(7)] obtain b t' T' where
    r: "BaseBTree_removeKey [5, 0, 0, 0, 0, 0, 0, 0] t = Inr (b, t')" "treeState t' (ByteComparator 4) 1 T'"
    "if b then \<exists>x. x \<in># mset sixteenKeys \<and> ByteComparator_isEqual 4 [5, 0, 0, 0, 0, 0, 0, 0] x 8 \<and> mset (inorder T') = mset sixteenKeys - {#x#}
     else mset (inorder T') = mset sixteenKeys \<and> (\<forall>x. x \<in># mset sixteenKeys \<longrightarrow> \<not> ByteComparator_isEqual 4 [5, 0, 0, 0, 0, 0, 0, 0] x 8)"
    unfolding t(4,6) Let_def by blast
  have q: "ByteComparator_isEqual 4 [5, 0, 0, 0, 0, 0, 0, 0] [i, 0, 0, 0, 0, 0, 0, 0] 8 \<longleftrightarrow> i = 5" for i
    by (auto simp: ByteComparator_isEqual_def equalBytes_take)
  let ?k = "[5, 0, 0, 0, 0, 0, 0, 0]"
  have "\<exists>i. x = [i, 0, 0, 0, 0, 0, 0, 0]" if "x \<in># mset sixteenKeys" for x
    using that unfolding set_mset_mset set_map by blast
  then have e: "x = ?k" if "x \<in># mset sixteenKeys" "ByteComparator_isEqual 4 ?k x 8" for x
    using that q by blast
  have "?k \<in> (\<lambda>i. [i, 0, 0, 0, 0, 0, 0, 0]) ` set [1, 2, 3, 4, 5, 6, 7, 8, 9, 10, 11, 12, 13, 14, 15, 16]"
    by (rule image_eqI [where x = 5]) simp_all
  then have k: "?k \<in># mset sixteenKeys" "ByteComparator_isEqual 4 ?k ?k 8" unfolding set_mset_mset set_map by (simp_all only: q)
  have b: b
  proof (rule ccontr)
    assume "\<not> b"
    from r(3) [unfolded if_not_P [OF this]] show False using k by blast
  qed
  then have "mset (inorder T') = mset sixteenKeys - {#?k#}" using r(3) e unfolding if_P [OF b] by blast
  then show ?thesis using t(1) r(1,2) unfolding eqTrueI [OF b] by blast
qed

text \<open>
  C15.  Removing from a tree that consists of its root leaf.  In a B-tree, a B+-tree and a B*-tree the call
  returns \<open>true\<close> and removes one key that is equal to the given one, or returns \<open>false\<close> and changes nothing when
  there is none.  In a B*+-tree it ends without a value when there is such a key.
\<close>

theorem remove_from_root_leaf:
  assumes "holds t (ByteComparator f) 0 M"
  shows "let eq = \<lambda>x. ByteComparator_isEqual f k x (t_recSize t) in
    if t_treeType t = B_STAR_PLUS_TREE
    then BaseBTree_removeKey k t = (if \<exists>x. x \<in># M \<and> eq x then Inl NoReturnValue else Inr (False, t))
    else \<exists>b t'. BaseBTree_removeKey k t = Inr (b, t') \<and>
      (if b then \<exists>x. x \<in># M \<and> eq x \<and> holds t' (ByteComparator f) 0 (M - {#x#})
       else t' = t \<and> (\<forall>x. x \<in># M \<longrightarrow> \<not> eq x))"
proof (cases "t_treeType t = B_STAR_PLUS_TREE")
  case True
  then show ?thesis
    using byte_compare.removeKey_star_plus_leaf [OF assms refl True, of k] by (simp add: comparator_sel)
next
  case False
  then show ?thesis
    using byte_compare.removeKey_leaf [OF assms refl False, of k] unfolding comparator_sel Let_def if_not_P [OF False] by blast
qed

theorem remove_from_root_leaf_witness:
  "\<exists>t. createTree 4 8 (sampleTree B_TREE 64) = Inr t \<and> BaseBTree_removeKey [1, 2, 3, 4, 5, 6, 7, 8] t = Inr (False, t)"
proof -
  obtain t where t: "createTree 4 8 (sampleTree B_TREE 64) = Inr t" "holds t (ByteComparator 4) 0 {#}" "t_treeType t = B_TREE"
    using sample_holds [of 64 B_TREE] by auto
  from remove_from_root_leaf [OF t(2), of "[1, 2, 3, 4, 5, 6, 7, 8]"] t(1,3) show ?thesis by (auto split: if_splits)
qed

text \<open>
  C16.  \<open>removeAll\<close> on a tree that is its root leaf, if it is no B*+-tree, ends: it removes all equal keys, keeps the others
  and returns their number.  Its loop takes one round more than there are equal keys: with fewer it has not
  ended, and with more the result is the same.
\<close>

theorem removeAll_from_root_leaf:
  assumes "holds t (ByteComparator f) 0 M" "t_treeType t \<noteq> B_STAR_PLUS_TREE"
  shows "\<exists>t'. removeAll k t = Inr (size (filter_mset (\<lambda>x. ByteComparator_isEqual f k x (t_recSize t)) M), t') \<and>
    holds t' (ByteComparator f) 0 (filter_mset (\<lambda>x. \<not> ByteComparator_isEqual f k x (t_recSize t)) M) \<and>
    (\<forall>n. removeAllLoop n k 0 t =
       (if size (filter_mset (\<lambda>x. ByteComparator_isEqual f k x (t_recSize t)) M) < n then removeAll k t else Inl OutOfFuel))"
  using byte_compare.removeAll_leaf [OF assms(1) refl assms(2), of k] unfolding comparator_sel by blast

theorem removeAll_from_root_leaf_witness:
  "\<exists>t t'. createTree 4 8 (sampleTree B_PLUS_TREE 64) = Inr t \<and> removeAll [1, 2, 3, 4, 5, 6, 7, 8] t = Inr (0, t')"
proof -
  obtain t where t: "createTree 4 8 (sampleTree B_PLUS_TREE 64) = Inr t" "holds t (ByteComparator 4) 0 {#}" "t_treeType t = B_PLUS_TREE"
    using sample_holds [of 64 B_PLUS_TREE] by auto
  from removeAll_from_root_leaf [OF t(2), of "[1, 2, 3, 4, 5, 6, 7, 8]"] t(1,3) show ?thesis by auto
qed

section \<open>Errors and limits\<close>

text \<open>
  C32.  A cursor's row is read by a statement that names its row id only while the id fits into 32
  bits with sign: from \<open>2 ^ 31\<close> on, \<open>btreesModsColumn\<close> selects another row.
\<close>

theorem column_selects_row:
  "columnSql vt r = ''SELECT * FROM '' @ realTable vt @ '' WHERE rowid = '' @ decimal (sint r) @ '';'' \<longleftrightarrow>
   - (2 ^ 31) \<le> sint r \<and> sint r < 2 ^ 31"
proof -
  have "columnSql vt r = ''SELECT * FROM '' @ realTable vt @ '' WHERE rowid = '' @ decimal (sint r) @ '';'' \<longleftrightarrow>
      sint (ucast r :: 32 word) = sint r"
    by (simp add: columnSql_def decimal_inj)
  also have "sint (ucast r :: 32 word) = signed_take_bit 31 (sint r)" by (rule sint_ucast_low)
  finally show ?thesis by (simp add: signed_take_bit_int_eq_self_iff)
qed

text \<open>
  C26.  Destroying a table removes its tree file and no other: when SQLite executes the two
  statements, the file named in the parameters is gone, also if the tree was open, and every other
  file is as before.
\<close>

theorem destroy_removes_tree_file:
  assumes "serves m n vt (mw_c w) R"
    "executeSqlAndFinalize S (mw_db w) (Some (''DROP TABLE '' @ realTable vt @ '';'')) = (SQLITE_OK, db1)"
    "executeSqlAndFinalize S db1
       (Some (''DELETE FROM btrees_mods_idxinfo WHERE tableName = '' @ quoted (vt_tableName vt) @ '';'')) = (SQLITE_OK, db2)"
  shows "\<exists>w'. btreesModsDestroy S vt w = (SQLITE_OK, w') \<and> mw_db w' = db2 \<and>
    fs_files (w_fs (mw_c w')) = (fs_files (w_fs (mw_c w)))(treeFileName (vt_params vt) := None)"
proof -
  obtain ct tty where ct: "vt_tree vt = Some ct" "ctIdent ct = (treeFileName (vt_params vt), tty, m_ulongBits m)"
    by (rule servesE [OF assms(1)])
  then have "fb_fileName (ct_file ct) = treeFileName (vt_params vt)" by (simp add: ctIdent_def)
  then show ?thesis
    using assms(2,3) ct(1)
    by (simp add: btreesModsDestroy_def SQLITE_OK_def c_close_def FileBaseBTree_close_def closeInternal_def removeFile_def
        fs_remove_def fs_put_def)
qed

theorem destroy_removes_tree_file_witness:
  "\<exists>vt c w'. createIndex sampleMachine sampleTable TREE_ORDER 12 (mw_c sampleWorld) = Inr (SQLITE_OK, vt, c) \<and>
    btreesModsDestroy sampleSqlite vt \<lparr>mw_c = c, mw_db = ()\<rparr> = (SQLITE_OK, w') \<and> fs_files (w_fs (mw_c w')) ''f'' = None"
proof -
  obtain vt c where vt: "createIndex sampleMachine sampleTable TREE_ORDER 12 (mw_c sampleWorld) = Inr (SQLITE_OK, vt, c)"
    "serves sampleMachine 1000 vt c {#}" "countedOnly sampleTable vt"
    using sample_createIndex by blast
  have f: "treeFileName (vt_params vt) = ''f''"
    using vt(3) by (simp add: countedOnly_def sampleTable_def newTable_def defaultParams_def)
  let ?w = "\<lparr>mw_c = c, mw_db = ()\<rparr>"
  have sv: "serves sampleMachine 1000 vt (mw_c ?w) {#}" using vt(2) by simp
  have "executeSqlAndFinalize sampleSqlite db (Some sql) = (SQLITE_OK, ())" for db sql
    by (simp add: executeSqlAndFinalize_def executeSql_def sampleSqlite_def)
  from destroy_removes_tree_file [OF sv this this] vt(1) show ?thesis by (auto simp: f)
qed

text \<open>
  C28.  Opening a tree file through the C interface: a missing file gives a null pointer, but the error of
  a file that is too short for its header is rethrown as a plain \<open>std::exception\<close>, which the handler of
  \<open>open\<close> does not catch.
\<close>

theorem open_errors:
  assumes "fs_writable (w_fs w) file"
  shows "case fs_files (w_fs w) file of
      None \<Rightarrow> c_open u None ty file w = Inr (None, w)
    | Some bs \<Rightarrow> length bs < HEADER_SIZE \<longrightarrow> c_open u None ty file w = Inl StdException"
proof (cases "fs_files (w_fs w) file")
  case None
  then show ?thesis
    by (simp add: c_open_def c_close_def FileBaseBTree_loaded_def loadInternal_def open_existing_def)
next
  case (Some bs)
  then show ?thesis
    using assms
    by (auto simp: c_open_def c_close_def FileBaseBTree_loaded_def loadInternal_def open_existing_def attach_def
        loadTree_def readHeader_def seekT_def seekg_def readT_def stream_read_def Let_def streamFailed_def countDisk_def layout)
qed

theorem open_errors_witness:
  "c_open 64 None B_TREE ''f'' (mw_c sampleWorld) = Inr (None, mw_c sampleWorld)"
  using open_errors [of "mw_c sampleWorld" "''f''" 64 B_TREE] by (simp add: sampleWorld_def sampleFiles_def)

text \<open>
  C27.  Errors of creating a tree file through the C interface, for a null tree pointer.  A file that cannot be opened gives
  a null pointer, whatever the order, and nothing changes.  An order or a record size of zero, and for a
  file that can be opened an order that the kind of tree does not allow, end with an exception that is not caught.
\<close>

theorem create_errors:
  "(order = 0 \<or> sz = 0 \<longrightarrow> c_create u None ty order sz file w = Inl InvalidArgument) \<and>
   (0 < order \<and> 0 < sz \<and> \<not> fs_writable (w_fs w) file \<longrightarrow> c_create u None ty order sz file w = Inr (None, w)) \<and>
   (0 < order \<and> 0 < sz \<and> fs_writable (w_fs w) file \<and> (order < minOrder ty \<or> MAX_KEYS_NUM < orderKeys ty order) \<longrightarrow>
      c_create u None ty order sz file w = Inl InvalidArgument)"
proof -
  have "setOrder order sz t = Inl InvalidArgument" if "order < minOrder ty \<or> MAX_KEYS_NUM < orderKeys ty order" "t_treeType t = ty" for t
    using that by (simp add: setOrder_error(1))
  then show ?thesis
    by (simp add: c_create_def c_close_def FileBaseBTree_created_def checkTreeParams_def createInternal_def open_trunc_def
        createTree_def attach_def setComparator_def new_FileBaseBTree_def new_BaseBTree_def Let_def)
qed

theorem create_errors_witness:
  "c_create 64 None B_TREE 0 8 ''f'' (mw_c sampleWorld) = Inl InvalidArgument \<and>
   c_create 64 None B_TREE 1 8 ''f'' (mw_c sampleWorld) = Inl InvalidArgument \<and>
   c_create 64 None B_TREE 4 8 ''f'' ((mw_c sampleWorld)\<lparr>w_fs := sampleFiles\<lparr>fs_writable := (\<lambda>f. False)\<rparr>\<rparr>) =
     Inr (None, (mw_c sampleWorld)\<lparr>w_fs := sampleFiles\<lparr>fs_writable := (\<lambda>f. False)\<rparr>\<rparr>)"
  using create_errors [of 0 8 64 B_TREE "''f''" "mw_c sampleWorld"] create_errors [of 1 8 64 B_TREE "''f''" "mw_c sampleWorld"]
    create_errors [of 4 8 64 B_TREE "''f''" "(mw_c sampleWorld)\<lparr>w_fs := sampleFiles\<lparr>fs_writable := (\<lambda>f. False)\<rparr>\<rparr>"]
  by (simp add: minOrder_def sampleWorld_def sampleFiles_def)

section \<open>Invariants and components\<close>

text \<open>
  C6.  An invariant of open trees under \<open>insert\<close>, \<open>search\<close> and \<open>searchAll\<close> of the C interface:
  from a well-formed tree of any kind with room for \<open>n\<close> keys, every sequence of these three calls with fewer than \<open>n\<close>
  insertions leads to a well-formed tree that holds exactly the old keys and the inserted ones, and
  each further one of the three returns.
\<close>

theorem reachable_trees_are_well_formed:
  assumes "(client_step sz w)\<^sup>*\<^sup>* (ct, M) (ct', M')" "indexed f sz n w ct M" "size M' < size M + n"
  shows "indexed f sz (n - (size M' - size M)) w ct' M' \<and>
    (\<forall>k. \<exists>r. c_search w ct' k = Inr r) \<and> (\<forall>k. \<exists>r. c_searchAll w ct' k = Inr r) \<and>
    (\<forall>k. length k = sz \<longrightarrow> (\<exists>ct''. c_insert w ct' k = Inr ct''))"
proof -
  have i: "indexed f sz (n - (size M' - size M)) w ct' M'" "size M \<le> size M'"
    using client_run_indexed [OF assms(1,2) less_imp_le [OF assms(3)]] by blast+
  obtain n' where n: "n - (size M' - size M) = Suc n'" using assms(3) i(2) by (cases "n - (size M' - size M)") auto
  show ?thesis
    using i(1) c_search_indexed [OF i(1)] c_searchAll_indexed [OF i(1)] c_insert_indexed [OF i(1) [unfolded n]]
    unfolding runs_def by blast
qed

theorem reachable_trees_are_well_formed_witness:
  "\<exists>ct w. c_create 64 None B_PLUS_TREE 750 12 ''f'' (mw_c sampleWorld) = Inr (Some ct, w) \<and> indexed 4 12 1000 w ct {#} \<and>
    (\<forall>k. \<exists>r. c_search w ct k = Inr r)"
proof -
  have "fs_writable (w_fs (mw_c sampleWorld)) ''f''" "fits B_PLUS_TREE 750 12 1000"
    using sample_fits by (simp_all add: sampleWorld_def sampleFiles_def TREE_ORDER_def)
  then obtain ct w where ct: "c_create 64 None B_PLUS_TREE 750 12 ''f'' (mw_c sampleWorld) = Inr (Some ct, w)"
    "w = (mw_c sampleWorld)\<lparr>w_fs := fs_put ''f'' [] (w_fs (mw_c sampleWorld))\<rparr>"
    "\<forall>w'. indexed (w_byteComparator w') 12 1000 w' ct {#}"
    using c_create_indexed [of B_PLUS_TREE 750 12 1000 64 "mw_c sampleWorld" "''f''"] by auto
  have "indexed 4 12 1000 w ct {#}" using ct(3) [rule_format, of w] by (simp add: ct(2) sampleWorld_def)
  from reachable_trees_are_well_formed [OF rtranclp.rtrancl_refl this] this ct(1) show ?thesis by auto
qed

text \<open>
  C23.  The comparator of the C interface is the lexicographic order: on keys that have the compared
  bytes, \<open>compare\<close> decides the order of the first \<open>min sz firstPartBytes\<close> bytes as unsigned numbers, and
  \<open>isEqual\<close> their equality.
\<close>

theorem byte_comparator_is_lexicographic:
  assumes "n = min sz f" "n \<le> length x" "n \<le> length y"
  shows "(ByteComparator_compare f x y sz \<longleftrightarrow> (take n x, take n y) \<in> lexord {(a, b). a < b}) \<and>
    (ByteComparator_isEqual f x y sz \<longleftrightarrow> take n x = take n y)"
  using compareBytes_lexord [of 0 n x y] equalBytes_take [of 0 n x y] assms
  by (simp add: ByteComparator_compare_def ByteComparator_isEqual_def)

theorem byte_comparator_is_lexicographic_witness:
  "ByteComparator_compare 2 [1, 2, 9] [1, 3, 0] 3 \<longleftrightarrow> ([1, 2], [1, 3]) \<in> lexord {(a, b :: byte). a < b}"
  using byte_comparator_is_lexicographic [of 2 3 2 "[1, 2, 9]" "[1, 3, 0]"] by simp

text \<open>
  C22.  A page given back is the next one allocated, with the free-page list as before, if the \<open>ULong\<close> of the
  platform has 32 bits or some page is free already (otherwise the page is lost):
  freeing a page that is not free and allocating one returns that page number, and no other page's content changes.
\<close>

theorem freed_page_is_reused:
  assumes ok: "storeOk t" "ps_ok (absStore t)" and n: "1 \<le> n" "n \<le> t_lastPageNum t" "n \<notin> set (ps_free (absStore t))"
    and u: "t_ulongBits t = 32 \<or> 0 < t_freePagesCounter t"
    and room: "areaOfs t + 8 + 4 * t_freePagesCounter t < 2 ^ 32" and pw: "pw_data pw \<noteq> []"
  shows "\<exists>t1 t2 d. markPageFree n t = Inr t1 \<and> allocPageUsingFreePages pw kn leaf t1 = Inr (n, d, t2) \<and> storeOk t2 \<and>
    absStore t2 = ps_write n (pw_data d) (absStore t)"
proof -
  obtain t1 where t1: "markPageFree n t = Inr t1" "storeOk t1" "absStore t1 = ps_push n (absStore t)"
    using markPageFree_ok [OF ok(1) n(1,2) u room] by blast
  have "ps_last (absStore t) = t_lastPageNum t" by (simp add: absStore_def)
  then have o: "ps_ok (absStore t1)" using ok(2) n by (simp add: t1(3) ps_ok_def ps_push_def ps_live_def)
  have "t_freePagesCounter t1 \<noteq> 0"
    using arg_cong [OF t1(3), of "\<lambda>\<sigma>. length (ps_free \<sigma>)"] by (simp add: ps_push_def absStore_def)
  then have "t_freePagesCounter t1 = 0 \<longrightarrow> pageOfs t1 (Suc (Suc (t_lastPageNum t1))) + 4 < 2 ^ 32" by simp
  from allocUsing_ok [OF t1(2) o pw this] obtain k t2 where t2: "allocPageUsingFreePages pw kn leaf t1 = Inr (k, blankPage t1 kn leaf pw, t2)"
    "ps_alloc (pw_data (blankPage t1 kn leaf pw)) (absStore t1) = (k, absStore t2)" "storeOk t2"
    by blast
  have "ps_alloc d (ps_push n (absStore t)) = (n, ps_write n d (absStore t))" for d
    by (simp add: ps_alloc_def ps_push_def)
  then show ?thesis using t1(1) t2 t1(3) by auto
qed

theorem freed_page_is_reused_witness:
  "\<exists>t t1 t2 d. createTree 4 8 (sampleTree B_TREE 32) = Inr t \<and> markPageFree 1 t = Inr t1 \<and>
    allocPageUsingFreePages (t_rootPage t) 0 True t1 = Inr (1, d, t2)"
proof -
  obtain t where t: "createTree 4 8 (sampleTree B_TREE 32) = Inr t" "storeOk t" "t_ulongBits t = 32"
    "absStore t = \<lparr>ps_last = 1, ps_root = 1, ps_free = [], ps_page = (\<lambda>n. []) (1 := emptyLeaf t)\<rparr>"
    "t_rootPage t = \<lparr>pw_data = emptyLeaf t, pw_pageNum = 1\<rparr>"
    using sample_created [of 4 32 B_TREE] by auto
  have c: "t_freePagesCounter t = 0" "t_lastPageNum t = 1" using t(4) by (simp_all add: absStore_def)
  have g: "geom t" by (rule storeOkD(1) [OF t(2)])
  have "emptyLeaf t \<noteq> []" using length_emptyLeaf [OF g] two_le_page [OF g, of "\<lparr>pw_data = emptyLeaf t, pw_pageNum = 1\<rparr>"] by auto
  moreover have "areaOfs t + 8 < 2 ^ 32" using geomD(6) [OF g] by (simp add: pageOfs_def c(2) layout)
  ultimately show ?thesis
    using freed_page_is_reused [of t 1 "t_rootPage t" 0 True] t c by (auto simp: ps_ok_def)
qed

end
